(* ===== verification/Prelude.thy ===== *)
theory Prelude
  imports Main "HOL-Library.Word" "HOL-Library.Sublist"
begin

section \<open>Shared vocabulary\<close>

text \<open>
  What every component theory uses: the model's names for C types, the allocator parameter,
  the index loop \<open>scan_while\<close> (the shape of every cursor loop of the sources) and generic
  facts on lists.

  \<^item> A C string is a \<open>string\<close> without its terminator; \<open>c_str\<close> cuts a byte buffer at its
    first NUL, which is what every string function of the C library sees of it.
  \<^item> \<open>size_t\<close> and non-negative \<open>int\<close> counters are \<open>nat\<close>; \<open>uint32_t\<close> and \<open>uint64_t\<close> keep
    their width.
  \<^item> \<open>malloc\<close>, \<open>calloc\<close> and \<open>realloc\<close> are the parameter \<open>allocator\<close>, which says which
    request sizes are granted; a refused request takes the source's failure branch.
\<close>

type_synonym allocator = "nat \<Rightarrow> bool"
type_synonym u8 = "8 word"
type_synonym u32 = "32 word"
type_synonym u64 = "64 word"

abbreviation (input) never_fails :: "allocator \<Rightarrow> bool" where
  "never_fails alloc \<equiv> (\<forall>n. alloc n)"

abbreviation (input) granting :: allocator where
  "granting \<equiv> (\<lambda>_. True)"

abbreviation NUL :: char where
  "NUL \<equiv> CHR 0x00"

definition c_str :: "char list \<Rightarrow> string" where
  "c_str buf = takeWhile (\<lambda>c. c \<noteq> NUL) buf"

named_theorems loop_simps \<open>closed forms of cursor loops\<close>

lemma c_str_no_nul: "NUL \<notin> set s \<Longrightarrow> c_str s = s"
  unfolding c_str_def takeWhile_eq_all_conv by blast

lemma nul_notin_c_str [simp]: "NUL \<notin> set (c_str s)"
proof
  assume "NUL \<in> set (c_str s)"
  then have "NUL \<noteq> NUL"
    unfolding c_str_def by (rule set_takeWhileD [THEN conjunct2])
  then show False by simp
qed

subsection \<open>Cursor loops\<close>

text \<open>\<open>while (i < len && p(xs[i])) i++;\<close>\<close>

function scan_while :: "('a \<Rightarrow> bool) \<Rightarrow> 'a list \<Rightarrow> nat \<Rightarrow> nat" where
  "scan_while p xs i = (if i < length xs \<and> p (xs ! i) then scan_while p xs (Suc i) else i)"
  by pat_completeness auto
termination
  by (relation "measure (\<lambda>(p, xs, i). length xs - i)") auto

declare scan_while.simps [simp del]

lemma scan_while_closed [loop_simps]:
  "scan_while p xs i = i + length (takeWhile p (drop i xs))"
proof (induction p xs i rule: scan_while.induct)
  case (1 p xs i)
  show ?case
  proof (cases "i < length xs")
    case True
    then have "drop i xs = xs ! i # drop (Suc i) xs"
      by (rule Cons_nth_drop_Suc [symmetric])
    with True 1 show ?thesis
      by (simp add: scan_while.simps [of p xs i])
  next
    case False
    then show ?thesis by (simp add: scan_while.simps [of p xs i])
  qed
qed

lemma scan_while_ge [simp]: "i \<le> scan_while p xs i"
  by (simp add: scan_while_closed)

lemma scan_while_le: "i \<le> length xs \<Longrightarrow> scan_while p xs i \<le> length xs"
  using length_takeWhile_le [of p "drop i xs"] by (simp add: scan_while_closed)

lemma scan_while_all: "i \<le> j \<Longrightarrow> j < scan_while p xs i \<Longrightarrow> p (xs ! j)"
proof -
  assume ij: "i \<le> j" and j: "j < scan_while p xs i"
  let ?k = "j - i"
  from ij j have k: "?k < length (takeWhile p (drop i xs))"
    by (simp add: scan_while_closed)
  then have "p (takeWhile p (drop i xs) ! ?k)"
    by (meson nth_mem set_takeWhileD)
  moreover have "takeWhile p (drop i xs) ! ?k = drop i xs ! ?k"
    using k by (rule takeWhile_nth)
  moreover have "drop i xs ! ?k = xs ! j"
    using ij k length_takeWhile_le [of p "drop i xs"] by simp
  ultimately show ?thesis by simp
qed

lemma scan_while_stop: "scan_while p xs i < length xs \<Longrightarrow> \<not> p (xs ! scan_while p xs i)"
proof -
  assume lt: "scan_while p xs i < length xs"
  let ?t = "length (takeWhile p (drop i xs))"
  from lt have "?t < length (drop i xs)"
    by (simp add: scan_while_closed)
  then have "\<not> p (drop i xs ! ?t)"
    by (rule nth_length_takeWhile)
  with lt show ?thesis
    by (simp add: scan_while_closed)
qed

lemma scan_while_progress: "i < length xs \<Longrightarrow> p (xs ! i) \<Longrightarrow> i < scan_while p xs i"
  by (subst scan_while.simps) (simp add: Suc_le_lessD)

subsection \<open>Bisection\<close>

text \<open>
  \<open>while (left < right) { mid = left + (right - left) / 2; if (p(xs[mid])) left = mid + 1;
  else right = mid; }\<close>
\<close>

function bisect :: "('a \<Rightarrow> bool) \<Rightarrow> 'a list \<Rightarrow> nat \<Rightarrow> nat \<Rightarrow> nat" where
  "bisect p xs left right =
     (if left < right then
        let mid = left + (right - left) div 2
        in if p (xs ! mid) then bisect p xs (mid + 1) right else bisect p xs left mid
      else left)"
  by pat_completeness auto
termination
  by (relation "measure (\<lambda>(p, xs, left, right). right - left)") auto

declare bisect.simps [simp del]

text \<open>Where \<open>p\<close> holds on a prefix of the array, bisection finds the length of that prefix.\<close>

lemma bisect_split:
  assumes "left \<le> right" "right \<le> length xs"
    and "\<And>i. i < left \<Longrightarrow> p (xs ! i)"
    and "\<And>i. right \<le> i \<Longrightarrow> i < length xs \<Longrightarrow> \<not> p (xs ! i)"
    and prefix: "\<And>i j. i \<le> j \<Longrightarrow> j < length xs \<Longrightarrow> p (xs ! j) \<Longrightarrow> p (xs ! i)"
  shows "bisect p xs left right \<le> length xs \<and> (\<forall>i < bisect p xs left right. p (xs ! i)) \<and>
    (\<forall>i. bisect p xs left right \<le> i \<and> i < length xs \<longrightarrow> \<not> p (xs ! i))"
  using assms
proof (induction p xs left right rule: bisect.induct)
  case (1 p xs left right)
  define mid where "mid = left + (right - left) div 2"
  show ?case
  proof (cases "left < right")
    case False
    then have "bisect p xs left right = left"
      by (simp add: bisect.simps [of p xs left right])
    with False 1(3-6) show ?thesis by auto
  next
    case less: True
    then have mid: "left \<le> mid" "mid < right"
      by (auto simp: mid_def)
    show ?thesis
    proof (cases "p (xs ! mid)")
      case True
      have unf: "bisect p xs left right = bisect p xs (mid + 1) right"
        using less True by (simp add: bisect.simps [of p xs left right] mid_def [symmetric])
      have low: "p (xs ! i)" if "i < mid + 1" for i
        using that True mid 1(4) 1(7) [of i mid] by simp
      show ?thesis unfolding unf
        by (rule 1(1) [OF less mid_def True]) (use mid low 1(4,6,7) in auto)
    next
      case False
      have unf: "bisect p xs left right = bisect p xs left mid"
        using less False by (simp add: bisect.simps [of p xs left right] mid_def [symmetric])
      have high: "\<not> p (xs ! i)" if "mid \<le> i" "i < length xs" for i
        using that False 1(7) [of mid i] by blast
      show ?thesis unfolding unf
        by (rule 1(2) [OF less mid_def False]) (use mid high 1(4,5,7) in auto)
    qed
  qed
qed

lemma bisect_takeWhile:
  assumes "\<And>i j. i \<le> j \<Longrightarrow> j < length xs \<Longrightarrow> p (xs ! j) \<Longrightarrow> p (xs ! i)"
  shows "bisect p xs 0 (length xs) = length (takeWhile p xs)"
proof -
  let ?r = "bisect p xs 0 (length xs)"
  have r: "?r \<le> length xs" "\<forall>i < ?r. p (xs ! i)" "\<forall>i. ?r \<le> i \<and> i < length xs \<longrightarrow> \<not> p (xs ! i)"
    using bisect_split [of 0 "length xs" xs p] assms by auto
  have "takeWhile p xs = take ?r xs"
    by (rule takeWhile_eq_take_P_nth) (use r in auto)
  with r(1) show ?thesis by simp
qed

lemma bisect_sorted:
  assumes "sorted_wrt r xs" and "\<And>x y. r x y \<Longrightarrow> p y \<Longrightarrow> p x"
  shows "bisect p xs 0 (length xs) = length (takeWhile p xs)"
proof (rule bisect_takeWhile)
  fix i j
  assume "i \<le> j" "j < length xs" "p (xs ! j)"
  then show "p (xs ! i)"
    using sorted_wrt_nth_less [OF assms(1), of i j] assms(2) by (cases "i = j") auto
qed

subsection \<open>Fallible computations\<close>

text \<open>
  A fallible C function is a value of \<open>'e + 'a\<close>, \<open>Inl\<close> the error. \<open>sum_bind\<close> is the early return
  of an error, \<open>fold_res\<close> a loop over a list whose body may return early, and \<open>yields E P r\<close>
  says that \<open>r\<close> is a value that satisfies \<open>P\<close> or one of the errors \<open>E\<close>.
\<close>

primrec sum_bind :: "'e + 'a \<Rightarrow> ('a \<Rightarrow> 'e + 'b) \<Rightarrow> 'e + 'b" where
  "sum_bind (Inl e) f = Inl e"
| "sum_bind (Inr x) f = f x"

primrec fold_res :: "('x \<Rightarrow> 's \<Rightarrow> 'e + 's) \<Rightarrow> 'x list \<Rightarrow> 's \<Rightarrow> 'e + 's" where
  "fold_res f [] s = Inr s"
| "fold_res f (x # xs) s = (case f x s of Inl e \<Rightarrow> Inl e | Inr s' \<Rightarrow> fold_res f xs s')"

primrec yields :: "'e set \<Rightarrow> ('a \<Rightarrow> bool) \<Rightarrow> 'e + 'a \<Rightarrow> bool" where
  "yields E P (Inl e) = (e \<in> E)"
| "yields E P (Inr x) = P x"

lemma yields_bind:
  "yields E Q m \<Longrightarrow> (\<And>x. Q x \<Longrightarrow> yields E P (f x)) \<Longrightarrow> yields E P (sum_bind m f)"
  by (cases m) auto

lemma yields_mono: "yields E Q m \<Longrightarrow> (\<And>x. Q x \<Longrightarrow> P x) \<Longrightarrow> yields E P m"
  by (cases m) auto

lemma yields_mono_err: "yields E P m \<Longrightarrow> E \<subseteq> F \<Longrightarrow> yields F P m"
  by (cases m) auto

lemma yields_conj: "yields E P m \<Longrightarrow> yields F Q m \<Longrightarrow> yields E (\<lambda>x. P x \<and> Q x) m"
  by (cases m) auto

lemma yields_value: "yields {} P m \<longleftrightarrow> (\<exists>x. m = Inr x \<and> P x)"
  by (cases m) auto

lemma yields_InrD: "yields E P m \<Longrightarrow> m = Inr x \<Longrightarrow> P x"
  by simp

lemma yields_InlD: "yields E P m \<Longrightarrow> m = Inl e \<Longrightarrow> e \<in> E"
  by simp

lemma yields_fold:
  assumes "\<And>x s. x \<in> set xs \<Longrightarrow> I s \<Longrightarrow> yields E I (f x s)" and "I s"
  shows "yields E I (fold_res f xs s)"
  using assms
proof (induction xs arbitrary: s)
  case (Cons x xs)
  have "yields E I (f x s)" using Cons.prems by simp
  with Cons show ?case by (cases "f x s") auto
qed simp

lemma fold_res_append:
  "fold_res f (xs @ ys) s = sum_bind (fold_res f xs s) (fold_res f ys)"
  by (induction xs arbitrary: s) (auto split: sum.split)

text \<open>A checked array access: \<open>e\<close> stands for an access outside the array.\<close>

definition fetch :: "'e \<Rightarrow> 'a list \<Rightarrow> nat \<Rightarrow> 'e + 'a" where
  "fetch e xs i = (if i < length xs then Inr (xs ! i) else Inl e)"

lemma fetch_in [simp]: "i < length xs \<Longrightarrow> fetch e xs i = Inr (xs ! i)"
  by (simp add: fetch_def)

lemma fetch_Inr_iff: "fetch e xs i = Inr x \<longleftrightarrow> i < length xs \<and> x = xs ! i"
  by (auto simp: fetch_def)

subsection \<open>C integers and their text\<close>

text \<open>\<open>(int)x\<close>, as two's complement machines convert, and \<open>(size_t)x\<close>.\<close>

definition to_int :: "int \<Rightarrow> int" where
  "to_int x = (x + 2 ^ 31) mod 2 ^ 32 - 2 ^ 31"

definition to_size :: "int \<Rightarrow> nat" where
  "to_size x = nat (x mod 2 ^ 64)"

lemma to_int_id: "- (2 ^ 31) \<le> x \<Longrightarrow> x < 2 ^ 31 \<Longrightarrow> to_int x = x"
  by (simp add: to_int_def)

lemma to_int_range: "- (2 ^ 31) \<le> to_int x \<and> to_int x < 2 ^ 31"
  using pos_mod_bound [of "2 ^ 32" "x + 2 ^ 31"] pos_mod_sign [of "2 ^ 32" "x + 2 ^ 31"]
  by (simp add: to_int_def)

lemma to_size_id: "0 \<le> x \<Longrightarrow> x < 2 ^ 64 \<Longrightarrow> to_size x = nat x"
  by (simp add: to_size_def)

text \<open>\<open>isspace\<close>, \<open>isdigit\<close> and \<open>strtol\<close> (base 10) in the C locale: the value, clamped to
  \<open>long\<close>, and the number of characters consumed (0 when there is no digit). \<open>atoi\<close> converts the
  clamped value to \<open>int\<close>, as the common C libraries do.\<close>

definition is_space :: "char \<Rightarrow> bool" where
  "is_space c \<longleftrightarrow> of_char c \<in> {9, 10, 11, 12, 13, 32 :: nat}"

definition is_digit :: "char \<Rightarrow> bool" where
  "is_digit c \<longleftrightarrow> 48 \<le> (of_char c :: nat) \<and> (of_char c :: nat) \<le> 57"

definition digit_val :: "char \<Rightarrow> nat" where
  "digit_val c = of_char c - 48"

definition decimal :: "string \<Rightarrow> nat" where
  "decimal ds = foldl (\<lambda>acc c. 10 * acc + digit_val c) 0 ds"

definition strtol10 :: "string \<Rightarrow> int \<times> nat" where
  "strtol10 s =
     (let ws = takeWhile is_space s;
          t = drop (length ws) s;
          sgn_len = (case t of c # _ \<Rightarrow> if c = CHR ''-'' \<or> c = CHR ''+'' then 1 else 0 | [] \<Rightarrow> 0);
          neg = (sgn_len = 1 \<and> hd t = CHR ''-'');
          ds = takeWhile is_digit (drop sgn_len t);
          v = (if neg then - int (decimal ds) else int (decimal ds))
      in if ds = [] then (0, 0)
         else (max (- (2 ^ 63)) (min (2 ^ 63 - 1) v), length ws + sgn_len + length ds))"

definition atoi :: "string \<Rightarrow> int" where
  "atoi s = to_int (fst (strtol10 s))"

end
