(* ===== verification/Floats.thy ===== *)
theory Floats
  imports Complex_Main Prelude
begin

section \<open>Floating-point values and their text\<close>

text \<open>
  What the schema compiler and the parser use of floating point: values with infinities and NaN,
  the meaning of a stored \<open>float\<close> (IEEE 754 binary32, decoded from its 32 bits), comparisons as C
  makes them (false when an operand is NaN) and \<open>strtod\<close> of the C locale. Rounding a number to a
  \<open>double\<close>, a \<open>double\<close> to a \<open>float\<close> and a \<open>double\<close> to an \<open>int\<close> are the machine's: they are the fields
  of \<open>fp_env\<close>, with what the development relies on as named hypotheses where it does.
\<close>

datatype dbl = Fin real | Inf bool | NaN

definition fl_lt :: "dbl \<Rightarrow> dbl \<Rightarrow> bool" where
  "fl_lt a b =
     (case (a, b) of
        (NaN, _) \<Rightarrow> False
      | (_, NaN) \<Rightarrow> False
      | (Fin x, Fin y) \<Rightarrow> x < y
      | (Inf s, Inf t) \<Rightarrow> s \<and> \<not> t
      | (Inf s, Fin _) \<Rightarrow> s
      | (Fin _, Inf t) \<Rightarrow> \<not> t)"

text \<open>The value of a \<open>float\<close> in memory.\<close>

definition f32_val :: "u32 \<Rightarrow> dbl" where
  "f32_val w =
     (let neg = bit w 31;
          e = unat (take_bit 8 (drop_bit 23 w));
          m = unat (take_bit 23 w);
          mag = (if e = 0 then real m / 2 ^ 149 else real (2 ^ 23 + m) * 2 ^ e / 2 ^ 150)
      in if e = 255 then (if m = 0 then Inf neg else NaN)
         else Fin (if neg then - mag else mag))"

definition f32_real :: "u32 \<Rightarrow> real" where
  "f32_real w = (case f32_val w of Fin x \<Rightarrow> x | _ \<Rightarrow> 0)"

record fp_env =
  fp_double :: "real \<Rightarrow> dbl"
  fp_float :: "dbl \<Rightarrow> u32"
  fp_int :: "dbl \<Rightarrow> int"

subsection \<open>strtod\<close>

definition lower :: "char \<Rightarrow> char" where
  "lower c = (if 65 \<le> (of_char c :: nat) \<and> (of_char c :: nat) \<le> 90 then char_of ((of_char c :: nat) + 32) else c)"

definition starts_ci :: "string \<Rightarrow> string \<Rightarrow> bool" where
  "starts_ci lit s \<longleftrightarrow> map lower (take (length lit) s) = lit"

definition hex_val :: "char \<Rightarrow> nat option" where
  "hex_val c =
     (let n = of_char (lower c) :: nat
      in if 48 \<le> n \<and> n \<le> 57 then Some (n - 48) else if 97 \<le> n \<and> n \<le> 102 then Some (n - 87) else None)"

definition is_hex :: "char \<Rightarrow> bool" where
  "is_hex c \<longleftrightarrow> hex_val c \<noteq> None"

definition hexadecimal :: "string \<Rightarrow> nat" where
  "hexadecimal ds = foldl (\<lambda>acc c. 16 * acc + the (hex_val c)) 0 ds"

text \<open>An optional exponent \<open>mark[+-]digits\<close>: its value and its length, 0 when there is none.\<close>

definition exponent :: "char \<Rightarrow> string \<Rightarrow> int \<times> nat" where
  "exponent mark s =
     (case s of
        [] \<Rightarrow> (0, 0)
      | c # s1 \<Rightarrow>
          if lower c \<noteq> mark then (0, 0)
          else let sl = (case s1 of d # _ \<Rightarrow> if d = CHR ''+'' \<or> d = CHR ''-'' then 1 else 0 | [] \<Rightarrow> 0);
                   neg = (sl = 1 \<and> hd s1 = CHR ''-'');
                   ds = takeWhile is_digit (drop sl s1)
               in if ds = [] then (0, 0)
                  else ((if neg then - int (decimal ds) else int (decimal ds)), 1 + sl + length ds))"

text \<open>\<open>digits[.digits]\<close> for a digit class: integer part, fraction, length; length 0 when there is
  no digit at all.\<close>

definition point_digits :: "(char \<Rightarrow> bool) \<Rightarrow> string \<Rightarrow> string \<times> string \<times> nat" where
  "point_digits p s =
     (let ip = takeWhile p s;
          r = drop (length ip) s;
          fp = (case r of c # r1 \<Rightarrow> if c = CHR ''.'' then takeWhile p r1 else [] | [] \<Rightarrow> []);
          dot = (case r of c # _ \<Rightarrow> if c = CHR ''.'' \<and> (ip \<noteq> [] \<or> fp \<noteq> []) then 1 else 0 | [] \<Rightarrow> 0)
      in if ip = [] \<and> fp = [] then ([], [], 0) else (ip, fp, length ip + dot + length fp))"

definition strtod_body :: "(real \<Rightarrow> dbl) \<Rightarrow> bool \<Rightarrow> string \<Rightarrow> dbl \<times> nat" where
  "strtod_body to_dbl neg u =
     (let sg = (\<lambda>x :: real. if neg then - x else x);
          (hi, hf, hl) = (if starts_ci ''0x'' u then point_digits is_hex (drop 2 u) else ([], [], 0));
          (di, df, dl) = point_digits is_digit u
      in if starts_ci ''infinity'' u then (Inf neg, 8)
         else if starts_ci ''inf'' u then (Inf neg, 3)
         else if starts_ci ''nan'' u then
           (let w = takeWhile (\<lambda>c. is_hex c \<or> (97 \<le> (of_char (lower c) :: nat) \<and> (of_char (lower c) :: nat) \<le> 122) \<or> c = CHR ''_'')
                      (drop 4 u)
            in (NaN, if take 1 (drop 3 u) = ''('' \<and> take 1 (drop (4 + length w) u) = '')'' then 5 + length w else 3))
         else if hl > 0 then
           (let (e, el) = exponent (CHR ''p'') (drop (2 + hl) u)
            in (to_dbl (sg (real (hexadecimal (hi @ hf)) * 2 powr (real_of_int e - 4 * real (length hf)))), 2 + hl + el))
         else if dl > 0 then
           (let (e, el) = exponent (CHR ''e'') (drop dl u)
            in (to_dbl (sg (real (decimal (di @ df)) * 10 powr (real_of_int e - real (length df)))), dl + el))
         else (NaN, 0))"

text \<open>The value and the number of characters consumed, 0 when there is no number.\<close>

definition strtod :: "(real \<Rightarrow> dbl) \<Rightarrow> string \<Rightarrow> dbl \<times> nat" where
  "strtod to_dbl s =
     (let k = length (takeWhile is_space s);
          t = drop k s;
          sl = (case t of c # _ \<Rightarrow> if c = CHR ''+'' \<or> c = CHR ''-'' then 1 else 0 | [] \<Rightarrow> 0);
          neg = (sl = 1 \<and> hd t = CHR ''-'');
          (v, n) = strtod_body to_dbl neg (drop sl t)
      in if n = 0 then (Fin 0, 0) else (v, k + sl + n))"

subsection \<open>strtod stays inside its string\<close>

lemma starts_ci_length: "starts_ci lit s \<Longrightarrow> length lit \<le> length s"
  unfolding starts_ci_def by (metis length_map length_take min.cobounded1 min_def)

lemma point_digits_length: "point_digits p s = (i, f, n) \<Longrightarrow> n \<le> length s"
proof -
  assume d: "point_digits p s = (i, f, n)"
  let ?i = "takeWhile p s" and ?r = "drop (length (takeWhile p s)) s"
  have i: "length ?i + length ?r = length s" using length_takeWhile_le [of p s] by simp
  show ?thesis
  proof (cases ?r)
    case Nil
    with d i show ?thesis by (auto simp: point_digits_def Let_def split: if_splits)
  next
    case (Cons c r1)
    have "length (takeWhile p r1) \<le> length r1" by (rule length_takeWhile_le)
    with Cons d i show ?thesis by (auto simp: point_digits_def Let_def split: if_splits)
  qed
qed

lemma exponent_length: "exponent m s = (e, n) \<Longrightarrow> n \<le> length s"
proof (cases s)
  case (Cons c s1)
  assume e: "exponent m s = (e, n)"
  let ?sl = "case s1 of d # _ \<Rightarrow> if d = CHR ''+'' \<or> d = CHR ''-'' then 1 else 0 | [] \<Rightarrow> (0 :: nat)"
  have "?sl \<le> length s1" by (cases s1) auto
  moreover have "length (takeWhile is_digit (drop ?sl s1)) \<le> length (drop ?sl s1)" by (rule length_takeWhile_le)
  ultimately have "1 + ?sl + length (takeWhile is_digit (drop ?sl s1)) \<le> length s" using Cons by simp
  with e Cons show ?thesis by (auto simp: exponent_def Let_def split: if_splits)
qed (simp add: exponent_def)

lemma strtod_body_length: "strtod_body f neg u = (v, n) \<Longrightarrow> n \<le> length u"
proof -
  assume b: "strtod_body f neg u = (v, n)"
  obtain hi hf hl where h: "(if starts_ci ''0x'' u then point_digits is_hex (drop 2 u) else ([], [], 0)) = (hi, hf, hl)"
    by (metis prod_cases3)
  obtain di df dl where d: "point_digits is_digit u = (di, df, dl)" by (metis prod_cases3)
  obtain e el where e: "exponent (CHR ''p'') (drop (2 + hl) u) = (e, el)" by fastforce
  obtain e' el' where e': "exponent (CHR ''e'') (drop dl u) = (e', el')" by fastforce
  have dl: "dl \<le> length u" "dl + el' \<le> length u"
    using point_digits_length [OF d] exponent_length [OF e'] by auto
  have hl: "hl > 0 \<Longrightarrow> 2 + hl + el \<le> length u"
  proof -
    assume "hl > 0"
    with h have "starts_ci ''0x'' u" "point_digits is_hex (drop 2 u) = (hi, hf, hl)" by (auto split: if_splits)
    then have "hl \<le> length (drop 2 u)" "2 \<le> length u"
      using point_digits_length starts_ci_length [of "''0x''" u] by (blast, simp)
    with exponent_length [OF e] show ?thesis by simp
  qed
  have paren: "take 1 (drop (4 + k) u) = '')'' \<Longrightarrow> 5 + k \<le> length u" for k
    by (cases "drop (4 + k) u") (auto simp: Suc_le_eq dest: arg_cong [of _ _ length])
  have lits: "starts_ci ''infinity'' u \<Longrightarrow> 8 \<le> length u" "starts_ci ''inf'' u \<Longrightarrow> 3 \<le> length u"
      "starts_ci ''nan'' u \<Longrightarrow> 3 \<le> length u"
    using starts_ci_length [of "''infinity''" u] starts_ci_length [of "''inf''" u] starts_ci_length [of "''nan''" u]
    by auto
  from b show ?thesis
    unfolding strtod_body_def h d Let_def prod.case e e'
    using dl hl paren lits by (auto split: if_splits)
qed

lemma strtod_length: "strtod f s = (v, n) \<Longrightarrow> n \<le> length s"
proof -
  assume st: "strtod f s = (v, n)"
  let ?k = "length (takeWhile is_space s)"
  let ?t = "drop ?k s"
  let ?sl = "case ?t of c # _ \<Rightarrow> if c = CHR ''+'' \<or> c = CHR ''-'' then 1 else 0 | [] \<Rightarrow> (0 :: nat)"
  obtain v' n' where b: "strtod_body f (?sl = 1 \<and> hd ?t = CHR ''-'') (drop ?sl ?t) = (v', n')" by fastforce
  have "?k \<le> length s" by (rule length_takeWhile_le)
  moreover have "?sl \<le> length ?t" by (cases ?t) auto
  moreover have "n' \<le> length (drop ?sl ?t)" by (rule strtod_body_length [OF b])
  ultimately have "?k + ?sl + n' \<le> length s" by simp
  moreover have "n = 0 \<or> n = ?k + ?sl + n'"
    using st unfolding strtod_def Let_def b prod.case by (auto split: if_splits)
  ultimately show ?thesis by auto
qed

end
