(* ===== verification/Json.thy ===== *)
theory Json
  imports Floats
begin

section \<open>The JSON tokenizer (src/libipa.c: kc\_ipa\_json\_*)\<close>

text \<open>
  The tokenizer reads a text \<open>src\<close> at a position; \<open>len\<close> is the length of the text, which the
  source terminates with a NUL it never counts. A function returns the new position (and what it
  read) or an error: \<open>JMsg\<close> with the message and the position that \<open>errbuf\<close> gets, \<open>JSilent\<close> for a
  failure that leaves \<open>errbuf\<close> alone (a refused allocation, a text that ends in a backslash).

  \<open>kc_ipa_json_skip_value\<close> and the functions it calls are mutually recursive. Here the functions for
  objects and arrays take the skipping of their parts as an argument, and \<open>kc_ipa_json_skip_value\<close>
  is a recursion over a bound on the nesting (and on the length of each loop) that answers \<open>JFuel\<close>
  when it is exhausted. \<open>json_fuel\<close>, one more than the length of the text, is always enough.
\<close>

datatype json_error = JMsg string nat | JSilent | JFuel

record kc_ipa_json_t =
  js_src :: string
  js_pos :: nat
  js_errbuf :: string

subsection \<open>Error text\<close>

fun nat_text :: "nat \<Rightarrow> string" where
  "nat_text n = (if n < 10 then [char_of (48 + n)] else nat_text (n div 10) @ [char_of (48 + n mod 10)])"

declare nat_text.simps [simp del]

definition kc_ipa_json_set_error :: "kc_ipa_json_t \<Rightarrow> json_error \<Rightarrow> kc_ipa_json_t" where
  "kc_ipa_json_set_error j e =
     (case e of
        JMsg msg pos \<Rightarrow> j\<lparr>js_errbuf := take 255 (msg @ '' (pos '' @ nat_text pos @ '')'')\<rparr>
      | _ \<Rightarrow> j)"

subsection \<open>Tokens\<close>

definition peek :: "string \<Rightarrow> nat \<Rightarrow> char \<Rightarrow> bool" where
  "peek src pos c \<longleftrightarrow> pos < length src \<and> src ! pos = c"

definition kc_ipa_json_skip_ws :: "string \<Rightarrow> nat \<Rightarrow> nat" where
  "kc_ipa_json_skip_ws src pos = scan_while is_space src pos"

definition kc_ipa_json_expect :: "string \<Rightarrow> nat \<Rightarrow> char \<Rightarrow> json_error + nat" where
  "kc_ipa_json_expect src pos c =
     (let p = kc_ipa_json_skip_ws src pos
      in if p \<ge> length src \<or> src ! p \<noteq> c then Inl (JMsg (''expected '' @ [CHR 0x27] @ [c] @ [CHR 0x27]) p)
         else Inr (p + 1))"

definition unescape :: "char \<Rightarrow> char" where
  "unescape e =
     (if e = CHR 0x22 then CHR 0x22 else if e = CHR 0x5C then CHR 0x5C else if e = CHR ''/'' then CHR ''/''
      else if e = CHR ''n'' then CHR 0x0A else if e = CHR ''r'' then CHR 0x0D
      else if e = CHR ''t'' then CHR 0x09 else e)"

text \<open>The loop of \<open>kc_ipa_json_parse_string\<close>: the characters so far and the capacity of the buffer.\<close>

function string_loop :: "allocator \<Rightarrow> string \<Rightarrow> nat \<Rightarrow> string \<Rightarrow> nat \<Rightarrow> json_error + string \<times> nat" where
  "string_loop alloc src pos buf cap =
     (if pos < length src \<and> src ! pos \<noteq> CHR 0x22 then
        if src ! pos = CHR 0x5C \<and> pos + 1 \<ge> length src then Inl JSilent
        else
          let (c, pos') = (if src ! pos = CHR 0x5C then (unescape (src ! (pos + 1)), pos + 2)
                           else (src ! pos, pos + 1));
              grow = length buf + 2 \<ge> cap;
              cap' = (if grow then cap * 2 else cap)
          in if grow \<and> \<not> alloc cap' then Inl JSilent
             else string_loop alloc src pos' (buf @ [c]) cap'
      else if pos \<ge> length src then Inl (JMsg ''unterminated string'' pos)
      else Inr (c_str buf, pos + 1))"
  by pat_completeness auto
termination
  by (relation "measure (\<lambda>(alloc, src, pos, buf, cap). length src - pos)") (auto split: if_splits)

declare string_loop.simps [simp del]

definition kc_ipa_json_parse_string :: "allocator \<Rightarrow> string \<Rightarrow> nat \<Rightarrow> json_error + string \<times> nat" where
  "kc_ipa_json_parse_string alloc src pos =
     (let p = kc_ipa_json_skip_ws src pos
      in if p \<ge> length src \<or> src ! p \<noteq> CHR 0x22 then Inl (JMsg ''expected string'' p)
         else if \<not> alloc 256 then Inl JSilent
         else string_loop alloc src (p + 1) [] 256)"

text \<open>\<open>strtod\<close> sees the text up to its first NUL.\<close>

definition kc_ipa_json_parse_double :: "fp_env \<Rightarrow> string \<Rightarrow> nat \<Rightarrow> json_error + dbl \<times> nat" where
  "kc_ipa_json_parse_double fp src pos =
     (let p = kc_ipa_json_skip_ws src pos;
          (v, n) = strtod (fp_double fp) (c_str (drop p src))
      in if n = 0 then Inl (JMsg ''expected number'' p) else Inr (v, p + n))"

definition skip_literal :: "string \<Rightarrow> nat \<Rightarrow> string \<Rightarrow> json_error + nat" where
  "skip_literal src p lit =
     (if p + length lit \<le> length src \<and> take (length lit) (drop p src) = lit then Inr (p + length lit)
      else Inl (JMsg ''invalid token'' p))"

text \<open>The loops of the object and of the array, over the function that skips a value.\<close>

primrec skip_members ::
    "nat \<Rightarrow> (nat \<Rightarrow> json_error + nat) \<Rightarrow> allocator \<Rightarrow> string \<Rightarrow> nat \<Rightarrow> json_error + nat" where
  "skip_members 0 skip_value alloc src pos = Inl JFuel"
| "skip_members (Suc n) skip_value alloc src pos =
     sum_bind (kc_ipa_json_parse_string alloc src pos) (\<lambda>(_, p).
     sum_bind (kc_ipa_json_expect src p (CHR '':'')) (\<lambda>p1.
     sum_bind (skip_value p1) (\<lambda>p2.
       let q = kc_ipa_json_skip_ws src p2
       in if peek src q (CHR '','') then skip_members n skip_value alloc src (q + 1)
          else kc_ipa_json_expect src q (CHR ''}''))))"

definition kc_ipa_json_skip_object ::
    "nat \<Rightarrow> (nat \<Rightarrow> json_error + nat) \<Rightarrow> allocator \<Rightarrow> string \<Rightarrow> nat \<Rightarrow> json_error + nat" where
  "kc_ipa_json_skip_object n skip_value alloc src pos =
     sum_bind (kc_ipa_json_expect src pos (CHR ''{'')) (\<lambda>p.
       let q = kc_ipa_json_skip_ws src p
       in if peek src q (CHR ''}'') then Inr (q + 1) else skip_members n skip_value alloc src q)"

primrec skip_elements ::
    "nat \<Rightarrow> (nat \<Rightarrow> json_error + nat) \<Rightarrow> string \<Rightarrow> nat \<Rightarrow> json_error + nat" where
  "skip_elements 0 skip_value src pos = Inl JFuel"
| "skip_elements (Suc n) skip_value src pos =
     sum_bind (skip_value pos) (\<lambda>p2.
       let q = kc_ipa_json_skip_ws src p2
       in if peek src q (CHR '','') then skip_elements n skip_value src (q + 1)
          else kc_ipa_json_expect src q (CHR '']''))"

definition kc_ipa_json_skip_array ::
    "nat \<Rightarrow> (nat \<Rightarrow> json_error + nat) \<Rightarrow> string \<Rightarrow> nat \<Rightarrow> json_error + nat" where
  "kc_ipa_json_skip_array n skip_value src pos =
     sum_bind (kc_ipa_json_expect src pos (CHR ''['')) (\<lambda>p.
       let q = kc_ipa_json_skip_ws src p
       in if peek src q (CHR '']'') then Inr (q + 1) else skip_elements n skip_value src q)"

primrec kc_ipa_json_skip_value :: "nat \<Rightarrow> allocator \<Rightarrow> fp_env \<Rightarrow> string \<Rightarrow> nat \<Rightarrow> json_error + nat" where
  "kc_ipa_json_skip_value 0 alloc fp src pos = Inl JFuel"
| "kc_ipa_json_skip_value (Suc n) alloc fp src pos =
     (let p = kc_ipa_json_skip_ws src pos
      in if p \<ge> length src then Inl (JMsg ''unexpected end of input'' p)
         else if src ! p = CHR 0x22 then sum_bind (kc_ipa_json_parse_string alloc src p) (\<lambda>(_, q). Inr q)
         else if src ! p = CHR ''{''
         then kc_ipa_json_skip_object n (kc_ipa_json_skip_value n alloc fp src) alloc src p
         else if src ! p = CHR ''['' then kc_ipa_json_skip_array n (kc_ipa_json_skip_value n alloc fp src) src p
         else if src ! p = CHR ''t'' then skip_literal src p ''true''
         else if src ! p = CHR ''f'' then skip_literal src p ''false''
         else if src ! p = CHR ''n'' then skip_literal src p ''null''
         else let (_, k) = strtod (fp_double fp) (c_str (drop p src))
              in if k = 0 then Inl (JMsg ''invalid value'' p) else Inr (p + k))"

declare kc_ipa_json_skip_value.simps(2) [simp del]

text \<open>A bound on the nesting and on the length of every loop that is always enough.\<close>

definition json_fuel :: "string \<Rightarrow> nat" where
  "json_fuel src = length src + 1"

subsection \<open>Every token advances, and stays in the text\<close>

text \<open>\<open>moves src pos q\<close>: \<open>q\<close> is a later position of the text.\<close>

definition moves :: "string \<Rightarrow> nat \<Rightarrow> nat \<Rightarrow> bool" where
  "moves src pos q \<longleftrightarrow> pos < q \<and> q \<le> length src"

definition proper :: "json_error set" where
  "proper = {e. e \<noteq> JFuel}"

lemma proper_simps [simp]: "JMsg m p \<in> proper" "JSilent \<in> proper" "JFuel \<notin> proper"
  by (simp_all add: proper_def)

lemma skip_ws_ge: "pos \<le> kc_ipa_json_skip_ws src pos"
  by (simp add: kc_ipa_json_skip_ws_def)

lemma skip_ws_le: "pos \<le> length src \<Longrightarrow> kc_ipa_json_skip_ws src pos \<le> length src"
  by (simp add: kc_ipa_json_skip_ws_def scan_while_le)

lemma expect_moves: "yields proper (moves src pos) (kc_ipa_json_expect src pos c)"
  using skip_ws_ge [of pos src] by (auto simp: kc_ipa_json_expect_def Let_def moves_def less_Suc_eq_le)

lemma string_loop_moves: "yields proper (\<lambda>(s, q). moves src pos q) (string_loop alloc src pos buf cap)"
proof (induction alloc src pos buf cap rule: string_loop.induct)
  case (1 alloc src pos buf cap)
  show ?case
  proof (cases "pos < length src \<and> src ! pos \<noteq> CHR 0x22")
    case False
    then show ?thesis by (subst string_loop.simps) (auto simp: moves_def)
  next
    case go: True
    define st where "st = (if src ! pos = CHR 0x5C then (unescape (src ! (pos + 1)), pos + 2) else (src ! pos, pos + 1))"
    define cap' where "cap' = (if length buf + 2 \<ge> cap then cap * 2 else cap)"
    show ?thesis
    proof (cases "(src ! pos = CHR 0x5C \<and> pos + 1 \<ge> length src) \<or> (length buf + 2 \<ge> cap \<and> \<not> alloc cap')")
      case True
      with go show ?thesis by (subst string_loop.simps) (auto simp: Let_def cap'_def st_def split: if_splits)
    next
      case False
      then have "yields proper (\<lambda>(s, q). moves src (snd st) q) (string_loop alloc src (snd st) (buf @ [fst st]) cap')"
        using go by (intro 1) (auto simp: st_def cap'_def)
      then have "yields proper (\<lambda>(s, q). moves src pos q) (string_loop alloc src (snd st) (buf @ [fst st]) cap')"
        by (rule yields_mono) (auto simp: moves_def st_def split: if_splits)
      moreover have "string_loop alloc src pos buf cap = string_loop alloc src (snd st) (buf @ [fst st]) cap'"
        using go False by (subst string_loop.simps) (auto simp: Let_def st_def cap'_def)
      ultimately show ?thesis by simp
    qed
  qed
qed

lemma parse_string_moves: "yields proper (\<lambda>(s, q). moves src pos q) (kc_ipa_json_parse_string alloc src pos)"
proof -
  let ?p = "kc_ipa_json_skip_ws src pos"
  have "yields proper (\<lambda>(s, q). moves src pos q) (string_loop alloc src (?p + 1) [] 256)"
    by (rule yields_mono [OF string_loop_moves]) (use skip_ws_ge [of pos src] in \<open>auto simp: moves_def\<close>)
  then show ?thesis by (simp add: kc_ipa_json_parse_string_def Let_def)
qed

lemma c_str_length: "length (c_str s) \<le> length s"
  by (simp add: c_str_def length_takeWhile_le)

lemma strtod_at:
  assumes "strtod f (c_str (drop p src)) = (v, k)" "p \<le> length src" shows "p + k \<le> length src"
  using strtod_length [OF assms(1)] c_str_length [of "drop p src"] assms(2) by simp

lemma parse_double_moves:
  "pos \<le> length src \<Longrightarrow> yields proper (\<lambda>(v, q). moves src pos q) (kc_ipa_json_parse_double fp src pos)"
  using skip_ws_ge [of pos src] skip_ws_le [of pos src] strtod_at
  by (auto simp: kc_ipa_json_parse_double_def Let_def moves_def split: prod.split)

lemma skip_literal_moves: "lit \<noteq> [] \<Longrightarrow> yields proper (moves src p) (skip_literal src p lit)"
  by (auto simp: skip_literal_def moves_def)

text \<open>A loop round: after a value the text either goes on behind a comma or ends with a bracket.\<close>

lemma round_moves:
  assumes "moves src pos p2" "\<And>q. moves src pos q \<Longrightarrow> yields proper (moves src q) (again q)"
  shows "yields proper (moves src pos)
    (let q = kc_ipa_json_skip_ws src p2
     in if peek src q (CHR '','') then again (q + 1) else kc_ipa_json_expect src q c)"
proof -
  let ?q = "kc_ipa_json_skip_ws src p2"
  have q: "pos < ?q" using assms(1) skip_ws_ge [of p2 src] by (auto simp: moves_def)
  have "yields proper (moves src pos) (again (?q + 1))" if "peek src ?q (CHR '','')"
    using that q by (intro yields_mono [OF assms(2)]) (auto simp: moves_def peek_def)
  moreover have "yields proper (moves src pos) (kc_ipa_json_expect src ?q c)"
    by (rule yields_mono [OF expect_moves]) (use q in \<open>auto simp: moves_def\<close>)
  ultimately show ?thesis by (simp add: Let_def)
qed

lemma moves_trans: "moves src a b \<Longrightarrow> moves src b c \<Longrightarrow> moves src a c"
  by (auto simp: moves_def)

lemma skip_elements_moves:
  assumes "\<And>p. p \<le> length src \<Longrightarrow> lo \<le> p \<Longrightarrow> yields proper (moves src p) (skip_value p)"
    and "length src - pos < n" "lo \<le> pos" "pos \<le> length src"
  shows "yields proper (moves src pos) (skip_elements n skip_value src pos)"
  using assms(2-)
proof (induction n arbitrary: pos)
  case (Suc n)
  show ?case
    unfolding skip_elements.simps
  proof (rule yields_bind [OF assms(1)])
    fix p2 assume "moves src pos p2"
    then show "yields proper (moves src pos) (let q = kc_ipa_json_skip_ws src p2
       in if peek src q (CHR '','') then skip_elements n skip_value src (q + 1)
          else kc_ipa_json_expect src q (CHR '']''))"
      by (rule round_moves) (rule Suc.IH, use Suc.prems in \<open>auto simp: moves_def\<close>)
  qed (use Suc.prems in auto)
qed simp

lemma skip_members_moves:
  assumes "\<And>p. p \<le> length src \<Longrightarrow> lo < p \<Longrightarrow> yields proper (moves src p) (skip_value p)"
    and "length src - pos < n" "lo \<le> pos" "pos \<le> length src"
  shows "yields proper (moves src pos) (skip_members n skip_value alloc src pos)"
  using assms(2-)
proof (induction n arbitrary: pos)
  case (Suc n)
  show ?case
    unfolding skip_members.simps
  proof (rule yields_bind [OF parse_string_moves], clarify)
    fix s p assume p: "moves src pos p"
    show "yields proper (moves src pos) (sum_bind (kc_ipa_json_expect src p (CHR '':'')) (\<lambda>p1.
       sum_bind (skip_value p1) (\<lambda>p2. let q = kc_ipa_json_skip_ws src p2
         in if peek src q (CHR '','') then skip_members n skip_value alloc src (q + 1)
            else kc_ipa_json_expect src q (CHR ''}''))))"
    proof (rule yields_bind [OF expect_moves])
      fix p1 assume p1: "moves src p p1"
      show "yields proper (moves src pos) (sum_bind (skip_value p1) (\<lambda>p2. let q = kc_ipa_json_skip_ws src p2
         in if peek src q (CHR '','') then skip_members n skip_value alloc src (q + 1)
            else kc_ipa_json_expect src q (CHR ''}'')))"
      proof (rule yields_bind [OF assms(1)])
        fix p2 assume "moves src p1 p2"
        then have "moves src pos p2" using p p1 moves_trans by blast
        then show "yields proper (moves src pos) (let q = kc_ipa_json_skip_ws src p2
           in if peek src q (CHR '','') then skip_members n skip_value alloc src (q + 1)
              else kc_ipa_json_expect src q (CHR ''}''))"
          by (rule round_moves) (rule Suc.IH, use Suc.prems in \<open>auto simp: moves_def\<close>)
      qed (use Suc.prems p p1 in \<open>auto simp: moves_def\<close>)
    qed
  qed
qed simp

text \<open>The opening bracket of an object or an array.\<close>

lemma opened_moves:
  assumes "moves src pos p" "yields proper (moves src (kc_ipa_json_skip_ws src p)) (rest (kc_ipa_json_skip_ws src p))"
  shows "yields proper (moves src pos)
    (let q = kc_ipa_json_skip_ws src p in if peek src q c then Inr (q + 1) else rest q)"
proof -
  have q: "pos < kc_ipa_json_skip_ws src p" using assms(1) skip_ws_ge [of p src] by (auto simp: moves_def)
  then have "yields proper (moves src pos) (rest (kc_ipa_json_skip_ws src p))"
    by (intro yields_mono [OF assms(2)]) (auto simp: moves_def)
  with q show ?thesis by (auto simp: Let_def moves_def peek_def)
qed

lemma skip_value_moves:
  "length src - pos < n \<Longrightarrow> pos \<le> length src \<Longrightarrow> yields proper (moves src pos) (kc_ipa_json_skip_value n alloc fp src pos)"
proof (induction n arbitrary: pos)
  case (Suc n)
  let ?p = "kc_ipa_json_skip_ws src pos" and ?sv = "kc_ipa_json_skip_value n alloc fp src"
  have p: "pos \<le> ?p" "?p \<le> length src" using Suc.prems skip_ws_le skip_ws_ge by auto
  have widen: "yields proper (moves src ?p) r \<Longrightarrow> yields proper (moves src pos) r" for r
    by (erule yields_mono) (use p in \<open>auto simp: moves_def\<close>)
  have in_src: "moves src ?p q \<Longrightarrow> kc_ipa_json_skip_ws src q \<le> length src \<and> ?p < kc_ipa_json_skip_ws src q" for q
    using skip_ws_le [of q src] skip_ws_ge [of q src] by (auto simp: moves_def)
  have obj: "yields proper (moves src ?p) (kc_ipa_json_skip_object n ?sv alloc src ?p)"
    unfolding kc_ipa_json_skip_object_def
  proof (rule yields_bind [OF expect_moves])
    fix p1 assume p1: "moves src ?p p1"
    have "yields proper (moves src (kc_ipa_json_skip_ws src p1)) (skip_members n ?sv alloc src (kc_ipa_json_skip_ws src p1))"
      by (rule skip_members_moves [of _ ?p]) (use Suc in_src [OF p1] p in auto)
    with p1 show "yields proper (moves src ?p) (let q = kc_ipa_json_skip_ws src p1
        in if peek src q (CHR ''}'') then Inr (q + 1) else skip_members n ?sv alloc src q)"
      by (rule opened_moves)
  qed
  have arr: "yields proper (moves src ?p) (kc_ipa_json_skip_array n ?sv src ?p)"
    unfolding kc_ipa_json_skip_array_def
  proof (rule yields_bind [OF expect_moves])
    fix p1 assume p1: "moves src ?p p1"
    have "yields proper (moves src (kc_ipa_json_skip_ws src p1)) (skip_elements n ?sv src (kc_ipa_json_skip_ws src p1))"
      by (rule skip_elements_moves [of _ "Suc ?p"]) (use Suc in_src [OF p1] p in auto)
    with p1 show "yields proper (moves src ?p) (let q = kc_ipa_json_skip_ws src p1
        in if peek src q (CHR '']'') then Inr (q + 1) else skip_elements n ?sv src q)"
      by (rule opened_moves)
  qed
  have str: "yields proper (moves src ?p) (sum_bind (kc_ipa_json_parse_string alloc src ?p) (\<lambda>(_, q). Inr q))"
    by (rule yields_bind [OF parse_string_moves]) auto
  have num: "yields proper (moves src ?p) (let (_, k) = strtod (fp_double fp) (c_str (drop ?p src))
      in if k = 0 then Inl (JMsg ''invalid value'' ?p) else Inr (?p + k))"
    using strtod_at p(2) by (auto simp: moves_def split: prod.split)
  show ?case
    unfolding kc_ipa_json_skip_value.simps Let_def [of ?p]
    using obj arr str num skip_literal_moves [of "''true''" src ?p] skip_literal_moves [of "''false''" src ?p]
      skip_literal_moves [of "''null''" src ?p]
    by (simp add: widen)
qed simp

subsection \<open>Properties\<close>

text \<open>Skipping a JSON value always ends: with the bound \<open>json_fuel\<close> it never runs out, whatever
  the text. It either reports an error of the source or arrives at a later position that is still
  inside the text.\<close>

lemma skip_value_terminates:
  assumes "pos \<le> length src"
  shows "kc_ipa_json_skip_value (json_fuel src) alloc fp src pos \<noteq> Inl JFuel \<and>
    (\<forall>q. kc_ipa_json_skip_value (json_fuel src) alloc fp src pos = Inr q \<longrightarrow> pos < q \<and> q \<le> length src)"
proof -
  have "yields proper (moves src pos) (kc_ipa_json_skip_value (json_fuel src) alloc fp src pos)"
    using assms by (intro skip_value_moves) (auto simp: json_fuel_def)
  then show ?thesis
    by (cases "kc_ipa_json_skip_value (json_fuel src) alloc fp src pos") (auto simp: moves_def proper_def)
qed

end
