(* ===== verification/Manifest.thy ===== *)
theory Manifest
  imports Json
begin

section \<open>The schema manifest (src/libipa.c: kc\_ipa\_parse\_*, kc\_ipa\_validate\_manifest)\<close>

text \<open>
  The recursive-descent parser from JSON text to a manifest, and its validation. A string field of
  a node or of the manifest is \<open>None\<close> while it is a null pointer. The float \<open>node_threshold\<close> is kept
  as its 32 bits. As in the tokenizer, a function that the source calls recursively is an argument
  (\<open>parse_node\<close>) and the recursion is bounded; freeing has no counterpart.
\<close>

subsection \<open>Data\<close>

record kc_ipa_emit_def_t =
  ed_key :: string
  ed_value :: string

datatype kc_ipa_node_def =
  NodeDef (nd_id: "string option") (nd_descriptions: "string list") (nd_emits: "kc_ipa_emit_def_t list")
    (nd_children: "kc_ipa_node_def list")

record kc_ipa_manifest_t =
  m_schema :: "string option"
  m_id :: "string option"
  m_vendor :: "string option"
  m_version :: "string option"
  m_node_threshold :: u32
  m_min_ngram :: int
  m_max_ngram :: int
  m_nodes :: "kc_ipa_node_def list"

definition empty_node :: kc_ipa_node_def where
  "empty_node = NodeDef None [] [] []"

text \<open>Growing an array of \<open>n\<close> elements of \<open>esize\<close> bytes by one: the capacity after it, \<open>None\<close> when the
  allocation is refused.\<close>

definition grown :: "allocator \<Rightarrow> nat \<Rightarrow> nat \<Rightarrow> nat \<Rightarrow> nat \<Rightarrow> nat option" where
  "grown alloc first_cap esize n cap =
     (if n \<ge> cap
      then let nc = (if cap \<noteq> 0 then cap * 2 else first_cap) in if alloc (nc * esize) then Some nc else None
      else Some cap)"

subsection \<open>Arrays of strings and emit objects\<close>

primrec string_array_loop ::
    "nat \<Rightarrow> allocator \<Rightarrow> string \<Rightarrow> nat \<Rightarrow> string list \<Rightarrow> nat \<Rightarrow> json_error + string list \<times> nat" where
  "string_array_loop 0 alloc src pos arr cap = Inl JFuel"
| "string_array_loop (Suc n) alloc src pos arr cap =
     sum_bind (kc_ipa_json_parse_string alloc src (kc_ipa_json_skip_ws src pos)) (\<lambda>(s, p).
       case grown alloc 8 8 (length arr) cap of
         None \<Rightarrow> Inl JSilent
       | Some cap' \<Rightarrow>
           let q = kc_ipa_json_skip_ws src p
           in if peek src q (CHR '','') then string_array_loop n alloc src (q + 1) (arr @ [s]) cap'
              else sum_bind (kc_ipa_json_expect src q (CHR '']'')) (\<lambda>r. Inr (arr @ [s], r)))"

definition kc_ipa_parse_string_array :: "allocator \<Rightarrow> string \<Rightarrow> nat \<Rightarrow> json_error + string list \<times> nat" where
  "kc_ipa_parse_string_array alloc src pos =
     sum_bind (kc_ipa_json_expect src pos (CHR ''['')) (\<lambda>p.
       let q = kc_ipa_json_skip_ws src p
       in if peek src q (CHR '']'') then Inr ([], q + 1)
          else string_array_loop (json_fuel src) alloc src q [] 0)"

primrec emit_object_loop ::
    "nat \<Rightarrow> allocator \<Rightarrow> string \<Rightarrow> nat \<Rightarrow> kc_ipa_emit_def_t list \<Rightarrow> nat
       \<Rightarrow> json_error + kc_ipa_emit_def_t list \<times> nat" where
  "emit_object_loop 0 alloc src pos arr cap = Inl JFuel"
| "emit_object_loop (Suc n) alloc src pos arr cap =
     sum_bind (kc_ipa_json_parse_string alloc src pos) (\<lambda>(key, p).
     sum_bind (kc_ipa_json_expect src p (CHR '':'')) (\<lambda>p1.
     sum_bind (kc_ipa_json_parse_string alloc src p1) (\<lambda>(val, p2).
       case grown alloc 4 16 (length arr) cap of
         None \<Rightarrow> Inl JSilent
       | Some cap' \<Rightarrow>
           let arr' = arr @ [\<lparr>ed_key = key, ed_value = val\<rparr>];
               q = kc_ipa_json_skip_ws src p2
           in if peek src q (CHR '','') then emit_object_loop n alloc src (q + 1) arr' cap'
              else sum_bind (kc_ipa_json_expect src q (CHR ''}'')) (\<lambda>r. Inr (arr', r)))))"

definition kc_ipa_parse_emit_object ::
    "allocator \<Rightarrow> string \<Rightarrow> nat \<Rightarrow> json_error + kc_ipa_emit_def_t list \<times> nat" where
  "kc_ipa_parse_emit_object alloc src pos =
     sum_bind (kc_ipa_json_expect src pos (CHR ''{'')) (\<lambda>p.
       let q = kc_ipa_json_skip_ws src p
       in if peek src q (CHR ''}'') then Inr ([], q + 1)
          else emit_object_loop (json_fuel src) alloc src q [] 0)"

subsection \<open>Nodes\<close>

primrec node_array_loop ::
    "nat \<Rightarrow> (nat \<Rightarrow> json_error + kc_ipa_node_def \<times> nat) \<Rightarrow> allocator \<Rightarrow> string \<Rightarrow> nat
       \<Rightarrow> kc_ipa_node_def list \<Rightarrow> nat \<Rightarrow> json_error + kc_ipa_node_def list \<times> nat" where
  "node_array_loop 0 parse_node alloc src pos arr cap = Inl JFuel"
| "node_array_loop (Suc n) parse_node alloc src pos arr cap =
     (case grown alloc 8 56 (length arr) cap of
        None \<Rightarrow> Inl JSilent
      | Some cap' \<Rightarrow>
          sum_bind (parse_node (kc_ipa_json_skip_ws src pos)) (\<lambda>(nd, p).
            let q = kc_ipa_json_skip_ws src p
            in if peek src q (CHR '','') then node_array_loop n parse_node alloc src (q + 1) (arr @ [nd]) cap'
               else sum_bind (kc_ipa_json_expect src q (CHR '']'')) (\<lambda>r. Inr (arr @ [nd], r))))"

definition kc_ipa_parse_node_array ::
    "nat \<Rightarrow> (nat \<Rightarrow> json_error + kc_ipa_node_def \<times> nat) \<Rightarrow> allocator \<Rightarrow> string \<Rightarrow> nat
       \<Rightarrow> json_error + kc_ipa_node_def list \<times> nat" where
  "kc_ipa_parse_node_array n parse_node alloc src pos =
     sum_bind (kc_ipa_json_expect src pos (CHR ''['')) (\<lambda>p.
       let q = kc_ipa_json_skip_ws src p
       in if peek src q (CHR '']'') then Inr ([], q + 1)
          else node_array_loop n parse_node alloc src q [] 0)"

text \<open>The value of one member of a node object, by its key.\<close>

definition node_member ::
    "(nat \<Rightarrow> json_error + kc_ipa_node_def list \<times> nat) \<Rightarrow> allocator \<Rightarrow> fp_env \<Rightarrow> string
       \<Rightarrow> string \<Rightarrow> nat \<Rightarrow> kc_ipa_node_def \<Rightarrow> json_error + kc_ipa_node_def \<times> nat" where
  "node_member parse_children alloc fp src key p nd =
     (case nd of NodeDef i ds es cs \<Rightarrow>
        if key = ''id''
        then sum_bind (kc_ipa_json_parse_string alloc src p) (\<lambda>(s, q). Inr (NodeDef (Some s) ds es cs, q))
        else if key = ''descriptions''
        then sum_bind (kc_ipa_parse_string_array alloc src p) (\<lambda>(a, q). Inr (NodeDef i a es cs, q))
        else if key = ''emit''
        then sum_bind (kc_ipa_parse_emit_object alloc src p) (\<lambda>(a, q). Inr (NodeDef i ds a cs, q))
        else if key = ''children''
        then sum_bind (parse_children p) (\<lambda>(a, q). Inr (NodeDef i ds es a, q))
        else sum_bind (kc_ipa_json_skip_value (json_fuel src) alloc fp src p) (\<lambda>q. Inr (nd, q)))"

primrec node_members ::
    "nat \<Rightarrow> (nat \<Rightarrow> json_error + kc_ipa_node_def list \<times> nat) \<Rightarrow> allocator \<Rightarrow> fp_env \<Rightarrow> string
       \<Rightarrow> nat \<Rightarrow> kc_ipa_node_def \<Rightarrow> json_error + kc_ipa_node_def \<times> nat" where
  "node_members 0 parse_children alloc fp src pos nd = Inl JFuel"
| "node_members (Suc n) parse_children alloc fp src pos nd =
     sum_bind (kc_ipa_json_parse_string alloc src pos) (\<lambda>(key, p).
     sum_bind (kc_ipa_json_expect src p (CHR '':'')) (\<lambda>p1.
     sum_bind (node_member parse_children alloc fp src key (kc_ipa_json_skip_ws src p1) nd) (\<lambda>(nd', p2).
       let q = kc_ipa_json_skip_ws src p2
       in if peek src q (CHR '','') then node_members n parse_children alloc fp src (q + 1) nd'
          else sum_bind (kc_ipa_json_expect src q (CHR ''}'')) (\<lambda>r. Inr (nd', r)))))"

primrec kc_ipa_parse_node ::
    "nat \<Rightarrow> allocator \<Rightarrow> fp_env \<Rightarrow> string \<Rightarrow> nat \<Rightarrow> json_error + kc_ipa_node_def \<times> nat" where
  "kc_ipa_parse_node 0 alloc fp src pos = Inl JFuel"
| "kc_ipa_parse_node (Suc n) alloc fp src pos =
     sum_bind (kc_ipa_json_expect src pos (CHR ''{'')) (\<lambda>p.
       let q = kc_ipa_json_skip_ws src p
       in if peek src q (CHR ''}'') then Inr (empty_node, q + 1)
          else node_members (json_fuel src)
                 (kc_ipa_parse_node_array (json_fuel src) (kc_ipa_parse_node n alloc fp src) alloc src)
                 alloc fp src q empty_node)"

subsection \<open>The manifest\<close>

text \<open>The bits of \<open>0.72f\<close>.\<close>

abbreviation (input) default_threshold :: u32 where "default_threshold \<equiv> 0x3F3851EC"

definition default_manifest :: kc_ipa_manifest_t where
  "default_manifest =
     \<lparr>m_schema = None, m_id = None, m_vendor = None, m_version = None,
      m_node_threshold = default_threshold, m_min_ngram = 1, m_max_ngram = 5, m_nodes = []\<rparr>"

definition defaults_member ::
    "allocator \<Rightarrow> fp_env \<Rightarrow> string \<Rightarrow> string \<Rightarrow> nat \<Rightarrow> kc_ipa_manifest_t \<Rightarrow> json_error + kc_ipa_manifest_t \<times> nat" where
  "defaults_member alloc fp src dk p m =
     (if dk = ''node_threshold''
      then sum_bind (kc_ipa_json_parse_double fp src p) (\<lambda>(v, q). Inr (m\<lparr>m_node_threshold := fp_float fp v\<rparr>, q))
      else if dk = ''min_ngram''
      then sum_bind (kc_ipa_json_parse_double fp src p) (\<lambda>(v, q). Inr (m\<lparr>m_min_ngram := fp_int fp v\<rparr>, q))
      else if dk = ''max_ngram''
      then sum_bind (kc_ipa_json_parse_double fp src p) (\<lambda>(v, q). Inr (m\<lparr>m_max_ngram := fp_int fp v\<rparr>, q))
      else sum_bind (kc_ipa_json_skip_value (json_fuel src) alloc fp src p) (\<lambda>q. Inr (m, q)))"

primrec defaults_loop ::
    "nat \<Rightarrow> allocator \<Rightarrow> fp_env \<Rightarrow> string \<Rightarrow> nat \<Rightarrow> kc_ipa_manifest_t \<Rightarrow> json_error + kc_ipa_manifest_t \<times> nat" where
  "defaults_loop 0 alloc fp src pos m = Inl JFuel"
| "defaults_loop (Suc n) alloc fp src pos m =
     sum_bind (kc_ipa_json_parse_string alloc src pos) (\<lambda>(dk, p).
     sum_bind (kc_ipa_json_expect src p (CHR '':'')) (\<lambda>p1.
     sum_bind (defaults_member alloc fp src dk (kc_ipa_json_skip_ws src p1) m) (\<lambda>(m', p2).
       let q = kc_ipa_json_skip_ws src p2
       in if peek src q (CHR '','') then defaults_loop n alloc fp src (q + 1) m'
          else sum_bind (kc_ipa_json_expect src q (CHR ''}'')) (\<lambda>r. Inr (m', r)))))"

definition parse_defaults ::
    "allocator \<Rightarrow> fp_env \<Rightarrow> string \<Rightarrow> nat \<Rightarrow> kc_ipa_manifest_t \<Rightarrow> json_error + kc_ipa_manifest_t \<times> nat" where
  "parse_defaults alloc fp src pos m =
     sum_bind (kc_ipa_json_expect src pos (CHR ''{'')) (\<lambda>p.
       let q = kc_ipa_json_skip_ws src p
       in if peek src q (CHR ''}'') then Inr (m, q + 1)
          else defaults_loop (json_fuel src) alloc fp src q m)"

definition manifest_member ::
    "allocator \<Rightarrow> fp_env \<Rightarrow> string \<Rightarrow> string \<Rightarrow> nat \<Rightarrow> kc_ipa_manifest_t \<Rightarrow> json_error + kc_ipa_manifest_t \<times> nat" where
  "manifest_member alloc fp src key p m =
     (if key = ''schema''
      then sum_bind (kc_ipa_json_parse_string alloc src p) (\<lambda>(s, q). Inr (m\<lparr>m_schema := Some s\<rparr>, q))
      else if key = ''id''
      then sum_bind (kc_ipa_json_parse_string alloc src p) (\<lambda>(s, q). Inr (m\<lparr>m_id := Some s\<rparr>, q))
      else if key = ''vendor''
      then sum_bind (kc_ipa_json_parse_string alloc src p) (\<lambda>(s, q). Inr (m\<lparr>m_vendor := Some s\<rparr>, q))
      else if key = ''version''
      then sum_bind (kc_ipa_json_parse_string alloc src p) (\<lambda>(s, q). Inr (m\<lparr>m_version := Some s\<rparr>, q))
      else if key = ''defaults'' then parse_defaults alloc fp src p m
      else if key = ''nodes''
      then sum_bind (kc_ipa_parse_node_array (json_fuel src) (kc_ipa_parse_node (json_fuel src) alloc fp src) alloc src p)
             (\<lambda>(a, q). Inr (m\<lparr>m_nodes := a\<rparr>, q))
      else sum_bind (kc_ipa_json_skip_value (json_fuel src) alloc fp src p) (\<lambda>q. Inr (m, q)))"

primrec manifest_loop ::
    "nat \<Rightarrow> allocator \<Rightarrow> fp_env \<Rightarrow> string \<Rightarrow> nat \<Rightarrow> kc_ipa_manifest_t \<Rightarrow> json_error + kc_ipa_manifest_t \<times> nat" where
  "manifest_loop 0 alloc fp src pos m = Inl JFuel"
| "manifest_loop (Suc n) alloc fp src pos m =
     sum_bind (kc_ipa_json_parse_string alloc src pos) (\<lambda>(key, p).
     sum_bind (kc_ipa_json_expect src p (CHR '':'')) (\<lambda>p1.
     sum_bind (manifest_member alloc fp src key (kc_ipa_json_skip_ws src p1) m) (\<lambda>(m', p2).
       let q = kc_ipa_json_skip_ws src p2
       in if peek src q (CHR '','') then manifest_loop n alloc fp src (q + 1) m'
          else sum_bind (kc_ipa_json_expect src q (CHR ''}'')) (\<lambda>r. Inr (m', r)))))"

definition kc_ipa_parse_manifest ::
    "allocator \<Rightarrow> fp_env \<Rightarrow> string \<Rightarrow> nat \<Rightarrow> json_error + kc_ipa_manifest_t \<times> nat" where
  "kc_ipa_parse_manifest alloc fp src pos =
     sum_bind (kc_ipa_json_expect src pos (CHR ''{'')) (\<lambda>p.
       let q = kc_ipa_json_skip_ws src p
       in if peek src q (CHR ''}'') then Inr (default_manifest, q + 1)
          else manifest_loop (json_fuel src) alloc fp src q default_manifest)"

text \<open>\<open>None\<close> is success, \<open>Some msg\<close> the message that \<open>errbuf\<close> (256 bytes) gets.\<close>

definition blank :: "string option \<Rightarrow> bool" where
  "blank s = (case s of None \<Rightarrow> True | Some t \<Rightarrow> t = [])"

fun validate_nodes :: "kc_ipa_node_def list \<Rightarrow> string option" where
  "validate_nodes [] = None"
| "validate_nodes (nd # nds) =
     (if blank (nd_id nd) then Some ''node id is required''
      else if nd_descriptions nd = []
      then Some (take 255 (''node '' @ the (nd_id nd) @ '' must have at least one description''))
      else validate_nodes nds)"

definition kc_ipa_validate_manifest :: "kc_ipa_manifest_t \<Rightarrow> string option" where
  "kc_ipa_validate_manifest m =
     (if m_schema m \<noteq> Some ''ipa.map.v1'' then Some ''schema must be ipa.map.v1''
      else if blank (m_id m) then Some ''id is required''
      else if blank (m_vendor m) then Some ''vendor is required''
      else if blank (m_version m) then Some ''version is required''
      else if m_nodes m = [] then Some ''at least one node is required''
      else if fl_lt (f32_val (m_node_threshold m)) (Fin 0) \<or> fl_lt (Fin 1) (f32_val (m_node_threshold m))
      then Some ''node_threshold must be in [0, 1]''
      else if m_min_ngram m < 1 \<or> m_max_ngram m < m_min_ngram m
      then Some ''min_ngram and max_ngram must be positive, max >= min''
      else validate_nodes (m_nodes m))"

subsection \<open>The parser always ends\<close>

abbreviation (input) advances :: "string \<Rightarrow> nat \<Rightarrow> 'a \<times> nat \<Rightarrow> bool" where
  "advances src pos \<equiv> (\<lambda>(x, q). moves src pos q)"

lemma advances_widen: "yields proper (advances src p) r \<Longrightarrow> pos \<le> p \<Longrightarrow> yields proper (advances src pos) r"
  by (erule yields_mono) (auto simp: moves_def)

lemma ws_moves: "moves src pos p \<Longrightarrow> pos < kc_ipa_json_skip_ws src p \<and> kc_ipa_json_skip_ws src p \<le> length src"
  using skip_ws_ge [of p src] skip_ws_le [of p src] by (auto simp: moves_def)

text \<open>The end of a loop round with a result.\<close>

lemma round_advances:
  assumes p2: "moves src pos p2" and again: "\<And>q. moves src pos q \<Longrightarrow> yields proper (advances src q) (again q)"
  shows "yields proper (advances src pos)
    (let q = kc_ipa_json_skip_ws src p2
     in if peek src q (CHR '','') then again (q + 1) else sum_bind (kc_ipa_json_expect src q c) (\<lambda>r. Inr (y, r)))"
proof -
  let ?q = "kc_ipa_json_skip_ws src p2"
  note q = ws_moves [OF p2]
  have "yields proper (advances src pos) (again (?q + 1))" if "peek src ?q (CHR '','')"
    using that q by (intro advances_widen [OF again]) (auto simp: moves_def peek_def)
  moreover have "yields proper (advances src pos) (sum_bind (kc_ipa_json_expect src ?q c) (\<lambda>r. Inr (y, r)))"
    by (rule yields_bind [OF expect_moves]) (use q in \<open>auto simp: moves_def\<close>)
  ultimately show ?thesis by (simp add: Let_def)
qed

text \<open>A round of the loop over the members of an object.\<close>

lemma member_round:
  assumes member: "\<And>key p1. moves src pos p1 \<Longrightarrow> yields proper (advances src p1) (member key p1)"
    and again: "\<And>x q. moves src pos q \<Longrightarrow> yields proper (advances src q) (again x q)"
  shows "yields proper (advances src pos)
    (sum_bind (kc_ipa_json_parse_string alloc src pos) (\<lambda>(key, p).
     sum_bind (kc_ipa_json_expect src p (CHR '':'')) (\<lambda>p1.
     sum_bind (member key p1) (\<lambda>(x, p2).
       let q = kc_ipa_json_skip_ws src p2
       in if peek src q (CHR '','') then again x (q + 1)
          else sum_bind (kc_ipa_json_expect src q c) (\<lambda>r. Inr (x, r))))))"
proof (rule yields_bind [OF parse_string_moves], clarify)
  fix key p assume p: "moves src pos p"
  show "yields proper (advances src pos) (sum_bind (kc_ipa_json_expect src p (CHR '':'')) (\<lambda>p1.
     sum_bind (member key p1) (\<lambda>(x, p2).
       let q = kc_ipa_json_skip_ws src p2
       in if peek src q (CHR '','') then again x (q + 1)
          else sum_bind (kc_ipa_json_expect src q c) (\<lambda>r. Inr (x, r)))))"
  proof (rule yields_bind [OF expect_moves])
    fix p1 assume "moves src p p1"
    with p have p1: "moves src pos p1" by (rule moves_trans)
    show "yields proper (advances src pos) (sum_bind (member key p1) (\<lambda>(x, p2).
       let q = kc_ipa_json_skip_ws src p2
       in if peek src q (CHR '','') then again x (q + 1)
          else sum_bind (kc_ipa_json_expect src q c) (\<lambda>r. Inr (x, r))))"
    proof (rule yields_bind [OF member [OF p1]], clarify)
      fix x p2 assume "moves src p1 p2"
      with p1 have "moves src pos p2" by (rule moves_trans)
      then show "yields proper (advances src pos) (let q = kc_ipa_json_skip_ws src p2
         in if peek src q (CHR '','') then again x (q + 1)
            else sum_bind (kc_ipa_json_expect src q c) (\<lambda>r. Inr (x, r)))"
        by (rule round_advances) (rule again)
    qed
  qed
qed

lemma opened_advances:
  assumes rest: "\<And>q. pos < q \<Longrightarrow> q \<le> length src \<Longrightarrow> yields proper (advances src q) (rest q)"
  shows "yields proper (advances src pos)
    (sum_bind (kc_ipa_json_expect src pos o1) (\<lambda>p.
       let q = kc_ipa_json_skip_ws src p in if peek src q c then Inr (y, q + 1) else rest q))"
proof (rule yields_bind [OF expect_moves])
  fix p assume "moves src pos p"
  note q = ws_moves [OF this]
  then have "yields proper (advances src pos) (rest (kc_ipa_json_skip_ws src p))"
    by (intro advances_widen [OF rest]) auto
  with q show "yields proper (advances src pos)
      (let q = kc_ipa_json_skip_ws src p in if peek src q c then Inr (y, q + 1) else rest q)"
    by (auto simp: Let_def moves_def peek_def)
qed

lemma string_array_loop_advances:
  "length src - pos < n \<Longrightarrow> yields proper (advances src pos) (string_array_loop n alloc src pos arr cap)"
proof (induction n arbitrary: pos arr cap)
  case (Suc n)
  show ?case
    unfolding string_array_loop.simps
  proof (rule yields_bind [OF parse_string_moves], clarify)
    fix s p assume "moves src (kc_ipa_json_skip_ws src pos) p"
    then have p: "moves src pos p" using skip_ws_ge [of pos src] by (auto simp: moves_def)
    show "yields proper (advances src pos) (case grown alloc 8 8 (length arr) cap of None \<Rightarrow> Inl JSilent
       | Some cap' \<Rightarrow> let q = kc_ipa_json_skip_ws src p
           in if peek src q (CHR '','') then string_array_loop n alloc src (q + 1) (arr @ [s]) cap'
              else sum_bind (kc_ipa_json_expect src q (CHR '']'')) (\<lambda>r. Inr (arr @ [s], r)))"
    proof (cases "grown alloc 8 8 (length arr) cap")
      case (Some cap')
      have "yields proper (advances src pos) (let q = kc_ipa_json_skip_ws src p
           in if peek src q (CHR '','') then string_array_loop n alloc src (q + 1) (arr @ [s]) cap'
              else sum_bind (kc_ipa_json_expect src q (CHR '']'')) (\<lambda>r. Inr (arr @ [s], r)))"
        using p by (rule round_advances) (rule Suc.IH, use Suc.prems in \<open>auto simp: moves_def\<close>)
      with Some show ?thesis by simp
    qed simp
  qed
qed simp

lemma emit_object_loop_advances:
  "length src - pos < n \<Longrightarrow> yields proper (advances src pos) (emit_object_loop n alloc src pos arr cap)"
proof (induction n arbitrary: pos arr cap)
  case (Suc n)
  show ?case
    unfolding emit_object_loop.simps
  proof (rule yields_bind [OF parse_string_moves], clarify, rule yields_bind [OF expect_moves],
      rule yields_bind [OF parse_string_moves], clarify)
    fix key p p1 val p2
    assume "moves src pos p" "moves src p p1" "moves src p1 p2"
    then have p2: "moves src pos p2" using moves_trans by blast
    show "yields proper (advances src pos) (case grown alloc 4 16 (length arr) cap of None \<Rightarrow> Inl JSilent
       | Some cap' \<Rightarrow> let arr' = arr @ [\<lparr>ed_key = key, ed_value = val\<rparr>]; q = kc_ipa_json_skip_ws src p2
           in if peek src q (CHR '','') then emit_object_loop n alloc src (q + 1) arr' cap'
              else sum_bind (kc_ipa_json_expect src q (CHR ''}'')) (\<lambda>r. Inr (arr', r)))"
    proof (cases "grown alloc 4 16 (length arr) cap")
      case (Some cap')
      let ?arr = "arr @ [\<lparr>ed_key = key, ed_value = val\<rparr>]"
      have "yields proper (advances src pos) (let q = kc_ipa_json_skip_ws src p2
           in if peek src q (CHR '','') then emit_object_loop n alloc src (q + 1) ?arr cap'
              else sum_bind (kc_ipa_json_expect src q (CHR ''}'')) (\<lambda>r. Inr (?arr, r)))"
        using p2 by (rule round_advances) (rule Suc.IH, use Suc.prems in \<open>auto simp: moves_def\<close>)
      with Some show ?thesis by (simp only: option.case Let_def)
    qed simp
  qed
qed simp

lemma string_array_advances: "yields proper (advances src pos) (kc_ipa_parse_string_array alloc src pos)"
  unfolding kc_ipa_parse_string_array_def
  by (rule opened_advances, rule string_array_loop_advances) (simp add: json_fuel_def)

lemma emit_object_advances: "yields proper (advances src pos) (kc_ipa_parse_emit_object alloc src pos)"
  unfolding kc_ipa_parse_emit_object_def
  by (rule opened_advances, rule emit_object_loop_advances) (simp add: json_fuel_def)

lemma node_array_loop_advances:
  assumes "\<And>p. lo \<le> p \<Longrightarrow> p \<le> length src \<Longrightarrow> yields proper (advances src p) (parse_node p)"
    and "length src - pos < n" "lo \<le> pos" "pos \<le> length src"
  shows "yields proper (advances src pos) (node_array_loop n parse_node alloc src pos arr cap)"
  using assms(2-)
proof (induction n arbitrary: pos arr cap)
  case (Suc n)
  show ?case
  proof (cases "grown alloc 8 56 (length arr) cap")
    case (Some cap')
    let ?p = "kc_ipa_json_skip_ws src pos"
    have p: "pos \<le> ?p" "?p \<le> length src" using skip_ws_ge skip_ws_le Suc.prems by auto
    have "yields proper (advances src pos) (sum_bind (parse_node ?p) (\<lambda>(nd, p).
            let q = kc_ipa_json_skip_ws src p
            in if peek src q (CHR '','') then node_array_loop n parse_node alloc src (q + 1) (arr @ [nd]) cap'
               else sum_bind (kc_ipa_json_expect src q (CHR '']'')) (\<lambda>r. Inr (arr @ [nd], r))))"
    proof (rule yields_bind [OF assms(1)], goal_cases)
      case (3 x)
      then obtain nd p1 where x: "x = (nd, p1)" "moves src pos p1" using p by (cases x) (auto simp: moves_def)
      have "yields proper (advances src pos) (let q = kc_ipa_json_skip_ws src p1
            in if peek src q (CHR '','') then node_array_loop n parse_node alloc src (q + 1) (arr @ [nd]) cap'
               else sum_bind (kc_ipa_json_expect src q (CHR '']'')) (\<lambda>r. Inr (arr @ [nd], r)))"
        using x(2) by (rule round_advances) (rule Suc.IH, use Suc.prems in \<open>auto simp: moves_def\<close>)
      with x(1) show ?case by simp
    qed (use p Suc.prems in auto)
    with Some show ?thesis by simp
  qed simp
qed simp

lemma skip_value_advances:
  "pos \<le> length src \<Longrightarrow>
   yields proper (advances src pos) (sum_bind (kc_ipa_json_skip_value (json_fuel src) alloc fp src pos) (\<lambda>q. Inr (x, q)))"
  by (rule yields_bind [OF skip_value_moves]) (auto simp: json_fuel_def)

text \<open>A member whose value a total parser reads and stores.\<close>

lemma stored_advances:
  "yields proper (advances src p) r \<Longrightarrow> yields proper (advances src p) (sum_bind r (\<lambda>(v, q). Inr (store v, q)))"
  by (erule yields_bind) auto

lemma node_member_advances:
  assumes "\<And>p. lo \<le> p \<Longrightarrow> p \<le> length src \<Longrightarrow> yields proper (advances src p) (parse_children p)" "lo \<le> pos" "pos \<le> length src"
  shows "yields proper (advances src pos) (node_member parse_children alloc fp src key pos nd)"
proof -
  obtain i ds es cs where nd: "nd = NodeDef i ds es cs" by (cases nd)
  show ?thesis
    unfolding node_member_def nd kc_ipa_node_def.case
    by (simp only: split: if_split, intro conjI impI stored_advances parse_string_moves string_array_advances
        emit_object_advances assms skip_value_advances)
qed

lemma ws_in: "moves src pos p \<Longrightarrow> p \<le> kc_ipa_json_skip_ws src p \<and> kc_ipa_json_skip_ws src p \<le> length src"
  using skip_ws_ge [of p src] skip_ws_le [of p src] by (auto simp: moves_def)

lemma node_members_advances:
  assumes pc: "\<And>p. lo \<le> p \<Longrightarrow> p \<le> length src \<Longrightarrow> yields proper (advances src p) (parse_children p)"
    and "length src - pos < n" "lo \<le> pos"
  shows "yields proper (advances src pos) (node_members n parse_children alloc fp src pos nd)"
  using assms(2-)
proof (induction n arbitrary: pos nd)
  case (Suc n)
  show ?case
    unfolding node_members.simps
  proof (rule member_round)
    fix key p1 assume p1: "moves src pos p1"
    note w = ws_in [OF p1]
    have "yields proper (advances src (kc_ipa_json_skip_ws src p1))
        (node_member parse_children alloc fp src key (kc_ipa_json_skip_ws src p1) nd)"
      by (rule node_member_advances [OF pc]) (use w p1 Suc.prems in \<open>auto simp: moves_def\<close>)
    then show "yields proper (advances src p1) (node_member parse_children alloc fp src key (kc_ipa_json_skip_ws src p1) nd)"
      by (rule advances_widen) (use w in simp)
  next
    fix x q assume "moves src pos q"
    then show "yields proper (advances src q) (node_members n parse_children alloc fp src q x)"
      by (intro Suc.IH) (use Suc.prems in \<open>auto simp: moves_def\<close>)
  qed
qed simp

lemma parse_node_advances:
  "length src - pos < n \<Longrightarrow> pos \<le> length src \<Longrightarrow> yields proper (advances src pos) (kc_ipa_parse_node n alloc fp src pos)"
proof (induction n arbitrary: pos)
  case (Suc n)
  let ?pn = "kc_ipa_parse_node n alloc fp src"
  have children: "yields proper (advances src p) (kc_ipa_parse_node_array (json_fuel src) ?pn alloc src p)"
    if "Suc pos \<le> p" "p \<le> length src" for p
    unfolding kc_ipa_parse_node_array_def
  proof (rule opened_advances)
    fix q assume q: "p < q" "q \<le> length src"
    show "yields proper (advances src q) (node_array_loop (json_fuel src) ?pn alloc src q [] 0)"
      by (rule node_array_loop_advances [of q]) (use Suc that q in \<open>auto simp: json_fuel_def\<close>)
  qed
  show ?case
    unfolding kc_ipa_parse_node.simps
  proof (rule opened_advances)
    fix q assume "pos < q" "q \<le> length src"
    then show "yields proper (advances src q) (node_members (json_fuel src)
        (kc_ipa_parse_node_array (json_fuel src) ?pn alloc src) alloc fp src q empty_node)"
      by (intro node_members_advances [of "Suc pos", OF children]) (auto simp: json_fuel_def)
  qed
qed simp

lemma node_array_advances:
  "pos \<le> length src \<Longrightarrow> yields proper (advances src pos)
     (kc_ipa_parse_node_array (json_fuel src) (kc_ipa_parse_node (json_fuel src) alloc fp src) alloc src pos)"
  unfolding kc_ipa_parse_node_array_def
proof (rule opened_advances)
  fix q assume "pos < q" "q \<le> length src"
  then show "yields proper (advances src q)
      (node_array_loop (json_fuel src) (kc_ipa_parse_node (json_fuel src) alloc fp src) alloc src q [] 0)"
    by (intro node_array_loop_advances [of q] parse_node_advances) (auto simp: json_fuel_def)
qed

lemma defaults_member_advances:
  "pos \<le> length src \<Longrightarrow> yields proper (advances src pos) (defaults_member alloc fp src dk pos m)"
  unfolding defaults_member_def
  by (simp only: split: if_split, intro conjI impI stored_advances parse_double_moves skip_value_advances)

lemma defaults_loop_advances:
  "length src - pos < n \<Longrightarrow> yields proper (advances src pos) (defaults_loop n alloc fp src pos m)"
proof (induction n arbitrary: pos m)
  case (Suc n)
  show ?case
    unfolding defaults_loop.simps
  proof (rule member_round)
    fix key p1 assume p1: "moves src pos p1"
    then show "yields proper (advances src p1) (defaults_member alloc fp src key (kc_ipa_json_skip_ws src p1) m)"
      using ws_in by (intro advances_widen [OF defaults_member_advances]) auto
  next
    fix x q assume "moves src pos q"
    then show "yields proper (advances src q) (defaults_loop n alloc fp src q x)"
      by (intro Suc.IH) (use Suc.prems in \<open>auto simp: moves_def\<close>)
  qed
qed simp

lemma parse_defaults_advances: "yields proper (advances src pos) (parse_defaults alloc fp src pos m)"
  unfolding parse_defaults_def
  by (rule opened_advances, rule defaults_loop_advances) (simp add: json_fuel_def)

lemma manifest_member_advances:
  "pos \<le> length src \<Longrightarrow> yields proper (advances src pos) (manifest_member alloc fp src key pos m)"
  unfolding manifest_member_def
  by (simp only: split: if_split, intro conjI impI stored_advances parse_string_moves node_array_advances
      skip_value_advances parse_defaults_advances)

lemma manifest_loop_advances:
  "length src - pos < n \<Longrightarrow> yields proper (advances src pos) (manifest_loop n alloc fp src pos m)"
proof (induction n arbitrary: pos m)
  case (Suc n)
  show ?case
    unfolding manifest_loop.simps
  proof (rule member_round)
    fix key p1 assume p1: "moves src pos p1"
    then show "yields proper (advances src p1) (manifest_member alloc fp src key (kc_ipa_json_skip_ws src p1) m)"
      using ws_in by (intro advances_widen [OF manifest_member_advances]) auto
  next
    fix x q assume "moves src pos q"
    then show "yields proper (advances src q) (manifest_loop n alloc fp src q x)"
      by (intro Suc.IH) (use Suc.prems in \<open>auto simp: moves_def\<close>)
  qed
qed simp

lemma parse_manifest_advances: "yields proper (advances src pos) (kc_ipa_parse_manifest alloc fp src pos)"
  unfolding kc_ipa_parse_manifest_def
  by (rule opened_advances, rule manifest_loop_advances) (simp add: json_fuel_def)

text \<open>C19. Parsing a manifest always ends, on every text and whatever the allocator does: the bounds
  on the recursion are never exhausted. It reports one of the source's errors or ends behind what it
  has read, inside the text.\<close>

theorem parse_manifest_terminates:
  "kc_ipa_parse_manifest alloc fp src pos \<noteq> Inl JFuel \<and>
   (case kc_ipa_parse_manifest alloc fp src pos of Inl e \<Rightarrow> True | Inr (m, q) \<Rightarrow> pos < q \<and> q \<le> length src)"
  using parse_manifest_advances [of src pos alloc fp]
  by (cases "kc_ipa_parse_manifest alloc fp src pos") (auto simp: moves_def proper_def)

end
