(* ===== verification/Buffers.thy ===== *)
theory Buffers
  imports Prelude
begin

section \<open>The string table and the write buffer (src/libipa.c: kc\_ipa\_strtab\_*, kc\_ipa\_wbuf\_*)\<close>

text \<open>
  The two growing buffers of the schema compiler. A buffer is the list of the bytes written so far
  (a byte is a \<open>char\<close>) and its capacity; its \<open>size\<close> field is the length of the list. Offsets and
  lengths are handed out as \<open>uint32_t\<close>, so they wrap at 4 GiB. The last part gives the byte order of
  the records that the compiler copies into the buffer (little-endian, as on the targets of the
  build).
\<close>

subsection \<open>Growing\<close>

text \<open>A stopped compilation: a refused allocation or a failed embedding (the source's clean-up with
  \<open>KC_IPA_ERROR\<close>), a string function on a null pointer, an access outside an array, or a loop that never ends.\<close>

datatype build_stop = Refused | Null_String | Outside | Endless

text \<open>\<open>while (next < needed) next *= 2;\<close>, which never ends from 0.\<close>

function double_until :: "nat \<Rightarrow> nat \<Rightarrow> build_stop + nat" where
  "double_until next needed =
     (if needed \<le> next then Inr next else if next = 0 then Inl Endless else double_until (next * 2) needed)"
  by pat_completeness auto
termination
  by (relation "measure (\<lambda>(next, needed). needed - next)") auto

declare double_until.simps [simp del]

lemma double_until_spec:
  "0 < next \<Longrightarrow> \<exists>r. double_until next needed = Inr r \<and> needed \<le> r \<and> next \<le> r"
proof (induction "needed - next" arbitrary: "next" rule: less_induct)
  case less
  show ?case
  proof (cases "needed \<le> next")
    case True
    then show ?thesis by (auto simp: double_until.simps)
  next
    case False
    with less.prems have "needed - next * 2 < needed - next" by simp
    from less.hyps [OF this] less.prems False show ?thesis
      by (subst double_until.simps) fastforce
  qed
qed

lemma sum_bind_Inr_iff: "sum_bind m f = Inr y \<longleftrightarrow> (\<exists>x. m = Inr x \<and> f x = Inr y)"
  by (cases m) auto

text \<open>A loop whose rounds each contribute to an output contributes the concatenation.\<close>

lemma fold_res_collect:
  assumes "\<And>s. R s s []" and "\<And>s t u a b. R s t a \<Longrightarrow> R t u b \<Longrightarrow> R s u (a @ b)"
    and "\<And>x s t. x \<in> set xs \<Longrightarrow> f x s = Inr t \<Longrightarrow> R s t (out x)"
    and "fold_res f xs s = Inr t"
  shows "R s t (concat (map out xs))"
  using assms(3,4)
proof (induction xs arbitrary: s)
  case Nil
  then show ?case using assms(1) by simp
next
  case (Cons x xs)
  then obtain u where u: "f x s = Inr u" "fold_res f xs u = Inr t" by (auto split: sum.splits)
  then have "R s u (out x)" "R u t (concat (map out xs))" using Cons by auto
  from assms(2) [OF this] show ?case by simp
qed

subsection \<open>The string table\<close>

abbreviation (input) KC_IPA_STRTAB_INIT :: nat where "KC_IPA_STRTAB_INIT \<equiv> 65536"
abbreviation (input) KC_IPA_BUF_INIT :: nat where "KC_IPA_BUF_INIT \<equiv> 131072"

record kc_ipa_strtab_t =
  st_data :: string
  st_capacity :: nat

abbreviation st_size :: "kc_ipa_strtab_t \<Rightarrow> nat" where
  "st_size st \<equiv> length (st_data st)"

record kc_ipa_str_ref_t =
  ref_off :: u32
  ref_len :: u32

definition kc_ipa_strtab_init :: "allocator \<Rightarrow> build_stop + kc_ipa_strtab_t" where
  "kc_ipa_strtab_init alloc =
     (if alloc KC_IPA_STRTAB_INIT then Inr \<lparr>st_data = [], st_capacity = KC_IPA_STRTAB_INIT\<rparr> else Inl Refused)"

definition kc_ipa_strtab_free :: "kc_ipa_strtab_t \<Rightarrow> kc_ipa_strtab_t" where
  "kc_ipa_strtab_free st = \<lparr>st_data = [], st_capacity = 0\<rparr>"

definition strtab_room :: "allocator \<Rightarrow> kc_ipa_strtab_t \<Rightarrow> nat \<Rightarrow> build_stop + kc_ipa_strtab_t" where
  "strtab_room alloc st needed =
     (if needed > st_capacity st
      then sum_bind (double_until (st_capacity st * 2) needed)
             (\<lambda>next. if alloc next then Inr (st\<lparr>st_capacity := next\<rparr>) else Inl Refused)
      else Inr st)"

definition kc_ipa_strtab_add ::
    "allocator \<Rightarrow> kc_ipa_strtab_t \<Rightarrow> string \<Rightarrow> build_stop + kc_ipa_strtab_t \<times> kc_ipa_str_ref_t" where
  "kc_ipa_strtab_add alloc st str =
     sum_bind (strtab_room alloc st (st_size st + length str + 1))
       (\<lambda>st1. Inr (st1\<lparr>st_data := st_data st1 @ str @ [NUL]\<rparr>,
                   \<lparr>ref_off = of_nat (st_size st1), ref_len = of_nat (length str)\<rparr>))"

text \<open>The C string that starts at an offset of a block of memory; \<open>None\<close> when the block ends before
  the terminator.\<close>

definition string_at :: "string \<Rightarrow> nat \<Rightarrow> string option" where
  "string_at mem off = (if NUL \<in> set (drop off mem) then Some (c_str (drop off mem)) else None)"

lemma string_at_mono: "string_at mem off = Some s \<Longrightarrow> string_at (mem @ rest) off = Some s"
proof (cases "off \<le> length mem")
  case True
  assume "string_at mem off = Some s"
  then have nul: "NUL \<in> set (drop off mem)" and s: "s = c_str (drop off mem)"
    by (auto simp: string_at_def split: if_splits)
  have "takeWhile (\<lambda>c. c \<noteq> NUL) (drop off mem @ rest) = takeWhile (\<lambda>c. c \<noteq> NUL) (drop off mem)"
    using nul by (auto intro: takeWhile_append1)
  with True nul s show ?thesis by (simp add: string_at_def c_str_def)
qed (simp add: string_at_def)

lemma string_at_shift: "string_at (pre @ mem) (length pre + off) = string_at mem off"
  by (simp add: string_at_def)

lemma string_at_written:
  "NUL \<notin> set s \<Longrightarrow> string_at (mem @ s @ NUL # rest) (length mem) = Some s"
  by (auto simp: string_at_def c_str_def intro!: takeWhile_tail [THEN trans])

subsection \<open>The interface of a string store\<close>

text \<open>
  What the compiler relies on: a string that was added is found again under its reference, now and
  after any further additions, as long as the store does not outgrow its references.
\<close>

locale string_store =
  fixes add :: "'s \<Rightarrow> string \<Rightarrow> 'e + 's \<times> 'r"
    and look :: "'s \<Rightarrow> 'r \<Rightarrow> string option"
    and fits :: "'s \<Rightarrow> bool"
  assumes add_look: "add st s = Inr (st', r) \<Longrightarrow> fits st' \<Longrightarrow> NUL \<notin> set s \<Longrightarrow> look st' r = Some s"
    and add_keeps: "add st s = Inr (st', r) \<Longrightarrow> fits st' \<Longrightarrow> look st q = Some t \<Longrightarrow> look st' q = Some t"
    and add_fits: "add st s = Inr (st', r) \<Longrightarrow> fits st' \<Longrightarrow> fits st"
begin

definition extends :: "'s \<Rightarrow> 's \<Rightarrow> bool" where
  "extends st st' \<longleftrightarrow> (fits st' \<longrightarrow> fits st \<and> (\<forall>q t. look st q = Some t \<longrightarrow> look st' q = Some t))"

lemma extends_refl [simp]: "extends st st"
  by (simp add: extends_def)

lemma extends_trans: "extends a b \<Longrightarrow> extends b c \<Longrightarrow> extends a c"
  by (auto simp: extends_def)

lemma extends_add: "add st s = Inr (st', r) \<Longrightarrow> extends st st'"
  unfolding extends_def by (blast intro: add_fits add_keeps)

lemma extends_look: "extends st st' \<Longrightarrow> fits st' \<Longrightarrow> look st q = Some t \<Longrightarrow> look st' q = Some t"
  by (simp add: extends_def)

lemma added_stays:
  "add st s = Inr (st', r) \<Longrightarrow> extends st' st'' \<Longrightarrow> fits st'' \<Longrightarrow> NUL \<notin> set s \<Longrightarrow> look st'' r = Some s"
  using add_look extends_look extends_def by metis

end

lemma strtab_room_spec:
  assumes "strtab_room alloc st needed = Inr st1"
  shows "st_data st1 = st_data st \<and> needed \<le> st_capacity st1 \<and> st_capacity st \<le> st_capacity st1"
proof (cases "needed > st_capacity st")
  case True
  show ?thesis
  proof (cases "st_capacity st = 0")
    case True
    with \<open>needed > st_capacity st\<close> assms show ?thesis
      by (simp add: strtab_room_def double_until.simps)
  next
    case False
    with double_until_spec [of "st_capacity st * 2" needed] True assms show ?thesis
      by (auto simp: strtab_room_def split: if_splits)
  qed
qed (use assms in \<open>auto simp: strtab_room_def\<close>)

lemma strtab_add_data:
  assumes "kc_ipa_strtab_add alloc st s = Inr (st', r)"
  shows "st_data st' = st_data st @ s @ [NUL] \<and> r = \<lparr>ref_off = of_nat (st_size st), ref_len = of_nat (length s)\<rparr>
    \<and> st_size st' \<le> st_capacity st'"
proof -
  obtain st1 where "strtab_room alloc st (st_size st + length s + 1) = Inr st1"
    using assms by (cases "strtab_room alloc st (st_size st + length s + 1)") (auto simp: kc_ipa_strtab_add_def)
  with strtab_room_spec [OF this] assms show ?thesis by (auto simp: kc_ipa_strtab_add_def)
qed

definition strtab_look :: "kc_ipa_strtab_t \<Rightarrow> kc_ipa_str_ref_t \<Rightarrow> string option" where
  "strtab_look st r = string_at (st_data st) (unat (ref_off r))"

definition strtab_fits :: "kc_ipa_strtab_t \<Rightarrow> bool" where
  "strtab_fits st \<longleftrightarrow> st_size st < 2 ^ 32"

lemma unat_of_nat_u32: "n < 2 ^ 32 \<Longrightarrow> unat (of_nat n :: u32) = n"
  by (simp add: unsigned_of_nat take_bit_nat_eq_self)

interpretation strtab: string_store "kc_ipa_strtab_add alloc" strtab_look strtab_fits
proof (unfold_locales, goal_cases)
  case (1 st s st' r)
  from strtab_add_data [OF 1(1)] 1(2,3) show ?case
    by (auto simp: strtab_look_def strtab_fits_def unat_of_nat_u32 string_at_written [of s "st_data st" "[]"])
next
  case (2 st s st' r q t)
  with strtab_add_data [OF 2(1)] show ?case by (auto simp: strtab_look_def intro: string_at_mono)
next
  case (3 st s st' r)
  with strtab_add_data [OF 3(1)] show ?case by (auto simp: strtab_fits_def)
qed

subsection \<open>The write buffer\<close>

record kc_ipa_wbuf_t =
  wb_data :: string
  wb_capacity :: nat

abbreviation wb_size :: "kc_ipa_wbuf_t \<Rightarrow> nat" where
  "wb_size w \<equiv> length (wb_data w)"

definition kc_ipa_wbuf_init :: "allocator \<Rightarrow> build_stop + kc_ipa_wbuf_t" where
  "kc_ipa_wbuf_init alloc =
     (if alloc KC_IPA_BUF_INIT then Inr \<lparr>wb_data = [], wb_capacity = KC_IPA_BUF_INIT\<rparr> else Inl Refused)"

definition kc_ipa_wbuf_free :: "kc_ipa_wbuf_t \<Rightarrow> kc_ipa_wbuf_t" where
  "kc_ipa_wbuf_free w = \<lparr>wb_data = [], wb_capacity = 0\<rparr>"

definition kc_ipa_wbuf_reserve :: "allocator \<Rightarrow> kc_ipa_wbuf_t \<Rightarrow> nat \<Rightarrow> build_stop + kc_ipa_wbuf_t" where
  "kc_ipa_wbuf_reserve alloc w needed =
     (if wb_size w + needed \<le> wb_capacity w then Inr w
      else sum_bind (double_until (wb_capacity w * 2) (wb_size w + needed))
             (\<lambda>next. if alloc next then Inr (w\<lparr>wb_capacity := next\<rparr>) else Inl Refused))"

definition kc_ipa_wbuf_append :: "allocator \<Rightarrow> kc_ipa_wbuf_t \<Rightarrow> string \<Rightarrow> build_stop + kc_ipa_wbuf_t" where
  "kc_ipa_wbuf_append alloc w src =
     sum_bind (kc_ipa_wbuf_reserve alloc w (length src)) (\<lambda>w1. Inr (w1\<lparr>wb_data := wb_data w1 @ src\<rparr>))"

text \<open>A write buffer that starts with a positive capacity always has room for what it holds: an
  append either adds exactly the given bytes at the end and keeps the capacity at least the size, or
  fails because memory was refused. In particular the doubling loop ends.\<close>

lemma wbuf_append_spec:
  assumes "0 < wb_capacity w" "wb_size w \<le> wb_capacity w"
  shows "(\<exists>w'. kc_ipa_wbuf_append alloc w src = Inr w' \<and> wb_data w' = wb_data w @ src \<and>
      wb_size w' \<le> wb_capacity w' \<and> wb_capacity w \<le> wb_capacity w')
    \<or> (kc_ipa_wbuf_append alloc w src = Inl Refused \<and> (\<exists>n. wb_size w + length src \<le> n \<and> \<not> alloc n))"
proof -
  obtain n where "double_until (wb_capacity w * 2) (wb_size w + length src) = Inr n"
      "wb_size w + length src \<le> n" "wb_capacity w * 2 \<le> n"
    using double_until_spec [of "wb_capacity w * 2"] assms(1) by (metis mult_pos_pos zero_less_numeral)
  with assms show ?thesis
    by (auto simp: kc_ipa_wbuf_append_def kc_ipa_wbuf_reserve_def)
qed

lemma wbuf_append_data: "kc_ipa_wbuf_append alloc w src = Inr w' \<Longrightarrow> wb_data w' = wb_data w @ src"
  by (auto simp: kc_ipa_wbuf_append_def kc_ipa_wbuf_reserve_def sum_bind_Inr_iff split: if_splits)

subsection \<open>Words in memory\<close>

definition le32 :: "u32 \<Rightarrow> string" where
  "le32 w = map (\<lambda>i. char_of (unat w div 256 ^ i mod 256)) [0..<4]"

definition word_at :: "string \<Rightarrow> nat \<Rightarrow> u32" where
  "word_at mem off = of_nat (\<Sum>i<4. of_char (mem ! (off + i)) * 256 ^ i)"

definition le32s :: "u32 list \<Rightarrow> string" where
  "le32s ws = concat (map le32 ws)"

definition words_at :: "string \<Rightarrow> nat \<Rightarrow> nat \<Rightarrow> u32 list" where
  "words_at mem off n = map (\<lambda>k. word_at mem (off + 4 * k)) [0..<n]"

lemma length_le32 [simp]: "length (le32 w) = 4"
  by (simp add: le32_def)

lemma length_le32s [simp]: "length (le32s ws) = 4 * length ws"
  by (induction ws) (simp_all add: le32s_def)

lemma le32s_Nil [simp]: "le32s [] = []" and le32s_Cons: "le32s (w # ws) = le32 w @ le32s ws"
  by (simp_all add: le32s_def)

lemma base_digits: "(\<Sum>i<k. (n div b ^ i mod b) * b ^ i) = n mod b ^ k" for n b :: nat
proof (induction k)
  case (Suc k)
  have "n mod b ^ Suc k = b ^ k * (n div b ^ k mod b) + n mod b ^ k"
    by (simp only: power_Suc2 mod_mult2_eq)
  with Suc show ?case by (simp add: mult.commute)
qed simp

lemma word_at_le32: "word_at (pre @ le32 w @ post) (length pre) = w"
proof -
  have "(\<Sum>i<4. of_char ((pre @ le32 w @ post) ! (length pre + i)) * 256 ^ i) =
      (\<Sum>i<4. (unat w div 256 ^ i mod 256) * 256 ^ i :: nat)"
    by (rule sum.cong) (auto simp: nth_append le32_def)
  also have "\<dots> = unat w"
  proof -
    have "unat w < 2 ^ LENGTH(32)" by (rule unsigned_less)
    then show ?thesis by (simp add: base_digits)
  qed
  finally show ?thesis by (simp add: word_at_def)
qed

lemma word_at_le32s:
  "k < length ws \<Longrightarrow> word_at (pre @ le32s ws @ post) (length pre + 4 * k) = ws ! k"
proof (induction ws arbitrary: pre k)
  case (Cons w ws)
  show ?case
  proof (cases k)
    case 0
    then show ?thesis using word_at_le32 [of pre w "le32s ws @ post"] by (simp add: le32s_Cons)
  next
    case (Suc j)
    with Cons.prems Cons.IH [of j "pre @ le32 w"] show ?thesis by (simp add: le32s_Cons algebra_simps)
  qed
qed simp

lemma words_at_le32s: "words_at (pre @ le32s ws @ post) (length pre) (length ws) = ws"
  by (rule nth_equalityI) (simp_all add: words_at_def word_at_le32s)

end
