(* ===== verification/Compiler.thy ===== *)
theory Compiler
  imports Manifest Buffers
begin

section \<open>The schema compiler (src/libipa.c: kc\_ipa\_build)\<close>

text \<open>
  From the text of a schema file to the bytes of the compiled \<open>.ipa\<close> file. The function is one long
  body in the source; each of its loops and blocks is a definition here, in the source's order, and
  \<open>build_image\<close> chains them. The scratch arrays that the source allocates with \<open>calloc\<close> and fills
  from the front are lists; reading one of them back is a checked access. Diagnostics on \<open>stderr\<close>
  have no counterpart.

  Parameters: the allocator; the floating-point environment; the file system (what reading the input
  gives, how many bytes the output accepts); and the embedding model \<open>embedder\<close>, its dimension and
  the vector (32-bit floats) of a text, \<open>None\<close> when inference fails.
\<close>

subsection \<open>The records of the file\<close>

record kc_ipa_file_hdr_t =
  h_magic :: string
  h_version :: u32
  h_file_size :: u32
  h_strtab_off :: u32
  h_strtab_size :: u32
  h_id :: kc_ipa_str_ref_t
  h_vendor :: kc_ipa_str_ref_t
  h_schemaver :: kc_ipa_str_ref_t
  h_node_threshold :: u32
  h_min_ngram :: u32
  h_max_ngram :: u32
  h_emb_dim :: u32
  h_node_emb_off :: u32
  h_node_emb_count :: u32
  h_child_emb_off :: u32
  h_child_emb_count :: u32
  h_node_meta_off :: u32
  h_node_meta_count :: u32
  h_child_meta_off :: u32
  h_child_meta_count :: u32

record kc_ipa_node_meta_t =
  nm_node_id :: kc_ipa_str_ref_t
  nm_emit_key :: kc_ipa_str_ref_t
  nm_emit_val :: kc_ipa_str_ref_t
  nm_has_children :: u32

record kc_ipa_child_meta_t =
  cm_parent_id :: kc_ipa_str_ref_t
  cm_node_id :: kc_ipa_str_ref_t
  cm_emit_key :: kc_ipa_str_ref_t
  cm_emit_val :: kc_ipa_str_ref_t

text \<open>A string reference is two adjacent words, the offset and the length, in every record; the header
  of an embedding (\<open>kc_ipa_emb_hdr_t\<close>) is just one.\<close>

type_synonym kc_ipa_emb_hdr_t = kc_ipa_str_ref_t

definition ref_words :: "kc_ipa_str_ref_t \<Rightarrow> u32 list" where
  "ref_words r = [ref_off r, ref_len r]"

definition node_meta_words :: "kc_ipa_node_meta_t \<Rightarrow> u32 list" where
  "node_meta_words m =
     ref_words (nm_node_id m) @ ref_words (nm_emit_key m) @ ref_words (nm_emit_val m) @ [nm_has_children m]"

definition child_meta_words :: "kc_ipa_child_meta_t \<Rightarrow> u32 list" where
  "child_meta_words m =
     ref_words (cm_parent_id m) @ ref_words (cm_node_id m) @ ref_words (cm_emit_key m) @ ref_words (cm_emit_val m)"

definition hdr_words :: "kc_ipa_file_hdr_t \<Rightarrow> u32 list" where
  "hdr_words h =
     [h_version h, h_file_size h, h_strtab_off h, h_strtab_size h]
     @ ref_words (h_id h) @ ref_words (h_vendor h) @ ref_words (h_schemaver h)
     @ [h_node_threshold h, h_min_ngram h, h_max_ngram h, h_emb_dim h,
        h_node_emb_off h, h_node_emb_count h, h_child_emb_off h, h_child_emb_count h,
        h_node_meta_off h, h_node_meta_count h, h_child_meta_off h, h_child_meta_count h]"

definition hdr_bytes :: "kc_ipa_file_hdr_t \<Rightarrow> string" where
  "hdr_bytes h = h_magic h @ le32s (hdr_words h)"

abbreviation (input) sizeof_file_hdr :: nat where "sizeof_file_hdr \<equiv> 92"
abbreviation (input) sizeof_emb_hdr :: nat where "sizeof_emb_hdr \<equiv> 8"
abbreviation (input) sizeof_node_meta :: nat where "sizeof_node_meta \<equiv> 28"
abbreviation (input) sizeof_child_meta :: nat where "sizeof_child_meta \<equiv> 32"
abbreviation (input) KC_IPA_MAGIC :: string where "KC_IPA_MAGIC \<equiv> ''KIPA''"
abbreviation (input) KC_IPA_FMT_VERSION :: u32 where "KC_IPA_FMT_VERSION \<equiv> 1"

subsection \<open>Parameters\<close>

datatype ipa_status = KC_IPA_OK | KC_IPA_ERROR | KC_IPA_EFORMAT

record embedder =
  em_dim :: int
  em_exec :: "string \<Rightarrow> u32 list option"

text \<open>An opened input file: whether \<open>fseek\<close> succeeds, what \<open>ftell\<close> answers at the end, and the bytes
  that \<open>fread\<close> can deliver.\<close>

record input_file =
  in_seek :: bool
  in_tell :: int
  in_bytes :: string

subsection \<open>Collecting strings\<close>

text \<open>\<open>strlen\<close> of a pointer that may be null.\<close>

definition c_string :: "string option \<Rightarrow> build_stop + string" where
  "c_string s = (case s of None \<Rightarrow> Inl Null_String | Some t \<Rightarrow> Inr t)"

definition add_string ::
    "allocator \<Rightarrow> kc_ipa_strtab_t \<Rightarrow> string option \<Rightarrow> build_stop + kc_ipa_strtab_t \<times> kc_ipa_str_ref_t" where
  "add_string alloc st s = sum_bind (c_string s) (kc_ipa_strtab_add alloc st)"

text \<open>The labels of the embeddings: \<open>node_emb_label\<close>, \<open>child_emb_label\<close> and \<open>child_parent_id\<close>.\<close>

record label_state =
  lb_strtab :: kc_ipa_strtab_t
  lb_node :: "kc_ipa_str_ref_t list"
  lb_child :: "kc_ipa_str_ref_t list"
  lb_parent :: "kc_ipa_str_ref_t list"

definition node_label :: "allocator \<Rightarrow> kc_ipa_node_def \<Rightarrow> label_state \<Rightarrow> build_stop + label_state" where
  "node_label alloc nd lb =
     sum_bind (add_string alloc (lb_strtab lb) (nd_id nd))
       (\<lambda>(st, r). Inr (lb\<lparr>lb_strtab := st, lb_node := lb_node lb @ [r]\<rparr>))"

definition child_label ::
    "allocator \<Rightarrow> kc_ipa_node_def \<Rightarrow> kc_ipa_node_def \<Rightarrow> label_state \<Rightarrow> build_stop + label_state" where
  "child_label alloc nd ch lb =
     sum_bind (add_string alloc (lb_strtab lb) (nd_id ch)) (\<lambda>(st, r).
     sum_bind (add_string alloc st (nd_id nd)) (\<lambda>(st', r').
       Inr (lb\<lparr>lb_strtab := st', lb_child := lb_child lb @ [r], lb_parent := lb_parent lb @ [r']\<rparr>)))"

definition label_node :: "allocator \<Rightarrow> kc_ipa_node_def \<Rightarrow> label_state \<Rightarrow> build_stop + label_state" where
  "label_node alloc nd lb =
     sum_bind (fold_res (\<lambda>_. node_label alloc nd) (nd_descriptions nd) lb)
       (fold_res (\<lambda>ch. fold_res (\<lambda>_. child_label alloc nd ch) (nd_descriptions ch)) (nd_children nd))"

text \<open>The metadata rows: one per emit, or a single row without emit for a node that has none.\<close>

record meta_state =
  mt_strtab :: kc_ipa_strtab_t
  mt_node :: "kc_ipa_node_meta_t list"
  mt_child :: "kc_ipa_child_meta_t list"

definition emit_rounds :: "kc_ipa_node_def \<Rightarrow> kc_ipa_emit_def_t option list" where
  "emit_rounds nd = (if nd_emits nd = [] then [None] else map Some (nd_emits nd))"

abbreviation (input) no_ref :: kc_ipa_str_ref_t where "no_ref \<equiv> \<lparr>ref_off = 0, ref_len = 0\<rparr>"

definition add_emit ::
    "allocator \<Rightarrow> kc_ipa_strtab_t \<Rightarrow> kc_ipa_emit_def_t option
       \<Rightarrow> build_stop + kc_ipa_strtab_t \<times> kc_ipa_str_ref_t \<times> kc_ipa_str_ref_t" where
  "add_emit alloc st eo =
     (case eo of
        None \<Rightarrow> Inr (st, no_ref, no_ref)
      | Some e \<Rightarrow>
          sum_bind (kc_ipa_strtab_add alloc st (ed_key e)) (\<lambda>(st1, k).
          sum_bind (kc_ipa_strtab_add alloc st1 (ed_value e)) (\<lambda>(st2, v). Inr (st2, k, v))))"

definition node_meta_row ::
    "allocator \<Rightarrow> kc_ipa_node_def \<Rightarrow> kc_ipa_emit_def_t option \<Rightarrow> meta_state \<Rightarrow> build_stop + meta_state" where
  "node_meta_row alloc nd eo mt =
     sum_bind (add_string alloc (mt_strtab mt) (nd_id nd)) (\<lambda>(st, nid).
     sum_bind (add_emit alloc st eo) (\<lambda>(st', k, v).
       Inr (mt\<lparr>mt_strtab := st',
               mt_node := mt_node mt @ [\<lparr>nm_node_id = nid, nm_emit_key = k, nm_emit_val = v,
                                        nm_has_children = (if nd_children nd = [] then 0 else 1)\<rparr>]\<rparr>)))"

definition child_meta_row ::
    "allocator \<Rightarrow> kc_ipa_node_def \<Rightarrow> kc_ipa_node_def \<Rightarrow> kc_ipa_emit_def_t option \<Rightarrow> meta_state
       \<Rightarrow> build_stop + meta_state" where
  "child_meta_row alloc nd ch eo mt =
     sum_bind (add_string alloc (mt_strtab mt) (nd_id nd)) (\<lambda>(st, pid).
     sum_bind (add_string alloc st (nd_id ch)) (\<lambda>(st', cid).
     sum_bind (add_emit alloc st' eo) (\<lambda>(st'', k, v).
       Inr (mt\<lparr>mt_strtab := st'',
               mt_child := mt_child mt @ [\<lparr>cm_parent_id = pid, cm_node_id = cid, cm_emit_key = k, cm_emit_val = v\<rparr>]\<rparr>))))"

definition meta_node :: "allocator \<Rightarrow> kc_ipa_node_def \<Rightarrow> meta_state \<Rightarrow> build_stop + meta_state" where
  "meta_node alloc nd mt =
     sum_bind (fold_res (node_meta_row alloc nd) (emit_rounds nd) mt)
       (fold_res (\<lambda>ch. fold_res (child_meta_row alloc nd ch) (emit_rounds ch)) (nd_children nd))"

subsection \<open>Writing the tables\<close>

text \<open>The buffer and the index into the scratch array that the loop reads.\<close>

definition write_embedding ::
    "allocator \<Rightarrow> embedder \<Rightarrow> kc_ipa_str_ref_t list \<Rightarrow> string \<Rightarrow> kc_ipa_wbuf_t \<times> nat
       \<Rightarrow> build_stop + kc_ipa_wbuf_t \<times> nat" where
  "write_embedding alloc em labels desc s =
     (case s of (buf, ie) \<Rightarrow>
        case em_exec em desc of
          None \<Rightarrow> Inl Refused
        | Some vec \<Rightarrow>
            sum_bind (fetch Outside labels ie) (\<lambda>r.
            sum_bind (kc_ipa_wbuf_append alloc buf (le32s (ref_words r))) (\<lambda>buf1.
            sum_bind (kc_ipa_wbuf_append alloc buf1 (le32s vec)) (\<lambda>buf2. Inr (buf2, ie + 1)))))"

definition write_node_embeddings ::
    "allocator \<Rightarrow> embedder \<Rightarrow> kc_ipa_str_ref_t list \<Rightarrow> kc_ipa_node_def list \<Rightarrow> kc_ipa_wbuf_t
       \<Rightarrow> build_stop + kc_ipa_wbuf_t \<times> nat" where
  "write_node_embeddings alloc em labels nodes buf =
     fold_res (\<lambda>nd. fold_res (write_embedding alloc em labels) (nd_descriptions nd)) nodes (buf, 0)"

definition write_child_embeddings ::
    "allocator \<Rightarrow> embedder \<Rightarrow> kc_ipa_str_ref_t list \<Rightarrow> kc_ipa_node_def list \<Rightarrow> kc_ipa_wbuf_t
       \<Rightarrow> build_stop + kc_ipa_wbuf_t \<times> nat" where
  "write_child_embeddings alloc em labels nodes buf =
     fold_res (\<lambda>nd. fold_res (\<lambda>ch. fold_res (write_embedding alloc em labels) (nd_descriptions ch)) (nd_children nd))
       nodes (buf, 0)"

definition write_row ::
    "allocator \<Rightarrow> ('m \<Rightarrow> u32 list) \<Rightarrow> 'm list \<Rightarrow> kc_ipa_wbuf_t \<times> nat \<Rightarrow> build_stop + kc_ipa_wbuf_t \<times> nat" where
  "write_row alloc words rows s =
     (case s of (buf, ni) \<Rightarrow>
        sum_bind (fetch Outside rows ni) (\<lambda>m.
        sum_bind (kc_ipa_wbuf_append alloc buf (le32s (words m))) (\<lambda>buf1. Inr (buf1, ni + 1))))"

definition write_node_metas ::
    "allocator \<Rightarrow> kc_ipa_node_meta_t list \<Rightarrow> kc_ipa_node_def list \<Rightarrow> kc_ipa_wbuf_t
       \<Rightarrow> build_stop + kc_ipa_wbuf_t \<times> nat" where
  "write_node_metas alloc rows nodes buf =
     fold_res (\<lambda>nd. fold_res (\<lambda>_. write_row alloc node_meta_words rows) (emit_rounds nd)) nodes (buf, 0)"

definition write_child_metas ::
    "allocator \<Rightarrow> kc_ipa_child_meta_t list \<Rightarrow> kc_ipa_node_def list \<Rightarrow> kc_ipa_wbuf_t
       \<Rightarrow> build_stop + kc_ipa_wbuf_t \<times> nat" where
  "write_child_metas alloc rows nodes buf =
     fold_res (\<lambda>nd. fold_res (\<lambda>ch. fold_res (\<lambda>_. write_row alloc child_meta_words rows) (emit_rounds ch)) (nd_children nd))
       nodes (buf, 0)"

subsection \<open>The whole compilation\<close>

definition total_node_emb :: "kc_ipa_node_def list \<Rightarrow> nat" where
  "total_node_emb nodes = sum_list (map (\<lambda>nd. length (nd_descriptions nd)) nodes)"

definition total_child_emb :: "kc_ipa_node_def list \<Rightarrow> nat" where
  "total_child_emb nodes = sum_list (map (\<lambda>nd. total_node_emb (nd_children nd)) nodes)"

definition total_node_meta :: "kc_ipa_node_def list \<Rightarrow> nat" where
  "total_node_meta nodes = sum_list (map (\<lambda>nd. length (emit_rounds nd)) nodes)"

definition total_child_meta :: "kc_ipa_node_def list \<Rightarrow> nat" where
  "total_child_meta nodes = sum_list (map (\<lambda>nd. total_node_meta (nd_children nd)) nodes)"

definition require :: "bool \<Rightarrow> build_stop + unit" where
  "require b = (if b then Inr () else Inl Refused)"

definition text_or_empty :: "string option \<Rightarrow> string" where
  "text_or_empty s = (case s of None \<Rightarrow> [] | Some t \<Rightarrow> t)"

text \<open>The strings: identification, labels, metadata.\<close>

definition collect_strings ::
    "allocator \<Rightarrow> kc_ipa_manifest_t \<Rightarrow> kc_ipa_strtab_t
       \<Rightarrow> build_stop + (kc_ipa_str_ref_t \<times> kc_ipa_str_ref_t \<times> kc_ipa_str_ref_t) \<times> label_state \<times> meta_state" where
  "collect_strings alloc m st =
     sum_bind (require (alloc ((total_node_emb (m_nodes m) + 1) * 8) \<and> alloc ((total_child_emb (m_nodes m) + 1) * 8))) (\<lambda>_.
     sum_bind (kc_ipa_strtab_add alloc st (text_or_empty (m_id m))) (\<lambda>(st1, i).
     sum_bind (kc_ipa_strtab_add alloc st1 (text_or_empty (m_vendor m))) (\<lambda>(st2, vnd).
     sum_bind (kc_ipa_strtab_add alloc st2 (text_or_empty (m_version m))) (\<lambda>(st3, ver).
     sum_bind (fold_res (label_node alloc) (m_nodes m) \<lparr>lb_strtab = st3, lb_node = [], lb_child = [], lb_parent = []\<rparr>) (\<lambda>lb.
     sum_bind (require (alloc ((total_node_meta (m_nodes m) + 1) * 28) \<and> alloc ((total_child_meta (m_nodes m) + 1) * 32))) (\<lambda>_.
     sum_bind (fold_res (meta_node alloc) (m_nodes m) \<lparr>mt_strtab = lb_strtab lb, mt_node = [], mt_child = []\<rparr>) (\<lambda>mt.
       Inr ((i, vnd, ver), lb, mt))))))))"

definition build_image ::
    "allocator \<Rightarrow> embedder \<Rightarrow> kc_ipa_manifest_t \<Rightarrow> build_stop + string" where
  "build_image alloc em m =
     sum_bind (kc_ipa_strtab_init alloc) (\<lambda>st0.
     sum_bind (kc_ipa_wbuf_init alloc) (\<lambda>buf0.
     sum_bind (kc_ipa_wbuf_append alloc buf0 (replicate sizeof_file_hdr NUL)) (\<lambda>buf1.
     sum_bind (collect_strings alloc m st0) (\<lambda>((i, vnd, ver), lb, mt).
     sum_bind (kc_ipa_wbuf_append alloc buf1 (st_data (mt_strtab mt))) (\<lambda>buf2.
     sum_bind (write_node_embeddings alloc em (lb_node lb) (m_nodes m) buf2) (\<lambda>(buf3, _).
     sum_bind (write_child_embeddings alloc em (lb_child lb) (m_nodes m) buf3) (\<lambda>(buf4, _).
     sum_bind (write_node_metas alloc (mt_node mt) (m_nodes m) buf4) (\<lambda>(buf5, node_meta_cnt).
     sum_bind (write_child_metas alloc (mt_child mt) (m_nodes m) buf5) (\<lambda>(buf6, child_meta_cnt).
       let hdr = \<lparr>h_magic = KC_IPA_MAGIC, h_version = KC_IPA_FMT_VERSION,
                  h_file_size = of_nat (wb_size buf6),
                  h_strtab_off = of_nat (wb_size buf1), h_strtab_size = of_nat (st_size (mt_strtab mt)),
                  h_id = i, h_vendor = vnd, h_schemaver = ver,
                  h_node_threshold = m_node_threshold m,
                  h_min_ngram = of_int (m_min_ngram m), h_max_ngram = of_int (m_max_ngram m),
                  h_emb_dim = of_int (em_dim em),
                  h_node_emb_off = of_nat (wb_size buf2), h_node_emb_count = of_nat (total_node_emb (m_nodes m)),
                  h_child_emb_off = of_nat (wb_size buf3), h_child_emb_count = of_nat (total_child_emb (m_nodes m)),
                  h_node_meta_off = of_nat (wb_size buf4), h_node_meta_count = of_nat node_meta_cnt,
                  h_child_meta_off = of_nat (wb_size buf5), h_child_meta_count = of_nat child_meta_cnt\<rparr>
       in Inr (hdr_bytes hdr @ drop sizeof_file_hdr (wb_data buf6)))))))))))"

text \<open>\<open>fopen\<close>, \<open>fseek\<close>, \<open>ftell\<close> and \<open>fread\<close> of the schema file.\<close>

definition read_schema :: "allocator \<Rightarrow> input_file option \<Rightarrow> ipa_status + string" where
  "read_schema alloc fin =
     (case fin of
        None \<Rightarrow> Inl KC_IPA_ERROR
      | Some f \<Rightarrow>
          if \<not> in_seek f then Inl KC_IPA_ERROR
          else if in_tell f \<le> 0 then Inl KC_IPA_EFORMAT
          else if \<not> alloc (nat (in_tell f) + 1) then Inl KC_IPA_ERROR
          else let json_text = take (nat (in_tell f)) (in_bytes f)
               in if length json_text \<noteq> nat (in_tell f) then Inl KC_IPA_ERROR else Inr json_text)"

text \<open>\<open>fout\<close> is \<open>None\<close> when the output cannot be opened, else the number of bytes \<open>fwrite\<close> can place.
  The result is the status and what the output file holds, \<open>None\<close> when it was not opened.\<close>

definition write_image :: "nat option \<Rightarrow> string \<Rightarrow> ipa_status \<times> string option" where
  "write_image fout data =
     (case fout of
        None \<Rightarrow> (KC_IPA_ERROR, None)
      | Some n \<Rightarrow>
          if length data \<le> n then (KC_IPA_OK, Some data) else (KC_IPA_ERROR, Some (take n data)))"

definition kc_ipa_build ::
    "allocator \<Rightarrow> fp_env \<Rightarrow> embedder option \<Rightarrow> input_file option \<Rightarrow> nat option
       \<Rightarrow> build_stop + ipa_status \<times> string option" where
  "kc_ipa_build alloc fp emb fin fout =
     (case read_schema alloc fin of
        Inl rc \<Rightarrow> Inr (rc, None)
      | Inr json_text \<Rightarrow>
          case kc_ipa_parse_manifest alloc fp json_text 0 of
            Inl _ \<Rightarrow> Inr (KC_IPA_EFORMAT, None)
          | Inr (m, _) \<Rightarrow>
              if kc_ipa_validate_manifest m \<noteq> None then Inr (KC_IPA_EFORMAT, None)
              else case emb of
                     None \<Rightarrow> Inr (KC_IPA_ERROR, None)
                   | Some em \<Rightarrow>
                       if em_dim em \<le> 0 \<or> \<not> alloc (nat (em_dim em) * 4) then Inr (KC_IPA_ERROR, None)
                       else case build_image alloc em m of
                              Inl Refused \<Rightarrow> Inr (KC_IPA_ERROR, None)
                            | Inl stop \<Rightarrow> Inl stop
                            | Inr data \<Rightarrow> Inr (write_image fout data))"

end
