(* ===== verification/Mmap.thy ===== *)
theory Mmap
  imports Prelude
begin

section \<open>Read-only file mappings (lib/libmmap.c, lib/mmap.h)\<close>

text \<open>
  The POSIX branch of the mapping library over an explicit operating-system state: the open
  descriptors and the live mappings (address to bytes). What \<open>open\<close>, \<open>fstat\<close> and \<open>mmap\<close> answer is the
  parameter \<open>sys_calls\<close>; that they hand out fresh descriptors and addresses is a hypothesis where it
  is needed. The Windows branch is not modelled, and \<open>priv1\<close>, \<open>priv2\<close> are only used there.
\<close>

subsection \<open>State and operations\<close>

datatype mmap_status = KC_MMAP_OK | KC_MMAP_ERROR

record kc_mmap =
  mm_data :: "nat option"
  mm_size :: nat
  mm_fd :: int

record os_state =
  os_fds :: "int set"
  os_maps :: "nat \<rightharpoonup> string"

record sys_calls =
  sys_open :: "string \<Rightarrow> int"
  sys_fstat :: "int \<Rightarrow> nat option"
  sys_mmap :: "int \<Rightarrow> nat \<Rightarrow> nat option"
  sys_bytes :: "int \<Rightarrow> string"

definition sys_close :: "int \<Rightarrow> os_state \<Rightarrow> os_state" where
  "sys_close fd os = os\<lparr>os_fds := os_fds os - {fd}\<rparr>"

definition no_map :: kc_mmap where
  "no_map = \<lparr>mm_data = None, mm_size = 0, mm_fd = -1\<rparr>"

definition kc_mmap_open ::
    "sys_calls \<Rightarrow> kc_mmap option \<Rightarrow> string option \<Rightarrow> os_state \<Rightarrow> mmap_status \<times> kc_mmap option \<times> os_state" where
  "kc_mmap_open sys mp path os =
     (case (mp, path) of
        (Some _, Some p) \<Rightarrow>
          let fd = sys_open sys p
          in if fd < 0 then (KC_MMAP_ERROR, Some no_map, os)
             else let os1 = os\<lparr>os_fds := insert fd (os_fds os)\<rparr>
                  in case sys_fstat sys fd of
                       None \<Rightarrow> (KC_MMAP_ERROR, Some no_map, sys_close fd os1)
                     | Some st_size \<Rightarrow>
                         if st_size = 0 then (KC_MMAP_OK, Some no_map, sys_close fd os1)
                         else case sys_mmap sys fd st_size of
                                None \<Rightarrow> (KC_MMAP_ERROR, Some no_map, sys_close fd os1)
                              | Some data \<Rightarrow>
                                  (KC_MMAP_OK, Some \<lparr>mm_data = Some data, mm_size = st_size, mm_fd = fd\<rparr>,
                                   os1\<lparr>os_maps := (os_maps os1)(data \<mapsto> take st_size (sys_bytes sys fd))\<rparr>)
      | _ \<Rightarrow> (KC_MMAP_ERROR, mp, os))"

definition kc_mmap_data :: "kc_mmap option \<Rightarrow> nat option" where
  "kc_mmap_data mp = (case mp of None \<Rightarrow> None | Some m \<Rightarrow> mm_data m)"

definition kc_mmap_size :: "kc_mmap option \<Rightarrow> nat" where
  "kc_mmap_size mp = (case mp of None \<Rightarrow> 0 | Some m \<Rightarrow> mm_size m)"

definition kc_mmap_close :: "kc_mmap option \<Rightarrow> os_state \<Rightarrow> kc_mmap option \<times> os_state" where
  "kc_mmap_close mp os =
     (case mp of
        None \<Rightarrow> (None, os)
      | Some m \<Rightarrow>
          let os1 = (case mm_data m of None \<Rightarrow> os | Some a \<Rightarrow> os\<lparr>os_maps := (os_maps os)(a := None)\<rparr>);
              os2 = (if mm_fd m \<ge> 0 then sys_close (mm_fd m) os1 else os1)
          in (Some no_map, os2))"

subsection \<open>The interface\<close>

text \<open>What a client of a resource with an open and a close operation relies on: a failed open
  changes nothing, a successful one is undone by a close, and a second close does nothing.\<close>

locale resource =
  fixes acquire :: "'s \<Rightarrow> bool \<times> 'h \<times> 's" and release :: "'h \<Rightarrow> 's \<Rightarrow> 'h \<times> 's" and legal :: "'s \<Rightarrow> bool"
  assumes failed: "legal s \<Longrightarrow> acquire s = (False, h, s') \<Longrightarrow> s' = s"
    and undone: "legal s \<Longrightarrow> acquire s = (ok, h, s') \<Longrightarrow> snd (release h s') = s"
    and idle: "release h s = (h', s') \<Longrightarrow> release h' t = (h', t)"
begin

text \<open>A client that acquires, does something that leaves the resource's state alone and releases,
  however often it releases, leaves the state as it was.\<close>

lemma balanced:
  assumes "legal s" "acquire s = (ok, h, s')"
  shows "snd (case release h s' of (h1, s1) \<Rightarrow> release h1 s1) = s"
proof -
  obtain h1 s1 where r: "release h s' = (h1, s1)" by fastforce
  with undone [OF assms] have "s1 = s" by simp
  with idle [OF r] r show ?thesis by simp
qed

lemma balanced_many:
  assumes "legal s"
  shows "((\<lambda>s. case acquire s of (ok, h, s') \<Rightarrow> snd (release h s')) ^^ n) s = s"
proof (induction n)
  case (Suc n)
  obtain ok h s' where "acquire s = (ok, h, s')" by (metis prod_cases3)
  with undone [OF assms this] Suc show ?case by simp
qed simp

end

text \<open>Fresh descriptors and addresses.\<close>

definition fresh_calls :: "sys_calls \<Rightarrow> string \<Rightarrow> os_state \<Rightarrow> bool" where
  "fresh_calls sys p os \<longleftrightarrow> sys_open sys p \<notin> os_fds os \<and>
     (\<forall>n a. sys_mmap sys (sys_open sys p) n = Some a \<longrightarrow> os_maps os a = None)"

definition mmap_acquire :: "sys_calls \<Rightarrow> string \<Rightarrow> os_state \<Rightarrow> bool \<times> kc_mmap option \<times> os_state" where
  "mmap_acquire sys p os = (case kc_mmap_open sys (Some no_map) (Some p) os of (rc, h, os') \<Rightarrow> (rc = KC_MMAP_OK, h, os'))"

lemma upd_fds [simp]: "os\<lparr>os_fds := os_fds os\<rparr> = os" "os\<lparr>os_fds := F, os_maps := os_maps os\<rparr> = os\<lparr>os_fds := F\<rparr>"
  by simp_all

interpretation mapping: resource "mmap_acquire sys p" kc_mmap_close "fresh_calls sys p"
proof (unfold_locales, goal_cases)
  case (1 os h os')
  then show ?case
    by (auto simp: mmap_acquire_def kc_mmap_open_def sys_close_def fresh_calls_def Let_def
        split: prod.splits if_splits option.splits)
next
  case (2 os ok h os')
  have "(os_maps os)(a := None) = os_maps os" if "sys_mmap sys (sys_open sys p) n = Some a" for a n
    using 2(1) that by (auto simp: fresh_calls_def)
  with 2 show ?case
    by (auto simp: mmap_acquire_def kc_mmap_open_def kc_mmap_close_def sys_close_def fresh_calls_def no_map_def Let_def
        split: prod.splits if_splits option.splits)
next
  case (3 h s h' s' t)
  then show ?case
    by (auto simp: kc_mmap_close_def no_map_def Let_def split: option.splits)
qed

text \<open>Mapping a file leaks nothing: when the descriptor and the address that the system hands out
  are fresh, a failed open leaves the operating-system state as it was, a successful one maps exactly
  the bytes of the file (or nothing for an empty file) under the reported size, and closing the
  handle, once or twice, restores the state.\<close>

lemma mmap_open_close_balanced:
  assumes "fresh_calls sys p os" "kc_mmap_open sys (Some m0) (Some p) os = (rc, h, os')"
  shows "(rc = KC_MMAP_ERROR \<longrightarrow> os' = os) \<and> snd (kc_mmap_close h os') = os \<and>
    snd (case kc_mmap_close h os' of (h1, os1) \<Rightarrow> kc_mmap_close h1 os1) = os \<and>
    (\<forall>a. kc_mmap_data h = Some a \<longrightarrow> rc = KC_MMAP_OK \<and> sys_open sys p \<in> os_fds os' \<and>
       os_maps os' a = Some (take (kc_mmap_size h) (sys_bytes sys (sys_open sys p))))"
proof -
  have a: "mmap_acquire sys p os = (rc = KC_MMAP_OK, h, os')"
    using assms(2) by (simp add: mmap_acquire_def kc_mmap_open_def)
  have "rc = KC_MMAP_ERROR \<longrightarrow> os' = os"
    using mapping.failed [OF assms(1)] a by (cases rc) auto
  moreover have "\<forall>a. kc_mmap_data h = Some a \<longrightarrow> rc = KC_MMAP_OK \<and> sys_open sys p \<in> os_fds os' \<and>
       os_maps os' a = Some (take (kc_mmap_size h) (sys_bytes sys (sys_open sys p)))"
    using assms(2)
    by (auto simp: kc_mmap_open_def kc_mmap_data_def kc_mmap_size_def no_map_def Let_def
        split: if_splits option.splits)
  ultimately show ?thesis
    using mapping.undone [OF assms(1) a] mapping.balanced [OF assms(1) a] by blast
qed

definition sample_sys :: sys_calls where
  "sample_sys = \<lparr>sys_open = (\<lambda>_. 3), sys_fstat = (\<lambda>_. Some 2), sys_mmap = (\<lambda>_ _. Some 4096), sys_bytes = (\<lambda>_. ''ab'')\<rparr>"

lemma mmap_open_close_balanced_witness:
  "\<exists>h os'. kc_mmap_open sample_sys (Some no_map) (Some ''f'') \<lparr>os_fds = {0, 1, 2}, os_maps = Map.empty\<rparr> = (KC_MMAP_OK, h, os') \<and>
     os_maps os' 4096 = Some ''ab'' \<and> snd (kc_mmap_close h os') = \<lparr>os_fds = {0, 1, 2}, os_maps = Map.empty\<rparr>"
proof -
  let ?os = "\<lparr>os_fds = {0, 1, 2}, os_maps = Map.empty\<rparr>"
  let ?h = "Some \<lparr>mm_data = Some 4096, mm_size = 2, mm_fd = 3\<rparr>"
  have o: "kc_mmap_open sample_sys (Some no_map) (Some ''f'') ?os =
      (KC_MMAP_OK, ?h, \<lparr>os_fds = {3, 0, 1, 2}, os_maps = [4096 \<mapsto> ''ab'']\<rparr>)"
    by (simp add: kc_mmap_open_def sample_sys_def)
  have "fresh_calls sample_sys ''f'' ?os" by (simp add: fresh_calls_def sample_sys_def)
  from mmap_open_close_balanced [OF this o] o show ?thesis by auto
qed

end
