(* ===== verification/Options.thy ===== *)
theory Options
  imports Floats
begin

section \<open>Options and environment overrides (src/libipa.c: kc\_ipa\_options\_*)\<close>

text \<open>
  The options record, its defaults and the table of environment variables that override it. The
  source writes through the offset of a table entry; here an entry carries the write itself, which
  takes the value that the branch of its type produces. The table has one entry today; the loader is
  modelled for every table.
\<close>

datatype kc_env_type_t = KC_ENV_TYPE_INT | KC_ENV_TYPE_FLOAT | KC_ENV_TYPE_STR

record kc_ipa_options_t =
  schema_path :: "string option"

datatype env_value = Env_Int int | Env_Float u32 | Env_Str "string option"

record kc_env_map_t =
  env_var :: string
  env_store :: "env_value \<Rightarrow> kc_ipa_options_t \<Rightarrow> kc_ipa_options_t"
  env_type :: kc_env_type_t

definition store_schema_path :: "env_value \<Rightarrow> kc_ipa_options_t \<Rightarrow> kc_ipa_options_t" where
  "store_schema_path v opts = (case v of Env_Str s \<Rightarrow> opts\<lparr>schema_path := s\<rparr> | _ \<Rightarrow> opts)"

definition env_config_table :: "kc_env_map_t list" where
  "env_config_table = [\<lparr>env_var = ''KC_IPA_SCHEMA'', env_store = store_schema_path, env_type = KC_ENV_TYPE_STR\<rparr>]"

definition kc_ipa_options_default :: kc_ipa_options_t where
  "kc_ipa_options_default = \<lparr>schema_path = None\<rparr>"

definition strdup :: "allocator \<Rightarrow> string \<Rightarrow> string option" where
  "strdup alloc s = (if alloc (length s + 1) then Some s else None)"

text \<open>One table entry: a number is stored only when the whole value is one.\<close>

definition load_entry ::
    "allocator \<Rightarrow> fp_env \<Rightarrow> (string \<Rightarrow> string option) \<Rightarrow> kc_env_map_t \<Rightarrow> kc_ipa_options_t \<Rightarrow> kc_ipa_options_t" where
  "load_entry alloc fp getenv e opts =
     (case getenv (env_var e) of
        None \<Rightarrow> opts
      | Some val \<Rightarrow>
          (case env_type e of
             KC_ENV_TYPE_INT \<Rightarrow>
               (case strtol10 val of (v, n) \<Rightarrow>
                  if n \<noteq> 0 \<and> n = length val then env_store e (Env_Int (to_int v)) opts else opts)
           | KC_ENV_TYPE_FLOAT \<Rightarrow>
               (case strtod (fp_double fp) val of (v, n) \<Rightarrow>
                  if n \<noteq> 0 \<and> n = length val then env_store e (Env_Float (fp_float fp v)) opts else opts)
           | KC_ENV_TYPE_STR \<Rightarrow> env_store e (Env_Str (strdup alloc val)) opts))"

definition load_table ::
    "kc_env_map_t list \<Rightarrow> allocator \<Rightarrow> fp_env \<Rightarrow> (string \<Rightarrow> string option) \<Rightarrow> kc_ipa_options_t \<Rightarrow> kc_ipa_options_t" where
  "load_table table alloc fp getenv opts = fold (load_entry alloc fp getenv) table opts"

definition kc_ipa_options_load_env ::
    "allocator \<Rightarrow> fp_env \<Rightarrow> (string \<Rightarrow> string option) \<Rightarrow> kc_ipa_options_t option \<Rightarrow> kc_ipa_options_t option" where
  "kc_ipa_options_load_env alloc fp getenv opts = map_option (load_table env_config_table alloc fp getenv) opts"

definition kc_ipa_options_free :: "kc_ipa_options_t option \<Rightarrow> kc_ipa_options_t option" where
  "kc_ipa_options_free opts = map_option (\<lambda>op. op\<lparr>schema_path := None\<rparr>) opts"

lemma load_env_schema:
  "kc_ipa_options_load_env alloc fp getenv (Some opts) =
     Some (case getenv ''KC_IPA_SCHEMA'' of None \<Rightarrow> opts | Some v \<Rightarrow> opts\<lparr>schema_path := strdup alloc v\<rparr>)"
  by (simp add: kc_ipa_options_load_env_def load_table_def env_config_table_def load_entry_def store_schema_path_def
      split: option.split)

end
