(* ===== verification/Hnsw_Rank.thy ===== *)
theory Hnsw_Rank
  imports Complex_Main Prelude "HOL-Library.Multiset"
begin

section \<open>Ranking by score (lib/libhnsw.c: scores, heap, exchange sort)\<close>

text \<open>
  Everything the vector index does with scores: comparing them under a metric, the binary heap
  of scored nodes, and the exchange sort both the build and the search use. A \<open>double\<close> score is
  the real number it stands for; NaN and the infinities are outside this model. The heap is the
  list of its live cells with its capacity. Both sift loops carry a hole, as the source does, and
  write the moved element once at the end.
\<close>

subsection \<open>Metrics and scores\<close>

definition KC_HNSW_METRIC_COSINE :: int where "KC_HNSW_METRIC_COSINE = 1"
definition KC_HNSW_METRIC_INNER_PRODUCT :: int where "KC_HNSW_METRIC_INNER_PRODUCT = 2"
definition KC_HNSW_METRIC_L2 :: int where "KC_HNSW_METRIC_L2 = 3"

lemmas metric_consts = KC_HNSW_METRIC_COSINE_def KC_HNSW_METRIC_INNER_PRODUCT_def KC_HNSW_METRIC_L2_def

definition kc_hnsw_metric_valid :: "int \<Rightarrow> bool" where
  "kc_hnsw_metric_valid metric \<longleftrightarrow>
     metric = KC_HNSW_METRIC_COSINE \<or> metric = KC_HNSW_METRIC_INNER_PRODUCT \<or> metric = KC_HNSW_METRIC_L2"

definition score_better :: "int \<Rightarrow> real \<Rightarrow> real \<Rightarrow> bool" where
  "score_better metric a b = (if metric = KC_HNSW_METRIC_L2 then a < b else a > b)"

definition score_worse :: "int \<Rightarrow> real \<Rightarrow> real \<Rightarrow> bool" where
  "score_worse metric a b = (if metric = KC_HNSW_METRIC_L2 then a > b else a < b)"

definition kc_hnsw_heap_has_priority :: "int \<Rightarrow> real \<Rightarrow> real \<Rightarrow> bool \<Rightarrow> bool" where
  "kc_hnsw_heap_has_priority metric s1 s2 worst_first =
     (if worst_first then score_worse metric s1 s2 else score_better metric s1 s2)"

record kc_hnsw_node_score_t =
  ns_idx :: nat
  ns_score :: real

abbreviation (input) sizeof_node_score :: nat where "sizeof_node_score \<equiv> 16"

subsection \<open>The heap\<close>

record kc_hnsw_heap_t =
  heap_data :: "kc_hnsw_node_score_t list"
  heap_capacity :: nat
  heap_metric :: int
  heap_worst_first :: bool

definition kc_hnsw_heap_create :: "allocator \<Rightarrow> nat \<Rightarrow> int \<Rightarrow> bool \<Rightarrow> kc_hnsw_heap_t option" where
  "kc_hnsw_heap_create alloc capacity metric worst_first =
     (if \<not> alloc 32 then None
      else if \<not> alloc (capacity * sizeof_node_score) then None
      else Some \<lparr>heap_data = [], heap_capacity = capacity, heap_metric = metric,
                 heap_worst_first = worst_first\<rparr>)"

text \<open>The loop of the push: the hole moves up from \<open>i\<close> while \<open>x\<close> has priority over the parent.\<close>

function sift_up :: "('a \<Rightarrow> 'a \<Rightarrow> bool) \<Rightarrow> 'a list \<Rightarrow> nat \<Rightarrow> 'a \<Rightarrow> 'a list" where
  "sift_up before d i x =
     (if i > 0 then
        let p = (i - 1) div 2
        in if \<not> before x (d ! p) then d[i := x] else sift_up before (d[i := d ! p]) p x
      else d[i := x])"
  by pat_completeness auto
termination
  by (relation "measure (\<lambda>(b, d, i, x). i)") auto

text \<open>The child of \<open>i\<close> that goes first (\<open>i\<close> has a left child).\<close>

definition first_child :: "('a \<Rightarrow> 'a \<Rightarrow> bool) \<Rightarrow> 'a list \<Rightarrow> nat \<Rightarrow> nat" where
  "first_child before d i =
     (let c = i * 2 + 1
      in if c + 1 < length d \<and> before (d ! (c + 1)) (d ! c) then c + 1 else c)"

text \<open>The loop of the pop: the hole moves down from \<open>i\<close> while a child has priority over \<open>x\<close>.\<close>

function sift_down :: "('a \<Rightarrow> 'a \<Rightarrow> bool) \<Rightarrow> 'a list \<Rightarrow> nat \<Rightarrow> 'a \<Rightarrow> 'a list" where
  "sift_down before d i x =
     (if i * 2 + 1 < length d then
        let c = first_child before d i
        in if \<not> before (d ! c) x then d[i := x] else sift_down before (d[i := d ! c]) c x
      else d[i := x])"
  by pat_completeness auto
termination
  by (relation "measure (\<lambda>(b, d, i, x). length d - i)") (auto simp: first_child_def Let_def)

declare sift_up.simps [simp del] sift_down.simps [simp del]

definition node_before :: "int \<Rightarrow> bool \<Rightarrow> kc_hnsw_node_score_t \<Rightarrow> kc_hnsw_node_score_t \<Rightarrow> bool" where
  "node_before metric worst_first a b =
     kc_hnsw_heap_has_priority metric (ns_score a) (ns_score b) worst_first"

definition kc_hnsw_heap_push :: "allocator \<Rightarrow> kc_hnsw_heap_t \<Rightarrow> nat \<Rightarrow> real \<Rightarrow> kc_hnsw_heap_t option" where
  "kc_hnsw_heap_push alloc heap idx score =
     (let size = length (heap_data heap); x = \<lparr>ns_idx = idx, ns_score = score\<rparr>
      in case (if size = heap_capacity heap
               then let next_cap = heap_capacity heap * 2
                    in if alloc (next_cap * sizeof_node_score) then Some next_cap else None
               else Some (heap_capacity heap)) of
           None \<Rightarrow> None
         | Some cap \<Rightarrow>
             Some (heap\<lparr>heap_data := sift_up (node_before (heap_metric heap) (heap_worst_first heap))
                                       (heap_data heap @ [x]) size x,
                        heap_capacity := cap\<rparr>))"

definition kc_hnsw_heap_pop :: "kc_hnsw_heap_t \<Rightarrow> kc_hnsw_node_score_t \<times> kc_hnsw_heap_t" where
  "kc_hnsw_heap_pop heap =
     (let top = heap_data heap ! 0;
          last_el = heap_data heap ! (length (heap_data heap) - 1);
          rest = take (length (heap_data heap) - 1) (heap_data heap)
      in (top, heap\<lparr>heap_data := sift_down (node_before (heap_metric heap) (heap_worst_first heap)) rest 0 last_el\<rparr>))"

subsection \<open>The exchange sort\<close>

text \<open>\<open>for (y = x + 1; y < n; y++) if (worse(a[x], a[y])) swap(a[x], a[y]);\<close>\<close>

function exchange_inner :: "('a \<Rightarrow> 'a \<Rightarrow> bool) \<Rightarrow> nat \<Rightarrow> nat \<Rightarrow> 'a list \<Rightarrow> 'a list" where
  "exchange_inner worse x y a =
     (if y < length a then
        exchange_inner worse x (y + 1) (if worse (a ! x) (a ! y) then a[x := a ! y, y := a ! x] else a)
      else a)"
  by pat_completeness auto
termination
  by (relation "measure (\<lambda>(w, x, y, a). length a - y)") auto

declare exchange_inner.simps [simp del]

lemma length_exchange_inner [simp]: "length (exchange_inner worse x y a) = length a"
proof (induction worse x y a rule: exchange_inner.induct)
  case (1 worse x y a)
  then show ?case by (subst exchange_inner.simps) simp
qed

function exchange_outer :: "('a \<Rightarrow> 'a \<Rightarrow> bool) \<Rightarrow> nat \<Rightarrow> 'a list \<Rightarrow> 'a list" where
  "exchange_outer worse x a =
     (if x < length a then exchange_outer worse (x + 1) (exchange_inner worse x (x + 1) a) else a)"
  by pat_completeness auto

termination
  by (relation "measure (\<lambda>(w, x, a). length a - x)") auto

declare exchange_outer.simps [simp del]

definition sort_scores :: "int \<Rightarrow> kc_hnsw_node_score_t list \<Rightarrow> kc_hnsw_node_score_t list" where
  "sort_scores metric a = exchange_outer (\<lambda>p q. score_worse metric (ns_score p) (ns_score q)) 0 a"

subsection \<open>Priorities as a strict weak order\<close>

text \<open>
  What the heap and the sort need of the comparison: it never holds both ways, and an element
  between two ordered ones is ordered with one of them.
\<close>

locale priority_order =
  fixes before :: "'a \<Rightarrow> 'a \<Rightarrow> bool"
  assumes asym: "before a b \<Longrightarrow> \<not> before b a"
    and neg_trans: "before a c \<Longrightarrow> before a b \<or> before b c"
begin

lemma irrefl [simp]: "\<not> before a a"
  using asym by blast

lemma trans: "before a b \<Longrightarrow> before b c \<Longrightarrow> before a c"
  using asym neg_trans by blast

definition heap_ok :: "'a list \<Rightarrow> bool" where
  "heap_ok d \<longleftrightarrow> (\<forall>i. 0 < i \<and> i < length d \<longrightarrow> \<not> before (d ! i) (d ! ((i - 1) div 2)))"

text \<open>A heap but for a hole at \<open>i\<close> that \<open>x\<close> may fill as far as its children are concerned.\<close>

definition up_ok :: "'a list \<Rightarrow> nat \<Rightarrow> 'a \<Rightarrow> bool" where
  "up_ok d i x \<longleftrightarrow> i < length d \<and>
     (\<forall>j. 0 < j \<and> j < length d \<and> j \<noteq> i \<and> (j - 1) div 2 \<noteq> i \<longrightarrow> \<not> before (d ! j) (d ! ((j - 1) div 2))) \<and>
     (\<forall>j. 0 < j \<and> j < length d \<and> (j - 1) div 2 = i \<longrightarrow>
        \<not> before (d ! j) x \<and> (0 < i \<longrightarrow> \<not> before (d ! j) (d ! ((i - 1) div 2))))"

text \<open>The same for a hole that \<open>x\<close> may fill as far as its parent is concerned.\<close>

definition down_ok :: "'a list \<Rightarrow> nat \<Rightarrow> 'a \<Rightarrow> bool" where
  "down_ok d i x \<longleftrightarrow> i < length d \<and>
     (\<forall>j. 0 < j \<and> j < length d \<and> j \<noteq> i \<and> (j - 1) div 2 \<noteq> i \<longrightarrow> \<not> before (d ! j) (d ! ((j - 1) div 2))) \<and>
     (0 < i \<longrightarrow> \<not> before x (d ! ((i - 1) div 2)) \<and>
        (\<forall>j. 0 < j \<and> j < length d \<and> (j - 1) div 2 = i \<longrightarrow> \<not> before (d ! j) (d ! ((i - 1) div 2))))"

lemma up_ok_fill:
  assumes "up_ok d i x" and "i = 0 \<or> \<not> before x (d ! ((i - 1) div 2))"
  shows "heap_ok (d[i := x])"
  unfolding heap_ok_def
proof (intro allI impI)
  fix j assume j: "0 < j \<and> j < length (d[i := x])"
  then have "(j - 1) div 2 \<noteq> j" by linarith
  with j assms show "\<not> before (d[i := x] ! j) (d[i := x] ! ((j - 1) div 2))"
    by (cases "j = i"; cases "(j - 1) div 2 = i") (auto simp: up_ok_def)
qed

lemma up_ok_step:
  assumes ok: "up_ok d i x" and "0 < i" and bef: "before x (d ! ((i - 1) div 2))"
  shows "up_ok (d[i := d ! ((i - 1) div 2)]) ((i - 1) div 2) x"
proof -
  let ?p = "(i - 1) div 2"
  let ?d = "d[i := d ! ?p]"
  have p: "?p < i" "i < length d" using assms by (auto simp: up_ok_def)
  have heap: "\<not> before (d ! j) (d ! ((j - 1) div 2))" if "0 < j" "j < length d" "j \<noteq> i" "(j - 1) div 2 \<noteq> i" for j
    using ok that by (auto simp: up_ok_def)
  have kids: "\<not> before (d ! j) (d ! ?p)" if "0 < j" "j < length d" "(j - 1) div 2 = i" for j
    using ok that \<open>0 < i\<close> by (auto simp: up_ok_def)
  show ?thesis
    unfolding up_ok_def
  proof (intro conjI allI impI)
    show "?p < length ?d" using p by simp
  next
    fix j assume j: "0 < j \<and> j < length ?d \<and> j \<noteq> ?p \<and> (j - 1) div 2 \<noteq> ?p"
    then have "j \<noteq> i" by auto
    then show "\<not> before (?d ! j) (?d ! ((j - 1) div 2))"
      using j p heap [of j] kids [of j] by (cases "(j - 1) div 2 = i") auto
  next
    fix j assume j: "0 < j \<and> j < length ?d \<and> (j - 1) div 2 = ?p"
    show "\<not> before (?d ! j) x"
    proof (cases "j = i")
      case True
      with p show ?thesis using asym [OF bef] by simp
    next
      case False
      with j p have "\<not> before (d ! j) (d ! ?p)" using heap [of j] by auto
      with False show ?thesis using trans [OF _ bef, of "d ! j"] by auto
    qed
  next
    fix j assume j: "0 < j \<and> j < length ?d \<and> (j - 1) div 2 = ?p" and "0 < ?p"
    have pp: "\<not> before (d ! ?p) (d ! ((?p - 1) div 2))" using \<open>0 < ?p\<close> p by (intro heap) auto
    have "(?p - 1) div 2 \<noteq> i" using p by linarith
    then show "\<not> before (?d ! j) (?d ! ((?p - 1) div 2))"
      using j p pp heap [of j] neg_trans [of "d ! j" "d ! ((?p - 1) div 2)" "d ! ?p"] by (cases "j = i") auto
  qed
qed

lemma sift_up_heap: "up_ok d i x \<Longrightarrow> heap_ok (sift_up before d i x)"
proof (induction i arbitrary: d rule: less_induct)
  case (less i)
  show ?case
  proof (cases "0 < i \<and> before x (d ! ((i - 1) div 2))")
    case True
    then have "(i - 1) div 2 < i" by auto
    with True less up_ok_step show ?thesis
      by (subst sift_up.simps) (simp add: Let_def)
  next
    case False
    with less.prems up_ok_fill [of d i x] show ?thesis
      by (subst sift_up.simps) (auto simp: Let_def)
  qed
qed

lemma down_ok_fill:
  assumes "down_ok d i x"
    and "\<And>j. 0 < j \<Longrightarrow> j < length d \<Longrightarrow> (j - 1) div 2 = i \<Longrightarrow> \<not> before (d ! j) x"
  shows "heap_ok (d[i := x])"
  unfolding heap_ok_def
proof (intro allI impI)
  fix j assume j: "0 < j \<and> j < length (d[i := x])"
  then have "(j - 1) div 2 \<noteq> j" by linarith
  with j assms show "\<not> before (d[i := x] ! j) (d[i := x] ! ((j - 1) div 2))"
    by (cases "j = i"; cases "(j - 1) div 2 = i") (auto simp: down_ok_def)
qed

lemma down_ok_step:
  assumes ok: "down_ok d i x" and c: "c < length d" "0 < c" "(c - 1) div 2 = i" and bef: "before (d ! c) x"
    and best: "\<And>j. 0 < j \<Longrightarrow> j < length d \<Longrightarrow> (j - 1) div 2 = i \<Longrightarrow> \<not> before (d ! j) (d ! c)"
  shows "down_ok (d[i := d ! c]) c x"
proof -
  let ?d = "d[i := d ! c]"
  have i: "i < c" "i < length d" using c by auto
  have heap: "\<not> before (d ! j) (d ! ((j - 1) div 2))" if "0 < j" "j < length d" "j \<noteq> i" "(j - 1) div 2 \<noteq> i" for j
    using ok that by (auto simp: down_ok_def)
  show ?thesis
    unfolding down_ok_def
  proof (intro conjI allI impI)
    show "c < length ?d" using c by simp
  next
    fix j assume j: "0 < j \<and> j < length ?d \<and> j \<noteq> c \<and> (j - 1) div 2 \<noteq> c"
    consider "j = i" | "j \<noteq> i" "(j - 1) div 2 = i" | "j \<noteq> i" "(j - 1) div 2 \<noteq> i" by blast
    then show "\<not> before (?d ! j) (?d ! ((j - 1) div 2))"
    proof cases
      case 1
      moreover from 1 j have "(j - 1) div 2 \<noteq> i" by linarith
      moreover have "\<not> before (d ! c) (d ! ((i - 1) div 2))"
        using ok c j 1 by (auto simp: down_ok_def)
      ultimately show ?thesis using i by simp
    next
      case 2
      with j i best [of j] show ?thesis by simp
    next
      case 3
      with j heap [of j] show ?thesis by simp
    qed
  next
    show "\<not> before x (?d ! ((c - 1) div 2))" using asym [OF bef] c i by simp
  next
    fix j assume j: "0 < j \<and> j < length ?d \<and> (j - 1) div 2 = c"
    then have "j \<noteq> i" "(j - 1) div 2 \<noteq> i" using i by auto
    with j c i heap [of j] show "\<not> before (?d ! j) (?d ! ((c - 1) div 2))" by simp
  qed
qed

lemma sift_down_heap: "down_ok d i x \<Longrightarrow> heap_ok (sift_down before d i x)"
proof (induction "length d - i" arbitrary: d i rule: less_induct)
  case less
  let ?c0 = "i * 2 + 1"
  define c where "c = first_child before d i"
  have kids: "j = ?c0 \<or> j = ?c0 + 1" if "0 < j" "(j - 1) div 2 = i" for j
    using that by auto
  show ?case
  proof (cases "?c0 < length d")
    case False
    have "heap_ok (d[i := x])"
      using less.prems False kids by (intro down_ok_fill) fastforce+
    with False show ?thesis by (subst sift_down.simps) simp
  next
    case True
    then have c: "c < length d" "0 < c" "(c - 1) div 2 = i" by (auto simp: c_def first_child_def Let_def)
    have best: "\<not> before (d ! j) (d ! c)" if "0 < j" "j < length d" "(j - 1) div 2 = i" for j
      using kids [OF that(1,3)] that(2) asym by (auto simp: c_def first_child_def Let_def)
    show ?thesis
    proof (cases "before (d ! c) x")
      case bef: True
      have "i < c" using c by auto
      with less.hyps [of "d[i := d ! c]" c] down_ok_step [OF less.prems c bef best] c
      have "heap_ok (sift_down before (d[i := d ! c]) c x)" by simp
      with True bef show ?thesis
        by (subst sift_down.simps) (simp add: Let_def c_def [symmetric])
    next
      case False
      have "\<not> before (d ! j) x" if "0 < j" "j < length d" "(j - 1) div 2 = i" for j
        using best [OF that] False neg_trans by blast
      with less.prems have "heap_ok (d[i := x])" by (rule down_ok_fill)
      with True False show ?thesis
        by (subst sift_down.simps) (simp add: Let_def c_def [symmetric])
    qed
  qed
qed

lemma heap_root_best: "heap_ok d \<Longrightarrow> i < length d \<Longrightarrow> \<not> before (d ! i) (d ! 0)"
proof (induction i rule: less_induct)
  case (less i)
  show ?case
  proof (cases "i = 0")
    case False
    then have "(i - 1) div 2 < i" by auto
    with less False show ?thesis
      using neg_trans [of "d ! i" "d ! 0" "d ! ((i - 1) div 2)"] by (auto simp: heap_ok_def)
  qed simp
qed

lemma heap_push_ok:
  assumes "heap_ok d"
  shows "heap_ok (sift_up before (d @ [x]) (length d) x)"
proof (rule sift_up_heap)
  have no_kids: "(j - 1) div 2 < length d" if "0 < j" "j < length (d @ [x])" for j
    using that by auto
  show "up_ok (d @ [x]) (length d) x"
    unfolding up_ok_def
  proof (intro conjI allI impI, goal_cases)
    case (2 j)
    then show ?case using assms no_kids [of j] by (simp add: heap_ok_def nth_append)
  next
    case (3 j)
    then show ?case using no_kids [of j] by linarith
  next
    case (4 j)
    then show ?case using no_kids [of j] by linarith
  qed simp
qed

lemma heap_pop_ok:
  assumes "heap_ok d" "d \<noteq> []"
  shows "heap_ok (sift_down before (take (length d - 1) d) 0 x)"
proof (cases "length d = 1")
  case True
  then show ?thesis by (simp add: sift_down.simps heap_ok_def)
next
  case False
  with assms(2) have "Suc 0 < length d" by (cases d) auto
  with assms(1) show ?thesis
    by (intro sift_down_heap) (auto simp: down_ok_def heap_ok_def)
qed

end

subsection \<open>Sifting and exchanging permute\<close>

lemma mset_move:
  assumes "i < length d" "p < length d" "i \<noteq> p"
  shows "mset (d[i := d ! p, p := x]) = mset (d[i := x])"
  using mset_swap [of p "d[i := x]" i] assms by simp

lemma length_sift_up [simp]: "length (sift_up before d i x) = length d"
  by (induction before d i x rule: sift_up.induct) (subst sift_up.simps, simp add: Let_def)

lemma length_sift_down [simp]: "length (sift_down before d i x) = length d"
  by (induction before d i x rule: sift_down.induct) (subst sift_down.simps, simp add: Let_def)

lemma mset_sift_up: "i < length d \<Longrightarrow> mset (sift_up before d i x) = mset (d[i := x])"
proof (induction before d i x rule: sift_up.induct)
  case (1 before d i x)
  let ?p = "(i - 1) div 2"
  show ?case
  proof (cases "0 < i \<and> before x (d ! ?p)")
    case True
    then have "?p < i" by auto
    with True 1 show ?thesis
      by (subst sift_up.simps) (simp add: Let_def mset_move)
  next
    case False
    then show ?thesis by (subst sift_up.simps) (auto simp: Let_def)
  qed
qed

lemma mset_sift_down: "i < length d \<Longrightarrow> mset (sift_down before d i x) = mset (d[i := x])"
proof (induction before d i x rule: sift_down.induct)
  case (1 before d i x)
  let ?c0 = "i * 2 + 1"
  define c where "c = first_child before d i"
  show ?case
  proof (cases "?c0 < length d \<and> before (d ! c) x")
    case True
    then have "c < length d" "c \<noteq> i" by (auto simp: c_def first_child_def Let_def)
    with True 1 show ?thesis
      by (subst sift_down.simps) (simp add: Let_def c_def [symmetric] mset_move)
  next
    case False
    then show ?thesis by (subst sift_down.simps) (auto simp: Let_def c_def [symmetric])
  qed
qed

subsection \<open>The exchange sort sorts\<close>

lemma mset_exchange_inner: "x < y \<Longrightarrow> mset (exchange_inner worse x y a) = mset a"
proof (induction worse x y a rule: exchange_inner.induct)
  case (1 worse x y a)
  then show ?case
    by (subst exchange_inner.simps) (simp add: mset_swap)
qed

lemma mset_exchange_outer [simp]: "mset (exchange_outer worse x a) = mset a"
proof (induction worse x a rule: exchange_outer.induct)
  case (1 worse x a)
  then show ?case
    by (subst exchange_outer.simps) (simp add: mset_exchange_inner)
qed

lemma length_exchange_outer [simp]: "length (exchange_outer worse x a) = length a"
  by (metis mset_exchange_outer size_mset)

context priority_order
begin

text \<open>
  Here \<open>before p q\<close> reads ``\<open>p\<close> is worse than \<open>q\<close>''. The inner loop brings an element to \<open>x\<close> that is
  not worse than any after it, and leaves the cells before \<open>x\<close> alone.
\<close>

lemma exchange_inner_best:
  assumes "x < y" "y \<le> length a" and "\<And>j. x < j \<Longrightarrow> j < y \<Longrightarrow> \<not> before (a ! x) (a ! j)"
  shows "(\<forall>j. x < j \<and> j < length a \<longrightarrow>
      \<not> before (exchange_inner before x y a ! x) (exchange_inner before x y a ! j)) \<and>
    take x (exchange_inner before x y a) = take x a"
  using assms
proof (induction "length a - y" arbitrary: y a)
  case 0
  then show ?case by (simp add: exchange_inner.simps)
next
  case (Suc m)
  from Suc.hyps(2) have y: "y < length a" by simp
  let ?a = "if before (a ! x) (a ! y) then a[x := a ! y, y := a ! x] else a"
  have best: "\<not> before (?a ! x) (?a ! j)" if j: "x < j" "j < y + 1" for j
  proof (cases "before (a ! x) (a ! y)")
    case False
    with j Suc.prems(3) [of j] show ?thesis by (cases "j = y") auto
  next
    case True
    show ?thesis
    proof (cases "j = y")
      case True
      with \<open>before (a ! x) (a ! y)\<close> y Suc.prems(1) asym show ?thesis by simp
    next
      case False
      with j have "\<not> before (a ! x) (a ! j)" using Suc.prems(3) by simp
      with True have "\<not> before (a ! y) (a ! j)" using trans by blast
      with True False j y Suc.prems(1) show ?thesis by simp
    qed
  qed
  have len: "length ?a = length a" by simp
  have "m = length ?a - (y + 1)" using Suc.hyps(2) len by simp
  from Suc.hyps(1) [OF this _ _ best] Suc.prems(1) y len
  have "(\<forall>j. x < j \<and> j < length a \<longrightarrow>
      \<not> before (exchange_inner before x (y + 1) ?a ! x) (exchange_inner before x (y + 1) ?a ! j)) \<and>
    take x (exchange_inner before x (y + 1) ?a) = take x ?a"
    by simp
  moreover have "take x ?a = take x a" using Suc.prems(1) by simp
  moreover have "exchange_inner before x y a = exchange_inner before x (y + 1) ?a"
    using y by (subst exchange_inner.simps) simp
  ultimately show ?case by simp
qed

definition ranked :: "'a list \<Rightarrow> bool" where
  "ranked a \<longleftrightarrow> sorted_wrt (\<lambda>p q. \<not> before p q) a"

lemma exchange_outer_ranked:
  assumes "x \<le> length a" and "ranked (take x a)"
    and "\<And>p q. p \<in> set (take x a) \<Longrightarrow> q \<in> set (drop x a) \<Longrightarrow> \<not> before p q"
  shows "ranked (exchange_outer before x a)"
  using assms
proof (induction "length a - x" arbitrary: x a)
  case 0
  then show ?case by (simp add: exchange_outer.simps)
next
  case (Suc m)
  from Suc.hyps(2) have x: "x < length a" by simp
  let ?b = "exchange_inner before x (x + 1) a"
  have inner: "\<forall>j. x < j \<and> j < length a \<longrightarrow> \<not> before (?b ! x) (?b ! j)" "take x ?b = take x a"
    using exchange_inner_best [of x "x + 1" a] x by auto
  have "mset (take x ?b) + mset (drop x ?b) = mset (take x a) + mset (drop x a)"
    by (metis append_take_drop_id mset_append mset_exchange_inner less_add_one)
  then have sets: "set (drop x ?b) = set (drop x a)"
    using inner(2) by (metis add_left_cancel mset_eq_setD)
  have split: "take (x + 1) ?b = take x ?b @ [?b ! x]"
    using x by (simp add: take_Suc_conv_app_nth)
  have bx: "?b ! x \<in> set (drop x a)"
    using x sets by (metis Cons_nth_drop_Suc length_exchange_inner list.set_intros(1))
  have "ranked (take (x + 1) ?b)"
    using Suc.prems(2,3) bx unfolding split inner(2) by (simp add: ranked_def sorted_wrt_append)
  moreover have "\<not> before p q" if "p \<in> set (take (x + 1) ?b)" "q \<in> set (drop (x + 1) ?b)" for p q
  proof -
    have "q \<in> set (drop x a)"
      using that(2) sets by (metis Suc_eq_plus1 add_leE in_mono le_add1 set_drop_subset_set_drop)
    moreover have "\<not> before (?b ! x) q"
      using that(2) inner(1) by (auto simp: in_set_conv_nth)
    ultimately show ?thesis
      using that(1) Suc.prems(3) unfolding split inner(2) by auto
  qed
  ultimately have "ranked (exchange_outer before (x + 1) ?b)"
    using Suc.hyps(2) x by (intro Suc.hyps(1)) auto
  then show ?case using x by (subst exchange_outer.simps) simp
qed

lemma exchange_sort_ranked: "ranked (exchange_outer before 0 a)"
  by (rule exchange_outer_ranked) (simp_all add: ranked_def)

end

subsection \<open>The heap as a priority queue\<close>

text \<open>What the searches rely on: a bag of scored nodes whose root no other element precedes.\<close>

locale scored_queue = priority_order before
  for before :: "kc_hnsw_node_score_t \<Rightarrow> kc_hnsw_node_score_t \<Rightarrow> bool" +
  fixes push :: "'q \<Rightarrow> nat \<Rightarrow> real \<Rightarrow> 'q option"
    and pop :: "'q \<Rightarrow> kc_hnsw_node_score_t \<times> 'q"
    and elems :: "'q \<Rightarrow> kc_hnsw_node_score_t list"
    and invar :: "'q \<Rightarrow> bool"
  assumes push_spec: "invar q \<Longrightarrow> push q i s = Some q' \<Longrightarrow>
      invar q' \<and> mset (elems q') = add_mset \<lparr>ns_idx = i, ns_score = s\<rparr> (mset (elems q))"
    and root_best: "invar q \<Longrightarrow> elems q \<noteq> [] \<Longrightarrow> y \<in> set (elems q) \<Longrightarrow> \<not> before y (elems q ! 0)"
    and pop_spec: "invar q \<Longrightarrow> elems q \<noteq> [] \<Longrightarrow> pop q = (t, q') \<Longrightarrow>
      invar q' \<and> t = elems q ! 0 \<and> add_mset t (mset (elems q')) = mset (elems q)"
begin

lemma pop_root: "invar q \<Longrightarrow> elems q \<noteq> [] \<Longrightarrow> pop q = (t, q') \<Longrightarrow> y \<in> set (elems q) \<Longrightarrow> \<not> before y t"
  using root_best pop_spec by blast

lemma pop_length: "invar q \<Longrightarrow> elems q \<noteq> [] \<Longrightarrow> pop q = (t, q') \<Longrightarrow> length (elems q) = Suc (length (elems q'))"
  using pop_spec by (metis size_add_mset size_mset)

lemma push_length: "invar q \<Longrightarrow> push q i s = Some q' \<Longrightarrow> length (elems q') = Suc (length (elems q))"
  using push_spec by (metis size_add_mset size_mset)

lemma push_set: "invar q \<Longrightarrow> push q i s = Some q' \<Longrightarrow>
    set (elems q') = insert \<lparr>ns_idx = i, ns_score = s\<rparr> (set (elems q))"
  using push_spec by (metis set_mset_add_mset_insert set_mset_mset)

lemma pop_set: "invar q \<Longrightarrow> elems q \<noteq> [] \<Longrightarrow> pop q = (t, q') \<Longrightarrow>
    t \<in> set (elems q) \<and> set (elems q') \<subseteq> set (elems q)"
  using pop_spec by (metis insertCI set_mset_add_mset_insert set_mset_mset subset_insertI)

text \<open>Pushing into a full queue and popping the root keeps its size and drops an element that
  precedes or ties with all that stay.\<close>

lemma push_pop_keeps:
  assumes "invar q" "push q i s = Some q1" "pop q1 = (t, q2)"
  shows "invar q2 \<and> length (elems q2) = length (elems q) \<and>
    add_mset t (mset (elems q2)) = add_mset \<lparr>ns_idx = i, ns_score = s\<rparr> (mset (elems q)) \<and>
    (\<forall>y \<in> set (elems q2). \<not> before y t)"
proof -
  from assms(1,2) have q1: "invar q1" "elems q1 \<noteq> []" using push_spec push_length by fastforce+
  then show ?thesis
    using push_spec [OF assms(1,2)] pop_spec [OF q1 assms(3)] pop_root [OF q1 assms(3)]
      pop_set [OF q1 assms(3)] pop_length [OF q1 assms(3)] push_length [OF assms(1,2)] by auto
qed

end

interpretation node_order: priority_order "node_before metric wfirst" for metric wfirst
  by unfold_locales
    (auto simp: node_before_def kc_hnsw_heap_has_priority_def score_worse_def score_better_def)

definition kc_heap_ok :: "int \<Rightarrow> bool \<Rightarrow> kc_hnsw_heap_t \<Rightarrow> bool" where
  "kc_heap_ok metric wfirst h \<longleftrightarrow> heap_metric h = metric \<and> heap_worst_first h = wfirst \<and>
     node_order.heap_ok metric wfirst (heap_data h)"

interpretation kc_heap: scored_queue "node_before metric wfirst" "kc_hnsw_heap_push alloc" kc_hnsw_heap_pop
    heap_data "kc_heap_ok metric wfirst" for metric wfirst alloc
proof
  fix q q' i s
  assume q: "kc_heap_ok metric wfirst q" and push: "kc_hnsw_heap_push alloc q i s = Some q'"
  let ?x = "\<lparr>ns_idx = i, ns_score = s\<rparr>"
  from q push have d: "heap_data q' = sift_up (node_before metric wfirst) (heap_data q @ [?x]) (length (heap_data q)) ?x"
    and m: "heap_metric q' = metric" "heap_worst_first q' = wfirst"
    by (auto simp: kc_hnsw_heap_push_def kc_heap_ok_def Let_def split: if_splits)
  show "kc_heap_ok metric wfirst q' \<and> mset (heap_data q') = add_mset ?x (mset (heap_data q))"
    using q m by (simp add: kc_heap_ok_def d mset_sift_up node_order.heap_push_ok)
next
  fix q y
  assume "kc_heap_ok metric wfirst q" "heap_data q \<noteq> []" "y \<in> set (heap_data q)"
  then show "\<not> node_before metric wfirst y (heap_data q ! 0)"
    by (auto simp: kc_heap_ok_def in_set_conv_nth node_order.heap_root_best)
next
  fix q t q'
  assume q: "kc_heap_ok metric wfirst q" "heap_data q \<noteq> []" and pop: "kc_hnsw_heap_pop q = (t, q')"
  let ?d = "heap_data q"
  let ?l = "?d ! (length ?d - 1)"
  let ?r = "take (length ?d - 1) ?d"
  from q pop have d: "heap_data q' = sift_down (node_before metric wfirst) ?r 0 ?l" and t: "t = ?d ! 0"
    and m: "heap_metric q' = metric" "heap_worst_first q' = wfirst"
    by (auto simp: kc_hnsw_heap_pop_def kc_heap_ok_def Let_def)
  have "add_mset t (mset (heap_data q')) = mset ?d"
  proof (cases "length ?d = 1")
    case True
    then show ?thesis by (auto simp: d t sift_down.simps length_Suc_conv)
  next
    case False
    with q(2) have len: "1 < length ?d" by (cases ?d) auto
    have "?d = ?r @ [?l]" using q(2) by (metis append_butlast_last_id butlast_conv_take last_conv_nth)
    then have "mset ?d = mset (?r @ [?l])" by (rule arg_cong)
    then have "mset ?d = add_mset ?l (mset ?r)" by simp
    moreover obtain r where r: "?r = ?d ! 0 # r"
      using len by (cases ?d) (auto simp: take_Cons')
    have "add_mset (?d ! 0) (mset (?r[0 := ?l])) = add_mset ?l (mset ?r)"
      unfolding r by (simp add: add_mset_commute)
    moreover have "mset (heap_data q') = mset (?r[0 := ?l])"
      unfolding d using len by (intro mset_sift_down) simp
    ultimately show ?thesis unfolding t by simp
  qed
  then show "kc_heap_ok metric wfirst q' \<and> t = ?d ! 0 \<and> add_mset t (mset (heap_data q')) = mset ?d"
    using q m t node_order.heap_pop_ok [of metric wfirst ?d ?l] by (simp add: kc_heap_ok_def d)
qed

lemma heap_push_granted:
  "length (heap_data h) < heap_capacity h \<or> alloc (heap_capacity h * 2 * sizeof_node_score) \<Longrightarrow>
   \<exists>h'. kc_hnsw_heap_push alloc h i s = Some h'"
  by (auto simp: kc_hnsw_heap_push_def Let_def)

interpretation score_order: priority_order "\<lambda>p q. score_worse metric (ns_score p) (ns_score q)" for metric
  by unfold_locales (auto simp: score_worse_def)

lemma set_sort_scores [simp]: "set (sort_scores metric a) = set a"
  by (metis mset_exchange_outer mset_eq_setD sort_scores_def)

lemma length_sort_scores [simp]: "length (sort_scores metric a) = length a"
  by (simp add: sort_scores_def)

lemma mset_sort_scores [simp]: "mset (sort_scores metric a) = mset a"
  by (simp add: sort_scores_def)

lemma sorted_sort_scores: "sorted_wrt (\<lambda>p q. \<not> score_worse metric (ns_score p) (ns_score q)) (sort_scores metric a)"
  unfolding sort_scores_def
  using score_order.exchange_sort_ranked [of metric a] by (simp only: score_order.ranked_def)

subsection \<open>Properties\<close>

text \<open>C38. The heap is a priority queue. On a heap whose cells are in heap order, a push for which
  there is room (or for which the allocator grants the doubled array) succeeds, adds exactly the new
  element and keeps the order; a pop of a non-empty heap returns an element no other has priority
  over (the worst one in a worst-first heap, the best one otherwise), removes exactly that element
  and keeps the order.\<close>

theorem heap_is_priority_queue:
  assumes ok: "kc_heap_ok metric worst_first h"
    and room: "length (heap_data h) < heap_capacity h \<or> alloc (heap_capacity h * 2 * 16)"
  shows "\<exists>h1 t h2. kc_hnsw_heap_push alloc h i s = Some h1 \<and> kc_heap_ok metric worst_first h1 \<and>
      mset (heap_data h1) = add_mset \<lparr>ns_idx = i, ns_score = s\<rparr> (mset (heap_data h)) \<and>
      kc_hnsw_heap_pop h1 = (t, h2) \<and> kc_heap_ok metric worst_first h2 \<and>
      add_mset t (mset (heap_data h2)) = mset (heap_data h1) \<and>
      (\<forall>y \<in> set (heap_data h1).
         \<not> kc_hnsw_heap_has_priority metric (ns_score y) (ns_score t) worst_first)"
proof -
  obtain h1 where h1: "kc_hnsw_heap_push alloc h i s = Some h1"
    using heap_push_granted room by blast
  obtain t h2 where pop: "kc_hnsw_heap_pop h1 = (t, h2)" by fastforce
  note push = kc_heap.push_spec [OF ok h1]
  then have ne: "heap_data h1 \<noteq> []" by auto
  have "\<forall>y \<in> set (heap_data h1). \<not> node_before metric worst_first y t"
    using kc_heap.pop_root [OF _ ne pop] push by blast
  with h1 pop push kc_heap.pop_spec [OF _ ne pop] show ?thesis
    unfolding node_before_def by blast
qed

lemma heap_is_priority_queue_witness:
  "\<exists>h1 t h2.
     kc_hnsw_heap_push (\<lambda>_. False) \<lparr>heap_data = [\<lparr>ns_idx = 0, ns_score = 1\<rparr>], heap_capacity = 2,
       heap_metric = 1, heap_worst_first = True\<rparr> 7 (1/2) = Some h1 \<and>
     kc_hnsw_heap_pop h1 = (t, h2) \<and> add_mset t (mset (heap_data h2)) = mset (heap_data h1)"
proof -
  have ok: "kc_heap_ok 1 True \<lparr>heap_data = [\<lparr>ns_idx = 0, ns_score = 1\<rparr>], heap_capacity = 2,
      heap_metric = 1, heap_worst_first = True\<rparr>"
    by (simp add: kc_heap_ok_def node_order.heap_ok_def)
  show ?thesis
    using heap_is_priority_queue [OF ok, of "\<lambda>_. False" 7 "1/2"] by simp blast
qed

text \<open>The exchange sort of the build and of the search permutes its array and leaves it ranked:
  no score is worse than one that comes after it.\<close>

lemma sort_scores_ranks:
  "mset (sort_scores metric a) = mset a \<and>
   sorted_wrt (\<lambda>p q. \<not> score_worse metric (ns_score p) (ns_score q)) (sort_scores metric a)"
  using sorted_sort_scores mset_sort_scores by blast

end
