(* ===== verification/Hnsw.thy ===== *)
theory Hnsw
  imports Hnsw_Rank
begin

section \<open>The vector index: state, distances, insertion (lib/libhnsw.c, lib/hnsw.h)\<close>

text \<open>
  The index record, opening and growing it, adding vectors, distances and the random generator.

  \<^item> \<open>float\<close> and \<open>double\<close> values are the reals they stand for. Every \<open>double\<close> operation is the exact
    operation followed by the parameter \<open>rnd\<close>, the rounding of the machine, of which nothing is
    assumed unless a theorem says so. NaN and infinities are not modelled.
  \<^item> \<open>items\<close> is the live prefix of the item array. \<open>hn_capacity\<close> is the field of the source;
    \<open>hn_slots\<close> is the number of cells the block behind \<open>items\<close> really has, which only a memory
    model sees: a write at or past it is the error \<open>OUT_OF_BOUNDS\<close>.
  \<^item> Whether \<open>pthread_rwlock_*lock\<close> succeeds is a parameter \<open>lk\<close>; a call runs under the lock, so
    each operation is one step. Releasing memory and locks has no counterpart.
  \<^item> A vector is a list of at least \<open>dimension\<close> coordinates, as the interface requires.
\<close>

subsection \<open>Data\<close>

datatype hnsw_status = KC_HNSW_OK | KC_HNSW_EINVAL | KC_HNSW_ENOMEM | KC_HNSW_ESTATE | OUT_OF_BOUNDS

abbreviation (input) KC_HNSW_HNSW_M :: int where "KC_HNSW_HNSW_M \<equiv> 16"
abbreviation (input) KC_HNSW_HNSW_EF_CONSTRUCTION :: int where "KC_HNSW_HNSW_EF_CONSTRUCTION \<equiv> 64"
abbreviation (input) KC_HNSW_HNSW_EF_SEARCH :: int where "KC_HNSW_HNSW_EF_SEARCH \<equiv> 64"

record kc_hnsw_neighbor_list_t =
  nl_edges :: "nat list"
  nl_capacity :: nat

record kc_hnsw_item_t =
  item_id :: "string option"
  item_values :: "real list"
  item_norm :: real
  item_level :: int
  item_neighbors :: "kc_hnsw_neighbor_list_t list option"

record kc_hnsw =
  hn_dimension :: nat
  hn_metric :: int
  hn_items :: "kc_hnsw_item_t list"
  hn_capacity :: nat
  hn_slots :: nat
  hn_max_level :: int
  hn_entry_point_idx :: nat
  hn_entry_point_set :: bool
  hn_M :: int
  hn_ef_construction :: int
  hn_ef_search :: int
  hn_rng_state :: u64

record kc_hnsw_result_t =
  res_id :: string
  res_score :: real

abbreviation hn_count :: "kc_hnsw \<Rightarrow> nat" where
  "hn_count h \<equiv> length (hn_items h)"

abbreviation (input) sizeof_hnsw :: nat where "sizeof_hnsw \<equiv> 144"
abbreviation (input) sizeof_item :: nat where "sizeof_item \<equiv> 40"
abbreviation (input) sizeof_edge :: nat where "sizeof_edge \<equiv> 8"
abbreviation (input) sizeof_nlist :: nat where "sizeof_nlist \<equiv> 24"
abbreviation (input) sizeof_float :: nat where "sizeof_float \<equiv> 4"

subsection \<open>Distances\<close>

definition kc_hnsw_inner_product :: "(real \<Rightarrow> real) \<Rightarrow> real list \<Rightarrow> real list \<Rightarrow> nat \<Rightarrow> real" where
  "kc_hnsw_inner_product rnd left right dimension =
     foldl (\<lambda>acc i. rnd (acc + rnd (left ! i * right ! i))) 0 [0..<dimension]"

definition kc_hnsw_vector_norm :: "(real \<Rightarrow> real) \<Rightarrow> real list \<Rightarrow> nat \<Rightarrow> real" where
  "kc_hnsw_vector_norm rnd values dimension =
     rnd (sqrt (foldl (\<lambda>acc i. rnd (acc + rnd (values ! i * values ! i))) 0 [0..<dimension]))"

definition kc_hnsw_dist ::
    "(real \<Rightarrow> real) \<Rightarrow> kc_hnsw \<Rightarrow> real list \<Rightarrow> real \<Rightarrow> real list \<Rightarrow> real \<Rightarrow> real" where
  "kc_hnsw_dist rnd hnsw v1 n1 v2 n2 =
     (let ip = kc_hnsw_inner_product rnd v1 v2 (hn_dimension hnsw)
      in if hn_metric hnsw = KC_HNSW_METRIC_INNER_PRODUCT then ip
         else if hn_metric hnsw = KC_HNSW_METRIC_COSINE
         then (if n1 = 0 \<or> n2 = 0 then 0 else rnd (ip / rnd (n1 * n2)))
         else rnd (rnd (rnd (n1 * n1) + rnd (n2 * n2)) - rnd (2 * ip)))"

subsection \<open>Opening, growing, adding\<close>

definition kc_hnsw_strdup :: "allocator \<Rightarrow> string \<Rightarrow> string option" where
  "kc_hnsw_strdup alloc s = (if alloc (length s + 1) then Some s else None)"

text \<open>\<open>env_ef\<close> is \<open>getenv("HNSW_EF_SEARCH")\<close>, \<open>init_ok\<close> whether the lock can be initialised, \<open>now\<close>
  and \<open>addr\<close> the time and the address of the record that seed the generator.\<close>

definition kc_hnsw_open ::
    "allocator \<Rightarrow> string option \<Rightarrow> bool \<Rightarrow> u64 \<Rightarrow> u64 \<Rightarrow> nat \<Rightarrow> int \<Rightarrow> kc_hnsw option" where
  "kc_hnsw_open alloc env_ef init_ok now addr dimension metric =
     (if dimension = 0 \<or> \<not> kc_hnsw_metric_valid metric then None
      else if \<not> alloc sizeof_hnsw then None
      else let ef = (case env_ef of
                       None \<Rightarrow> KC_HNSW_HNSW_EF_SEARCH
                     | Some s \<Rightarrow> if atoi s > 0 then atoi s else KC_HNSW_HNSW_EF_SEARCH);
               seed = xor now addr
           in if \<not> init_ok then None
              else Some \<lparr>hn_dimension = dimension, hn_metric = metric, hn_items = [], hn_capacity = 0,
                         hn_slots = 0, hn_max_level = -1, hn_entry_point_idx = 0,
                         hn_entry_point_set = False, hn_M = KC_HNSW_HNSW_M,
                         hn_ef_construction = KC_HNSW_HNSW_EF_CONSTRUCTION, hn_ef_search = ef,
                         hn_rng_state = (if seed = 0 then 1 else seed)\<rparr>)"

definition kc_hnsw_reserve_locked :: "allocator \<Rightarrow> kc_hnsw \<Rightarrow> nat \<Rightarrow> hnsw_status \<times> kc_hnsw" where
  "kc_hnsw_reserve_locked alloc hnsw capacity =
     (if capacity \<le> hn_capacity hnsw then (KC_HNSW_OK, hnsw)
      else if \<not> alloc (capacity * sizeof_item) then (KC_HNSW_ENOMEM, hnsw)
      else (KC_HNSW_OK, hnsw\<lparr>hn_capacity := capacity, hn_slots := capacity\<rparr>))"

text \<open>A null index is \<open>None\<close>; the operations return the status and the index after the call.\<close>

definition kc_hnsw_reserve ::
    "allocator \<Rightarrow> bool \<Rightarrow> kc_hnsw option \<Rightarrow> nat \<Rightarrow> hnsw_status \<times> kc_hnsw option" where
  "kc_hnsw_reserve alloc lk hnsw capacity =
     (case hnsw of
        None \<Rightarrow> (KC_HNSW_EINVAL, None)
      | Some h \<Rightarrow>
          if \<not> lk then (KC_HNSW_EINVAL, hnsw)
          else let (rc, h') = kc_hnsw_reserve_locked alloc h capacity in (rc, Some h'))"

definition new_item :: "(real \<Rightarrow> real) \<Rightarrow> nat \<Rightarrow> string \<Rightarrow> real list \<Rightarrow> kc_hnsw_item_t" where
  "new_item rnd dimension id_copy values =
     \<lparr>item_id = Some id_copy, item_values = take dimension values,
      item_norm = kc_hnsw_vector_norm rnd (take dimension values) dimension,
      item_level = -1, item_neighbors = None\<rparr>"

definition add_locked ::
    "allocator \<Rightarrow> (real \<Rightarrow> real) \<Rightarrow> kc_hnsw \<Rightarrow> string \<Rightarrow> real list \<Rightarrow> hnsw_status \<times> kc_hnsw" where
  "add_locked alloc rnd h name values =
     (let (rc, h1) = (if hn_count h = hn_capacity h
                      then kc_hnsw_reserve_locked alloc h (if hn_capacity h = 0 then 8 else hn_capacity h * 2)
                      else (KC_HNSW_OK, h))
      in if rc \<noteq> KC_HNSW_OK then (KC_HNSW_ENOMEM, h1)
         else case kc_hnsw_strdup alloc name of
                None \<Rightarrow> (KC_HNSW_ENOMEM, h1)
              | Some id_copy \<Rightarrow>
                  if \<not> alloc (hn_dimension h1 * sizeof_float) then (KC_HNSW_ENOMEM, h1)
                  else if \<not> hn_count h1 < hn_slots h1 then (OUT_OF_BOUNDS, h1)
                  else (KC_HNSW_OK,
                        h1\<lparr>hn_items := hn_items h1 @ [new_item rnd (hn_dimension h1) id_copy values],
                           hn_entry_point_set := False, hn_max_level := -1\<rparr>))"

definition kc_hnsw_add ::
    "allocator \<Rightarrow> (real \<Rightarrow> real) \<Rightarrow> bool \<Rightarrow> kc_hnsw option \<Rightarrow> string option \<Rightarrow> real list option
       \<Rightarrow> hnsw_status \<times> kc_hnsw option" where
  "kc_hnsw_add alloc rnd lk hnsw name values =
     (case (hnsw, name, values) of
        (Some h, Some n, Some v) \<Rightarrow>
          if n = [] then (KC_HNSW_EINVAL, hnsw)
          else if \<not> lk then (KC_HNSW_EINVAL, hnsw)
          else let (rc, h') = add_locked alloc rnd h n v in (rc, Some h')
      | _ \<Rightarrow> (KC_HNSW_EINVAL, hnsw))"

text \<open>Accessors and names.\<close>

definition kc_hnsw_dimension :: "kc_hnsw option \<Rightarrow> nat" where
  "kc_hnsw_dimension hnsw = (case hnsw of None \<Rightarrow> 0 | Some h \<Rightarrow> hn_dimension h)"

definition kc_hnsw_metric :: "kc_hnsw option \<Rightarrow> int" where
  "kc_hnsw_metric hnsw = (case hnsw of None \<Rightarrow> 0 | Some h \<Rightarrow> hn_metric h)"

definition kc_hnsw_count :: "bool \<Rightarrow> kc_hnsw option \<Rightarrow> nat" where
  "kc_hnsw_count lk hnsw = (case hnsw of None \<Rightarrow> 0 | Some h \<Rightarrow> if \<not> lk then 0 else hn_count h)"

definition kc_hnsw_metric_from_string :: "string option \<Rightarrow> int" where
  "kc_hnsw_metric_from_string nm =
     (case nm of
        None \<Rightarrow> 0
      | Some s \<Rightarrow>
          if s = ''cosine'' then KC_HNSW_METRIC_COSINE
          else if s = ''inner'' \<or> s = ''inner_product'' then KC_HNSW_METRIC_INNER_PRODUCT
          else if s = ''l2'' \<or> s = ''euclidean'' then KC_HNSW_METRIC_L2
          else 0)"

definition kc_hnsw_metric_to_string :: "int \<Rightarrow> string option" where
  "kc_hnsw_metric_to_string metric =
     (if metric = KC_HNSW_METRIC_COSINE then Some ''cosine''
      else if metric = KC_HNSW_METRIC_INNER_PRODUCT then Some ''inner''
      else if metric = KC_HNSW_METRIC_L2 then Some ''l2''
      else None)"

definition kc_hnsw_strerror :: "int \<Rightarrow> string" where
  "kc_hnsw_strerror rc =
     (if rc = 0 then ''ok'' else if rc = -1 then ''invalid argument''
      else if rc = -2 then ''out of memory'' else if rc = -3 then ''invalid state''
      else ''unknown error'')"

subsection \<open>The random generator\<close>

definition xorshift64 :: "u64 \<Rightarrow> u64" where
  "xorshift64 x0 =
     (let x1 = xor x0 (drop_bit 12 x0);
          x2 = xor x1 (push_bit 25 x1)
      in xor x2 (drop_bit 27 x2))"

definition kc_hnsw_rand64 :: "kc_hnsw \<Rightarrow> u64 \<times> kc_hnsw" where
  "kc_hnsw_rand64 hnsw =
     (let x = xorshift64 (hn_rng_state hnsw)
      in (x * 0x2545F4914F6CDD1D, hnsw\<lparr>hn_rng_state := x\<rparr>))"

definition kc_hnsw_rand_double :: "kc_hnsw \<Rightarrow> real \<times> kc_hnsw" where
  "kc_hnsw_rand_double hnsw =
     (let (r, h) = kc_hnsw_rand64 hnsw
      in (real (unat (and r 0x1FFFFFFFFFFFFF)) / real (0x20000000000000 :: nat), h))"

text \<open>The \<open>double\<close> that the literal \<open>0.1\<close> denotes.\<close>

definition tenth :: real where
  "tenth = 3602879701896397 / 36028797018963968"

function random_level_loop :: "real \<Rightarrow> nat \<Rightarrow> kc_hnsw \<Rightarrow> nat \<times> kc_hnsw" where
  "random_level_loop r level hnsw =
     (if r < tenth \<and> level < 16
      then let (r', h) = kc_hnsw_rand_double hnsw in random_level_loop r' (level + 1) h
      else (level, hnsw))"
  by pat_completeness auto
termination
  by (relation "measure (\<lambda>(r, level, h). 16 - level)") auto

declare random_level_loop.simps [simp del]

definition kc_hnsw_random_level :: "kc_hnsw \<Rightarrow> int \<times> kc_hnsw" where
  "kc_hnsw_random_level hnsw =
     (let (r, h) = kc_hnsw_rand_double hnsw; (level, h') = random_level_loop r 0 h
      in (int level, h'))"

subsection \<open>Facts on the random generator\<close>

lemma xor_shift_zero:
  fixes x :: u64
  assumes "xor x y = 0" shows "x = y"
  using assms by (metis bit.xor_cancel_right xor.assoc xor_self_eq xor.right_neutral)

lemma drop_bit_fixed:
  fixes x :: u64
  assumes "drop_bit n x = x" "0 < n" shows "x = 0"
proof -
  have "bit x m \<longleftrightarrow> bit x (m + k * n)" for m k
  proof (induction k)
    case (Suc k)
    have "bit x (m + Suc k * n) \<longleftrightarrow> bit (drop_bit n x) (m + k * n)"
      by (simp add: bit_drop_bit_eq algebra_simps)
    with Suc assms(1) show ?case by simp
  qed simp
  then have "bit x m \<longleftrightarrow> bit x (m + 64 * n)" for m by blast
  moreover have "\<not> bit x (m + 64 * n)" for m
    using assms(2) bit_imp_le_length [of x "m + 64 * n"] by fastforce
  ultimately show ?thesis by (simp add: bit_eq_iff)
qed

lemma push_bit_fixed:
  fixes x :: u64
  assumes "push_bit n x = x" "0 < n" shows "x = 0"
proof (rule bit_eqI)
  fix m show "bit x m \<longleftrightarrow> bit (0 :: u64) m"
  proof (induction m rule: less_induct)
    case (less m)
    have "bit x m \<longleftrightarrow> bit (push_bit n x) m" using assms(1) by simp
    with less assms(2) show ?case by (cases "n \<le> m") (auto simp: bit_push_bit_iff)
  qed
qed

lemma xorshift64_nonzero: "x \<noteq> 0 \<Longrightarrow> xorshift64 x \<noteq> 0"
  unfolding xorshift64_def Let_def
  by (metis drop_bit_fixed push_bit_fixed xor_shift_zero zero_less_numeral)

lemma rand_double_range: "kc_hnsw_rand_double h = (r, h') \<Longrightarrow> 0 \<le> r \<and> r < 1"
proof -
  assume r: "kc_hnsw_rand_double h = (r, h')"
  have "unat (and x (0x1FFFFFFFFFFFFF :: u64)) < 0x20000000000000" for x :: u64
  proof -
    have "and x (0x1FFFFFFFFFFFFF :: u64) = take_bit 53 x"
      by (simp add: take_bit_eq_mask mask_eq_exp_minus_1)
    also have "unat \<dots> = take_bit 53 (unat x)" by (simp add: unsigned_take_bit_eq)
    also have "\<dots> < 2 ^ 53" by (rule take_bit_nat_less_exp)
    finally show ?thesis by simp
  qed
  then have "real (unat (and x (0x1FFFFFFFFFFFFF :: u64))) < 0x20000000000000" for x :: u64
    by (metis of_nat_less_iff of_nat_numeral)
  moreover have "r = real (unat (and (fst (kc_hnsw_rand64 h)) 0x1FFFFFFFFFFFFF)) / real (0x20000000000000 :: nat)"
    using r unfolding kc_hnsw_rand_double_def Let_def
    by (cases "kc_hnsw_rand64 h") (simp only: prod.case prod.inject fst_conv)
  ultimately show ?thesis
    by (metis divide_less_eq_1_pos divide_nonneg_nonneg of_nat_0_le_iff of_nat_numeral zero_less_numeral)
qed

definition same_index :: "kc_hnsw \<Rightarrow> kc_hnsw \<Rightarrow> bool" where
  "same_index h h' \<longleftrightarrow> h' = h\<lparr>hn_rng_state := hn_rng_state h'\<rparr> \<and> (hn_rng_state h \<noteq> 0 \<longrightarrow> hn_rng_state h' \<noteq> 0)"

lemma same_index_refl [simp]: "same_index h h"
  by (simp add: same_index_def)

lemma same_index_trans: "same_index a b \<Longrightarrow> same_index b c \<Longrightarrow> same_index a c"
  unfolding same_index_def by (metis kc_hnsw.update_convs(12) kc_hnsw.surjective)

lemma rand64_same: "kc_hnsw_rand64 h = (r, h') \<Longrightarrow> same_index h h'"
  by (auto simp: kc_hnsw_rand64_def Let_def same_index_def xorshift64_nonzero)

lemma rand_double_same: "kc_hnsw_rand_double h = (r, h') \<Longrightarrow> same_index h h'"
  by (auto simp: kc_hnsw_rand_double_def Let_def rand64_same split: prod.splits)

lemma random_level_loop_spec:
  "random_level_loop r lev h = (lev', h') \<Longrightarrow> lev \<le> 16 \<Longrightarrow> lev' \<le> 16 \<and> same_index h h'"
proof (induction r lev h rule: random_level_loop.induct)
  case (1 r lev h)
  obtain r1 h1 where d: "kc_hnsw_rand_double h = (r1, h1)" by fastforce
  show ?case
  proof (cases "r < tenth \<and> lev < 16")
    case True
    with 1 d have "lev' \<le> 16 \<and> same_index h1 h'" by (simp add: random_level_loop.simps [of r lev h])
    with rand_double_same [OF d] same_index_trans show ?thesis by blast
  next
    case False
    with 1 show ?thesis by (auto simp: random_level_loop.simps [of r lev h])
  qed
qed

lemma random_level_spec:
  assumes "kc_hnsw_random_level h = (lev, h')"
  shows "0 \<le> lev \<and> lev \<le> 16 \<and> same_index h h'"
proof -
  obtain r h1 where d: "kc_hnsw_rand_double h = (r, h1)" by fastforce
  obtain lv h2 where l: "random_level_loop r 0 h1 = (lv, h2)" by fastforce
  from assms d l have "lev = int lv" "h' = h2" by (auto simp: kc_hnsw_random_level_def)
  with random_level_loop_spec [OF l] rand_double_same [OF d] show ?thesis
    using same_index_trans by auto
qed

subsection \<open>Distances in exact arithmetic\<close>

lemma foldl_sum: "foldl (\<lambda>acc i. acc + f i) (a :: real) [0..<n] = a + (\<Sum>i<n. f i)"
  by (induction n) (auto simp: algebra_simps)

lemma inner_product_exact: "kc_hnsw_inner_product (\<lambda>x. x) u v n = (\<Sum>i<n. u ! i * v ! i)"
  by (simp add: kc_hnsw_inner_product_def foldl_sum)

lemma vector_norm_exact: "kc_hnsw_vector_norm (\<lambda>x. x) v n = sqrt (\<Sum>i<n. (v ! i)\<^sup>2)"
  by (simp add: kc_hnsw_vector_norm_def foldl_sum power2_eq_square)

lemma abs_le_sqrts: "x\<^sup>2 \<le> a * b \<Longrightarrow> \<bar>x\<bar> \<le> sqrt a * sqrt b"
  by (metis real_sqrt_abs real_sqrt_le_mono real_sqrt_mult)

lemma cauchy_schwarz_sq:
  fixes a b :: "nat \<Rightarrow> real"
  shows "(\<Sum>i<n. a i * b i)\<^sup>2 \<le> (\<Sum>i<n. (a i)\<^sup>2) * (\<Sum>i<n. (b i)\<^sup>2)"
proof (induction n)
  case (Suc n)
  let ?S = "\<Sum>i<n. a i * b i" and ?A = "\<Sum>i<n. (a i)\<^sup>2" and ?B = "\<Sum>i<n. (b i)\<^sup>2"
  have pos: "0 \<le> ?A" "0 \<le> ?B" by (simp_all add: sum_nonneg)
  have s: "\<bar>?S\<bar> \<le> sqrt ?A * sqrt ?B" using abs_le_sqrts [OF Suc.IH] .
  have "2 * (?S * (a n * b n)) \<le> 2 * (\<bar>?S\<bar> * \<bar>a n * b n\<bar>)"
    by (metis abs_ge_self abs_mult mult_left_mono zero_le_numeral)
  also have "\<dots> \<le> 2 * ((sqrt ?A * sqrt ?B) * \<bar>a n * b n\<bar>)"
    using s by (intro mult_left_mono mult_right_mono) auto
  also have "\<dots> = 2 * ((sqrt ?A * \<bar>b n\<bar>) * (sqrt ?B * \<bar>a n\<bar>))" by (simp add: abs_mult)
  also have "\<dots> \<le> (sqrt ?A * \<bar>b n\<bar>)\<^sup>2 + (sqrt ?B * \<bar>a n\<bar>)\<^sup>2"
    using sum_squares_bound [of "sqrt ?A * \<bar>b n\<bar>" "sqrt ?B * \<bar>a n\<bar>"] by (simp add: mult.assoc)
  also have "\<dots> = ?A * (b n)\<^sup>2 + ?B * (a n)\<^sup>2" using pos by (simp add: power_mult_distrib)
  finally have cross: "2 * (?S * (a n * b n)) \<le> ?A * (b n)\<^sup>2 + ?B * (a n)\<^sup>2" .
  have l: "(\<Sum>i<Suc n. a i * b i)\<^sup>2 = ?S\<^sup>2 + 2 * (?S * (a n * b n)) + (a n)\<^sup>2 * (b n)\<^sup>2"
    by (simp add: power2_sum power_mult_distrib)
  have r: "(\<Sum>i<Suc n. (a i)\<^sup>2) * (\<Sum>i<Suc n. (b i)\<^sup>2) =
      ?A * ?B + (?A * (b n)\<^sup>2 + ?B * (a n)\<^sup>2) + (a n)\<^sup>2 * (b n)\<^sup>2"
    by (simp add: algebra_simps)
  show ?case unfolding l r using Suc.IH cross by (intro add_mono) auto
qed simp

abbreviation (input) exact_norm :: "kc_hnsw \<Rightarrow> real list \<Rightarrow> real" where
  "exact_norm h v \<equiv> kc_hnsw_vector_norm (\<lambda>x. x) v (hn_dimension h)"

lemma dist_l2:
  assumes "hn_metric h = KC_HNSW_METRIC_L2"
  shows "kc_hnsw_dist (\<lambda>x. x) h u (exact_norm h u) v (exact_norm h v) = (\<Sum>i<hn_dimension h. (u ! i - v ! i)\<^sup>2)"
proof -
  have "0 \<le> (\<Sum>i<hn_dimension h. (w ! i)\<^sup>2)" for w :: "real list" by (simp add: sum_nonneg)
  with assms show ?thesis
    by (simp add: kc_hnsw_dist_def Let_def metric_consts inner_product_exact vector_norm_exact power2_diff
        sum.distrib sum_subtractf sum_distrib_left mult.assoc real_sqrt_mult_self)
qed

lemma dist_inner:
  "hn_metric h = KC_HNSW_METRIC_INNER_PRODUCT \<Longrightarrow>
   kc_hnsw_dist (\<lambda>x. x) h u (exact_norm h u) v (exact_norm h v) = (\<Sum>i<hn_dimension h. u ! i * v ! i)"
  by (simp add: kc_hnsw_dist_def Let_def metric_consts inner_product_exact)

lemma dist_cosine:
  assumes "hn_metric h = KC_HNSW_METRIC_COSINE"
  shows "\<bar>kc_hnsw_dist (\<lambda>x. x) h u (exact_norm h u) v (exact_norm h v)\<bar> \<le> 1 \<and>
    kc_hnsw_dist (\<lambda>x. x) h u (exact_norm h u) v (exact_norm h v) * (exact_norm h u * exact_norm h v) =
      (\<Sum>i<hn_dimension h. u ! i * v ! i)"
proof -
  let ?n = "hn_dimension h"
  let ?A = "\<Sum>i<?n. (u ! i)\<^sup>2" and ?B = "\<Sum>i<?n. (v ! i)\<^sup>2" and ?S = "\<Sum>i<?n. u ! i * v ! i"
  have cs: "?S\<^sup>2 \<le> ?A * ?B" by (rule cauchy_schwarz_sq)
  let ?d = "if sqrt ?A = 0 \<or> sqrt ?B = 0 then 0 else ?S / (sqrt ?A * sqrt ?B)"
  have d: "kc_hnsw_dist (\<lambda>x. x) h u (exact_norm h u) v (exact_norm h v) = ?d"
    using assms by (simp add: kc_hnsw_dist_def Let_def metric_consts inner_product_exact vector_norm_exact)
  have "\<bar>?d\<bar> \<le> 1 \<and> ?d * (sqrt ?A * sqrt ?B) = ?S"
  proof (cases "?A = 0 \<or> ?B = 0")
    case True
    with cs have "?S\<^sup>2 \<le> 0" by (elim disjE) simp_all
    with True show ?thesis by auto
  next
    case False
    then have "0 < sqrt ?A * sqrt ?B" by (simp add: sum_nonneg order_less_le)
    with abs_le_sqrts [OF cs] False show ?thesis
      by (simp add: abs_divide del: abs_mult)
  qed
  then show ?thesis unfolding d by (simp only: vector_norm_exact)
qed

text \<open>C39. In exact arithmetic the score of two vectors under their own norms is what the metric
  names: the squared Euclidean distance under L2, the inner product under the inner-product metric,
  and under cosine the quotient of the inner product by the two lengths, which lies between -1 and 1
  and is 0 when a vector is null.\<close>

theorem dist_is_the_metric:
  "(hn_metric h = KC_HNSW_METRIC_L2 \<longrightarrow>
      kc_hnsw_dist (\<lambda>x. x) h u (exact_norm h u) v (exact_norm h v) =
        (\<Sum>i<hn_dimension h. (u ! i - v ! i)\<^sup>2)) \<and>
   (hn_metric h = KC_HNSW_METRIC_INNER_PRODUCT \<longrightarrow>
      kc_hnsw_dist (\<lambda>x. x) h u (exact_norm h u) v (exact_norm h v) = (\<Sum>i<hn_dimension h. u ! i * v ! i)) \<and>
   (hn_metric h = KC_HNSW_METRIC_COSINE \<longrightarrow>
      \<bar>kc_hnsw_dist (\<lambda>x. x) h u (exact_norm h u) v (exact_norm h v)\<bar> \<le> 1 \<and>
      kc_hnsw_dist (\<lambda>x. x) h u (exact_norm h u) v (exact_norm h v) * (exact_norm h u * exact_norm h v) =
        (\<Sum>i<hn_dimension h. u ! i * v ! i))"
  using dist_l2 dist_inner dist_cosine by blast

lemma dist_is_the_metric_witness:
  "let h = \<lparr>hn_dimension = 2, hn_metric = 3, hn_items = [], hn_capacity = 0, hn_slots = 0,
            hn_max_level = -1, hn_entry_point_idx = 0, hn_entry_point_set = False, hn_M = 16,
            hn_ef_construction = 64, hn_ef_search = 64, hn_rng_state = 1\<rparr>
   in kc_hnsw_dist (\<lambda>x. x) h [1, 2] (exact_norm h [1, 2]) [4, 6] (exact_norm h [4, 6]) = 25"
  unfolding Let_def
  by (subst dist_is_the_metric [THEN conjunct1, THEN mp])
    (simp_all add: metric_consts numeral_2_eq_2)

subsection \<open>The item array\<close>

text \<open>The block behind \<open>items\<close> is as long as the index believes.\<close>

definition array_ok :: "kc_hnsw \<Rightarrow> bool" where
  "array_ok h \<longleftrightarrow> hn_count h \<le> hn_capacity h \<and> hn_slots h = hn_capacity h"

lemma open_array_ok: "kc_hnsw_open alloc env init_ok now addr d m = Some h \<Longrightarrow> array_ok h"
  by (auto simp: kc_hnsw_open_def array_ok_def Let_def split: if_splits)

lemma reserve_array_ok:
  "array_ok h \<Longrightarrow> kc_hnsw_reserve_locked alloc h c = (rc, h') \<Longrightarrow>
   array_ok h' \<and> hn_items h' = hn_items h \<and> hn_dimension h' = hn_dimension h \<and>
   rc \<in> {KC_HNSW_OK, KC_HNSW_ENOMEM} \<and> (rc = KC_HNSW_OK \<longrightarrow> c \<le> hn_capacity h')"
  by (auto simp: kc_hnsw_reserve_locked_def array_ok_def split: if_splits)

lemma grow_room:
  assumes ok: "array_ok h"
    and g: "(if hn_count h = hn_capacity h
        then kc_hnsw_reserve_locked alloc h (if hn_capacity h = 0 then 8 else hn_capacity h * 2)
        else (KC_HNSW_OK, h)) = (rc, h1)"
  shows "array_ok h1 \<and> hn_items h1 = hn_items h \<and> hn_dimension h1 = hn_dimension h \<and>
    rc \<in> {KC_HNSW_OK, KC_HNSW_ENOMEM} \<and> (rc = KC_HNSW_OK \<longrightarrow> hn_count h1 < hn_slots h1)"
proof (cases "hn_count h = hn_capacity h")
  case True
  with g have "kc_hnsw_reserve_locked alloc h (if hn_capacity h = 0 then 8 else hn_capacity h * 2) = (rc, h1)"
    by simp
  from reserve_array_ok [OF ok this] True show ?thesis
    by (auto simp: array_ok_def split: if_splits)
next
  case False
  with g ok show ?thesis by (auto simp: array_ok_def)
qed

text \<open>On an index whose array has the capacity it claims, adding a vector never writes past
  the array: it answers EINVAL for a null argument, an empty name or a failed lock, ENOMEM for a
  refused allocation, and leaves the items alone in those cases; when it succeeds the item is
  appended with its name, its first \<open>dimension\<close> coordinates and their norm, and the index is marked
  as not built, so that a search is refused until the next build. The array keeps its claimed
  capacity.\<close>

lemma add_appends:
  assumes ok: "array_ok h" and add: "kc_hnsw_add alloc rnd lk (Some h) name values = (rc, Some h')"
  shows "array_ok h' \<and> rc \<in> {KC_HNSW_OK, KC_HNSW_EINVAL, KC_HNSW_ENOMEM} \<and>
    (if rc = KC_HNSW_OK
     then (\<exists>n v. name = Some n \<and> n \<noteq> [] \<and> values = Some v \<and>
             hn_items h' = hn_items h @ [new_item rnd (hn_dimension h) n v]) \<and>
          \<not> hn_entry_point_set h' \<and> hn_max_level h' = -1
     else hn_items h' = hn_items h)"
proof (cases "\<exists>n v. name = Some n \<and> n \<noteq> [] \<and> values = Some v \<and> lk")
  case False
  with add ok show ?thesis
    by (auto simp: kc_hnsw_add_def split: option.splits if_splits)
next
  case True
  then obtain n v where nv: "name = Some n" "n \<noteq> []" "values = Some v" "lk" by blast
  obtain rc1 h1 where g: "(if hn_count h = hn_capacity h
      then kc_hnsw_reserve_locked alloc h (if hn_capacity h = 0 then 8 else hn_capacity h * 2)
      else (KC_HNSW_OK, h)) = (rc1, h1)" by fastforce
  note room = grow_room [OF ok g]
  from add nv have "add_locked alloc rnd h n v = (rc, h')"
    by (auto simp: kc_hnsw_add_def split: prod.splits)
  then show ?thesis
    using room nv unfolding add_locked_def g Let_def prod.case
    by (auto simp: kc_hnsw_strdup_def array_ok_def split: if_splits option.splits)
qed

text \<open>Metric names round-trip: the name of a supported metric resolves to that metric, and
  every name that resolves at all resolves to a supported one.\<close>

lemma metric_names_roundtrip:
  "(kc_hnsw_metric_valid m \<longleftrightarrow> kc_hnsw_metric_to_string m \<noteq> None) \<and>
   (kc_hnsw_metric_to_string m \<noteq> None \<longrightarrow> kc_hnsw_metric_from_string (kc_hnsw_metric_to_string m) = m) \<and>
   (kc_hnsw_metric_from_string s \<noteq> 0 \<longrightarrow> kc_hnsw_metric_valid (kc_hnsw_metric_from_string s))"
  by (auto simp: kc_hnsw_metric_to_string_def kc_hnsw_metric_from_string_def kc_hnsw_metric_valid_def
      metric_consts split: option.splits)

lemma metric_names_roundtrip_witness:
  "kc_hnsw_metric_from_string (kc_hnsw_metric_to_string 3) = 3 \<and>
   kc_hnsw_metric_valid (kc_hnsw_metric_from_string (Some ''euclidean''))"
  using metric_names_roundtrip [of 3 "Some ''euclidean''"]
  by (simp add: kc_hnsw_metric_to_string_def kc_hnsw_metric_from_string_def metric_consts)

end
