(* ===== verification/Hnsw_Graph.thy ===== *)
theory Hnsw_Graph
  imports Hnsw
begin

section \<open>The layered graph: edges, greedy descent, level search (lib/libhnsw.c)\<close>

text \<open>
  The operations on the neighbour lists. Every array access of the source is a checked access: a
  node index outside the item array, a level outside a node's lists and a null neighbour array are
  the error \<open>OUT_OF_BOUNDS\<close>. The two loops of the searches are total functions: the level search
  consumes one candidate per round and adds one only for a node it visits for the first time; a
  round of the greedy descent that goes on has found a strictly better node.
\<close>

subsection \<open>Neighbour lists\<close>

definition kc_hnsw_neighbor_list_init :: kc_hnsw_neighbor_list_t where
  "kc_hnsw_neighbor_list_init = \<lparr>nl_edges = [], nl_capacity = 0\<rparr>"

definition neighbors_at :: "kc_hnsw \<Rightarrow> nat \<Rightarrow> nat \<Rightarrow> hnsw_status + kc_hnsw_neighbor_list_t" where
  "neighbors_at hnsw idx level =
     sum_bind (fetch OUT_OF_BOUNDS (hn_items hnsw) idx)
       (\<lambda>it. case item_neighbors it of
               None \<Rightarrow> Inl OUT_OF_BOUNDS
             | Some nls \<Rightarrow> fetch OUT_OF_BOUNDS nls level)"

definition set_neighbors :: "kc_hnsw \<Rightarrow> nat \<Rightarrow> nat \<Rightarrow> kc_hnsw_neighbor_list_t \<Rightarrow> kc_hnsw" where
  "set_neighbors hnsw idx level nl =
     (let it = hn_items hnsw ! idx
      in hnsw\<lparr>hn_items := (hn_items hnsw)[idx :=
           it\<lparr>item_neighbors := map_option (\<lambda>nls. nls[level := nl]) (item_neighbors it)\<rparr>]\<rparr>)"

text \<open>The score of a query against an item.\<close>

definition item_dist :: "(real \<Rightarrow> real) \<Rightarrow> kc_hnsw \<Rightarrow> real list \<Rightarrow> real \<Rightarrow> kc_hnsw_item_t \<Rightarrow> real" where
  "item_dist rnd hnsw query query_norm it =
     kc_hnsw_dist rnd hnsw query query_norm (item_values it) (item_norm it)"

text \<open>The loop of \<open>kc_hnsw_add_edge\<close> that looks for the worst edge; \<open>None\<close> is \<open>worst_idx == -1\<close>.\<close>

definition worst_step ::
    "(real \<Rightarrow> real) \<Rightarrow> kc_hnsw \<Rightarrow> kc_hnsw_item_t \<Rightarrow> nat list \<Rightarrow> nat \<Rightarrow> (nat \<times> real) option
       \<Rightarrow> hnsw_status + (nat \<times> real) option" where
  "worst_step rnd hnsw src edges i worst =
     sum_bind (fetch OUT_OF_BOUNDS (hn_items hnsw) (edges ! i))
       (\<lambda>it. let s = item_dist rnd hnsw (item_values src) (item_norm src) it
             in Inr (case worst of
                       None \<Rightarrow> Some (i, s)
                     | Some (wi, ws) \<Rightarrow>
                         if score_worse (hn_metric hnsw) s ws then Some (i, s) else worst))"

definition max_degree :: "kc_hnsw \<Rightarrow> nat \<Rightarrow> nat" where
  "max_degree hnsw level = (if level = 0 then to_size (hn_M hnsw) * 2 else to_size (hn_M hnsw))"

definition drop_worst :: "nat list \<Rightarrow> (nat \<times> real) option \<Rightarrow> nat list" where
  "drop_worst edges worst =
     (case worst of
        None \<Rightarrow> edges
      | Some (wi, _) \<Rightarrow> take (length edges - 1) (edges[wi := edges ! (length edges - 1)]))"

definition kc_hnsw_add_edge ::
    "allocator \<Rightarrow> (real \<Rightarrow> real) \<Rightarrow> kc_hnsw \<Rightarrow> nat \<Rightarrow> nat \<Rightarrow> nat \<Rightarrow> hnsw_status + kc_hnsw" where
  "kc_hnsw_add_edge alloc rnd hnsw src_idx dst_idx level =
     sum_bind (neighbors_at hnsw src_idx level)
       (\<lambda>nl.
          if dst_idx \<in> set (nl_edges nl) then Inr hnsw
          else
            let grow = length (nl_edges nl) = nl_capacity nl;
                next_cap = (if nl_capacity nl = 0 then 4 else nl_capacity nl * 2)
            in if grow \<and> \<not> alloc (next_cap * sizeof_edge) then Inl KC_HNSW_ENOMEM
               else
                 let nl1 = \<lparr>nl_edges = nl_edges nl @ [dst_idx],
                            nl_capacity = (if grow then next_cap else nl_capacity nl)\<rparr>
                 in if length (nl_edges nl1) > max_degree hnsw level
                    then sum_bind
                           (fold_res (worst_step rnd hnsw (hn_items hnsw ! src_idx) (nl_edges nl1))
                              [0..<length (nl_edges nl1)] None)
                           (\<lambda>worst. Inr (set_neighbors hnsw src_idx level
                              (nl1\<lparr>nl_edges := drop_worst (nl_edges nl1) worst\<rparr>)))
                    else Inr (set_neighbors hnsw src_idx level nl1))"

subsection \<open>Level search\<close>

type_synonym level_state = "kc_hnsw_heap_t \<times> kc_hnsw_heap_t \<times> bool list"

text \<open>One neighbour of the popped candidate: \<open>(candidates, results, visited)\<close> before and after.\<close>

definition visit_neighbor ::
    "allocator \<Rightarrow> (real \<Rightarrow> real) \<Rightarrow> kc_hnsw \<Rightarrow> real list \<Rightarrow> real \<Rightarrow> int \<Rightarrow> nat \<Rightarrow> level_state
       \<Rightarrow> hnsw_status + level_state" where
  "visit_neighbor alloc rnd hnsw query query_norm ef v_idx st =
     (case st of (candidates, results, visited) \<Rightarrow>
        if \<not> v_idx < length visited then Inl OUT_OF_BOUNDS
        else if visited ! v_idx then Inr st
        else sum_bind (fetch OUT_OF_BOUNDS (hn_items hnsw) v_idx)
          (\<lambda>it. let v_dist = item_dist rnd hnsw query query_norm it;
                    visited' = visited[v_idx := True]
            in sum_bind (fetch OUT_OF_BOUNDS (heap_data results) 0)
              (\<lambda>worst_res.
                 if length (heap_data results) < to_size ef \<or>
                    score_better (hn_metric hnsw) v_dist (ns_score worst_res)
                 then (case kc_hnsw_heap_push alloc candidates v_idx v_dist of
                         None \<Rightarrow> Inl KC_HNSW_ENOMEM
                       | Some candidates' \<Rightarrow>
                           (case kc_hnsw_heap_push alloc results v_idx v_dist of
                              None \<Rightarrow> Inl KC_HNSW_ENOMEM
                            | Some results' \<Rightarrow>
                                Inr (candidates',
                                     (if length (heap_data results') > to_size ef
                                      then snd (kc_hnsw_heap_pop results') else results'),
                                     visited')))
                 else Inr (candidates, results, visited'))))"

definition unvisited :: "bool list \<Rightarrow> nat" where
  "unvisited visited = length (filter Not visited)"

lemma heap_push_length: "kc_hnsw_heap_push alloc h i s = Some h' \<Longrightarrow> length (heap_data h') = Suc (length (heap_data h))"
  by (auto simp: kc_hnsw_heap_push_def Let_def split: if_splits)

lemma heap_pop_length: "kc_hnsw_heap_pop h = (t, h') \<Longrightarrow> length (heap_data h') = length (heap_data h) - 1"
  by (auto simp: kc_hnsw_heap_pop_def Let_def)

lemma unvisited_mark: "i < length vs \<Longrightarrow> \<not> vs ! i \<Longrightarrow> unvisited vs = Suc (unvisited (vs[i := True]))"
  unfolding unvisited_def
proof (induction vs arbitrary: i)
  case (Cons v vs)
  then show ?case by (cases i) auto
qed simp

text \<open>A neighbour enters the candidates only when it leaves the unvisited nodes.\<close>

lemma visit_neighbor_measure:
  assumes "visit_neighbor alloc rnd h q qn ef v (c, r, vis) = Inr (c', r', vis')"
  shows "length (heap_data c') + unvisited vis' \<le> length (heap_data c) + unvisited vis"
proof (cases "v < length vis \<and> \<not> vis ! v")
  case True
  then have u: "unvisited vis = Suc (unvisited (vis[v := True]))" by (simp add: unvisited_mark)
  from True assms have "vis' = vis[v := True] \<and> length (heap_data c') \<le> Suc (length (heap_data c))"
    by (cases "fetch OUT_OF_BOUNDS (hn_items h) v"; cases "fetch OUT_OF_BOUNDS (heap_data r) 0")
      (auto simp: visit_neighbor_def Let_def split: if_splits option.splits dest: heap_push_length)
  with u show ?thesis by simp
next
  case False
  with assms show ?thesis by (auto simp: visit_neighbor_def split: if_splits)
qed

lemma visit_all_measure:
  "fold_res (visit_neighbor alloc rnd h q qn ef) vs (c, r, vis) = Inr (c', r', vis') \<Longrightarrow>
   length (heap_data c') + unvisited vis' \<le> length (heap_data c) + unvisited vis"
proof (induction vs arbitrary: c r vis)
  case (Cons v vs)
  then obtain c1 r1 vis1 where s: "visit_neighbor alloc rnd h q qn ef v (c, r, vis) = Inr (c1, r1, vis1)"
    by (auto split: sum.splits)
  with Cons have "length (heap_data c') + unvisited vis' \<le> length (heap_data c1) + unvisited vis1" by simp
  with visit_neighbor_measure [OF s] show ?case by simp
qed simp

function search_level_loop ::
    "allocator \<Rightarrow> (real \<Rightarrow> real) \<Rightarrow> kc_hnsw \<Rightarrow> real list \<Rightarrow> real \<Rightarrow> nat \<Rightarrow> int
       \<Rightarrow> kc_hnsw_heap_t \<Rightarrow> kc_hnsw_heap_t \<Rightarrow> bool list \<Rightarrow> hnsw_status + kc_hnsw_heap_t" where
  "search_level_loop alloc rnd hnsw query query_norm level ef candidates results visited =
     (if heap_data candidates \<noteq> [] then
        case kc_hnsw_heap_pop candidates of (c, candidates1) \<Rightarrow>
          case fetch OUT_OF_BOUNDS (heap_data results) 0 of
            Inl e \<Rightarrow> Inl e
          | Inr worst_res \<Rightarrow>
              if length (heap_data results) \<ge> to_size ef \<and>
                 score_worse (hn_metric hnsw) (ns_score c) (ns_score worst_res)
              then Inr results
              else case neighbors_at hnsw (ns_idx c) level of
                     Inl e \<Rightarrow> Inl e
                   | Inr nl \<Rightarrow>
                       (case fold_res (visit_neighbor alloc rnd hnsw query query_norm ef) (nl_edges nl)
                               (candidates1, results, visited) of
                          Inl e \<Rightarrow> Inl e
                        | Inr (candidates2, results2, visited2) \<Rightarrow>
                            search_level_loop alloc rnd hnsw query query_norm level ef
                              candidates2 results2 visited2)
      else Inr results)"
  by pat_completeness auto
termination
proof (relation "measure (\<lambda>(alloc, rnd, h, q, qn, lv, ef, c, r, vis). length (heap_data c) + unvisited vis)",
    simp, clarsimp, goal_cases)
  case (1 alloc rnd h q qn lv ef cands r vis c c1 w nl c2 r2 vis2)
  have "length (heap_data c1) < length (heap_data cands)"
    using heap_pop_length [of cands c c1] 1 by (cases "heap_data cands") auto
  with 1 visit_all_measure [of alloc rnd h q qn ef "nl_edges nl" c1 r vis c2 r2 vis2] show ?case
    by simp
qed

declare search_level_loop.simps [simp del]

definition kc_hnsw_search_level ::
    "allocator \<Rightarrow> (real \<Rightarrow> real) \<Rightarrow> kc_hnsw \<Rightarrow> real list \<Rightarrow> real \<Rightarrow> nat \<Rightarrow> nat \<Rightarrow> int
       \<Rightarrow> kc_hnsw_heap_t \<Rightarrow> hnsw_status + kc_hnsw_heap_t" where
  "kc_hnsw_search_level alloc rnd hnsw query query_norm entry_idx level ef results =
     (case kc_hnsw_heap_create alloc (to_size (to_int (ef * 2))) (hn_metric hnsw) False of
        None \<Rightarrow> Inl KC_HNSW_ENOMEM
      | Some candidates \<Rightarrow>
          if \<not> alloc (hn_count hnsw) then Inl KC_HNSW_ENOMEM
          else sum_bind (fetch OUT_OF_BOUNDS (hn_items hnsw) entry_idx)
            (\<lambda>it. let d = item_dist rnd hnsw query query_norm it;
                      visited = replicate (hn_count hnsw) False
              in case kc_hnsw_heap_push alloc candidates entry_idx d of
                   None \<Rightarrow> Inl KC_HNSW_ENOMEM
                 | Some candidates' \<Rightarrow>
                     (case kc_hnsw_heap_push alloc results entry_idx d of
                        None \<Rightarrow> Inl KC_HNSW_ENOMEM
                      | Some results' \<Rightarrow>
                          search_level_loop alloc rnd hnsw query query_norm level ef candidates' results'
                            (visited[entry_idx := True]))))"

subsection \<open>Greedy descent\<close>

text \<open>One pass over the neighbours: \<open>(curr_idx, curr_dist, changed)\<close>.\<close>

definition greedy_step ::
    "(real \<Rightarrow> real) \<Rightarrow> kc_hnsw \<Rightarrow> real list \<Rightarrow> real \<Rightarrow> nat \<Rightarrow> nat \<times> real \<times> bool
       \<Rightarrow> hnsw_status + nat \<times> real \<times> bool" where
  "greedy_step rnd hnsw query query_norm neighbor_idx st =
     (case st of (curr_idx, curr_dist, changed) \<Rightarrow>
        sum_bind (fetch OUT_OF_BOUNDS (hn_items hnsw) neighbor_idx)
          (\<lambda>it. let d = item_dist rnd hnsw query query_norm it
                in if score_better (hn_metric hnsw) d curr_dist then Inr (neighbor_idx, d, True)
                   else Inr (curr_idx, curr_dist, changed)))"

definition better_nodes :: "(real \<Rightarrow> real) \<Rightarrow> kc_hnsw \<Rightarrow> real list \<Rightarrow> real \<Rightarrow> real \<Rightarrow> nat set" where
  "better_nodes rnd h q qn d =
     {j. j < hn_count h \<and> score_better (hn_metric h) (item_dist rnd h q qn (hn_items h ! j)) d}"

lemma finite_better_nodes [simp]: "finite (better_nodes rnd h q qn d)"
  unfolding better_nodes_def by simp

lemma score_better_trans: "score_better m a b \<Longrightarrow> score_better m b c \<Longrightarrow> score_better m a c"
  by (auto simp: score_better_def split: if_splits)

lemma better_nodes_subset: "score_better (hn_metric h) d' d \<Longrightarrow> better_nodes rnd h q qn d' \<subseteq> better_nodes rnd h q qn d"
  unfolding better_nodes_def using score_better_trans by blast

lemma better_nodes_shrink:
  assumes "j < hn_count h" "d' = item_dist rnd h q qn (hn_items h ! j)" "score_better (hn_metric h) d' d"
  shows "better_nodes rnd h q qn d' \<subset> better_nodes rnd h q qn d"
proof -
  have "j \<in> better_nodes rnd h q qn d - better_nodes rnd h q qn d'"
    using assms by (auto simp: better_nodes_def score_better_def)
  with better_nodes_subset [OF assms(3)] show ?thesis by blast
qed

lemma greedy_pass_shrinks:
  assumes "fold_res (greedy_step rnd h q qn) ns (i, d, ch) = Inr (i', d', ch')"
  shows "(i' = i \<and> d' = d \<and> ch' = ch) \<or>
    (ch' \<and> i' < hn_count h \<and> d' = item_dist rnd h q qn (hn_items h ! i') \<and> i' \<in> set ns \<and>
     score_better (hn_metric h) d' d)"
  using assms
proof (induction ns arbitrary: i d ch)
  case (Cons n ns)
  then obtain i1 d1 ch1 where s: "greedy_step rnd h q qn n (i, d, ch) = Inr (i1, d1, ch1)"
    and r: "fold_res (greedy_step rnd h q qn) ns (i1, d1, ch1) = Inr (i', d', ch')"
    by (auto split: sum.splits)
  from s have "(i1 = i \<and> d1 = d \<and> ch1 = ch) \<or>
      (ch1 \<and> i1 = n \<and> n < hn_count h \<and> d1 = item_dist rnd h q qn (hn_items h ! n) \<and>
       score_better (hn_metric h) d1 d)"
    by (auto simp: greedy_step_def fetch_def Let_def split: if_splits)
  with Cons.IH [OF r] show ?case using score_better_trans by auto
qed simp

function greedy_loop ::
    "(real \<Rightarrow> real) \<Rightarrow> kc_hnsw \<Rightarrow> real list \<Rightarrow> real \<Rightarrow> nat \<Rightarrow> nat \<Rightarrow> real \<Rightarrow> hnsw_status + nat \<times> real" where
  "greedy_loop rnd hnsw query query_norm level curr_idx curr_dist =
     (case neighbors_at hnsw curr_idx level of
        Inl e \<Rightarrow> Inl e
      | Inr nl \<Rightarrow>
          (case fold_res (greedy_step rnd hnsw query query_norm) (nl_edges nl) (curr_idx, curr_dist, False) of
             Inl e \<Rightarrow> Inl e
           | Inr (idx, d, changed) \<Rightarrow>
               if changed then greedy_loop rnd hnsw query query_norm level idx d else Inr (idx, d)))"
  by pat_completeness auto
termination
proof (relation "measure (\<lambda>(rnd, h, q, qn, lv, i, d). card (better_nodes rnd h q qn d))",
    simp, clarsimp, goal_cases)
  case (1 rnd h q qn lv i d nl idx d2)
  from greedy_pass_shrinks [OF this(2)] have "better_nodes rnd h q qn d2 \<subset> better_nodes rnd h q qn d"
    using better_nodes_shrink [of idx h d2 rnd q qn d] by auto
  then show ?case by (simp add: psubset_card_mono)
qed

declare greedy_loop.simps [simp del]

text \<open>The descent through the levels \<open>from\<close>, \<open>from - 1\<close>, ..., \<open>down_to + 1\<close>.\<close>

definition greedy_descend ::
    "(real \<Rightarrow> real) \<Rightarrow> kc_hnsw \<Rightarrow> real list \<Rightarrow> real \<Rightarrow> int \<Rightarrow> int \<Rightarrow> nat \<times> real \<Rightarrow> hnsw_status + nat \<times> real" where
  "greedy_descend rnd hnsw query query_norm from_level down_to st =
     fold_res (\<lambda>level (idx, d). greedy_loop rnd hnsw query query_norm level idx d)
       (rev [nat (down_to + 1)..<nat (from_level + 1)]) st"

subsection \<open>Well-formed graphs\<close>

text \<open>
  The first \<open>k\<close> items form a layered graph: each has one neighbour list per level from 0 to its
  own, and every list has no repetition, at most \<open>max_degree\<close> entries, and leads to nodes of the
  graph that reach that level.
\<close>

definition list_ok :: "nat \<Rightarrow> kc_hnsw \<Rightarrow> nat \<Rightarrow> nat list \<Rightarrow> bool" where
  "list_ok k h l es \<longleftrightarrow> distinct es \<and> length es \<le> max_degree h l \<and>
     (\<forall>t \<in> set es. t < k \<and> int l \<le> item_level (hn_items h ! t))"

definition node_ok :: "nat \<Rightarrow> kc_hnsw \<Rightarrow> kc_hnsw_item_t \<Rightarrow> bool" where
  "node_ok k h it \<longleftrightarrow>
     (case item_neighbors it of
        None \<Rightarrow> False
      | Some nls \<Rightarrow> nls \<noteq> [] \<and> item_level it = int (length nls) - 1 \<and>
          (\<forall>l < length nls. list_ok k h l (nl_edges (nls ! l))))"

definition graph_ok :: "nat \<Rightarrow> kc_hnsw \<Rightarrow> bool" where
  "graph_ok k h \<longleftrightarrow> k \<le> hn_count h \<and> (\<forall>j < k. node_ok k h (hn_items h ! j))"

text \<open>Node \<open>j\<close> is in the graph on level \<open>l\<close>.\<close>

definition on_level :: "nat \<Rightarrow> kc_hnsw \<Rightarrow> nat \<Rightarrow> nat \<Rightarrow> bool" where
  "on_level k h l j \<longleftrightarrow> j < k \<and> int l \<le> item_level (hn_items h ! j)"

lemma neighbors_at_ok:
  assumes "graph_ok k h" "on_level k h l j"
  shows "\<exists>nl. neighbors_at h j l = Inr nl \<and> list_ok k h l (nl_edges nl)"
proof -
  have j: "j < hn_count h" "node_ok k h (hn_items h ! j)" "int l \<le> item_level (hn_items h ! j)"
    using assms by (simp_all add: graph_ok_def on_level_def)
  then obtain nls where "item_neighbors (hn_items h ! j) = Some nls" "l < length nls"
      "list_ok k h l (nl_edges (nls ! l))"
    by (cases "item_neighbors (hn_items h ! j)") (auto simp: node_ok_def)
  with j show ?thesis by (simp add: neighbors_at_def)
qed

definition oom :: "allocator \<Rightarrow> hnsw_status set" where
  "oom alloc = (if never_fails alloc then {} else {KC_HNSW_ENOMEM})"

lemma oomI: "\<not> alloc n \<Longrightarrow> KC_HNSW_ENOMEM \<in> oom alloc"
  by (auto simp: oom_def)

lemma oom_subset: "oom alloc \<subseteq> {KC_HNSW_ENOMEM}"
  by (simp add: oom_def)

lemma oom_granting [simp]: "oom (\<lambda>_. True) = {}"
  by (simp add: oom_def)

lemma push_oom: "kc_hnsw_heap_push alloc h i s = None \<Longrightarrow> KC_HNSW_ENOMEM \<in> oom alloc"
  by (auto simp: kc_hnsw_heap_push_def Let_def oomI split: if_splits option.splits)

lemma create_oom: "kc_hnsw_heap_create alloc c m w = None \<Longrightarrow> KC_HNSW_ENOMEM \<in> oom alloc"
  by (auto simp: kc_hnsw_heap_create_def oomI split: if_splits)

lemma create_ok: "kc_hnsw_heap_create alloc c m w = Some h \<Longrightarrow> heap_data h = [] \<and> kc_heap_ok m w h"
  by (auto simp: kc_hnsw_heap_create_def kc_heap_ok_def node_order.heap_ok_def split: if_splits)

subsection \<open>Greedy descent on a graph\<close>

text \<open>The current node is on the level and carries its own score, no worse than \<open>d0\<close>.\<close>

definition at_node ::
    "(real \<Rightarrow> real) \<Rightarrow> nat \<Rightarrow> kc_hnsw \<Rightarrow> real list \<Rightarrow> real \<Rightarrow> nat \<Rightarrow> real \<Rightarrow> nat \<times> real \<Rightarrow> bool" where
  "at_node rnd k h q qn l d0 st \<longleftrightarrow>
     (case st of (i, d) \<Rightarrow> on_level k h l i \<and> d = item_dist rnd h q qn (hn_items h ! i) \<and>
        \<not> score_worse (hn_metric h) d d0)"

lemma greedy_pass_ok:
  assumes "graph_ok k h" "list_ok k h l es"
  shows "\<exists>st. fold_res (greedy_step rnd h q qn) es st0 = Inr st"
proof -
  have "t < hn_count h" if "t \<in> set es" for t
    using assms that by (fastforce simp: graph_ok_def list_ok_def)
  then have "yields {} (\<lambda>_. True) (fold_res (greedy_step rnd h q qn) es st0)"
    by (intro yields_fold) (auto simp: greedy_step_def Let_def split: prod.splits)
  then show ?thesis by (auto simp: yields_value)
qed

lemma greedy_loop_ok:
  assumes "graph_ok k h" "at_node rnd k h q qn l d0 (i, d)"
  shows "yields {} (at_node rnd k h q qn l d0) (greedy_loop rnd h q qn l i d)"
  using assms
proof (induction rnd h q qn l i d rule: greedy_loop.induct)
  case (1 rnd h q qn l i d)
  then have on: "on_level k h l i" by (simp add: at_node_def)
  obtain nl where nl: "neighbors_at h i l = Inr nl" "list_ok k h l (nl_edges nl)"
    using neighbors_at_ok [OF \<open>graph_ok k h\<close> on] by blast
  obtain i' d' ch where p: "fold_res (greedy_step rnd h q qn) (nl_edges nl) (i, d, False) = Inr (i', d', ch)"
    using greedy_pass_ok [OF \<open>graph_ok k h\<close> nl(2)] by (metis prod_cases3)
  have at: "at_node rnd k h q qn l d0 (i', d')"
    using greedy_pass_shrinks [OF p] 1(3) nl(2)
    by (auto simp: at_node_def on_level_def list_ok_def score_better_def score_worse_def split: if_splits)
  show ?case
  proof (cases ch)
    case True
    with "1.IH" [OF nl(1) p refl refl True] 1(2) at nl p show ?thesis
      by (subst greedy_loop.simps) simp
  next
    case False
    with at nl p show ?thesis by (subst greedy_loop.simps) simp
  qed
qed

lemma on_level_down: "on_level k h l j \<Longrightarrow> l' \<le> l \<Longrightarrow> on_level k h l' j"
  by (auto simp: on_level_def)

lemma greedy_levels_ok:
  assumes g: "graph_ok k h" and "at_node rnd k h q qn n d0 st" "m \<le> n"
  shows "yields {} (at_node rnd k h q qn (if m < n then m else n) d0)
    (fold_res (\<lambda>l (i, d). greedy_loop rnd h q qn l i d) (rev [m..<n]) st)"
  using assms(2,3)
proof (induction n arbitrary: st)
  case (Suc n)
  show ?case
  proof (cases "m \<le> n")
    case True
    obtain i d where st: "st = (i, d)" by fastforce
    have "at_node rnd k h q qn n d0 (i, d)"
      using Suc.prems(1) on_level_down [of k h "Suc n" i n] by (auto simp: st at_node_def)
    from greedy_loop_ok [OF g this] obtain st' where
      st': "greedy_loop rnd h q qn n i d = Inr st'" "at_node rnd k h q qn n d0 st'"
      by (auto simp: yields_value)
    with Suc.IH [OF st'(2) True] True show ?thesis by (auto simp: st split: if_splits)
  qed (use Suc in auto)
qed simp

lemma greedy_descend_ok:
  assumes g: "graph_ok k h" and on: "on_level k h (nat from_level) i" and "0 \<le> from_level" "0 \<le> down_to"
    and "down_to \<le> from_level" and d: "d = item_dist rnd h q qn (hn_items h ! i)"
  shows "yields {} (at_node rnd k h q qn (nat down_to) d) (greedy_descend rnd h q qn from_level down_to (i, d))"
proof -
  let ?m = "nat (down_to + 1)" and ?n = "nat (from_level + 1)"
  have refl: "\<not> score_worse (hn_metric h) d d" by (simp add: score_worse_def)
  show ?thesis
  proof (cases "down_to = from_level")
    case True
    with on d refl show ?thesis by (simp add: greedy_descend_def at_node_def)
  next
    case False
    have split: "rev [?m..<?n] = nat from_level # rev [?m..<nat from_level]"
      using assms False by (simp add: nat_add_distrib upt_Suc_append)
    have "at_node rnd k h q qn (nat from_level) d (i, d)" using on d refl by (simp add: at_node_def)
    from greedy_loop_ok [OF g this] obtain st where
      st: "greedy_loop rnd h q qn (nat from_level) i d = Inr st" "at_node rnd k h q qn (nat from_level) d st"
      by (auto simp: yields_value)
    have "?m \<le> nat from_level" using assms False by simp
    from greedy_levels_ok [OF g st(2) this]
    have "yields {} (at_node rnd k h q qn (nat down_to) d)
        (fold_res (\<lambda>l (i, d). greedy_loop rnd h q qn l i d) (rev [?m..<nat from_level]) st)"
      by (rule yields_mono) (use assms False on_level_down in \<open>force simp: at_node_def split: if_splits\<close>)
    with st(1) show ?thesis by (simp add: greedy_descend_def split)
  qed
qed

subsection \<open>Level search on a graph\<close>

definition found ::
    "(real \<Rightarrow> real) \<Rightarrow> nat \<Rightarrow> kc_hnsw \<Rightarrow> real list \<Rightarrow> real \<Rightarrow> nat \<Rightarrow> kc_hnsw_node_score_t \<Rightarrow> bool" where
  "found rnd k h q qn l x \<longleftrightarrow> on_level k h l (ns_idx x) \<and>
     ns_score x = item_dist rnd h q qn (hn_items h ! ns_idx x)"

text \<open>What the result heap of a level search holds: at least one and at most \<open>ef\<close> distinct nodes of
  the level with their own scores, one of them no worse than the entry point's score \<open>d0\<close>.\<close>

definition results_ok ::
    "(real \<Rightarrow> real) \<Rightarrow> nat \<Rightarrow> kc_hnsw \<Rightarrow> real list \<Rightarrow> real \<Rightarrow> nat \<Rightarrow> nat \<Rightarrow> real
       \<Rightarrow> kc_hnsw_heap_t \<Rightarrow> bool" where
  "results_ok rnd k h q qn l ef d0 r \<longleftrightarrow> kc_heap_ok (hn_metric h) True r \<and>
     length (heap_data r) \<le> ef \<and> distinct (map ns_idx (heap_data r)) \<and>
     (\<forall>x \<in> set (heap_data r). found rnd k h q qn l x) \<and>
     (\<exists>x \<in> set (heap_data r). \<not> score_worse (hn_metric h) (ns_score x) d0)"

definition level_inv ::
    "(real \<Rightarrow> real) \<Rightarrow> nat \<Rightarrow> kc_hnsw \<Rightarrow> real list \<Rightarrow> real \<Rightarrow> nat \<Rightarrow> nat \<Rightarrow> real
       \<Rightarrow> level_state \<Rightarrow> bool" where
  "level_inv rnd k h q qn l ef d0 st \<longleftrightarrow>
     (case st of (c, r, vis) \<Rightarrow> kc_heap_ok (hn_metric h) False c \<and> results_ok rnd k h q qn l ef d0 r \<and>
        length vis = hn_count h \<and> (\<forall>x \<in> set (heap_data c). found rnd k h q qn l x) \<and>
        (\<forall>x \<in> set (heap_data r). vis ! ns_idx x))"

lemma distinct_idx_add:
  "mset ys = add_mset x (mset xs) \<Longrightarrow>
   distinct (map ns_idx ys) \<longleftrightarrow> ns_idx x \<notin> ns_idx ` set xs \<and> distinct (map ns_idx xs)"
proof -
  assume "mset ys = add_mset x (mset xs)"
  then have "mset (map ns_idx ys) = mset (map ns_idx (x # xs))" by simp
  then have "distinct (map ns_idx ys) \<longleftrightarrow> distinct (map ns_idx (x # xs))"
    by (rule mset_eq_imp_distinct_iff)
  then show ?thesis by simp
qed

lemma set_add_mset: "mset ys = add_mset x (mset xs) \<Longrightarrow> set ys = insert x (set xs)"
  by (metis set_mset_add_mset_insert set_mset_mset)

text \<open>Entering a new node into the results, and dropping the worst one when there are too many.\<close>

lemma results_push:
  assumes r: "results_ok rnd k h q qn l ef d0 r" and push: "kc_hnsw_heap_push alloc r v d = Some r1"
    and v: "on_level k h l v" "d = item_dist rnd h q qn (hn_items h ! v)" "v \<notin> ns_idx ` set (heap_data r)"
    and "1 \<le> ef"
  shows "results_ok rnd k h q qn l ef d0 (if length (heap_data r1) > ef then snd (kc_hnsw_heap_pop r1) else r1) \<and>
    set (heap_data (if length (heap_data r1) > ef then snd (kc_hnsw_heap_pop r1) else r1))
      \<subseteq> insert \<lparr>ns_idx = v, ns_score = d\<rparr> (set (heap_data r))"
proof -
  let ?x = "\<lparr>ns_idx = v, ns_score = d\<rparr>"
  let ?P = "\<lambda>x. \<not> score_worse (hn_metric h) (ns_score x) d0"
  have ok: "kc_heap_ok (hn_metric h) True r" using r by (simp add: results_ok_def)
  note p = kc_heap.push_spec [OF ok push]
  then have r1: "kc_heap_ok (hn_metric h) True r1" "set (heap_data r1) = insert ?x (set (heap_data r))"
      "distinct (map ns_idx (heap_data r1))"
    using r v by (auto simp: results_ok_def dest: set_add_mset distinct_idx_add)
  have found1: "\<forall>x \<in> set (heap_data r1). found rnd k h q qn l x"
    using r v r1(2) by (simp add: results_ok_def found_def)
  obtain b where b: "b \<in> set (heap_data r1)" "?P b" using r r1(2) by (auto simp: results_ok_def)
  have len1: "length (heap_data r1) \<le> Suc ef" using r heap_push_length [OF push] by (simp add: results_ok_def)
  show ?thesis
  proof (cases "length (heap_data r1) > ef")
    case False
    with r1 found1 b show ?thesis by (auto simp: results_ok_def)
  next
    case True
    obtain t r2 where pop: "kc_hnsw_heap_pop r1 = (t, r2)" by fastforce
    have ne: "heap_data r1 \<noteq> []" using True by auto
    note q = kc_heap.pop_spec [OF r1(1) ne pop]
    have m: "mset (heap_data r1) = add_mset t (mset (heap_data r2))" using q by metis
    have len2: "length (heap_data r2) = ef" using heap_pop_length [OF pop] len1 True by simp
    have "\<exists>x \<in> set (heap_data r2). ?P x"
    proof (cases "b = t")
      case False
      with b set_add_mset [OF m] show ?thesis by auto
    next
      case True
      obtain y where y: "y \<in> set (heap_data r2)" using len2 \<open>1 \<le> ef\<close> by (cases "heap_data r2") auto
      then have "\<not> node_before (hn_metric h) True y t"
        using kc_heap.pop_root [OF r1(1) ne pop] set_add_mset [OF m] by blast
      with b(2) True have "?P y"
        by (auto simp: node_before_def kc_hnsw_heap_has_priority_def score_worse_def split: if_splits)
      with y show ?thesis by blast
    qed
    moreover have sub: "set (heap_data r2) \<subseteq> set (heap_data r1)" using set_add_mset [OF m] by blast
    then have "\<forall>x \<in> set (heap_data r2). found rnd k h q qn l x" using found1 by blast
    moreover have "distinct (map ns_idx (heap_data r2))" using distinct_idx_add [OF m] r1(3) by blast
    ultimately have "results_ok rnd k h q qn l ef d0 r2"
      using q len2 by (simp add: results_ok_def)
    with True pop sub r1(2) show ?thesis by simp
  qed
qed

lemma mark_keeps: "vs ! i \<Longrightarrow> vs[v := True] ! i"
  by (cases "v < length vs") (auto simp: nth_list_update list_update_beyond)

lemma visit_neighbor_ok:
  assumes g: "graph_ok k h" and inv: "level_inv rnd k h q qn l (to_size ef) d0 st"
    and v: "on_level k h l v" and ef: "1 \<le> to_size ef"
  shows "yields (oom alloc) (level_inv rnd k h q qn l (to_size ef) d0) (visit_neighbor alloc rnd h q qn ef v st)"
proof -
  obtain c r vis where st: "st = (c, r, vis)" by (cases st) auto
  note i = inv [unfolded st level_inv_def prod.case]
  have vn: "v < hn_count h" "v < length vis" using g v i by (auto simp: graph_ok_def on_level_def)
  have cok: "kc_heap_ok (hn_metric h) False c" and rok: "results_ok rnd k h q qn l (to_size ef) d0 r"
    using i by simp_all
  have ne: "heap_data r \<noteq> []" using i by (auto simp: results_ok_def)
  let ?d = "item_dist rnd h q qn (hn_items h ! v)"
  have skip: "level_inv rnd k h q qn l (to_size ef) d0 (c, r, vis[v := True])"
    using i by (simp add: level_inv_def mark_keeps)
  show ?thesis
  proof (cases "vis ! v")
    case True
    with inv vn show ?thesis by (simp add: visit_neighbor_def st)
  next
    case False
    then have new: "v \<notin> ns_idx ` set (heap_data r)" using i by auto
    show ?thesis
    proof (cases "length (heap_data r) < to_size ef \<or> score_better (hn_metric h) ?d (ns_score (heap_data r ! 0))")
      case enter: True
      show ?thesis
      proof (cases "kc_hnsw_heap_push alloc c v ?d")
        case None
        with False vn ne enter show ?thesis by (simp add: visit_neighbor_def st push_oom)
      next
        case c1: (Some c1)
        show ?thesis
        proof (cases "kc_hnsw_heap_push alloc r v ?d")
          case None
          with False vn ne enter c1 show ?thesis by (simp add: visit_neighbor_def st push_oom)
        next
          case r1: (Some r1)
          define r2 where "r2 = (if length (heap_data r1) > to_size ef then snd (kc_hnsw_heap_pop r1) else r1)"
          have r2: "results_ok rnd k h q qn l (to_size ef) d0 r2"
              "set (heap_data r2) \<subseteq> insert \<lparr>ns_idx = v, ns_score = ?d\<rparr> (set (heap_data r))"
            unfolding r2_def using results_push [OF rok r1 v refl new ef] by simp_all
          have c1': "kc_heap_ok (hn_metric h) False c1"
              "set (heap_data c1) = insert \<lparr>ns_idx = v, ns_score = ?d\<rparr> (set (heap_data c))"
            using kc_heap.push_spec [OF cok c1] kc_heap.push_set [OF cok c1] by simp_all
          have "vis[v := True] ! ns_idx x" if "x \<in> set (heap_data r2)" for x
            using that r2(2) i vn by (cases "ns_idx x = v") (auto simp: mark_keeps)
          then have "level_inv rnd k h q qn l (to_size ef) d0 (c1, r2, vis[v := True])"
            unfolding level_inv_def prod.case using i v c1' r2(1) by (simp add: found_def)
          with False vn ne enter c1 r1 show ?thesis
            by (simp only: visit_neighbor_def st prod.case Let_def fetch_in sum_bind.simps not_True_eq_False
                not_False_eq_True if_False if_True option.case length_greater_0_conv r2_def yields.simps)
        qed
      qed
    next
      case False
      with \<open>\<not> vis ! v\<close> vn ne skip show ?thesis by (simp add: visit_neighbor_def st)
    qed
  qed
qed

lemma search_level_loop_ok:
  assumes "graph_ok k h" "1 \<le> to_size ef" "level_inv rnd k h q qn l (to_size ef) d0 (c, r, vis)"
  shows "yields (oom alloc) (results_ok rnd k h q qn l (to_size ef) d0)
    (search_level_loop alloc rnd h q qn l ef c r vis)"
  using assms
proof (induction alloc rnd h q qn l ef c r vis rule: search_level_loop.induct)
  case (1 alloc rnd h q qn l ef c r vis)
  note inv = "1.prems"(3) [unfolded level_inv_def prod.case]
  show ?case
  proof (cases "heap_data c = []")
    case True
    with inv show ?thesis by (subst search_level_loop.simps) simp
  next
    case False
    obtain t c1 where pop: "kc_hnsw_heap_pop c = (t, c1)" by fastforce
    have ne: "heap_data r \<noteq> []" using inv by (auto simp: results_ok_def)
    have cok: "kc_heap_ok (hn_metric h) False c" using inv by simp
    have t: "found rnd k h q qn l t" "kc_heap_ok (hn_metric h) False c1" "set (heap_data c1) \<subseteq> set (heap_data c)"
      using kc_heap.pop_spec [OF cok False pop] kc_heap.pop_set [OF cok False pop] inv by auto
    show ?thesis
    proof (cases "length (heap_data r) \<ge> to_size ef \<and> score_worse (hn_metric h) (ns_score t) (ns_score (heap_data r ! 0))")
      case True
      with False pop ne inv show ?thesis by (subst search_level_loop.simps) simp
    next
      case go: False
      obtain nl where nl: "neighbors_at h (ns_idx t) l = Inr nl" "list_ok k h l (nl_edges nl)"
        using neighbors_at_ok [OF "1.prems"(1)] t(1) by (auto simp: found_def)
      let ?f = "fold_res (visit_neighbor alloc rnd h q qn ef) (nl_edges nl) (c1, r, vis)"
      have "level_inv rnd k h q qn l (to_size ef) d0 (c1, r, vis)"
        using inv t by (auto simp: level_inv_def)
      then have f: "yields (oom alloc) (level_inv rnd k h q qn l (to_size ef) d0) ?f"
        using nl(2) "1.prems" by (intro yields_fold visit_neighbor_ok) (auto simp: list_ok_def on_level_def)
      have eq: "search_level_loop alloc rnd h q qn l ef c r vis =
          (case ?f of Inl e \<Rightarrow> Inl e | Inr (c2, r2, vis2) \<Rightarrow> search_level_loop alloc rnd h q qn l ef c2 r2 vis2)"
        using False pop ne go nl(1) by (subst search_level_loop.simps) auto
      show ?thesis
      proof (cases ?f)
        case (Inl e)
        with f show ?thesis by (simp add: eq)
      next
        case (Inr st)
        obtain c2 r2 vis2 where st: "st = (c2, r2, vis2)" by (cases st) auto
        have "yields (oom alloc) (results_ok rnd k h q qn l (to_size ef) d0) (search_level_loop alloc rnd h q qn l ef c2 r2 vis2)"
          using False pop ne go nl(1) Inr st f "1.prems"
          by (intro "1.IH") auto
        with Inr st show ?thesis by (simp add: eq)
      qed
    qed
  qed
qed

lemma search_level_ok:
  assumes g: "graph_ok k h" and ef: "1 \<le> to_size ef" and e: "on_level k h l e"
    and r: "heap_data r = []" "kc_heap_ok (hn_metric h) True r"
  shows "yields (oom alloc)
    (results_ok rnd k h q qn l (to_size ef) (item_dist rnd h q qn (hn_items h ! e)))
    (kc_hnsw_search_level alloc rnd h q qn e l ef r)"
proof -
  let ?d = "item_dist rnd h q qn (hn_items h ! e)"
  let ?x = "\<lparr>ns_idx = e, ns_score = ?d\<rparr>"
  have en: "e < hn_count h" using g e by (auto simp: graph_ok_def on_level_def)
  show ?thesis
  proof (cases "kc_hnsw_heap_create alloc (to_size (to_int (ef * 2))) (hn_metric h) False")
    case None
    then show ?thesis by (simp add: kc_hnsw_search_level_def create_oom)
  next
    case c: (Some c)
    note cok = create_ok [OF c]
    show ?thesis
    proof (cases "alloc (hn_count h) \<and> (\<exists>c1 r1. kc_hnsw_heap_push alloc c e ?d = Some c1 \<and> kc_hnsw_heap_push alloc r e ?d = Some r1)")
      case False
      with c en show ?thesis
        by (auto simp: kc_hnsw_search_level_def Let_def oomI push_oom split: option.split)
    next
      case True
      then obtain c1 r1 where p: "kc_hnsw_heap_push alloc c e ?d = Some c1" "kc_hnsw_heap_push alloc r e ?d = Some r1"
        and al: "alloc (hn_count h)" by blast
      have c1: "kc_heap_ok (hn_metric h) False c1" "set (heap_data c1) = {?x}"
        using kc_heap.push_spec [OF _ p(1)] kc_heap.push_set [OF _ p(1)] cok by auto
      have r1: "kc_heap_ok (hn_metric h) True r1" "mset (heap_data r1) = {#?x#}"
        using kc_heap.push_spec [OF r(2) p(2)] r(1) by auto
      then have d1: "heap_data r1 = [?x]" by simp
      have "\<not> score_worse (hn_metric h) ?d ?d" by (simp add: score_worse_def)
      with c1 r1(1) e ef en have "level_inv rnd k h q qn l (to_size ef) ?d (c1, r1, (replicate (hn_count h) False)[e := True])"
        by (simp add: level_inv_def results_ok_def d1 found_def)
      from search_level_loop_ok [OF g ef this] show ?thesis
        using c al en p by (simp add: kc_hnsw_search_level_def Let_def)
    qed
  qed
qed

subsection \<open>Edges keep the graph well formed\<close>

lemma worst_edge_spec:
  assumes "\<And>i. i < n \<Longrightarrow> es ! i < hn_count h"
  shows "yields {} (\<lambda>w. case w of None \<Rightarrow> n = 0 | Some (wi, ws) \<Rightarrow> wi < n \<and>
        ws = item_dist rnd h (item_values src) (item_norm src) (hn_items h ! (es ! wi)) \<and>
        (\<forall>j < n. \<not> score_worse (hn_metric h)
            (item_dist rnd h (item_values src) (item_norm src) (hn_items h ! (es ! j))) ws))
     (fold_res (worst_step rnd h src es) [0..<n] None)"
  using assms
proof (induction n)
  case (Suc n)
  then obtain w where w: "fold_res (worst_step rnd h src es) [0..<n] None = Inr w" and
    P: "case w of None \<Rightarrow> n = 0 | Some (wi, ws) \<Rightarrow> wi < n \<and>
        ws = item_dist rnd h (item_values src) (item_norm src) (hn_items h ! (es ! wi)) \<and>
        (\<forall>j < n. \<not> score_worse (hn_metric h)
            (item_dist rnd h (item_values src) (item_norm src) (hn_items h ! (es ! j))) ws)"
    by (auto simp: yields_value)
  have n: "es ! n < hn_count h" using Suc.prems by simp
  have step: "fold_res (worst_step rnd h src es) [0..<Suc n] None = worst_step rnd h src es n w"
    by (simp add: fold_res_append w split: sum.split)
  show ?case
  proof (cases w)
    case None
    with P n show ?thesis unfolding step by (simp add: worst_step_def Let_def score_worse_def)
  next
    case (Some p)
    obtain wi ws where p: "p = (wi, ws)" by fastforce
    let ?s = "item_dist rnd h (item_values src) (item_norm src) (hn_items h ! (es ! n))"
    show ?thesis
    proof (cases "score_worse (hn_metric h) ?s ws")
      case True
      have "\<not> score_worse (hn_metric h) (item_dist rnd h (item_values src) (item_norm src) (hn_items h ! (es ! j))) ?s"
        if "j < Suc n" for j
        using P Some p that True by (cases "j = n") (auto simp: score_worse_def less_Suc_eq split: if_splits)
      with Some p True n show ?thesis unfolding step by (simp add: worst_step_def Let_def)
    next
      case False
      with Some p n P show ?thesis unfolding step by (auto simp: worst_step_def Let_def less_Suc_eq)
    qed
  qed
qed simp

lemma drop_worst_spec:
  assumes "distinct es" "wi < length es"
  shows "distinct (drop_worst es (Some (wi, s))) \<and> set (drop_worst es (Some (wi, s))) = set es - {es ! wi} \<and>
    length (drop_worst es (Some (wi, s))) = length es - 1"
proof -
  from assms(2) obtain ys z where es: "es = ys @ [z]" by (cases es rule: rev_cases) auto
  show ?thesis
  proof (cases "wi = length ys")
    case True
    with assms es show ?thesis by (auto simp: drop_worst_def)
  next
    case False
    with assms es have wi: "wi < length ys" by simp
    with assms es have "distinct (ys[wi := z])" "set (ys[wi := z]) = insert z (set ys - {ys ! wi})"
      by (auto simp: distinct_list_update set_update_distinct)
    with assms es wi show ?thesis
      by (auto simp: drop_worst_def list_update_append nth_append)
  qed
qed

definition skeleton :: "kc_hnsw \<Rightarrow> kc_hnsw" where
  "skeleton h = h\<lparr>hn_items := map (\<lambda>it. it\<lparr>item_neighbors := None\<rparr>) (hn_items h)\<rparr>"

lemma skeleton_fields:
  assumes "skeleton h' = skeleton h"
  shows "hn_count h' = hn_count h" "hn_metric h' = hn_metric h" "hn_dimension h' = hn_dimension h"
    "hn_M h' = hn_M h" "hn_max_level h' = hn_max_level h" "hn_entry_point_idx h' = hn_entry_point_idx h"
    "hn_entry_point_set h' = hn_entry_point_set h" "hn_ef_construction h' = hn_ef_construction h"
    "hn_ef_search h' = hn_ef_search h" "hn_rng_state h' = hn_rng_state h" "hn_capacity h' = hn_capacity h"
    "hn_slots h' = hn_slots h"
proof -
  have "map (\<lambda>it. it\<lparr>item_neighbors := None\<rparr>) (hn_items h') = map (\<lambda>it. it\<lparr>item_neighbors := None\<rparr>) (hn_items h)"
    using assms by (cases h; cases h') (simp add: skeleton_def)
  then show "hn_count h' = hn_count h" by (rule map_eq_imp_length_eq)
qed (use assms in \<open>cases h; cases h'; simp add: skeleton_def\<close>)+

lemma skeleton_item:
  assumes "skeleton h' = skeleton h" "j < hn_count h"
  shows "item_level (hn_items h' ! j) = item_level (hn_items h ! j)"
    "item_values (hn_items h' ! j) = item_values (hn_items h ! j)"
    "item_norm (hn_items h' ! j) = item_norm (hn_items h ! j)"
    "item_id (hn_items h' ! j) = item_id (hn_items h ! j)"
proof -
  have "map (\<lambda>it. it\<lparr>item_neighbors := None\<rparr>) (hn_items h') = map (\<lambda>it. it\<lparr>item_neighbors := None\<rparr>) (hn_items h)"
    using assms(1) by (cases h; cases h') (simp add: skeleton_def)
  then have "map (\<lambda>it. it\<lparr>item_neighbors := None\<rparr>) (hn_items h') ! j = map (\<lambda>it. it\<lparr>item_neighbors := None\<rparr>) (hn_items h) ! j"
    by simp
  with assms skeleton_fields(1) [OF assms(1)]
  have e: "(hn_items h' ! j)\<lparr>item_neighbors := None\<rparr> = (hn_items h ! j)\<lparr>item_neighbors := None\<rparr>" by simp
  from arg_cong [OF e, of item_level] show "item_level (hn_items h' ! j) = item_level (hn_items h ! j)" by simp
  from arg_cong [OF e, of item_values] show "item_values (hn_items h' ! j) = item_values (hn_items h ! j)" by simp
  from arg_cong [OF e, of item_norm] show "item_norm (hn_items h' ! j) = item_norm (hn_items h ! j)" by simp
  from arg_cong [OF e, of item_id] show "item_id (hn_items h' ! j) = item_id (hn_items h ! j)" by simp
qed

lemma skeleton_set_neighbors [simp]: "skeleton (set_neighbors h j l nl) = skeleton h"
proof (cases "j < hn_count h")
  case True
  then have "map (\<lambda>it. it\<lparr>item_neighbors := None\<rparr>) ((hn_items h)[j := (hn_items h ! j)\<lparr>item_neighbors := x\<rparr>]) =
      map (\<lambda>it. it\<lparr>item_neighbors := None\<rparr>) (hn_items h)" for x
    by (simp add: map_update list_update_same_conv)
  then show ?thesis by (simp add: skeleton_def set_neighbors_def Let_def)
qed (simp add: skeleton_def set_neighbors_def Let_def list_update_beyond)

lemma skeleton_on_level: "skeleton h' = skeleton h \<Longrightarrow> k \<le> hn_count h \<Longrightarrow> on_level k h' l j = on_level k h l j"
  using skeleton_item(1) [of h' h j] by (cases "j < hn_count h") (auto simp: on_level_def)

lemma skeleton_list_ok: "skeleton h' = skeleton h \<Longrightarrow> k \<le> hn_count h \<Longrightarrow> list_ok k h' l es = list_ok k h l es"
proof -
  assume sk: "skeleton h' = skeleton h" and "k \<le> hn_count h"
  then have "(t < k \<and> int l \<le> item_level (hn_items h' ! t)) = (t < k \<and> int l \<le> item_level (hn_items h ! t))" for t
    using skeleton_item(1) [OF sk, of t] by auto
  then show ?thesis
    by (simp only: list_ok_def max_degree_def skeleton_fields(4) [OF sk])
qed

lemma set_neighbors_graph_ok:
  assumes g: "graph_ok k h" and on: "on_level k h l j" and ok: "list_ok k h l (nl_edges nl)"
  shows "graph_ok k (set_neighbors h j l nl)"
proof -
  let ?h = "set_neighbors h j l nl"
  have sk: "skeleton ?h = skeleton h" by simp
  have kc: "k \<le> hn_count h" using g by (simp add: graph_ok_def)
  have jk: "j < k" using on by (simp add: on_level_def)
  have "node_ok k ?h (hn_items ?h ! i)" if i: "i < k" for i
  proof -
    have n: "node_ok k h (hn_items h ! i)" using g i by (simp add: graph_ok_def)
    then obtain nls where nls: "item_neighbors (hn_items h ! i) = Some nls" "nls \<noteq> []"
        "item_level (hn_items h ! i) = int (length nls) - 1" "\<forall>m < length nls. list_ok k h m (nl_edges (nls ! m))"
      by (auto simp: node_ok_def split: option.splits)
    show ?thesis
    proof (cases "i = j")
      case True
      then have it: "hn_items ?h ! i = (hn_items h ! i)\<lparr>item_neighbors := Some (nls[l := nl])\<rparr>"
        using nls(1) jk kc by (simp add: set_neighbors_def Let_def)
      have "list_ok k h m (nl_edges (nls[l := nl] ! m))" if "m < length nls" for m
        using that nls(4) ok by (cases "m = l") simp_all
      with nls show ?thesis
        by (simp add: node_ok_def it skeleton_list_ok [OF sk kc])
    next
      case False
      then have it: "hn_items ?h ! i = hn_items h ! i"
        by (simp add: set_neighbors_def Let_def)
      with nls show ?thesis
        by (simp add: node_ok_def it skeleton_list_ok [OF sk kc])
    qed
  qed
  with kc skeleton_fields(1) [OF sk] show ?thesis by (simp add: graph_ok_def)
qed

lemma add_edge_ok:
  assumes g: "graph_ok k h" and src: "on_level k h l src" and dst: "on_level k h l dst"
  shows "yields (oom alloc) (\<lambda>h'. graph_ok k h' \<and> skeleton h' = skeleton h)
    (kc_hnsw_add_edge alloc rnd h src dst l)"
proof -
  obtain nl where nl: "neighbors_at h src l = Inr nl" "list_ok k h l (nl_edges nl)"
    using neighbors_at_ok [OF g src] by blast
  let ?es = "nl_edges nl @ [dst]"
  have kc: "k \<le> hn_count h" using g by (simp add: graph_ok_def)
  show ?thesis
  proof (cases "dst \<in> set (nl_edges nl)")
    case True
    with nl g show ?thesis by (simp add: kc_hnsw_add_edge_def)
  next
    case new: False
    have es: "distinct ?es" "\<forall>t \<in> set ?es. t < k \<and> int l \<le> item_level (hn_items h ! t)"
      using new nl(2) dst by (auto simp: list_ok_def on_level_def)
    then have in_range: "?es ! i < hn_count h" if "i < length ?es" for i
      using that kc nth_mem [OF that] by fastforce
    have prune: "yields {} (\<lambda>w. list_ok k h l (drop_worst ?es w))
        (fold_res (worst_step rnd h (hn_items h ! src) ?es) [0..<length ?es] None)"
    proof (rule yields_mono [OF worst_edge_spec [OF in_range]])
      fix w assume "case w of None \<Rightarrow> length ?es = 0 | Some (wi, ws) \<Rightarrow> wi < length ?es \<and>
        ws = item_dist rnd h (item_values (hn_items h ! src)) (item_norm (hn_items h ! src)) (hn_items h ! (?es ! wi)) \<and>
        (\<forall>j < length ?es. \<not> score_worse (hn_metric h)
            (item_dist rnd h (item_values (hn_items h ! src)) (item_norm (hn_items h ! src)) (hn_items h ! (?es ! j))) ws)"
      then obtain wi ws where "w = Some (wi, ws)" "wi < length ?es" by (auto split: option.splits)
      with drop_worst_spec [OF es(1), of wi ws] es(2) nl(2) show "list_ok k h l (drop_worst ?es w)"
        by (auto simp: list_ok_def)
    qed simp
    then obtain w where w: "fold_res (worst_step rnd h (hn_items h ! src) ?es) [0..<length ?es] None = Inr w"
        "list_ok k h l (drop_worst ?es w)" by (auto simp: yields_value)
    have short: "list_ok k h l ?es" if "\<not> length ?es > max_degree h l"
      using that es by (simp add: list_ok_def)
    show ?thesis
      using nl(1) new w short set_neighbors_graph_ok [OF g src]
      by (auto simp: kc_hnsw_add_edge_def Let_def oomI simp del: upt_Suc split: if_splits)
  qed
qed

text \<open>C37. Adding an edge on a level both nodes reach, when memory suffices: a new target is
  entered; when the list would exceed its bound (twice \<open>M\<close> on the ground level, \<open>M\<close> above), exactly
  one entry is dropped, and none of the entries is farther from the source than the dropped one.
  The graph stays well formed.\<close>

theorem add_edge_prunes_worst:
  assumes g: "graph_ok k h" and on: "on_level k h l src" "on_level k h l dst" and mem: "\<forall>n. alloc n"
    and nl: "neighbors_at h src l = Inr nl" and new: "dst \<notin> set (nl_edges nl)"
  shows "\<exists>h' nl'. kc_hnsw_add_edge alloc rnd h src dst l = Inr h' \<and> graph_ok k h' \<and>
    neighbors_at h' src l = Inr nl' \<and>
    (if length (nl_edges nl) < max_degree h l then set (nl_edges nl') = insert dst (set (nl_edges nl))
     else \<exists>w \<in> insert dst (set (nl_edges nl)). set (nl_edges nl') = insert dst (set (nl_edges nl)) - {w} \<and>
       (\<forall>t \<in> insert dst (set (nl_edges nl)).
          \<not> score_worse (hn_metric h)
            (item_dist rnd h (item_values (hn_items h ! src)) (item_norm (hn_items h ! src)) (hn_items h ! t))
            (item_dist rnd h (item_values (hn_items h ! src)) (item_norm (hn_items h ! src)) (hn_items h ! w))))"
proof -
  let ?es = "nl_edges nl @ [dst]"
  let ?D = "\<lambda>t. item_dist rnd h (item_values (hn_items h ! src)) (item_norm (hn_items h ! src)) (hn_items h ! t)"
  let ?cap = "if length (nl_edges nl) = nl_capacity nl then if nl_capacity nl = 0 then 4 else nl_capacity nl * 2 else nl_capacity nl"
  have lok: "list_ok k h l (nl_edges nl)" using neighbors_at_ok [OF g on(1)] nl by auto
  have kc: "k \<le> hn_count h" using g by (simp add: graph_ok_def)
  have es: "distinct ?es" "\<forall>t \<in> set ?es. t < k" using new lok on(2) by (auto simp: list_ok_def on_level_def)
  have in_range: "?es ! i < hn_count h" if "i < length ?es" for i
    using nth_mem [OF that] es(2) kc by fastforce
  obtain w1 where w: "fold_res (worst_step rnd h (hn_items h ! src) ?es) [0..<length ?es] None = Inr (Some w1)"
    and worst: "fst w1 < length ?es" "snd w1 = ?D (?es ! fst w1)"
      "\<forall>j < length ?es. \<not> score_worse (hn_metric h) (?D (?es ! j)) (snd w1)"
    using worst_edge_spec [of "length ?es" ?es h rnd "hn_items h ! src", OF in_range]
    by (auto simp: yields_value simp del: upt_Suc split: option.splits)
  obtain h' where h': "kc_hnsw_add_edge alloc rnd h src dst l = Inr h'" "graph_ok k h'"
    using add_edge_ok [OF g on, of alloc rnd] mem by (auto simp: oom_def yields_value)
  have read: "neighbors_at (set_neighbors h src l x) src l = Inr x" for x
    using nl by (auto simp: neighbors_at_def set_neighbors_def Let_def fetch_def split: if_splits option.splits)
  show ?thesis
  proof (cases "length (nl_edges nl) < max_degree h l")
    case True
    with nl new mem h'(1) have "h' = set_neighbors h src l \<lparr>nl_edges = ?es, nl_capacity = ?cap\<rparr>"
      by (simp add: kc_hnsw_add_edge_def Let_def)
    with h' read True show ?thesis by (intro exI [of _ h'] exI conjI) auto
  next
    case False
    with nl new mem h'(1) w have "h' = set_neighbors h src l \<lparr>nl_edges = drop_worst ?es (Some w1), nl_capacity = ?cap\<rparr>"
      by (simp add: kc_hnsw_add_edge_def Let_def del: upt_Suc)
    then have n: "neighbors_at h' src l = Inr \<lparr>nl_edges = drop_worst ?es (Some w1), nl_capacity = ?cap\<rparr>"
      using read by simp
    have "set (drop_worst ?es (Some w1)) = set ?es - {?es ! fst w1}"
      using drop_worst_spec [OF es(1) worst(1), of "snd w1"] by simp
    moreover have "?es ! fst w1 \<in> set ?es" using worst(1) by (rule nth_mem)
    moreover have "\<forall>t \<in> set ?es. \<not> score_worse (hn_metric h) (?D t) (?D (?es ! fst w1))"
      using worst(2,3) by (metis in_set_conv_nth)
    ultimately have "\<exists>w \<in> set ?es. set (drop_worst ?es (Some (fst w1, snd w1))) = set ?es - {w} \<and>
        (\<forall>t \<in> set ?es. \<not> score_worse (hn_metric h) (?D t) (?D w))" by auto
    moreover have "set ?es = insert dst (set (nl_edges nl))" by simp
    ultimately have "\<exists>w \<in> insert dst (set (nl_edges nl)). set (drop_worst ?es (Some w1)) = insert dst (set (nl_edges nl)) - {w} \<and>
        (\<forall>t \<in> insert dst (set (nl_edges nl)). \<not> score_worse (hn_metric h) (?D t) (?D w))" by (simp only: prod.collapse)
    with h' n False show ?thesis
      by (metis (no_types, lifting) kc_hnsw_neighbor_list_t.select_convs(1))
  qed
qed

text \<open>Two nodes on the ground level without edges.\<close>

definition two_nodes :: kc_hnsw where
  "two_nodes =
     \<lparr>hn_dimension = 1, hn_metric = 3,
      hn_items = [\<lparr>item_id = Some ''a'', item_values = [1], item_norm = 1, item_level = 0,
                   item_neighbors = Some [kc_hnsw_neighbor_list_init]\<rparr>,
                  \<lparr>item_id = Some ''b'', item_values = [3], item_norm = 3, item_level = 0,
                   item_neighbors = Some [kc_hnsw_neighbor_list_init]\<rparr>],
      hn_capacity = 8, hn_slots = 8, hn_max_level = 0, hn_entry_point_idx = 0,
      hn_entry_point_set = True, hn_M = 16, hn_ef_construction = 64, hn_ef_search = 64, hn_rng_state = 1\<rparr>"

lemma two_nodes_ok: "graph_ok 2 two_nodes \<and> on_level 2 two_nodes 0 0 \<and> on_level 2 two_nodes 0 1"
  by (simp add: graph_ok_def node_ok_def list_ok_def on_level_def two_nodes_def kc_hnsw_neighbor_list_init_def
      less_2_cases_iff)

lemma add_edge_prunes_worst_witness:
  "\<exists>h' nl'. kc_hnsw_add_edge (\<lambda>_. True) (\<lambda>x. x) two_nodes 0 1 0 = Inr h' \<and>
     neighbors_at h' 0 0 = Inr nl' \<and> set (nl_edges nl') = {1}"
proof -
  have n: "neighbors_at two_nodes 0 0 = Inr kc_hnsw_neighbor_list_init"
    by (simp add: neighbors_at_def two_nodes_def)
  have e: "nl_edges kc_hnsw_neighbor_list_init = []" by (simp add: kc_hnsw_neighbor_list_init_def)
  have d: "0 < max_degree two_nodes 0" by (simp add: max_degree_def two_nodes_def to_size_def)
  show ?thesis
    using add_edge_prunes_worst [of 2 two_nodes 0 0 1 "\<lambda>_. True" kc_hnsw_neighbor_list_init "\<lambda>x. x"]
      two_nodes_ok n e d by auto
qed
end
