(* ===== verification/Hnsw_Build.thy ===== *)
theory Hnsw_Build
  imports Hnsw_Graph
begin

section \<open>Building the graph (lib/libhnsw.c: kc\_hnsw\_build)\<close>

text \<open>
  The build works on a copy of the index record and of the item array: it shuffles the items, gives
  each a random level and inserts them one by one, and only a complete build replaces the array.
  \<open>kc_hnsw_build\<close> is split the way its loops are: the shuffle, one inserted node, one level of a
  node, the linking of a node with its candidates. The loop index of a level runs from the highest
  level down. Whatever fails inside the loops only discards the copy.
\<close>

subsection \<open>Definitions\<close>

text \<open>\<open>tmp_items[i].neighbors = NULL; tmp_items[i].level = -1;\<close>\<close>

definition strip_item :: "kc_hnsw_item_t \<Rightarrow> kc_hnsw_item_t" where
  "strip_item it = it\<lparr>item_level := -1, item_neighbors := None\<rparr>"

definition shuffle_step :: "nat \<Rightarrow> kc_hnsw \<Rightarrow> kc_hnsw" where
  "shuffle_step i h =
     (let (r, h1) = kc_hnsw_rand64 h;
          j = i + unat r mod (hn_count h - i);
          its = hn_items h1
      in h1\<lparr>hn_items := its[i := its ! j, j := its ! i]\<rparr>)"

definition shuffle_items :: "kc_hnsw \<Rightarrow> kc_hnsw" where
  "shuffle_items h = fold shuffle_step [0..<hn_count h] h"

text \<open>Linking node \<open>i\<close> with the best candidates; \<open>linked\<close> counts the links made. The result is
  the index, \<open>curr_idx\<close> and \<open>curr_dist\<close>.\<close>

fun connect_loop ::
    "allocator \<Rightarrow> (real \<Rightarrow> real) \<Rightarrow> nat \<Rightarrow> nat \<Rightarrow> kc_hnsw_node_score_t list \<Rightarrow> int
       \<Rightarrow> kc_hnsw \<times> nat \<times> real \<Rightarrow> hnsw_status + kc_hnsw \<times> nat \<times> real" where
  "connect_loop alloc rnd i l [] linked st = Inr st"
| "connect_loop alloc rnd i l (best # rest) linked (h, curr_idx, curr_dist) =
     (if linked < hn_M h then
        sum_bind (kc_hnsw_add_edge alloc rnd h i (ns_idx best) l)
          (\<lambda>h1. sum_bind (kc_hnsw_add_edge alloc rnd h1 (ns_idx best) i l)
            (\<lambda>h2. connect_loop alloc rnd i l rest (linked + 1)
              (if linked = 0 then (h2, ns_idx best, ns_score best) else (h2, curr_idx, curr_dist))))
      else Inr (h, curr_idx, curr_dist))"

definition connect_level ::
    "allocator \<Rightarrow> (real \<Rightarrow> real) \<Rightarrow> nat \<Rightarrow> nat \<Rightarrow> kc_hnsw \<times> nat \<times> real
       \<Rightarrow> hnsw_status + kc_hnsw \<times> nat \<times> real" where
  "connect_level alloc rnd i l st =
     (case st of (h, curr_idx, curr_dist) \<Rightarrow>
        case kc_hnsw_heap_create alloc (to_size (hn_ef_construction h)) (hn_metric h) True of
          None \<Rightarrow> Inl KC_HNSW_ENOMEM
        | Some heap \<Rightarrow>
            sum_bind (fetch OUT_OF_BOUNDS (hn_items h) i)
              (\<lambda>it. sum_bind
                (kc_hnsw_search_level alloc rnd h (item_values it) (item_norm it) curr_idx l
                   (hn_ef_construction h) heap)
                (\<lambda>candidates.
                   let c_size = length (heap_data candidates)
                   in if \<not> alloc (c_size * sizeof_node_score) \<and> c_size > 0 then Inl KC_HNSW_ENOMEM
                      else connect_loop alloc rnd i l (sort_scores (hn_metric h) (heap_data candidates)) 0
                             (h, curr_idx, curr_dist))))"

definition init_node :: "kc_hnsw \<Rightarrow> nat \<Rightarrow> int \<Rightarrow> kc_hnsw" where
  "init_node h i level =
     h\<lparr>hn_items := (hn_items h)[i := (hn_items h ! i)
         \<lparr>item_level := level,
          item_neighbors := Some (replicate (nat (level + 1)) kc_hnsw_neighbor_list_init)\<rparr>]\<rparr>"

definition link_node ::
    "allocator \<Rightarrow> (real \<Rightarrow> real) \<Rightarrow> nat \<Rightarrow> int \<Rightarrow> kc_hnsw \<Rightarrow> hnsw_status + kc_hnsw" where
  "link_node alloc rnd i level h =
     sum_bind (fetch OUT_OF_BOUNDS (hn_items h) i)
       (\<lambda>it. sum_bind (fetch OUT_OF_BOUNDS (hn_items h) (hn_entry_point_idx h))
         (\<lambda>ep. let curr_dist = item_dist rnd h (item_values it) (item_norm it) ep
           in sum_bind
             (greedy_descend rnd h (item_values it) (item_norm it) (hn_max_level h) level
                (hn_entry_point_idx h, curr_dist))
             (\<lambda>(curr_idx, curr_dist).
                sum_bind
                  (fold_res (connect_level alloc rnd i)
                     (rev [0..<nat ((if level < hn_max_level h then level else hn_max_level h) + 1)])
                     (h, curr_idx, curr_dist))
                  (\<lambda>(h', _, _).
                     Inr (if level > hn_max_level h'
                          then h'\<lparr>hn_max_level := level, hn_entry_point_idx := i\<rparr> else h')))))"

definition insert_node ::
    "allocator \<Rightarrow> (real \<Rightarrow> real) \<Rightarrow> nat \<Rightarrow> kc_hnsw \<Rightarrow> hnsw_status + kc_hnsw" where
  "insert_node alloc rnd i h =
     (let (level, h1) = kc_hnsw_random_level h
      in if \<not> alloc (nat (level + 1) * sizeof_nlist) then Inl KC_HNSW_ENOMEM
         else let h2 = init_node h1 i level
              in if \<not> hn_entry_point_set h2
                 then Inr (h2\<lparr>hn_entry_point_idx := i, hn_max_level := level, hn_entry_point_set := True\<rparr>)
                 else link_node alloc rnd i level h2)"

definition build_locked ::
    "allocator \<Rightarrow> (real \<Rightarrow> real) \<Rightarrow> kc_hnsw \<Rightarrow> hnsw_status \<times> kc_hnsw" where
  "build_locked alloc rnd hnsw =
     (if hn_count hnsw = 0 then (KC_HNSW_OK, hnsw)
      else if \<not> alloc (hn_count hnsw * sizeof_item) then (KC_HNSW_ENOMEM, hnsw)
      else let tmp_hnsw = hnsw\<lparr>hn_items := map strip_item (hn_items hnsw),
                               hn_max_level := -1, hn_entry_point_set := False\<rparr>
           in case fold_res (insert_node alloc rnd) [0..<hn_count hnsw] (shuffle_items tmp_hnsw) of
                Inl e \<Rightarrow> (e, hnsw)
              | Inr t \<Rightarrow>
                  (KC_HNSW_OK,
                   hnsw\<lparr>hn_items := hn_items t, hn_slots := hn_count hnsw, hn_max_level := hn_max_level t,
                        hn_entry_point_idx := hn_entry_point_idx t,
                        hn_entry_point_set := hn_entry_point_set t, hn_rng_state := hn_rng_state t\<rparr>))"

definition kc_hnsw_build ::
    "allocator \<Rightarrow> (real \<Rightarrow> real) \<Rightarrow> bool \<Rightarrow> kc_hnsw option \<Rightarrow> hnsw_status \<times> kc_hnsw option" where
  "kc_hnsw_build alloc rnd lk hnsw =
     (case hnsw of
        None \<Rightarrow> (KC_HNSW_EINVAL, None)
      | Some h \<Rightarrow>
          if \<not> lk then (KC_HNSW_EINVAL, hnsw)
          else let (rc, h') = build_locked alloc rnd h in (rc, Some h'))"

subsection \<open>The shuffle permutes\<close>

text \<open>What a caller sees of an item: its name, vector and norm.\<close>

definition payload :: "kc_hnsw_item_t \<Rightarrow> string option \<times> real list \<times> real" where
  "payload it = (item_id it, item_values it, item_norm it)"

lemma shuffle_step_spec:
  assumes "i < hn_count h"
  shows "mset (hn_items (shuffle_step i h)) = mset (hn_items h) \<and>
    shuffle_step i h = h\<lparr>hn_items := hn_items (shuffle_step i h), hn_rng_state := hn_rng_state (shuffle_step i h)\<rparr> \<and>
    (hn_rng_state h \<noteq> 0 \<longrightarrow> hn_rng_state (shuffle_step i h) \<noteq> 0)"
proof -
  obtain r h1 where r: "kc_hnsw_rand64 h = (r, h1)" by fastforce
  then have h1: "h1 = h\<lparr>hn_rng_state := hn_rng_state h1\<rparr>" "hn_rng_state h \<noteq> 0 \<longrightarrow> hn_rng_state h1 \<noteq> 0"
    using rand64_same [OF r] by (auto simp: same_index_def)
  then have it: "hn_items h1 = hn_items h" by (metis kc_hnsw.select_convs(3) kc_hnsw.surjective kc_hnsw.update_convs(12))
  let ?j = "i + unat r mod (hn_count h - i)"
  have "unat r mod (hn_count h - i) < hn_count h - i" using assms by (intro mod_less_divisor) simp
  then have j: "?j < hn_count h" using assms by linarith
  have s: "shuffle_step i h = h1\<lparr>hn_items := (hn_items h)[i := hn_items h ! ?j, ?j := hn_items h ! i]\<rparr>"
    by (simp add: shuffle_step_def r it Let_def)
  have m: "mset ((hn_items h)[i := hn_items h ! ?j, ?j := hn_items h ! i]) = mset (hn_items h)"
    using assms j by (intro mset_swap) auto
  show ?thesis unfolding s using m h1 by (cases h; cases h1) simp
qed

lemma shuffle_items_spec:
  "mset (hn_items (shuffle_items h)) = mset (hn_items h) \<and>
   shuffle_items h = h\<lparr>hn_items := hn_items (shuffle_items h), hn_rng_state := hn_rng_state (shuffle_items h)\<rparr> \<and>
   (hn_rng_state h \<noteq> 0 \<longrightarrow> hn_rng_state (shuffle_items h) \<noteq> 0)"
proof -
  have "n \<le> hn_count h \<Longrightarrow>
    mset (hn_items (fold shuffle_step [0..<n] h)) = mset (hn_items h) \<and>
    fold shuffle_step [0..<n] h = h\<lparr>hn_items := hn_items (fold shuffle_step [0..<n] h),
       hn_rng_state := hn_rng_state (fold shuffle_step [0..<n] h)\<rparr> \<and>
    (hn_rng_state h \<noteq> 0 \<longrightarrow> hn_rng_state (fold shuffle_step [0..<n] h) \<noteq> 0)" for n
  proof (induction n)
    case (Suc n)
    let ?f = "fold shuffle_step [0..<n] h"
    have IH: "mset (hn_items ?f) = mset (hn_items h)"
      "?f = h\<lparr>hn_items := hn_items ?f, hn_rng_state := hn_rng_state ?f\<rparr>"
      "hn_rng_state h \<noteq> 0 \<longrightarrow> hn_rng_state ?f \<noteq> 0" using Suc by auto
    have "n < hn_count ?f" using Suc.prems mset_eq_length [OF IH(1)] by simp
    note s = shuffle_step_spec [OF this]
    have "shuffle_step n ?f = h\<lparr>hn_items := hn_items (shuffle_step n ?f), hn_rng_state := hn_rng_state (shuffle_step n ?f)\<rparr>"
      using s IH(2) by (cases h; cases ?f; cases "shuffle_step n ?f") simp
    with s IH show ?case by simp
  qed simp
  then show ?thesis unfolding shuffle_items_def by simp
qed

subsection \<open>Inserting a node\<close>

lemma graph_ok_cong:
  assumes "hn_items h' = hn_items h" "hn_M h' = hn_M h"
  shows "graph_ok k h' = graph_ok k h"
  by (simp only: graph_ok_def node_ok_def list_ok_def max_degree_def assms)

lemma init_node_other: "j \<noteq> i \<Longrightarrow> hn_items (init_node h i lev) ! j = hn_items h ! j"
  by (simp add: init_node_def)

lemma init_node_graph:
  assumes g: "graph_ok i h" and i: "i < hn_count h" and lev: "0 \<le> lev"
  shows "graph_ok (Suc i) (init_node h i lev)"
proof -
  let ?h = "init_node h i lev"
  have list: "list_ok (Suc i) ?h l es" if "list_ok i h l es" for l es
    using that by (auto simp: list_ok_def max_degree_def init_node_def nth_list_update)
  have "node_ok (Suc i) ?h (hn_items ?h ! j)" if "j < Suc i" for j
  proof (cases "j = i")
    case True
    have "list_ok (Suc i) ?h l []" for l by (simp add: list_ok_def)
    with True i lev show ?thesis
      by (simp add: node_ok_def) (simp add: init_node_def kc_hnsw_neighbor_list_init_def)
  next
    case False
    with that have "node_ok i h (hn_items h ! j)" using g by (simp add: graph_ok_def)
    with False list show ?thesis
      by (auto simp: node_ok_def init_node_other split: option.splits)
  qed
  with i show ?thesis by (simp add: graph_ok_def) (simp add: init_node_def)
qed

definition linking :: "nat \<Rightarrow> kc_hnsw \<Rightarrow> nat \<Rightarrow> kc_hnsw \<times> nat \<times> real \<Rightarrow> bool" where
  "linking k h0 l st \<longleftrightarrow>
     (case st of (h, c, d) \<Rightarrow> graph_ok k h \<and> skeleton h = skeleton h0 \<and> on_level k h l c)"

lemma connect_loop_ok:
  assumes "linking k h0 l (h, c, d)" "on_level k h0 l i" "\<forall>b \<in> set bs. on_level k h0 l (ns_idx b)"
  shows "yields (oom alloc) (linking k h0 l) (connect_loop alloc rnd i l bs n (h, c, d))"
  using assms
proof (induction bs arbitrary: n h c d)
  case (Cons b bs)
  have kc: "k \<le> hn_count h0" and sk: "skeleton h = skeleton h0" and g: "graph_ok k h" and c: "on_level k h l c"
    using Cons.prems(1) skeleton_fields(1) [of h h0] by (auto simp: linking_def graph_ok_def)
  note lev = skeleton_on_level [OF _ kc]
  have on: "on_level k h l i" "on_level k h l (ns_idx b)"
    using Cons.prems(2,3) lev [OF sk] by auto
  show ?case
  proof (cases "n < hn_M h")
    case True
    have "yields (oom alloc) (\<lambda>h'. graph_ok k h' \<and> skeleton h' = skeleton h)
        (sum_bind (kc_hnsw_add_edge alloc rnd h i (ns_idx b) l)
          (\<lambda>h1. kc_hnsw_add_edge alloc rnd h1 (ns_idx b) i l))"
    proof (rule yields_bind [OF add_edge_ok [OF g on]])
      fix h1 assume h1: "graph_ok k h1 \<and> skeleton h1 = skeleton h"
      then have sk1: "skeleton h1 = skeleton h0" using sk by simp
      have "on_level k h1 l i" "on_level k h1 l (ns_idx b)" using on lev [OF sk] lev [OF sk1] by simp_all
      with h1 show "yields (oom alloc) (\<lambda>h'. graph_ok k h' \<and> skeleton h' = skeleton h)
          (kc_hnsw_add_edge alloc rnd h1 (ns_idx b) i l)"
        using add_edge_ok [of k h1 l "ns_idx b" i alloc rnd] by simp
    qed
    then have "yields (oom alloc) (linking k h0 l)
        (sum_bind (sum_bind (kc_hnsw_add_edge alloc rnd h i (ns_idx b) l)
          (\<lambda>h1. kc_hnsw_add_edge alloc rnd h1 (ns_idx b) i l))
          (\<lambda>h2. connect_loop alloc rnd i l bs (n + 1) (if n = 0 then (h2, ns_idx b, ns_score b) else (h2, c, d))))"
    proof (rule yields_bind)
      fix h2 assume h2: "graph_ok k h2 \<and> skeleton h2 = skeleton h"
      then have sk2: "skeleton h2 = skeleton h0" using sk by simp
      have "on_level k h2 l (ns_idx b)" "on_level k h2 l c" using on c lev [OF sk] lev [OF sk2] by simp_all
      with h2 sk2 have "linking k h0 l (h2, ns_idx b, ns_score b)" "linking k h0 l (h2, c, d)"
        by (simp_all add: linking_def)
      with Cons.IH Cons.prems(2,3) show "yields (oom alloc) (linking k h0 l)
          (connect_loop alloc rnd i l bs (n + 1) (if n = 0 then (h2, ns_idx b, ns_score b) else (h2, c, d)))"
        by simp
    qed
    moreover have "sum_bind (sum_bind m f) g = sum_bind m (\<lambda>x. sum_bind (f x) g)"
      for m :: "hnsw_status + kc_hnsw" and f :: "kc_hnsw \<Rightarrow> hnsw_status + kc_hnsw"
        and g :: "kc_hnsw \<Rightarrow> hnsw_status + kc_hnsw \<times> nat \<times> real"
      by (cases m) auto
    ultimately show ?thesis using True by simp
  next
    case False
    with Cons.prems(1) show ?thesis by simp
  qed
qed simp

lemma connect_level_ok:
  assumes st: "linking k h0 l (h, c, d)" and i: "on_level k h0 l i" and ef: "1 \<le> to_size (hn_ef_construction h0)"
  shows "yields (oom alloc) (linking k h0 l) (connect_level alloc rnd i l (h, c, d))"
proof -
  have g: "graph_ok k h" and sk: "skeleton h = skeleton h0" and c: "on_level k h l c"
    using st by (auto simp: linking_def)
  note flds = skeleton_fields [OF sk]
  have kc: "k \<le> hn_count h0" using g flds(1) by (simp add: graph_ok_def)
  have ic: "i < hn_count h" using i kc flds(1) by (auto simp: on_level_def)
  let ?it = "hn_items h ! i"
  show ?thesis
  proof (cases "kc_hnsw_heap_create alloc (to_size (hn_ef_construction h)) (hn_metric h) True")
    case None
    then show ?thesis by (simp add: connect_level_def create_oom)
  next
    case (Some heap)
    let ?s = "kc_hnsw_search_level alloc rnd h (item_values ?it) (item_norm ?it) c l (hn_ef_construction h) heap"
    have "yields (oom alloc) (linking k h0 l)
      (sum_bind ?s (\<lambda>r. let c_size = length (heap_data r)
         in if \<not> alloc (c_size * 16) \<and> c_size > 0 then Inl KC_HNSW_ENOMEM
            else connect_loop alloc rnd i l (sort_scores (hn_metric h) (heap_data r)) 0 (h, c, d)))"
    proof (rule yields_bind)
      show "yields (oom alloc) (results_ok rnd k h (item_values ?it) (item_norm ?it) l (to_size (hn_ef_construction h))
          (item_dist rnd h (item_values ?it) (item_norm ?it) (hn_items h ! c))) ?s"
        using g c ef flds(8) create_ok [OF Some] by (intro search_level_ok) auto
    next
      fix r assume r: "results_ok rnd k h (item_values ?it) (item_norm ?it) l (to_size (hn_ef_construction h))
          (item_dist rnd h (item_values ?it) (item_norm ?it) (hn_items h ! c)) r"
      have "\<forall>b \<in> set (sort_scores (hn_metric h) (heap_data r)). on_level k h0 l (ns_idx b)"
        using r skeleton_on_level [OF sk kc] by (simp add: results_ok_def found_def)
      from connect_loop_ok [OF st i this]
      show "yields (oom alloc) (linking k h0 l) (let c_size = length (heap_data r)
         in if \<not> alloc (c_size * 16) \<and> c_size > 0 then Inl KC_HNSW_ENOMEM
            else connect_loop alloc rnd i l (sort_scores (hn_metric h) (heap_data r)) 0 (h, c, d))"
        by (auto simp: Let_def intro: oomI)
    qed
    with Some ic show ?thesis by (simp add: connect_level_def)
  qed
qed

lemma connect_levels_ok:
  assumes "linking k h0 n st" "on_level k h0 n i" and ef: "1 \<le> to_size (hn_ef_construction h0)"
  shows "yields (oom alloc) (linking k h0 0) (fold_res (connect_level alloc rnd i) (rev [0..<Suc n]) st)"
  using assms(1,2)
proof (induction n arbitrary: st)
  case 0
  obtain h c d where st: "st = (h, c, d)" by (cases st)
  with connect_level_ok [OF _ 0(2) ef, of h c d alloc rnd] 0 show ?case
    by (auto split: sum.split)
next
  case (Suc n)
  obtain h c d where st: "st = (h, c, d)" by (cases st)
  note level = connect_level_ok [OF Suc.prems(1) [unfolded st] Suc.prems(2) ef, of alloc rnd]
  have unf: "fold_res (connect_level alloc rnd i) (rev [0..<Suc (Suc n)]) st =
      (case connect_level alloc rnd i (Suc n) (h, c, d) of
        Inl e \<Rightarrow> Inl e | Inr s \<Rightarrow> fold_res (connect_level alloc rnd i) (rev [0..<Suc n]) s)"
    unfolding st by (simp only: upt_Suc_append le0 rev_append rev.simps append_Nil append_Cons fold_res.simps)
  show ?case
  proof (cases "connect_level alloc rnd i (Suc n) (h, c, d)")
    case (Inl e)
    with level show ?thesis unfolding unf by simp
  next
    case (Inr s)
    with level have "linking k h0 (Suc n) s" by simp
    then have "linking k h0 n s"
      using on_level_down [of _ _ "Suc n" _ n] by (auto simp: linking_def)
    with Suc.IH Suc.prems(2) on_level_down [of k h0 "Suc n" i n] Inr show ?thesis unfolding unf by simp
  qed
qed

text \<open>The state of the build after the first \<open>k\<close> insertions.\<close>

definition entry_ok :: "nat \<Rightarrow> kc_hnsw \<Rightarrow> bool" where
  "entry_ok k h \<longleftrightarrow> hn_entry_point_set h \<and> hn_entry_point_idx h < k \<and>
     item_level (hn_items h ! hn_entry_point_idx h) = hn_max_level h \<and>
     (\<forall>j < k. item_level (hn_items h ! j) \<le> hn_max_level h) \<and> 0 \<le> hn_max_level h \<and> hn_max_level h \<le> 16"

definition partial_build :: "kc_hnsw \<Rightarrow> nat \<Rightarrow> kc_hnsw \<Rightarrow> bool" where
  "partial_build h0 k h \<longleftrightarrow> graph_ok k h \<and> (if k = 0 then \<not> hn_entry_point_set h else entry_ok k h) \<and>
     map payload (hn_items h) = map payload (hn_items h0) \<and> hn_M h = hn_M h0 \<and>
     hn_ef_construction h = hn_ef_construction h0 \<and> (hn_rng_state h0 \<noteq> 0 \<longrightarrow> hn_rng_state h \<noteq> 0)"

lemma skeleton_payload: "skeleton h' = skeleton h \<Longrightarrow> map payload (hn_items h') = map payload (hn_items h)"
proof -
  assume sk: "skeleton h' = skeleton h"
  have "payload (hn_items h' ! j) = payload (hn_items h ! j)" if "j < hn_count h" for j
    using skeleton_item [OF sk that] by (simp add: payload_def)
  with skeleton_fields(1) [OF sk] show ?thesis by (auto intro: nth_equalityI)
qed

lemma init_node_payload: "map payload (hn_items (init_node h i lev)) = map payload (hn_items h)"
  by (cases "i < hn_count h")
    (auto simp: init_node_def payload_def map_update list_update_same_conv list_update_beyond)

text \<open>Linking a node whose lists have just been initialised.\<close>

lemma link_node_ok:
  assumes g: "graph_ok (Suc i) h" and e: "entry_ok i h" and lev: "item_level (hn_items h ! i) = lev" "0 \<le> lev" "lev \<le> 16"
    and ef: "1 \<le> to_size (hn_ef_construction h)"
  shows "yields (oom alloc)
    (\<lambda>h'. graph_ok (Suc i) h' \<and> entry_ok (Suc i) h' \<and>
       (\<exists>h1. skeleton h1 = skeleton h \<and> (h' = h1 \<or> h' = h1\<lparr>hn_max_level := lev, hn_entry_point_idx := i\<rparr>)))
    (link_node alloc rnd i lev h)"
proof -
  let ?it = "hn_items h ! i" and ?ep = "hn_entry_point_idx h" and ?mx = "hn_max_level h"
  let ?d = "item_dist rnd h (item_values ?it) (item_norm ?it) (hn_items h ! ?ep)"
  let ?l = "nat (if lev < ?mx then lev else ?mx)"
  have i: "i < hn_count h" using g by (simp add: graph_ok_def)
  have ep: "?ep < i" "0 \<le> ?mx" "item_level (hn_items h ! ?ep) = ?mx" using e by (auto simp: entry_ok_def)
  have on_i: "on_level (Suc i) h ?l i" using lev ep by (auto simp: on_level_def)
  have down: "yields {} (\<lambda>st. linking (Suc i) h ?l (h, st))
      (greedy_descend rnd h (item_values ?it) (item_norm ?it) ?mx lev (?ep, ?d))"
  proof (cases "lev < ?mx")
    case True
    have "on_level (Suc i) h (nat ?mx) ?ep" using ep by (simp add: on_level_def)
    then have "yields {} (at_node rnd (Suc i) h (item_values ?it) (item_norm ?it) (nat lev) ?d)
        (greedy_descend rnd h (item_values ?it) (item_norm ?it) ?mx lev (?ep, ?d))"
      using True by (intro greedy_descend_ok [OF g _ ep(2) lev(2)]) auto
    then show ?thesis by (rule yields_mono) (use True g in \<open>auto simp: at_node_def linking_def\<close>)
  next
    case False
    then have "greedy_descend rnd h (item_values ?it) (item_norm ?it) ?mx lev (?ep, ?d) = Inr (?ep, ?d)"
      by (simp add: greedy_descend_def)
    with False ep g show ?thesis by (simp add: linking_def on_level_def)
  qed
  then obtain c d where c: "greedy_descend rnd h (item_values ?it) (item_norm ?it) ?mx lev (?ep, ?d) = Inr (c, d)"
      "linking (Suc i) h ?l (h, c, d)" by (auto simp: yields_value)
  have levels: "nat ((if lev < ?mx then lev else ?mx) + 1) = Suc ?l" using lev ep by auto
  have conn: "yields (oom alloc) (linking (Suc i) h 0)
      (fold_res (connect_level alloc rnd i) (rev [0..<nat ((if lev < ?mx then lev else ?mx) + 1)]) (h, c, d))"
    unfolding levels by (rule connect_levels_ok [OF c(2) on_i ef])
  have fin: "let h' = (if lev > hn_max_level h1 then h1\<lparr>hn_max_level := lev, hn_entry_point_idx := i\<rparr> else h1)
      in graph_ok (Suc i) h' \<and> entry_ok (Suc i) h' \<and>
       (\<exists>h1. skeleton h1 = skeleton h \<and> (h' = h1 \<or> h' = h1\<lparr>hn_max_level := lev, hn_entry_point_idx := i\<rparr>))"
    if h1: "graph_ok (Suc i) h1" "skeleton h1 = skeleton h" for h1
  proof -
    note f = skeleton_fields [OF h1(2)]
    have l: "item_level (hn_items h1 ! j) = item_level (hn_items h ! j)" if "j \<le> i" for j
      using skeleton_item(1) [OF h1(2)] that i by simp
    have "graph_ok (Suc i) (h1\<lparr>hn_max_level := lev, hn_entry_point_idx := i\<rparr>)"
      using h1(1) by (subst graph_ok_cong [of _ h1]) simp_all
    moreover have "entry_ok (Suc i) (h1\<lparr>hn_max_level := lev, hn_entry_point_idx := i\<rparr>)" if "lev > hn_max_level h1"
      using e f l lev that by (auto simp: entry_ok_def less_Suc_eq)
    moreover have "entry_ok (Suc i) h1" if "\<not> lev > hn_max_level h1"
      using e f l lev that by (auto simp: entry_ok_def less_Suc_eq)
    ultimately show ?thesis using h1 by (auto simp: Let_def)
  qed
  have epc: "?ep < hn_count h" using ep i by simp
  have eq: "link_node alloc rnd i lev h =
      sum_bind (fold_res (connect_level alloc rnd i) (rev [0..<nat ((if lev < ?mx then lev else ?mx) + 1)]) (h, c, d))
        (\<lambda>(h', _, _). Inr (if lev > hn_max_level h' then h'\<lparr>hn_max_level := lev, hn_entry_point_idx := i\<rparr> else h'))"
    by (simp only: link_node_def fetch_in [OF i] fetch_in [OF epc] sum_bind.simps Let_def c(1) prod.case)
  show ?thesis
    unfolding eq
  proof (rule yields_bind [OF conn])
    fix st assume "linking (Suc i) h 0 st"
    then obtain h1 x where "st = (h1, x)" "graph_ok (Suc i) h1" "skeleton h1 = skeleton h"
      by (cases st) (auto simp: linking_def)
    with fin [of h1] show "yields (oom alloc) (\<lambda>h'. graph_ok (Suc i) h' \<and> entry_ok (Suc i) h' \<and>
       (\<exists>h1. skeleton h1 = skeleton h \<and> (h' = h1 \<or> h' = h1\<lparr>hn_max_level := lev, hn_entry_point_idx := i\<rparr>)))
       (case st of (h', _, _) \<Rightarrow> Inr (if lev > hn_max_level h' then h'\<lparr>hn_max_level := lev, hn_entry_point_idx := i\<rparr> else h'))"
      by (simp only: prod.case case_prod_beta yields.simps Let_def fst_conv)
  qed
qed

lemma insert_node_ok:
  assumes p: "partial_build h0 i h" and i: "i < hn_count h0" and ef: "1 \<le> to_size (hn_ef_construction h0)"
  shows "yields (oom alloc) (partial_build h0 (Suc i)) (insert_node alloc rnd i h)"
proof -
  note p = p [unfolded partial_build_def]
  obtain lev h1 where r: "kc_hnsw_random_level h = (lev, h1)" by fastforce
  note lv = random_level_spec [OF r]
  have rng: "hn_rng_state h \<noteq> 0 \<longrightarrow> hn_rng_state h1 \<noteq> 0" using lv by (simp add: same_index_def)
  obtain x where h1: "h1 = h\<lparr>hn_rng_state := x\<rparr>" using lv by (auto simp: same_index_def)
  have cnt: "hn_count h = hn_count h0" using p map_eq_imp_length_eq by blast
  let ?h = "init_node h1 i lev"
  have "graph_ok i h1" using p by (subst graph_ok_cong [of _ h]) (simp_all add: h1)
  moreover have "i < hn_count h1" using i cnt by (simp add: h1)
  ultimately have g: "graph_ok (Suc i) ?h" using lv by (intro init_node_graph) simp_all
  have f: "hn_entry_point_set ?h = hn_entry_point_set h" "hn_entry_point_idx ?h = hn_entry_point_idx h"
      "hn_max_level ?h = hn_max_level h" "hn_M ?h = hn_M h" "hn_ef_construction ?h = hn_ef_construction h"
      "hn_rng_state ?h = hn_rng_state h1" "item_level (hn_items ?h ! i) = lev"
      "\<And>j. j \<noteq> i \<Longrightarrow> hn_items ?h ! j = hn_items h ! j"
    using i cnt by (simp_all add: init_node_def h1)
  have pay: "map payload (hn_items ?h) = map payload (hn_items h0)"
    using p init_node_payload [of h1 i lev] by (simp add: h1)
  show ?thesis
  proof (cases "i = 0")
    case True
    let ?h' = "?h\<lparr>hn_entry_point_idx := i, hn_max_level := lev, hn_entry_point_set := True\<rparr>"
    have "graph_ok (Suc i) ?h'" using g by (subst graph_ok_cong [of _ ?h]) simp_all
    moreover have "entry_ok (Suc i) ?h'" using lv f(7) True by (simp add: entry_ok_def)
    ultimately have "partial_build h0 (Suc i) ?h'"
      using p pay f rng by (simp add: partial_build_def)
    then show ?thesis
      using p True f(1) by (auto simp: insert_node_def r Let_def intro: oomI)
  next
    case False
    with p have e0: "entry_ok i h" by simp
    then have e: "entry_ok i ?h" using f by (auto simp: entry_ok_def)
    have "yields (oom alloc) (partial_build h0 (Suc i)) (link_node alloc rnd i lev ?h)"
    proof (rule yields_mono [OF link_node_ok [OF g e f(7)]])
      fix h' assume h': "graph_ok (Suc i) h' \<and> entry_ok (Suc i) h' \<and>
        (\<exists>h2. skeleton h2 = skeleton ?h \<and> (h' = h2 \<or> h' = h2\<lparr>hn_max_level := lev, hn_entry_point_idx := i\<rparr>))"
      then obtain h2 where h2: "skeleton h2 = skeleton ?h" "h' = h2 \<or> h' = h2\<lparr>hn_max_level := lev, hn_entry_point_idx := i\<rparr>"
        by blast
      note f2 = skeleton_fields [OF h2(1)]
      have "map payload (hn_items h') = map payload (hn_items ?h)"
        using skeleton_payload [OF h2(1)] h2(2) by auto
      moreover have "hn_M h' = hn_M ?h" "hn_ef_construction h' = hn_ef_construction ?h" "hn_rng_state h' = hn_rng_state ?h"
        using h2(2) f2 by auto
      ultimately show "partial_build h0 (Suc i) h'"
        using h' p pay f(4,5,6) rng by (simp add: partial_build_def)
    qed (use lv ef p f(5) in auto)
    then show ?thesis
      using e f(1) by (auto simp: insert_node_def r Let_def entry_ok_def intro: oomI)
  qed
qed

lemma insert_all_ok:
  assumes "partial_build h0 0 h" "1 \<le> to_size (hn_ef_construction h0)" "n \<le> hn_count h0"
  shows "yields (oom alloc) (partial_build h0 n) (fold_res (insert_node alloc rnd) [0..<n] h)"
  using assms(3)
proof (induction n)
  case (Suc n)
  then have "yields (oom alloc) (partial_build h0 n) (fold_res (insert_node alloc rnd) [0..<n] h)" by simp
  then have "yields (oom alloc) (partial_build h0 (Suc n))
      (sum_bind (fold_res (insert_node alloc rnd) [0..<n] h) (insert_node alloc rnd n))"
    by (rule yields_bind) (use Suc.prems assms(2) insert_node_ok in auto)
  moreover have "fold_res (insert_node alloc rnd) [n] = insert_node alloc rnd n"
    by (auto split: sum.split)
  ultimately show ?case by (simp add: fold_res_append)
qed (use assms in simp)

subsection \<open>The build\<close>

text \<open>A built index: a well-formed graph over all items, entered at a node of the top level.\<close>

definition built :: "kc_hnsw \<Rightarrow> bool" where
  "built h \<longleftrightarrow> graph_ok (hn_count h) h \<and> entry_ok (hn_count h) h"

lemma mset_map_payload: "mset (map payload xs) = image_mset payload (mset xs)"
  by simp

lemma build_locked_ok:
  assumes ne: "hn_count h \<noteq> 0" and ef: "1 \<le> to_size (hn_ef_construction h)"
    and b: "build_locked alloc rnd h = (rc, h')"
  shows "(rc = KC_HNSW_OK \<and> built h' \<and> mset (map payload (hn_items h')) = mset (map payload (hn_items h)) \<and>
        hn_slots h' = hn_count h \<and> hn_capacity h' = hn_capacity h \<and> hn_dimension h' = hn_dimension h \<and>
        hn_metric h' = hn_metric h \<and> hn_ef_search h' = hn_ef_search h)
    \<or> (rc \<in> oom alloc \<and> h' = h)"
proof (cases "alloc (hn_count h * 40)")
  case False
  with b ne show ?thesis by (auto simp: build_locked_def oomI)
next
  case True
  let ?t = "h\<lparr>hn_items := map strip_item (hn_items h), hn_max_level := -1, hn_entry_point_set := False\<rparr>"
  let ?s = "shuffle_items ?t"
  note sh = shuffle_items_spec [of ?t]
  have s: "hn_count ?s = hn_count h" using mset_eq_length [of "hn_items ?s" "hn_items ?t"] sh by simp
  have f: "hn_M ?s = hn_M h" "hn_ef_construction ?s = hn_ef_construction h" "\<not> hn_entry_point_set ?s"
    using sh by (cases ?s, simp)+
  have pay: "mset (map payload (hn_items ?s)) = mset (map payload (hn_items h))"
  proof -
    have "mset (hn_items ?s) = mset (map strip_item (hn_items h))" using sh by simp
    then have "mset (map payload (hn_items ?s)) = mset (map payload (map strip_item (hn_items h)))"
      by (simp only: mset_map)
    also have "map payload (map strip_item (hn_items h)) = map payload (hn_items h)"
      by (simp add: strip_item_def payload_def)
    finally show ?thesis .
  qed
  have "partial_build ?s 0 ?s" using f by (simp add: partial_build_def graph_ok_def)
  then have y: "yields (oom alloc) (partial_build ?s (hn_count h)) (fold_res (insert_node alloc rnd) [0..<hn_count h] ?s)"
    using ef f s by (intro insert_all_ok) auto
  show ?thesis
  proof (cases "fold_res (insert_node alloc rnd) [0..<hn_count h] ?s")
    case (Inl e)
    with y b ne True show ?thesis by (auto simp: build_locked_def Let_def)
  next
    case (Inr t)
    with y have t: "graph_ok (hn_count h) t" "entry_ok (hn_count h) t"
        "map payload (hn_items t) = map payload (hn_items ?s)" "hn_M t = hn_M h"
      using ne f by (auto simp: partial_build_def)
    from b ne True Inr have h': "rc = KC_HNSW_OK"
        "h' = h\<lparr>hn_items := hn_items t, hn_slots := hn_count h, hn_max_level := hn_max_level t,
                hn_entry_point_idx := hn_entry_point_idx t,
                hn_entry_point_set := hn_entry_point_set t, hn_rng_state := hn_rng_state t\<rparr>"
      by (auto simp: build_locked_def Let_def)
    have cnt: "hn_count t = hn_count h" using t(3) s map_eq_imp_length_eq by metis
    have "graph_ok (hn_count h) h'" using t by (subst graph_ok_cong [of _ t]) (simp_all add: h')
    moreover have "entry_ok (hn_count h) h'" using t(2) by (simp add: entry_ok_def h')
    ultimately have "built h'" using cnt by (simp add: built_def h')
    moreover have "mset (map payload (hn_items h')) = mset (map payload (hn_items h))"
      using t(3) pay by (simp add: h' del: mset_map)
    ultimately show ?thesis by (simp add: h')
  qed
qed

subsection \<open>Properties\<close>

text \<open>C11. Building a non-empty index either succeeds or runs out of memory; it never touches a cell
  outside an array. When it succeeds the items are a permutation of the old ones (names, vectors and
  norms) and form a well-formed layered graph: every node has one list per level up to its own
  (at most 16), each list is free of repetitions, within its degree bound, and leads to nodes of
  that level; the entry point is a node of the highest level. When memory runs out the index is
  left exactly as it was.\<close>

theorem build_makes_graph:
  assumes "hn_count h \<noteq> 0" "1 \<le> to_size (hn_ef_construction h)"
    and "kc_hnsw_build alloc rnd True (Some h) = (rc, Some h')"
  shows "(rc = KC_HNSW_OK \<and> built h' \<and> mset (map payload (hn_items h')) = mset (map payload (hn_items h)))
    \<or> (rc = KC_HNSW_ENOMEM \<and> h' = h \<and> (\<exists>n. \<not> alloc n))"
proof -
  have "build_locked alloc rnd h = (rc, h')"
    using assms(3) by (auto simp: kc_hnsw_build_def split: prod.splits)
  from build_locked_ok [OF assms(1,2) this] show ?thesis
    by (auto simp: oom_def split: if_splits)
qed

lemma build_makes_graph_witness:
  "\<exists>h'. kc_hnsw_build (\<lambda>_. True) (\<lambda>x. x) True (Some two_nodes) = (KC_HNSW_OK, Some h') \<and> built h'"
proof -
  obtain rc h' where b: "build_locked (\<lambda>_. True) (\<lambda>x. x) two_nodes = (rc, h')" by fastforce
  then have k: "kc_hnsw_build (\<lambda>_. True) (\<lambda>x. x) True (Some two_nodes) = (rc, Some h')"
    by (simp add: kc_hnsw_build_def)
  have "hn_count two_nodes \<noteq> 0" "1 \<le> to_size (hn_ef_construction two_nodes)"
    by (simp_all add: two_nodes_def to_size_def)
  from build_makes_graph [OF this k] k show ?thesis by auto
qed

text \<open>C40. A defect: the build replaces the item array by one with exactly as many cells as there
  are items but leaves the capacity field alone. Adding a vector to a built index whose capacity
  exceeds its count then takes the branch without reallocation and writes past the array.\<close>

theorem add_after_build_overflows:
  assumes "hn_count h \<noteq> 0" "hn_count h < hn_capacity h" "1 \<le> to_size (hn_ef_construction h)"
    and build: "kc_hnsw_build alloc rnd True (Some h) = (KC_HNSW_OK, Some h')"
    and mem: "\<forall>n. alloc n" and "name \<noteq> []"
  shows "fst (kc_hnsw_add alloc rnd True (Some h') (Some name) (Some v)) = OUT_OF_BOUNDS"
proof -
  have b: "build_locked alloc rnd h = (KC_HNSW_OK, h')"
    using build by (auto simp: kc_hnsw_build_def split: prod.splits)
  have h': "hn_slots h' = hn_count h" "hn_capacity h' = hn_capacity h"
      "mset (map payload (hn_items h')) = mset (map payload (hn_items h))"
    using build_locked_ok [OF assms(1,3) b] mem by (auto simp: oom_def)
  from h'(3) have "hn_count h' = hn_count h" by (metis length_map size_mset)
  with h' assms(2,6) mem show ?thesis
    by (simp add: kc_hnsw_add_def add_locked_def kc_hnsw_strdup_def)
qed

lemma add_after_build_overflows_witness:
  "\<exists>h'. kc_hnsw_build (\<lambda>_. True) (\<lambda>x. x) True (Some two_nodes) = (KC_HNSW_OK, Some h') \<and>
     fst (kc_hnsw_add (\<lambda>_. True) (\<lambda>x. x) True (Some h') (Some ''c'') (Some [5])) = OUT_OF_BOUNDS"
proof -
  obtain rc h' where b: "build_locked (\<lambda>_. True) (\<lambda>x. x) two_nodes = (rc, h')" by fastforce
  have t: "hn_count two_nodes \<noteq> 0" "hn_count two_nodes < hn_capacity two_nodes"
      "1 \<le> to_size (hn_ef_construction two_nodes)"
    by (simp_all add: two_nodes_def to_size_def)
  have "rc = KC_HNSW_OK" using build_locked_ok [OF t(1,3) b] by auto
  with b have k: "kc_hnsw_build (\<lambda>_. True) (\<lambda>x. x) True (Some two_nodes) = (KC_HNSW_OK, Some h')"
    by (simp add: kc_hnsw_build_def)
  from add_after_build_overflows [OF t k, of "''c''" "[5]"] k show ?thesis by auto
qed

end
