(* ===== verification/Hnsw_Search.thy ===== *)
theory Hnsw_Search
  imports Hnsw_Build
begin

section \<open>Searching the index (lib/libhnsw.c: kc\_hnsw\_search)\<close>

text \<open>
  A search scores every item when the index is small (at most 1024 items, or no more than the search
  budget) and otherwise descends the graph. The scored candidates are ranked, filtered by the
  threshold and cut at the limit. \<open>out_given\<close> says that the output pointer is not null; the returned
  list is what the call writes there.
\<close>

subsection \<open>Definitions\<close>

text \<open>The exhaustive candidates.\<close>

definition brute_force_scores ::
    "(real \<Rightarrow> real) \<Rightarrow> kc_hnsw \<Rightarrow> real list \<Rightarrow> real \<Rightarrow> kc_hnsw_node_score_t list" where
  "brute_force_scores rnd hnsw query q_norm =
     map (\<lambda>i. \<lparr>ns_idx = i, ns_score = item_dist rnd hnsw query q_norm (hn_items hnsw ! i)\<rparr>)
       (filter (\<lambda>i. item_id (hn_items hnsw ! i) \<noteq> None) [0..<hn_count hnsw])"

text \<open>Emptying the result heap, each node scored again.\<close>

fun drain_heap ::
    "(real \<Rightarrow> real) \<Rightarrow> kc_hnsw \<Rightarrow> real list \<Rightarrow> real \<Rightarrow> nat \<Rightarrow> kc_hnsw_heap_t
       \<Rightarrow> hnsw_status + kc_hnsw_node_score_t list" where
  "drain_heap rnd hnsw query q_norm 0 heap = Inr []"
| "drain_heap rnd hnsw query q_norm (Suc n) heap =
     (case kc_hnsw_heap_pop heap of (r, heap') \<Rightarrow>
        sum_bind (fetch OUT_OF_BOUNDS (hn_items hnsw) (ns_idx r))
          (\<lambda>it. let r' = (if item_id it \<noteq> None then r\<lparr>ns_score := item_dist rnd hnsw query q_norm it\<rparr> else r)
            in sum_bind (drain_heap rnd hnsw query q_norm n heap') (\<lambda>rs. Inr (r' # rs))))"

definition graph_scores ::
    "allocator \<Rightarrow> (real \<Rightarrow> real) \<Rightarrow> kc_hnsw \<Rightarrow> real list \<Rightarrow> real \<Rightarrow> int
       \<Rightarrow> hnsw_status + kc_hnsw_node_score_t list" where
  "graph_scores alloc rnd hnsw query q_norm ef =
     sum_bind (fetch OUT_OF_BOUNDS (hn_items hnsw) (hn_entry_point_idx hnsw))
       (\<lambda>ep. sum_bind
         (greedy_descend rnd hnsw query q_norm (hn_max_level hnsw) 0
            (hn_entry_point_idx hnsw, item_dist rnd hnsw query q_norm ep))
         (\<lambda>(curr_idx, _).
            case kc_hnsw_heap_create alloc (to_size ef) (hn_metric hnsw) True of
              None \<Rightarrow> Inl KC_HNSW_ENOMEM
            | Some heap \<Rightarrow>
                sum_bind (kc_hnsw_search_level alloc rnd hnsw query q_norm curr_idx 0 ef heap)
                  (\<lambda>top_k. let n = length (heap_data top_k)
                     in if \<not> alloc (n * sizeof_node_score) \<and> n > 0 then Inl KC_HNSW_ENOMEM
                        else drain_heap rnd hnsw query q_norm n top_k)))"

definition accepts :: "int \<Rightarrow> real \<Rightarrow> real \<Rightarrow> bool" where
  "accepts metric threshold score =
     (if metric = KC_HNSW_METRIC_L2 then score \<le> threshold else score \<ge> threshold)"

fun write_results ::
    "kc_hnsw \<Rightarrow> real \<Rightarrow> nat \<Rightarrow> kc_hnsw_node_score_t list \<Rightarrow> hnsw_status + kc_hnsw_result_t list" where
  "write_results hnsw threshold limit [] = Inr []"
| "write_results hnsw threshold limit (r # rs) =
     (if limit = 0 then Inr []
      else sum_bind (fetch OUT_OF_BOUNDS (hn_items hnsw) (ns_idx r))
        (\<lambda>it. case item_id it of
                None \<Rightarrow> write_results hnsw threshold limit rs
              | Some name \<Rightarrow>
                  if accepts (hn_metric hnsw) threshold (ns_score r)
                  then sum_bind (write_results hnsw threshold (limit - 1) rs)
                         (\<lambda>out. Inr (\<lparr>res_id = name, res_score = ns_score r\<rparr> # out))
                  else write_results hnsw threshold limit rs))"

definition search_ef :: "kc_hnsw \<Rightarrow> nat \<Rightarrow> int" where
  "search_ef hnsw limit =
     (let ef = hn_ef_search hnsw;
          ef1 = (if to_size ef < limit then to_int (int limit) else ef)
      in if ef1 < 64 then 64 else ef1)"

definition search_locked ::
    "allocator \<Rightarrow> (real \<Rightarrow> real) \<Rightarrow> kc_hnsw \<Rightarrow> real list \<Rightarrow> nat \<Rightarrow> real \<Rightarrow> hnsw_status + kc_hnsw_result_t list" where
  "search_locked alloc rnd hnsw query limit threshold =
     (if limit = 0 \<or> hn_count hnsw = 0 then Inr []
      else if \<not> hn_entry_point_set hnsw then Inl KC_HNSW_ESTATE
      else let ef = search_ef hnsw limit;
               q_norm = kc_hnsw_vector_norm rnd query (hn_dimension hnsw)
           in sum_bind
                (if hn_count hnsw \<le> to_size ef \<or> hn_count hnsw \<le> 1024
                 then (if \<not> alloc (hn_count hnsw * sizeof_node_score) then Inl KC_HNSW_ENOMEM
                       else Inr (brute_force_scores rnd hnsw query q_norm))
                 else graph_scores alloc rnd hnsw query q_norm ef)
                (\<lambda>results. write_results hnsw threshold limit (sort_scores (hn_metric hnsw) results)))"

definition kc_hnsw_search ::
    "allocator \<Rightarrow> (real \<Rightarrow> real) \<Rightarrow> bool \<Rightarrow> kc_hnsw option \<Rightarrow> real list option \<Rightarrow> nat \<Rightarrow> real \<Rightarrow> bool
       \<Rightarrow> hnsw_status + kc_hnsw_result_t list" where
  "kc_hnsw_search alloc rnd lk hnsw query limit threshold out_given =
     (case (hnsw, query) of
        (Some h, Some q) \<Rightarrow>
          if limit > 0 \<and> \<not> out_given then Inl KC_HNSW_EINVAL
          else if \<not> lk then Inl KC_HNSW_EINVAL
          else search_locked alloc rnd h q limit threshold
      | _ \<Rightarrow> Inl KC_HNSW_EINVAL)"

subsection \<open>What a search writes\<close>

text \<open>Item \<open>i\<close>'s score against a query.\<close>

definition score_of :: "(real \<Rightarrow> real) \<Rightarrow> kc_hnsw \<Rightarrow> real list \<Rightarrow> nat \<Rightarrow> real" where
  "score_of rnd h q i = item_dist rnd h q (kc_hnsw_vector_norm rnd q (hn_dimension h)) (hn_items h ! i)"

definition named_items :: "kc_hnsw \<Rightarrow> bool" where
  "named_items h \<longleftrightarrow> (\<forall>it \<in> set (hn_items h). item_id it \<noteq> None)"

definition entry_of :: "kc_hnsw \<Rightarrow> kc_hnsw_node_score_t \<Rightarrow> kc_hnsw_result_t" where
  "entry_of h r = \<lparr>res_id = the (item_id (hn_items h ! ns_idx r)), res_score = ns_score r\<rparr>"

lemma write_results_take:
  assumes "named_items h" "\<forall>r \<in> set rs. ns_idx r < hn_count h"
  shows "write_results h t limit rs =
    Inr (map (entry_of h) (take limit (filter (\<lambda>r. accepts (hn_metric h) t (ns_score r)) rs)))"
  using assms(2)
proof (induction rs arbitrary: limit)
  case (Cons r rs)
  then obtain name where "item_id (hn_items h ! ns_idx r) = Some name" "ns_idx r < hn_count h"
    using assms(1) nth_mem [of "ns_idx r" "hn_items h"] by (fastforce simp: named_items_def)
  moreover have "take limit (x # xs) = (if limit = 0 then [] else x # take (limit - 1) xs)"
    for x and xs :: "kc_hnsw_node_score_t list" by (cases limit) auto
  ultimately show ?case using Cons by (simp add: entry_of_def)
qed simp

text \<open>The items a search reports, best first.\<close>

definition reports ::
    "(real \<Rightarrow> real) \<Rightarrow> kc_hnsw \<Rightarrow> real list \<Rightarrow> nat \<Rightarrow> real \<Rightarrow> nat list \<Rightarrow> kc_hnsw_result_t list \<Rightarrow> bool" where
  "reports rnd h q limit t is out \<longleftrightarrow> distinct is \<and> length is \<le> limit \<and>
     out = map (\<lambda>i. \<lparr>res_id = the (item_id (hn_items h ! i)), res_score = score_of rnd h q i\<rparr>) is \<and>
     (\<forall>i \<in> set is. i < hn_count h \<and> accepts (hn_metric h) t (score_of rnd h q i)) \<and>
     sorted_wrt (\<lambda>i j. \<not> score_worse (hn_metric h) (score_of rnd h q i) (score_of rnd h q j)) is"

lemma sorted_wrt_take: "sorted_wrt P xs \<Longrightarrow> sorted_wrt P (take n xs)"
  by (metis append_take_drop_id sorted_wrt_append)

lemma write_ranked_reports:
  fixes limit :: nat and t :: real
  assumes named: "named_items h" and rs: "\<forall>r \<in> set rs. ns_idx r < hn_count h \<and> ns_score r = score_of rnd h q (ns_idx r)"
    and dist: "distinct (map ns_idx rs)"
  defines "kept \<equiv> take limit (filter (\<lambda>r. accepts (hn_metric h) t (ns_score r)) (sort_scores (hn_metric h) rs))"
  shows "write_results h t limit (sort_scores (hn_metric h) rs) = Inr (map (entry_of h) kept)"
    and "reports rnd h q limit t (map ns_idx kept) (map (entry_of h) kept)"
proof -
  let ?srt = "sort_scores (hn_metric h) rs"
  have in_rs: "r \<in> set rs" if "r \<in> set kept" for r
    using that by (auto simp: kept_def dest: in_set_takeD)
  show "write_results h t limit ?srt = Inr (map (entry_of h) kept)"
    unfolding kept_def using named rs by (intro write_results_take) auto
  have "mset (map ns_idx ?srt) = mset (map ns_idx rs)" by simp
  with dist have "distinct (map ns_idx ?srt)" using mset_eq_imp_distinct_iff by blast
  then have d: "distinct (map ns_idx kept)"
    unfolding kept_def by (metis distinct_map_filter distinct_take take_map)
  have "sorted_wrt (\<lambda>p q. \<not> score_worse (hn_metric h) (ns_score p) (ns_score q)) kept"
    unfolding kept_def by (intro sorted_wrt_take sorted_wrt_filter sorted_sort_scores)
  then have "sorted_wrt (\<lambda>x y. \<not> score_worse (hn_metric h) (score_of rnd h q (ns_idx x)) (score_of rnd h q (ns_idx y))) kept"
    by (rule sorted_wrt_mono_rel [rotated]) (use in_rs rs in auto)
  moreover have "map (entry_of h) kept =
      map (\<lambda>i. \<lparr>res_id = the (item_id (hn_items h ! i)), res_score = score_of rnd h q i\<rparr>) (map ns_idx kept)"
    using in_rs rs by (auto simp: entry_of_def)
  moreover have "accepts (hn_metric h) t (ns_score r)" if "r \<in> set kept" for r
    using that by (auto simp: kept_def dest: in_set_takeD)
  then have "\<forall>i \<in> set (map ns_idx kept). i < hn_count h \<and> accepts (hn_metric h) t (score_of rnd h q i)"
    using in_rs rs by fastforce
  moreover have "length kept \<le> limit" by (simp add: kept_def)
  ultimately show "reports rnd h q limit t (map ns_idx kept) (map (entry_of h) kept)"
    using d by (simp add: reports_def sorted_wrt_map)
qed

text \<open>What the cut at the limit leaves out is no better than what stays.\<close>

lemma take_filter_ranked:
  assumes "sorted_wrt (\<lambda>p q. \<not> score_worse m (ns_score p) (ns_score q)) rs"
    and "r \<in> set rs" "P r" "r \<notin> set (take limit (filter P rs))"
  shows "length (take limit (filter P rs)) = limit \<and>
    (\<forall>p \<in> set (take limit (filter P rs)). \<not> score_worse m (ns_score p) (ns_score r))"
proof -
  let ?f = "filter P rs"
  have "r \<in> set ?f" using assms by simp
  then have r: "r \<in> set (drop limit ?f)"
    using assms(4) by (metis Un_iff append_take_drop_id set_append)
  then have "limit < length ?f" by (metis drop_all empty_iff empty_set not_less)
  moreover have "sorted_wrt (\<lambda>p q. \<not> score_worse m (ns_score p) (ns_score q)) (take limit ?f @ drop limit ?f)"
    using assms(1) by (simp add: sorted_wrt_filter)
  ultimately show ?thesis using r by (simp only: sorted_wrt_append) (simp add: min_def)
qed

lemma brute_force_scores_spec:
  assumes "named_items h"
  shows "map ns_idx (brute_force_scores rnd h q (kc_hnsw_vector_norm rnd q (hn_dimension h))) = [0..<hn_count h] \<and>
    (\<forall>r \<in> set (brute_force_scores rnd h q (kc_hnsw_vector_norm rnd q (hn_dimension h))).
       ns_idx r < hn_count h \<and> ns_score r = score_of rnd h q (ns_idx r))"
proof -
  have "filter (\<lambda>i. item_id (hn_items h ! i) \<noteq> None) [0..<hn_count h] = [0..<hn_count h]"
    using assms by (auto simp: named_items_def filter_id_conv)
  then show ?thesis by (auto simp: brute_force_scores_def score_of_def comp_def)
qed

lemma drain_heap_spec:
  assumes "kc_heap_ok m w heap" "length (heap_data heap) = n" "\<forall>x \<in> set (heap_data heap). found rnd k h q qn l x"
    and "k \<le> hn_count h"
  shows "\<exists>rs. drain_heap rnd h q qn n heap = Inr rs \<and> mset rs = mset (heap_data heap)"
  using assms(1-3)
proof (induction n arbitrary: heap)
  case (Suc n)
  obtain t heap' where pop: "kc_hnsw_heap_pop heap = (t, heap')" by fastforce
  have ne: "heap_data heap \<noteq> []" using Suc.prems by auto
  note p = kc_heap.pop_spec [OF Suc.prems(1) ne pop] kc_heap.pop_set [OF Suc.prems(1) ne pop]
  have "length (heap_data heap') = n" using heap_pop_length [OF pop] Suc.prems by simp
  with Suc p obtain rs where rs: "drain_heap rnd h q qn n heap' = Inr rs" "mset rs = mset (heap_data heap')"
    by (metis subsetD)
  have t: "found rnd k h q qn l t" using p Suc.prems by blast
  then have "ns_idx t < hn_count h" using assms(4) by (simp add: found_def on_level_def)
  moreover have "t\<lparr>ns_score := item_dist rnd h q qn (hn_items h ! ns_idx t)\<rparr> = t"
    using t by (simp add: found_def)
  moreover have "mset (t # rs) = mset (heap_data heap)" using rs p by auto
  ultimately show ?case using pop rs by (auto simp: Let_def)
qed simp

subsection \<open>The two ways to collect candidates\<close>

lemma search_ef_pos: "1 \<le> to_size (search_ef h limit)" if "hn_ef_search h < 2 ^ 31"
proof -
  have "64 \<le> search_ef h limit \<and> search_ef h limit < 2 ^ 31"
    using that to_int_range [of "int limit"] by (auto simp: search_ef_def Let_def)
  then show ?thesis by (simp add: to_size_id Suc_le_eq)
qed

text \<open>Candidates: distinct items with their own scores, one no worse than the entry point.\<close>

definition candidates_ok ::
    "(real \<Rightarrow> real) \<Rightarrow> kc_hnsw \<Rightarrow> real list \<Rightarrow> kc_hnsw_node_score_t list \<Rightarrow> bool" where
  "candidates_ok rnd h q rs \<longleftrightarrow> distinct (map ns_idx rs) \<and>
     (\<forall>r \<in> set rs. ns_idx r < hn_count h \<and> ns_score r = score_of rnd h q (ns_idx r)) \<and>
     (\<exists>r \<in> set rs. \<not> score_worse (hn_metric h) (ns_score r) (score_of rnd h q (hn_entry_point_idx h)))"

lemma brute_force_candidates:
  assumes "built h" "named_items h"
  shows "candidates_ok rnd h q (brute_force_scores rnd h q (kc_hnsw_vector_norm rnd q (hn_dimension h)))"
proof -
  let ?rs = "brute_force_scores rnd h q (kc_hnsw_vector_norm rnd q (hn_dimension h))"
  note b = brute_force_scores_spec [OF assms(2), of rnd q]
  have "hn_entry_point_idx h < hn_count h" using assms(1) by (simp add: built_def entry_ok_def)
  then have "hn_entry_point_idx h \<in> ns_idx ` set ?rs" using b by (metis atLeastLessThan_iff le0 set_map set_upt)
  then obtain r where "r \<in> set ?rs" "ns_idx r = hn_entry_point_idx h" by auto
  with b have "\<exists>r \<in> set ?rs. \<not> score_worse (hn_metric h) (ns_score r) (score_of rnd h q (hn_entry_point_idx h))"
    by (intro bexI [of _ r]) (auto simp: score_worse_def)
  with b show ?thesis by (simp add: candidates_ok_def)
qed

lemma graph_candidates:
  assumes b: "built h" and ef: "1 \<le> to_size ef"
  shows "yields (oom alloc) (candidates_ok rnd h q)
    (graph_scores alloc rnd h q (kc_hnsw_vector_norm rnd q (hn_dimension h)) ef)"
proof -
  let ?n = "hn_count h" and ?qn = "kc_hnsw_vector_norm rnd q (hn_dimension h)" and ?ep = "hn_entry_point_idx h"
  let ?d = "item_dist rnd h q ?qn (hn_items h ! ?ep)"
  have g: "graph_ok ?n h" and ep: "?ep < ?n" "0 \<le> hn_max_level h" "item_level (hn_items h ! ?ep) = hn_max_level h"
    using b by (auto simp: built_def entry_ok_def)
  have "on_level ?n h (nat (hn_max_level h)) ?ep" using ep by (simp add: on_level_def)
  then have "yields {} (at_node rnd ?n h q ?qn (nat 0) ?d) (greedy_descend rnd h q ?qn (hn_max_level h) 0 (?ep, ?d))"
    using ep by (intro greedy_descend_ok [OF g]) auto
  then obtain c d where
    c: "greedy_descend rnd h q ?qn (hn_max_level h) 0 (?ep, ?d) = Inr (c, d)" "at_node rnd ?n h q ?qn 0 ?d (c, d)"
    by (auto simp: yields_value)
  show ?thesis
  proof (cases "kc_hnsw_heap_create alloc (to_size ef) (hn_metric h) True")
    case None
    with c ep show ?thesis by (simp add: graph_scores_def create_oom)
  next
    case (Some heap)
    let ?fin = "\<lambda>top_k. let n = length (heap_data top_k)
       in if \<not> alloc (n * 16) \<and> n > 0 then Inl KC_HNSW_ENOMEM else drain_heap rnd h q ?qn n top_k"
    have "yields (oom alloc) (candidates_ok rnd h q)
        (sum_bind (kc_hnsw_search_level alloc rnd h q ?qn c 0 ef heap) ?fin)"
    proof (rule yields_bind)
      show "yields (oom alloc) (results_ok rnd ?n h q ?qn 0 (to_size ef) (item_dist rnd h q ?qn (hn_items h ! c)))
          (kc_hnsw_search_level alloc rnd h q ?qn c 0 ef heap)"
        using c(2) create_ok [OF Some] by (intro search_level_ok [OF g ef]) (auto simp: at_node_def)
    next
      fix r assume r: "results_ok rnd ?n h q ?qn 0 (to_size ef) (item_dist rnd h q ?qn (hn_items h ! c)) r"
      then obtain rs where rs: "drain_heap rnd h q ?qn (length (heap_data r)) r = Inr rs" "mset rs = mset (heap_data r)"
        using drain_heap_spec [of "hn_metric h" True r _ rnd ?n h q ?qn 0] by (auto simp: results_ok_def)
      have "mset (map ns_idx rs) = mset (map ns_idx (heap_data r))" using rs(2) by simp
      from mset_eq_imp_distinct_iff [OF this] have "distinct (map ns_idx rs)" using r by (simp add: results_ok_def)
      moreover have sets: "set rs = set (heap_data r)" using rs(2) by (rule mset_eq_setD)
      moreover have "\<forall>x \<in> set rs. ns_idx x < hn_count h \<and> ns_score x = score_of rnd h q (ns_idx x)"
        using r sets by (simp add: results_ok_def found_def on_level_def score_of_def)
      moreover have "\<exists>x \<in> set rs. \<not> score_worse (hn_metric h) (ns_score x) (score_of rnd h q ?ep)"
      proof -
        obtain x where x: "x \<in> set rs" "\<not> score_worse (hn_metric h) (ns_score x) (item_dist rnd h q ?qn (hn_items h ! c))"
          using r sets by (auto simp: results_ok_def)
        with c(2) have "\<not> score_worse (hn_metric h) (ns_score x) (score_of rnd h q ?ep)"
          by (auto simp: at_node_def score_of_def score_worse_def split: if_splits)
        with x(1) show ?thesis by blast
      qed
      ultimately have "candidates_ok rnd h q rs" by (simp add: candidates_ok_def)
      with rs(1) show "yields (oom alloc) (candidates_ok rnd h q) (?fin r)"
        by (auto simp: Let_def intro: oomI)
    qed
    with Some c ep show ?thesis by (simp add: graph_scores_def)
  qed
qed

lemma candidates_report:
  assumes "named_items h" "candidates_ok rnd h q rs"
  defines "s0 \<equiv> score_of rnd h q (hn_entry_point_idx h)"
  shows "\<exists>is out. write_results h t limit (sort_scores (hn_metric h) rs) = Inr out \<and> reports rnd h q limit t is out \<and>
    (0 < limit \<and> accepts (hn_metric h) t s0 \<longrightarrow> is \<noteq> [] \<and> \<not> score_worse (hn_metric h) (score_of rnd h q (hd is)) s0) \<and>
    (\<forall>j \<in> ns_idx ` set rs. accepts (hn_metric h) t (score_of rnd h q j) \<longrightarrow>
       j \<in> set is \<or> (length is = limit \<and> (\<forall>i \<in> set is. \<not> score_worse (hn_metric h) (score_of rnd h q i) (score_of rnd h q j))))"
proof -
  let ?P = "\<lambda>r. accepts (hn_metric h) t (ns_score r)" and ?srt = "sort_scores (hn_metric h) rs"
  define kept where "kept = take limit (filter ?P ?srt)"
  let ?is = "map ns_idx kept"
  have c: "distinct (map ns_idx rs)" "\<forall>r \<in> set rs. ns_idx r < hn_count h \<and> ns_score r = score_of rnd h q (ns_idx r)"
    using assms(2) by (simp_all add: candidates_ok_def)
  note w = write_ranked_reports [where limit = limit and t = t, OF assms(1) c(2,1), folded kept_def]
  have cut: "j \<in> set ?is \<or> (length ?is = limit \<and> (\<forall>i \<in> set ?is. \<not> score_worse (hn_metric h) (score_of rnd h q i) (score_of rnd h q j)))"
    if j: "j \<in> ns_idx ` set rs" "accepts (hn_metric h) t (score_of rnd h q j)" for j
  proof -
    obtain r where r: "r \<in> set rs" "j = ns_idx r" "?P r" using j c(2) by auto
    show ?thesis
    proof (cases "r \<in> set kept")
      case True
      with r show ?thesis by auto
    next
      case False
      have "length kept = limit \<and> (\<forall>p \<in> set kept. \<not> score_worse (hn_metric h) (ns_score p) (ns_score r))"
        unfolding kept_def using r False
        by (intro take_filter_ranked [OF sorted_sort_scores]) (auto simp: kept_def)
      moreover have "p \<in> set rs" if "p \<in> set kept" for p using that by (auto simp: kept_def dest: in_set_takeD)
      ultimately show ?thesis using r c(2) by auto
    qed
  qed
  have top: "?is \<noteq> [] \<and> \<not> score_worse (hn_metric h) (score_of rnd h q (hd ?is)) s0"
    if lim: "0 < limit" and acc: "accepts (hn_metric h) t s0"
  proof -
    obtain r where r: "r \<in> set rs" "\<not> score_worse (hn_metric h) (ns_score r) s0"
      using assms(2) by (auto simp: candidates_ok_def s0_def)
    then have "?P r" using acc by (auto simp: accepts_def score_worse_def split: if_splits)
    with r c(2) cut [of "ns_idx r"] have d: "ns_idx r \<in> set ?is \<or> (length ?is = limit \<and>
        (\<forall>i \<in> set ?is. \<not> score_worse (hn_metric h) (score_of rnd h q i) (score_of rnd h q (ns_idx r))))"
      by (metis image_eqI)
    then obtain a b where ab: "?is = a # b" using lim by (cases ?is) auto
    have "\<not> score_worse (hn_metric h) (score_of rnd h q a) (ns_score r)"
      using d w(2) r c(2) unfolding ab by (auto simp: reports_def score_worse_def)
    with r(2) ab show ?thesis by (auto simp: score_worse_def split: if_splits)
  qed
  show ?thesis using w cut top by (intro exI [of _ ?is] exI [of _ "map (entry_of h) kept"]) blast
qed

subsection \<open>What a search answers\<close>

lemma search_reports:
  assumes "built h" "named_items h" "hn_ef_search h < 2 ^ 31" "0 < limit"
  shows "(\<exists>is out. kc_hnsw_search alloc rnd True (Some h) (Some q) limit t True = Inr out \<and>
      reports rnd h q limit t is out \<and>
      (accepts (hn_metric h) t (score_of rnd h q (hn_entry_point_idx h)) \<longrightarrow>
         is \<noteq> [] \<and> \<not> score_worse (hn_metric h) (score_of rnd h q (hd is)) (score_of rnd h q (hn_entry_point_idx h))))
    \<or> (kc_hnsw_search alloc rnd True (Some h) (Some q) limit t True = Inl KC_HNSW_ENOMEM \<and> (\<exists>n. \<not> alloc n))"
proof -
  let ?qn = "kc_hnsw_vector_norm rnd q (hn_dimension h)" and ?ef = "search_ef h limit"
  let ?c = "if hn_count h \<le> to_size ?ef \<or> hn_count h \<le> 1024
      then (if \<not> alloc (hn_count h * 16) then Inl KC_HNSW_ENOMEM else Inr (brute_force_scores rnd h q ?qn))
      else graph_scores alloc rnd h q ?qn ?ef"
  have ep: "hn_entry_point_set h" "hn_count h \<noteq> 0" using assms(1) by (auto simp: built_def entry_ok_def)
  have s: "kc_hnsw_search alloc rnd True (Some h) (Some q) limit t True =
      sum_bind ?c (\<lambda>rs. write_results h t limit (sort_scores (hn_metric h) rs))"
    using ep assms(4) by (simp add: kc_hnsw_search_def search_locked_def Let_def)
  have "yields (oom alloc) (candidates_ok rnd h q) ?c"
    using graph_candidates [OF assms(1) search_ef_pos [OF assms(3)]] brute_force_candidates [OF assms(1,2)]
    by (auto intro: oomI)
  then show ?thesis
  proof (cases ?c)
    case (Inl e)
    with \<open>yields (oom alloc) (candidates_ok rnd h q) ?c\<close> have "e \<in> oom alloc" by (simp only: yields.simps)
    then show ?thesis unfolding s Inl by (auto simp: oom_def split: if_splits)
  next
    case (Inr rs)
    with \<open>yields (oom alloc) (candidates_ok rnd h q) ?c\<close> have "candidates_ok rnd h q rs" by (simp only: yields.simps)
    from candidates_report [OF assms(2) this, of t limit] assms(4) show ?thesis
      unfolding s Inr sum_bind.simps by blast
  qed
qed

lemma small_search_reports:
  assumes "built h" "named_items h" "hn_count h \<le> 1024" "0 < limit" "alloc (hn_count h * 16)"
  shows "\<exists>is out. kc_hnsw_search alloc rnd True (Some h) (Some q) limit t True = Inr out \<and>
    reports rnd h q limit t is out \<and>
    (\<forall>j < hn_count h. accepts (hn_metric h) t (score_of rnd h q j) \<longrightarrow>
       j \<in> set is \<or>
       (length is = limit \<and> (\<forall>i \<in> set is. \<not> score_worse (hn_metric h) (score_of rnd h q i) (score_of rnd h q j))))"
proof -
  let ?rs = "brute_force_scores rnd h q (kc_hnsw_vector_norm rnd q (hn_dimension h))"
  have ep: "hn_entry_point_set h" "hn_count h \<noteq> 0" using assms(1) by (auto simp: built_def entry_ok_def)
  have s: "kc_hnsw_search alloc rnd True (Some h) (Some q) limit t True =
      write_results h t limit (sort_scores (hn_metric h) ?rs)"
    using ep assms(3-5) by (simp add: kc_hnsw_search_def search_locked_def Let_def)
  have "ns_idx ` set ?rs = {0..<hn_count h}"
    using brute_force_scores_spec [OF assms(2), of rnd q] by (metis set_map set_upt)
  with candidates_report [OF assms(2) brute_force_candidates [OF assms(1,2)], of t limit rnd q] show ?thesis
    unfolding s by fastforce
qed

subsection \<open>Properties\<close>

text \<open>C10. A search of a built index with named items never leaves its arrays and never refuses:
  it reports, or runs out of memory (and that only when an allocation is refused). What it reports
  are at most \<open>limit\<close> distinct items with their names and their own scores, best first, each one
  within the threshold. When the entry point's own score is within the threshold, the report is not
  empty and its first item is no worse than the entry point.\<close>

theorem search_is_sound:
  assumes "built h" "named_items h" "hn_ef_search h < 2 ^ 31" "0 < limit"
  shows "(\<exists>is out. kc_hnsw_search alloc rnd True (Some h) (Some q) limit t True = Inr out \<and>
      reports rnd h q limit t is out \<and>
      (accepts (hn_metric h) t (score_of rnd h q (hn_entry_point_idx h)) \<longrightarrow>
         is \<noteq> [] \<and> \<not> score_worse (hn_metric h) (score_of rnd h q (hd is)) (score_of rnd h q (hn_entry_point_idx h))))
    \<or> (kc_hnsw_search alloc rnd True (Some h) (Some q) limit t True = Inl KC_HNSW_ENOMEM \<and> (\<exists>n. \<not> alloc n))"
  using assms by (rule search_reports)

text \<open>C6. On an index of at most 1024 items a search is exact: with the memory it asks for it
  reports, and an item within the threshold that is missing from the report was cut by the limit
  and is no better than any reported one.\<close>

theorem small_search_is_exact:
  assumes "built h" "named_items h" "hn_count h \<le> 1024" "0 < limit" "alloc (hn_count h * 16)"
  shows "\<exists>is out. kc_hnsw_search alloc rnd True (Some h) (Some q) limit t True = Inr out \<and>
    reports rnd h q limit t is out \<and>
    (\<forall>j < hn_count h. accepts (hn_metric h) t (score_of rnd h q j) \<longrightarrow>
       j \<in> set is \<or>
       (length is = limit \<and> (\<forall>i \<in> set is. \<not> score_worse (hn_metric h) (score_of rnd h q i) (score_of rnd h q j))))"
  using assms by (rule small_search_reports)

text \<open>The two nodes, built and searched.\<close>

lemma two_nodes_built: "built two_nodes \<and> named_items two_nodes"
  using two_nodes_ok
  by (simp add: built_def entry_ok_def named_items_def) (simp add: two_nodes_def numeral_2_eq_2 less_Suc_eq)

lemma search_is_sound_witness:
  "\<exists>is out. kc_hnsw_search (\<lambda>_. True) (\<lambda>x. x) True (Some two_nodes) (Some [2]) 1 100 True = Inr out \<and>
     reports (\<lambda>x. x) two_nodes [2] 1 100 is out"
  using search_is_sound [of two_nodes 1 "\<lambda>_. True" "\<lambda>x. x" "[2]" 100] two_nodes_built
  by (auto simp: two_nodes_def)

lemma small_search_is_exact_witness:
  "\<exists>is out. kc_hnsw_search (\<lambda>_. True) (\<lambda>x. x) True (Some two_nodes) (Some [2]) 2 100 True = Inr out \<and>
     reports (\<lambda>x. x) two_nodes [2] 2 100 is out"
proof -
  have "hn_count two_nodes \<le> 1024" by (simp add: two_nodes_def)
  from small_search_is_exact [OF _ _ this, of 2 "\<lambda>_. True" "\<lambda>x. x" "[2]" 100] two_nodes_built
  show ?thesis by auto
qed

end
