(* ===== verification/Runtime.thy ===== *)
theory Runtime
  imports Compiler Mmap Options Hnsw_Search
begin

section \<open>Opening a compiled schema (src/libipa.c: kc\_ipa\_open, kc\_ipa\_close)\<close>

text \<open>
  The runtime schema: a read-only mapping of the compiled file, the two vector indexes built from its
  embeddings and the metadata rows. The mapped file is the list of its bytes; a pointer into it is an
  offset, and a read at or past its end is the fault \<open>Outside_Mapping\<close>. Since the mapping never
  changes, the rows that the source reads through pointers are decoded once, when the schema is
  opened. \<open>host\<close> collects what the machine and the libraries answer.
\<close>

subsection \<open>Reading records\<close>

datatype fault = Outside_Mapping

definition ref_at :: "string \<Rightarrow> nat \<Rightarrow> kc_ipa_str_ref_t" where
  "ref_at mem off = \<lparr>ref_off = word_at mem off, ref_len = word_at mem (off + 4)\<rparr>"

definition node_meta_at :: "string \<Rightarrow> nat \<Rightarrow> kc_ipa_node_meta_t" where
  "node_meta_at mem off =
     \<lparr>nm_node_id = ref_at mem off, nm_emit_key = ref_at mem (off + 8), nm_emit_val = ref_at mem (off + 16),
      nm_has_children = word_at mem (off + 24)\<rparr>"

definition child_meta_at :: "string \<Rightarrow> nat \<Rightarrow> kc_ipa_child_meta_t" where
  "child_meta_at mem off =
     \<lparr>cm_parent_id = ref_at mem off, cm_node_id = ref_at mem (off + 8), cm_emit_key = ref_at mem (off + 16),
      cm_emit_val = ref_at mem (off + 24)\<rparr>"

definition file_hdr_at :: "string \<Rightarrow> kc_ipa_file_hdr_t" where
  "file_hdr_at mem =
     \<lparr>h_magic = take 4 mem, h_version = word_at mem 4, h_file_size = word_at mem 8,
      h_strtab_off = word_at mem 12, h_strtab_size = word_at mem 16,
      h_id = ref_at mem 20, h_vendor = ref_at mem 28, h_schemaver = ref_at mem 36,
      h_node_threshold = word_at mem 44, h_min_ngram = word_at mem 48, h_max_ngram = word_at mem 52,
      h_emb_dim = word_at mem 56, h_node_emb_off = word_at mem 60, h_node_emb_count = word_at mem 64,
      h_child_emb_off = word_at mem 68, h_child_emb_count = word_at mem 72,
      h_node_meta_off = word_at mem 76, h_node_meta_count = word_at mem 80,
      h_child_meta_off = word_at mem 84, h_child_meta_count = word_at mem 88\<rparr>"

text \<open>The sum of the two \<open>uint64_t\<close> wraps.\<close>

definition kc_ipa_bounds_ok :: "nat \<Rightarrow> u32 \<Rightarrow> nat \<Rightarrow> bool" where
  "kc_ipa_bounds_ok base_size off len \<longleftrightarrow> (unat off + len) mod 2 ^ 64 \<le> base_size"

subsection \<open>Building an index\<close>

record host =
  ho_alloc :: allocator
  ho_rnd :: "real \<Rightarrow> real"
  ho_fp :: fp_env
  ho_mutex_init :: bool
  ho_rwlock_init :: bool
  ho_rwlock :: bool
  ho_hnsw_ef :: "string option"
  ho_time :: u64
  ho_sys :: sys_calls
  ho_emb :: "embedder option"

text \<open>A load stops with a fault or because the source gives up and returns null.\<close>

datatype load_stop = Fault | Gives_Up

definition emb_stride :: "u32 \<Rightarrow> nat" where
  "emb_stride emb_dim = sizeof_emb_hdr + unat emb_dim * 4"

definition load_entry_at ::
    "host \<Rightarrow> string \<Rightarrow> u32 \<Rightarrow> u32 \<Rightarrow> nat \<Rightarrow> nat \<Rightarrow> kc_hnsw \<Rightarrow> load_stop + kc_hnsw" where
  "load_entry_at ho mem emb_off emb_dim strtab i hnsw =
     (let stride = emb_stride emb_dim;
          entry_off = (unat emb_off + i * stride) mod 2 ^ 64
      in if \<not> kc_ipa_bounds_ok (length mem) (of_nat entry_off) stride then Inl Gives_Up
         else if \<not> entry_off + stride \<le> length mem then Inl Fault
         else let eh = ref_at mem entry_off
              in if \<not> kc_ipa_bounds_ok (length mem) (ref_off eh) (unat (ref_len eh) + 1) then Inl Gives_Up
                 else case string_at mem (strtab + unat (ref_off eh)) of
                        None \<Rightarrow> Inl Fault
                      | Some label \<Rightarrow>
                          let vec = map f32_real (words_at mem (entry_off + sizeof_emb_hdr) (unat emb_dim))
                          in case kc_hnsw_add (ho_alloc ho) (ho_rnd ho) (ho_rwlock ho) (Some hnsw) (Some label) (Some vec) of
                               (rc, Some h) \<Rightarrow>
                                 if rc = OUT_OF_BOUNDS then Inl Fault
                                 else if rc \<noteq> KC_HNSW_OK then Inl Gives_Up else Inr h
                             | (_, None) \<Rightarrow> Inl Gives_Up)"

definition load_index ::
    "host \<Rightarrow> u64 \<Rightarrow> string \<Rightarrow> u32 \<Rightarrow> u32 \<Rightarrow> u32 \<Rightarrow> nat \<Rightarrow> load_stop + kc_hnsw" where
  "load_index ho addr mem emb_off emb_count emb_dim strtab =
     (case kc_hnsw_open (ho_alloc ho) (ho_hnsw_ef ho) (ho_rwlock_init ho) (ho_time ho) addr (unat emb_dim) KC_HNSW_METRIC_COSINE of
        None \<Rightarrow> Inl Gives_Up
      | Some h0 \<Rightarrow>
          if emb_count = 0 then Inr h0
          else case kc_hnsw_reserve (ho_alloc ho) (ho_rwlock ho) (Some h0) (unat emb_count) of
                 (rc, Some h1) \<Rightarrow>
                   if rc \<noteq> KC_HNSW_OK then Inl Gives_Up
                   else sum_bind (fold_res (load_entry_at ho mem emb_off emb_dim strtab) [0..<unat emb_count] h1) (\<lambda>h2.
                          case kc_hnsw_build (ho_alloc ho) (ho_rnd ho) (ho_rwlock ho) (Some h2) of
                            (rc, Some h3) \<Rightarrow>
                              if rc = OUT_OF_BOUNDS then Inl Fault
                              else if rc \<noteq> KC_HNSW_OK then Inl Gives_Up else Inr h3
                          | (_, None) \<Rightarrow> Inl Gives_Up)
               | (_, None) \<Rightarrow> Inl Gives_Up)"

definition kc_ipa_build_hnsw ::
    "host \<Rightarrow> u64 \<Rightarrow> string \<Rightarrow> u32 \<Rightarrow> u32 \<Rightarrow> u32 \<Rightarrow> nat \<Rightarrow> fault + kc_hnsw option" where
  "kc_ipa_build_hnsw ho addr mem emb_off emb_count emb_dim strtab =
     (case load_index ho addr mem emb_off emb_count emb_dim strtab of
        Inl Fault \<Rightarrow> Inl Outside_Mapping
      | Inl Gives_Up \<Rightarrow> Inr None
      | Inr h \<Rightarrow> Inr (Some h))"

subsection \<open>The schema handle\<close>

record kc_ipa_signal_entry_t =
  se_sig :: int
  se_cb :: nat

record kc_ipa_runtime_index_t =
  ix_node_hnsw :: "kc_hnsw option"
  ix_child_hnsw :: "kc_hnsw option"
  ix_node_meta :: "kc_ipa_node_meta_t list"
  ix_child_meta :: "kc_ipa_child_meta_t list"

record kc_ipa_schema =
  sc_opts :: kc_ipa_options_t
  sc_signal_handlers :: "kc_ipa_signal_entry_t list"
  sc_signal_handlers_capacity :: nat
  sc_mmap :: kc_mmap
  sc_base :: string
  sc_emb :: "embedder option"
  sc_emb_dim :: int
  sc_node_threshold :: u32
  sc_min_ngram :: int
  sc_max_ngram :: int
  sc_strtab :: nat
  sc_index :: kc_ipa_runtime_index_t

definition new_schema :: "kc_ipa_options_t \<Rightarrow> kc_ipa_schema" where
  "new_schema opts =
     \<lparr>sc_opts = opts, sc_signal_handlers = [], sc_signal_handlers_capacity = 0, sc_mmap = no_map, sc_base = [],
      sc_emb = None, sc_emb_dim = 0, sc_node_threshold = 0, sc_min_ngram = 0, sc_max_ngram = 0, sc_strtab = 0,
      sc_index = \<lparr>ix_node_hnsw = None, ix_child_hnsw = None, ix_node_meta = [], ix_child_meta = []\<rparr>\<rparr>"

text \<open>Closing gives back the mapping; memory, threads and locks have no counterpart.\<close>

definition kc_ipa_close :: "kc_ipa_schema option \<Rightarrow> os_state \<Rightarrow> ipa_status \<times> os_state" where
  "kc_ipa_close s os =
     (case s of None \<Rightarrow> (KC_IPA_OK, os) | Some sc \<Rightarrow> (KC_IPA_OK, snd (kc_mmap_close (Some (sc_mmap sc)) os)))"

text \<open>The checks of the header.\<close>

definition header_ok :: "string \<Rightarrow> bool" where
  "header_ok mem \<longleftrightarrow> sizeof_file_hdr \<le> length mem \<and>
     (let hdr = file_hdr_at mem
      in h_magic hdr = KC_IPA_MAGIC \<and> h_version hdr = KC_IPA_FMT_VERSION \<and> h_file_size hdr = of_nat (length mem) \<and>
         kc_ipa_bounds_ok (length mem) (h_strtab_off hdr) (unat (h_strtab_size hdr)))"

definition load_node_meta :: "string \<Rightarrow> kc_ipa_file_hdr_t \<Rightarrow> load_stop + kc_ipa_node_meta_t list" where
  "load_node_meta mem hdr =
     (let n = unat (h_node_meta_count hdr); off = unat (h_node_meta_off hdr)
      in if n = 0 then Inr []
         else if \<not> kc_ipa_bounds_ok (length mem) (h_node_meta_off hdr) (n * sizeof_node_meta) then Inl Gives_Up
         else Inr (map (\<lambda>i. node_meta_at mem (off + i * sizeof_node_meta)) [0..<n]))"

definition load_child_meta :: "string \<Rightarrow> kc_ipa_file_hdr_t \<Rightarrow> load_stop + kc_ipa_child_meta_t list" where
  "load_child_meta mem hdr =
     (let n = unat (h_child_meta_count hdr); off = unat (h_child_meta_off hdr)
      in if n = 0 then Inr []
         else if \<not> kc_ipa_bounds_ok (length mem) (h_child_meta_off hdr) (n * sizeof_child_meta) then Inl Gives_Up
         else Inr (map (\<lambda>i. child_meta_at mem (off + i * sizeof_child_meta)) [0..<n]))"

text \<open>From the mapped bytes to the loaded schema. \<open>addr1\<close> and \<open>addr2\<close> are the addresses of the two
  index records.\<close>

definition load_schema ::
    "host \<Rightarrow> u64 \<Rightarrow> u64 \<Rightarrow> string \<Rightarrow> kc_ipa_schema \<Rightarrow> load_stop + kc_ipa_schema" where
  "load_schema ho addr1 addr2 mem s =
     (if \<not> header_ok mem then Inl Gives_Up
      else let hdr = file_hdr_at mem;
               strtab = unat (h_strtab_off hdr)
           in case ho_emb ho of
                None \<Rightarrow> Inl Gives_Up
              | Some em \<Rightarrow>
                  if em_dim em \<le> 0 \<or> of_int (em_dim em) \<noteq> h_emb_dim hdr then Inl Gives_Up
                  else sum_bind (load_index ho addr1 mem (h_node_emb_off hdr) (h_node_emb_count hdr) (h_emb_dim hdr) strtab) (\<lambda>node_hnsw.
                       sum_bind (if h_child_emb_count hdr > 0
                                 then map_sum id Some (load_index ho addr2 mem (h_child_emb_off hdr) (h_child_emb_count hdr) (h_emb_dim hdr) strtab)
                                 else Inr None) (\<lambda>child_hnsw.
                       sum_bind (load_node_meta mem hdr) (\<lambda>node_meta.
                       sum_bind (load_child_meta mem hdr) (\<lambda>child_meta.
                         Inr (s\<lparr>sc_base := mem, sc_strtab := strtab, sc_node_threshold := h_node_threshold hdr,
                                sc_min_ngram := sint (h_min_ngram hdr), sc_max_ngram := sint (h_max_ngram hdr),
                                sc_emb := Some em, sc_emb_dim := em_dim em,
                                sc_index := \<lparr>ix_node_hnsw = Some node_hnsw, ix_child_hnsw = child_hnsw,
                                             ix_node_meta = node_meta, ix_child_meta = child_meta\<rparr>\<rparr>))))))"

text \<open>The bytes behind the handle's data pointer.\<close>

definition mapped :: "kc_mmap \<Rightarrow> os_state \<Rightarrow> string" where
  "mapped mp os = (case mm_data mp of None \<Rightarrow> [] | Some a \<Rightarrow> (case os_maps os a of None \<Rightarrow> [] | Some b \<Rightarrow> b))"

definition kc_ipa_open ::
    "host \<Rightarrow> u64 \<Rightarrow> u64 \<Rightarrow> bool \<Rightarrow> kc_ipa_options_t option \<Rightarrow> os_state
       \<Rightarrow> fault + ipa_status \<times> kc_ipa_schema option \<times> os_state" where
  "kc_ipa_open ho addr1 addr2 ctx_given opts os =
     (case (ctx_given, opts) of
        (True, Some op) \<Rightarrow>
          (case schema_path op of
             None \<Rightarrow> Inr (KC_IPA_ERROR, None, os)
           | Some path \<Rightarrow>
               if \<not> ho_alloc ho 184 \<or> strdup (ho_alloc ho) path = None \<or> \<not> ho_mutex_init ho
               then Inr (KC_IPA_ERROR, None, os)
               else case kc_mmap_open (ho_sys ho) (Some no_map) (Some path) os of
                      (rc, mp, os1) \<Rightarrow>
                        let m = the mp; s = (new_schema op)\<lparr>sc_mmap := m\<rparr>
                        in if rc \<noteq> KC_MMAP_OK then Inr (KC_IPA_ERROR, None, snd (kc_ipa_close (Some s) os1))
                           else case load_schema ho addr1 addr2 (mapped m os1) s of
                                  Inl Fault \<Rightarrow> Inl Outside_Mapping
                                | Inl Gives_Up \<Rightarrow> Inr (KC_IPA_ERROR, None, snd (kc_ipa_close (Some s) os1))
                                | Inr sc \<Rightarrow> Inr (KC_IPA_OK, Some sc, os1))
      | _ \<Rightarrow> Inr (KC_IPA_ERROR, None, os))"

end
