(* ===== verification/Image.thy ===== *)
theory Image
  imports Compiler
begin

section \<open>What a compiled file holds\<close>

text \<open>
  The bytes that \<open>build_image\<close> produces: header, string table, embeddings of nodes and of children,
  metadata rows of nodes and of children, and that every string reference in them resolves in the
  string table to the string of the manifest it stands for.
\<close>

subsection \<open>References that resolve\<close>

definition ref_ok :: "kc_ipa_strtab_t \<Rightarrow> kc_ipa_str_ref_t \<Rightarrow> string \<Rightarrow> bool" where
  "ref_ok st r s \<longleftrightarrow> strtab_look st r = Some s \<and> ref_len r = of_nat (length s)"

definition emit_ok :: "kc_ipa_strtab_t \<Rightarrow> kc_ipa_str_ref_t \<Rightarrow> kc_ipa_str_ref_t \<Rightarrow> kc_ipa_emit_def_t option \<Rightarrow> bool" where
  "emit_ok st k v eo =
     (case eo of None \<Rightarrow> k = no_ref \<and> v = no_ref | Some e \<Rightarrow> ref_ok st k (ed_key e) \<and> ref_ok st v (ed_value e))"

definition node_row_ok :: "kc_ipa_strtab_t \<Rightarrow> kc_ipa_node_meta_t \<Rightarrow> string \<times> kc_ipa_emit_def_t option \<times> bool \<Rightarrow> bool" where
  "node_row_ok st row x =
     (case x of (i, eo, hc) \<Rightarrow> ref_ok st (nm_node_id row) i \<and> emit_ok st (nm_emit_key row) (nm_emit_val row) eo \<and>
        nm_has_children row = (if hc then 1 else 0))"

definition child_row_ok :: "kc_ipa_strtab_t \<Rightarrow> kc_ipa_child_meta_t \<Rightarrow> string \<times> string \<times> kc_ipa_emit_def_t option \<Rightarrow> bool" where
  "child_row_ok st row x =
     (case x of (p, i, eo) \<Rightarrow> ref_ok st (cm_parent_id row) p \<and> ref_ok st (cm_node_id row) i \<and>
        emit_ok st (cm_emit_key row) (cm_emit_val row) eo)"

abbreviation (input) extends :: "kc_ipa_strtab_t \<Rightarrow> kc_ipa_strtab_t \<Rightarrow> bool" where
  "extends \<equiv> strtab.extends"

definition stable :: "(kc_ipa_strtab_t \<Rightarrow> 'r \<Rightarrow> 'x \<Rightarrow> bool) \<Rightarrow> bool" where
  "stable ok \<longleftrightarrow> (\<forall>st st' r x. extends st st' \<longrightarrow> strtab_fits st' \<longrightarrow> ok st r x \<longrightarrow> ok st' r x)"

lemma ref_ok_extends: "ref_ok st r s \<Longrightarrow> extends st st' \<Longrightarrow> strtab_fits st' \<Longrightarrow> ref_ok st' r s"
  by (auto simp: ref_ok_def dest: strtab.extends_look)

lemma emit_ok_extends: "emit_ok st k v eo \<Longrightarrow> extends st st' \<Longrightarrow> strtab_fits st' \<Longrightarrow> emit_ok st' k v eo"
  by (auto simp: emit_ok_def intro: ref_ok_extends split: option.splits)

lemma stable_rows: "stable ref_ok" "stable node_row_ok" "stable child_row_ok"
  by (auto simp: stable_def node_row_ok_def child_row_ok_def intro: ref_ok_extends emit_ok_extends)

subsection \<open>Phases that grow the string table\<close>

text \<open>From \<open>s\<close> to \<open>t\<close> the table is extended and the array \<open>sel\<close> gains rows that stand for \<open>a\<close>.\<close>

definition grows ::
    "('s \<Rightarrow> kc_ipa_strtab_t) \<Rightarrow> ('s \<Rightarrow> 'r list) \<Rightarrow> (kc_ipa_strtab_t \<Rightarrow> 'r \<Rightarrow> 'x \<Rightarrow> bool) \<Rightarrow> 's \<Rightarrow> 's \<Rightarrow> 'x list \<Rightarrow> bool" where
  "grows tab sel ok s t a \<longleftrightarrow> extends (tab s) (tab t) \<and>
     (strtab_fits (tab t) \<longrightarrow> (\<exists>rs. sel t = sel s @ rs \<and> list_all2 (ok (tab t)) rs a))"

lemma grows_refl: "grows tab sel ok s s []"
  by (simp add: grows_def)

lemma grows_trans:
  assumes "stable ok" "grows tab sel ok s t a" "grows tab sel ok t u b"
  shows "grows tab sel ok s u (a @ b)"
proof -
  have e: "extends (tab s) (tab u)" using assms(2,3) strtab.extends_trans by (auto simp: grows_def)
  have "\<exists>rs. sel u = sel s @ rs \<and> list_all2 (ok (tab u)) rs (a @ b)" if f: "strtab_fits (tab u)"
  proof -
    have ft: "strtab_fits (tab t)" and eu: "extends (tab t) (tab u)"
      using assms(3) f by (auto simp: grows_def strtab.extends_def)
    obtain rs where rs: "sel t = sel s @ rs" "list_all2 (ok (tab t)) rs a"
      using assms(2) ft by (auto simp: grows_def)
    obtain qs where qs: "sel u = sel t @ qs" "list_all2 (ok (tab u)) qs b"
      using assms(3) f by (auto simp: grows_def)
    have "list_all2 (ok (tab u)) rs a"
      using rs(2) by (rule list_all2_mono) (use assms(1) eu f in \<open>auto simp: stable_def\<close>)
    with rs(1) qs show ?thesis by (auto intro: list_all2_appendI)
  qed
  with e show ?thesis by (simp add: grows_def)
qed

lemma grows_fold:
  assumes "stable ok" "\<And>x s t. x \<in> set xs \<Longrightarrow> f x s = Inr t \<Longrightarrow> grows tab sel ok s t (out x)"
    and "fold_res f xs s = Inr t"
  shows "grows tab sel ok s t (concat (map out xs))"
  by (rule fold_res_collect [where R = "grows tab sel ok"])
    (use assms grows_trans [OF assms(1)] in \<open>auto simp: grows_refl\<close>)

lemma grows_then:
  assumes "stable ok" "sum_bind m f = Inr u" "\<And>t. m = Inr t \<Longrightarrow> grows tab sel ok s t a"
    and "\<And>t. m = Inr t \<Longrightarrow> f t = Inr u \<Longrightarrow> grows tab sel ok t u b"
  shows "grows tab sel ok s u (a @ b)"
proof -
  obtain t where "m = Inr t" "f t = Inr u" using assms(2) by (auto simp: sum_bind_Inr_iff)
  with assms(3,4) grows_trans [OF assms(1)] show ?thesis by metis
qed

text \<open>The shape of a round of both string phases: a loop over the node's own items, then a nested loop
  over its children.\<close>

lemma grows_node:
  assumes "stable ok" "sum_bind (fold_res f as s) (fold_res (\<lambda>ch. fold_res (g ch) (bs ch)) cs) = Inr t"
    and "\<And>x u v. x \<in> set as \<Longrightarrow> f x u = Inr v \<Longrightarrow> grows tab sel ok u v (out x)"
    and "\<And>ch y u v. ch \<in> set cs \<Longrightarrow> y \<in> set (bs ch) \<Longrightarrow> g ch y u = Inr v \<Longrightarrow> grows tab sel ok u v (out' ch y)"
  shows "grows tab sel ok s t (concat (map out as) @ concat (map (\<lambda>ch. concat (map (out' ch) (bs ch))) cs))"
  using assms(1,2)
proof (rule grows_then)
  fix u assume "fold_res f as s = Inr u"
  with assms(1,3) show "grows tab sel ok s u (concat (map out as))" by (rule grows_fold)
next
  fix u assume "fold_res (\<lambda>ch. fold_res (g ch) (bs ch)) cs u = Inr t"
  then show "grows tab sel ok u t (concat (map (\<lambda>ch. concat (map (out' ch) (bs ch))) cs))"
    by (rule grows_fold [OF assms(1), rotated]) (rule grows_fold [OF assms(1)], auto intro: assms(4))
qed

subsection \<open>Manifests without NUL bytes\<close>

abbreviation (input) clean :: "string \<Rightarrow> bool" where "clean s \<equiv> NUL \<notin> set s"

fun clean_node :: "kc_ipa_node_def \<Rightarrow> bool" where
  "clean_node (NodeDef i ds es cs) \<longleftrightarrow>
     (case i of None \<Rightarrow> True | Some s \<Rightarrow> clean s) \<and> (\<forall>d \<in> set ds. clean d) \<and>
     (\<forall>e \<in> set es. clean (ed_key e) \<and> clean (ed_value e)) \<and> (\<forall>c \<in> set cs. clean_node c)"

lemma clean_nodeD:
  assumes "clean_node nd"
  shows "nd_id nd = Some s \<Longrightarrow> clean s" "d \<in> set (nd_descriptions nd) \<Longrightarrow> clean d"
    "e \<in> set (nd_emits nd) \<Longrightarrow> clean (ed_key e) \<and> clean (ed_value e)" "c \<in> set (nd_children nd) \<Longrightarrow> clean_node c"
  using assms by (cases nd; auto)+

subsection \<open>Labels and rows\<close>

lemma add_string_ok:
  assumes "add_string alloc st (nd_id nd) = Inr (st', r)" "clean_node nd"
  shows "extends st st' \<and> nd_id nd \<noteq> None \<and> (strtab_fits st' \<longrightarrow> ref_ok st' r (the (nd_id nd)))"
proof -
  obtain s where s: "nd_id nd = Some s" "kc_ipa_strtab_add alloc st s = Inr (st', r)"
    using assms(1) by (auto simp: add_string_def c_string_def split: option.splits)
  then have "extends st st'" "ref_len r = of_nat (length s)"
    using strtab.extends_add [OF s(2)] strtab_add_data [OF s(2)] by auto
  moreover have "strtab_fits st' \<longrightarrow> strtab_look st' r = Some s"
    using strtab.add_look [OF s(2)] clean_nodeD(1) [OF assms(2) s(1)] by blast
  ultimately show ?thesis using s(1) by (auto simp: ref_ok_def)
qed

lemma add_emit_ok:
  assumes "add_emit alloc st eo = Inr (st', k, v)" "\<And>e. eo = Some e \<Longrightarrow> clean (ed_key e) \<and> clean (ed_value e)"
  shows "extends st st' \<and> (strtab_fits st' \<longrightarrow> emit_ok st' k v eo)"
proof (cases eo)
  case None
  with assms show ?thesis by (auto simp: add_emit_def emit_ok_def)
next
  case (Some e)
  then obtain st1 where a: "kc_ipa_strtab_add alloc st (ed_key e) = Inr (st1, k)"
      "kc_ipa_strtab_add alloc st1 (ed_value e) = Inr (st', v)"
    using assms(1) by (auto simp: add_emit_def sum_bind_Inr_iff split: prod.splits)
  have c: "clean (ed_key e)" "clean (ed_value e)" using assms(2) Some by auto
  have x: "extends st st1" "extends st1 st'" using a strtab.extends_add by auto
  have "strtab_fits st' \<longrightarrow> ref_ok st' k (ed_key e) \<and> ref_ok st' v (ed_value e)"
    using strtab.added_stays [OF a(1) x(2) _ c(1)] strtab.add_look [OF a(2) _ c(2)]
      strtab_add_data [OF a(1)] strtab_add_data [OF a(2)] by (auto simp: ref_ok_def)
  with x strtab.extends_trans Some show ?thesis by (auto simp: emit_ok_def)
qed

lemma node_label_grows:
  assumes "node_label alloc nd s = Inr t" "clean_node nd"
  shows "grows lb_strtab lb_node ref_ok s t [the (nd_id nd)]"
    "grows lb_strtab lb_child ref_ok s t []"
proof -
  obtain st r where a: "add_string alloc (lb_strtab s) (nd_id nd) = Inr (st, r)"
      and t: "t = s\<lparr>lb_strtab := st, lb_node := lb_node s @ [r]\<rparr>"
    using assms(1) by (auto simp: node_label_def sum_bind_Inr_iff)
  from add_string_ok [OF a assms(2)] show "grows lb_strtab lb_node ref_ok s t [the (nd_id nd)]"
      "grows lb_strtab lb_child ref_ok s t []"
    by (auto simp: grows_def t)
qed

lemma child_label_grows:
  assumes "child_label alloc nd ch s = Inr t" "clean_node nd" "clean_node ch"
  shows "grows lb_strtab lb_node ref_ok s t []"
    "grows lb_strtab lb_child ref_ok s t [the (nd_id ch)]"
proof -
  obtain st r st' r' where a: "add_string alloc (lb_strtab s) (nd_id ch) = Inr (st, r)"
      "add_string alloc st (nd_id nd) = Inr (st', r')"
      and t: "t = s\<lparr>lb_strtab := st', lb_child := lb_child s @ [r], lb_parent := lb_parent s @ [r']\<rparr>"
    using assms(1) by (auto simp: child_label_def sum_bind_Inr_iff)
  note x = add_string_ok [OF a(1) assms(3)] add_string_ok [OF a(2) assms(2)]
  have e: "extends (lb_strtab s) st'" using x strtab.extends_trans by blast
  have "strtab_fits st' \<longrightarrow> ref_ok st' r (the (nd_id ch))"
    using x ref_ok_extends by (auto simp: strtab.extends_def)
  with e show "grows lb_strtab lb_node ref_ok s t []"
      "grows lb_strtab lb_child ref_ok s t [the (nd_id ch)]"
    by (auto simp: grows_def t)
qed


text \<open>What the manifest asks for: the labelled descriptions and the metadata rows, in file order.\<close>

definition node_entries :: "kc_ipa_node_def list \<Rightarrow> (string \<times> string) list" where
  "node_entries nodes = concat (map (\<lambda>nd. map (Pair (the (nd_id nd))) (nd_descriptions nd)) nodes)"

definition child_entries :: "kc_ipa_node_def list \<Rightarrow> (string \<times> string) list" where
  "child_entries nodes = concat (map (\<lambda>nd. node_entries (nd_children nd)) nodes)"

definition node_rows :: "kc_ipa_node_def list \<Rightarrow> (string \<times> kc_ipa_emit_def_t option \<times> bool) list" where
  "node_rows nodes = concat (map (\<lambda>nd. map (\<lambda>eo. (the (nd_id nd), eo, nd_children nd \<noteq> [])) (emit_rounds nd)) nodes)"

definition child_rows :: "kc_ipa_node_def list \<Rightarrow> (string \<times> string \<times> kc_ipa_emit_def_t option) list" where
  "child_rows nodes =
     concat (map (\<lambda>nd. concat (map (\<lambda>ch. map (\<lambda>eo. (the (nd_id nd), the (nd_id ch), eo)) (emit_rounds ch)) (nd_children nd))) nodes)"

lemma concat_singletons: "concat (map (\<lambda>x. [f x]) xs) = map f xs"
  by (induction xs) auto

lemma concat_nothing: "concat (map (\<lambda>x. concat (map (\<lambda>_. []) (g x))) xs) = []"
  by (induction xs) (auto simp: concat_eq_Nil_conv)

lemma concat_none: "concat (map (\<lambda>_. []) xs) = []"
  by (induction xs) auto

lemma label_node_grows:
  assumes l: "label_node alloc nd s = Inr t" and c: "clean_node nd"
  shows "grows lb_strtab lb_node ref_ok s t (map fst (node_entries [nd]))"
    "grows lb_strtab lb_child ref_ok s t (map fst (child_entries [nd]))"
proof -
  note b = l [unfolded label_node_def] and st = stable_rows(1)
  have "grows lb_strtab lb_node ref_ok s t (concat (map (\<lambda>_. [the (nd_id nd)]) (nd_descriptions nd)) @
      concat (map (\<lambda>ch. concat (map (\<lambda>_. []) (nd_descriptions ch))) (nd_children nd)))"
    by (rule grows_node [OF st b]) (auto intro: node_label_grows child_label_grows c clean_nodeD(4) [OF c])
  then show "grows lb_strtab lb_node ref_ok s t (map fst (node_entries [nd]))"
    by (simp add: node_entries_def concat_singletons concat_nothing comp_def)
  have "grows lb_strtab lb_child ref_ok s t (concat (map (\<lambda>_. []) (nd_descriptions nd)) @
      concat (map (\<lambda>ch. concat (map (\<lambda>_. [the (nd_id ch)]) (nd_descriptions ch))) (nd_children nd)))"
    by (rule grows_node [OF st b]) (auto intro: node_label_grows child_label_grows c clean_nodeD(4) [OF c])
  then show "grows lb_strtab lb_child ref_ok s t (map fst (child_entries [nd]))"
    by (simp add: child_entries_def node_entries_def concat_singletons concat_none comp_def map_concat)
qed

lemma label_nodes_grows:
  assumes "fold_res (label_node alloc) nodes s = Inr t" "\<forall>nd \<in> set nodes. clean_node nd"
  shows "grows lb_strtab lb_node ref_ok s t (map fst (node_entries nodes))"
    "grows lb_strtab lb_child ref_ok s t (map fst (child_entries nodes))"
proof -
  have "grows lb_strtab lb_node ref_ok s t (concat (map (\<lambda>nd. map fst (node_entries [nd])) nodes))"
    "grows lb_strtab lb_child ref_ok s t (concat (map (\<lambda>nd. map fst (child_entries [nd])) nodes))"
    by (rule grows_fold [OF stable_rows(1) _ assms(1)]; use assms(2) label_node_grows in blast)+
  then show "grows lb_strtab lb_node ref_ok s t (map fst (node_entries nodes))"
    "grows lb_strtab lb_child ref_ok s t (map fst (child_entries nodes))"
    by (simp_all add: node_entries_def child_entries_def map_concat comp_def)
qed

lemma emit_rounds_clean: "clean_node nd \<Longrightarrow> Some e \<in> set (emit_rounds nd) \<Longrightarrow> clean (ed_key e) \<and> clean (ed_value e)"
  using clean_nodeD(3) by (auto simp: emit_rounds_def split: if_splits)

lemma node_meta_row_grows:
  assumes "node_meta_row alloc nd eo s = Inr t" "clean_node nd" "eo \<in> set (emit_rounds nd)"
  shows "grows mt_strtab mt_node node_row_ok s t [(the (nd_id nd), eo, nd_children nd \<noteq> [])]"
    "grows mt_strtab mt_child child_row_ok s t []"
proof -
  obtain st nid st' k v where a: "add_string alloc (mt_strtab s) (nd_id nd) = Inr (st, nid)"
      "add_emit alloc st eo = Inr (st', k, v)"
      and t: "t = s\<lparr>mt_strtab := st', mt_node := mt_node s @ [\<lparr>nm_node_id = nid, nm_emit_key = k, nm_emit_val = v,
                 nm_has_children = (if nd_children nd = [] then 0 else 1)\<rparr>]\<rparr>"
    using assms(1) by (auto simp: node_meta_row_def sum_bind_Inr_iff)
  note x = add_string_ok [OF a(1) assms(2)]
  have y: "extends st st'" "strtab_fits st' \<longrightarrow> emit_ok st' k v eo"
    using add_emit_ok [OF a(2)] emit_rounds_clean [OF assms(2)] assms(3) by blast+
  have e: "extends (mt_strtab s) st'" using x y(1) strtab.extends_trans by blast
  have "strtab_fits st' \<longrightarrow> ref_ok st' nid (the (nd_id nd))"
    using x y(1) ref_ok_extends strtab.extends_def by metis
  with e y(2) show "grows mt_strtab mt_node node_row_ok s t [(the (nd_id nd), eo, nd_children nd \<noteq> [])]"
      "grows mt_strtab mt_child child_row_ok s t []"
    by (auto simp: grows_def t node_row_ok_def)
qed

lemma child_meta_row_grows:
  assumes "child_meta_row alloc nd ch eo s = Inr t" "clean_node nd" "clean_node ch" "eo \<in> set (emit_rounds ch)"
  shows "grows mt_strtab mt_node node_row_ok s t []"
    "grows mt_strtab mt_child child_row_ok s t [(the (nd_id nd), the (nd_id ch), eo)]"
proof -
  obtain st pid st1 cid st' k v where a: "add_string alloc (mt_strtab s) (nd_id nd) = Inr (st, pid)"
      "add_string alloc st (nd_id ch) = Inr (st1, cid)" "add_emit alloc st1 eo = Inr (st', k, v)"
      and t: "t = s\<lparr>mt_strtab := st', mt_child := mt_child s @ [\<lparr>cm_parent_id = pid, cm_node_id = cid, cm_emit_key = k, cm_emit_val = v\<rparr>]\<rparr>"
    using assms(1) by (auto simp: child_meta_row_def sum_bind_Inr_iff)
  note x = add_string_ok [OF a(1) assms(2)] add_string_ok [OF a(2) assms(3)]
  have y: "extends st1 st'" "strtab_fits st' \<longrightarrow> emit_ok st' k v eo"
    using add_emit_ok [OF a(3)] emit_rounds_clean [OF assms(3)] assms(4) by blast+
  have e: "extends st st'" "extends (mt_strtab s) st'" using x y(1) strtab.extends_trans by blast+
  have "strtab_fits st' \<longrightarrow> ref_ok st' pid (the (nd_id nd)) \<and> ref_ok st' cid (the (nd_id ch))"
    using x y(1) e ref_ok_extends strtab.extends_def by metis
  with e y(2) show "grows mt_strtab mt_node node_row_ok s t []"
      "grows mt_strtab mt_child child_row_ok s t [(the (nd_id nd), the (nd_id ch), eo)]"
    by (auto simp: grows_def t child_row_ok_def)
qed

lemma meta_node_grows:
  assumes l: "meta_node alloc nd s = Inr t" and c: "clean_node nd"
  shows "grows mt_strtab mt_node node_row_ok s t (node_rows [nd])"
    "grows mt_strtab mt_child child_row_ok s t (child_rows [nd])"
proof -
  note b = l [unfolded meta_node_def]
  have "grows mt_strtab mt_node node_row_ok s t
      (concat (map (\<lambda>eo. [(the (nd_id nd), eo, nd_children nd \<noteq> [])]) (emit_rounds nd)) @
       concat (map (\<lambda>ch. concat (map (\<lambda>_. []) (emit_rounds ch))) (nd_children nd)))"
    by (rule grows_node [OF stable_rows(2) b])
      (auto intro: node_meta_row_grows child_meta_row_grows c clean_nodeD(4) [OF c])
  then show "grows mt_strtab mt_node node_row_ok s t (node_rows [nd])"
    by (simp add: node_rows_def concat_singletons concat_nothing)
  have "grows mt_strtab mt_child child_row_ok s t
      (concat (map (\<lambda>_. []) (emit_rounds nd)) @
       concat (map (\<lambda>ch. concat (map (\<lambda>eo. [(the (nd_id nd), the (nd_id ch), eo)]) (emit_rounds ch))) (nd_children nd)))"
    by (rule grows_node [OF stable_rows(3) b])
      (auto intro: node_meta_row_grows child_meta_row_grows c clean_nodeD(4) [OF c])
  then show "grows mt_strtab mt_child child_row_ok s t (child_rows [nd])"
    by (simp add: child_rows_def concat_singletons concat_none)
qed

lemma meta_nodes_grows:
  assumes "fold_res (meta_node alloc) nodes s = Inr t" "\<forall>nd \<in> set nodes. clean_node nd"
  shows "grows mt_strtab mt_node node_row_ok s t (node_rows nodes)"
    "grows mt_strtab mt_child child_row_ok s t (child_rows nodes)"
proof -
  have "grows mt_strtab mt_node node_row_ok s t (concat (map (\<lambda>nd. node_rows [nd]) nodes))"
    by (rule grows_fold [OF stable_rows(2) _ assms(1)]) (use assms(2) meta_node_grows in blast)
  moreover have "grows mt_strtab mt_child child_row_ok s t (concat (map (\<lambda>nd. child_rows [nd]) nodes))"
    by (rule grows_fold [OF stable_rows(3) _ assms(1)]) (use assms(2) meta_node_grows in blast)
  ultimately show "grows mt_strtab mt_node node_row_ok s t (node_rows nodes)"
    "grows mt_strtab mt_child child_row_ok s t (child_rows nodes)"
    by (simp_all add: node_rows_def child_rows_def)
qed

text \<open>All strings of a manifest.\<close>

definition clean_manifest :: "kc_ipa_manifest_t \<Rightarrow> bool" where
  "clean_manifest m \<longleftrightarrow> clean (text_or_empty (m_id m)) \<and> clean (text_or_empty (m_vendor m)) \<and>
     clean (text_or_empty (m_version m)) \<and> (\<forall>nd \<in> set (m_nodes m). clean_node nd)"

lemma collect_strings_ok:
  assumes cs: "collect_strings alloc m st = Inr ((i, vnd, ver), lb, mt)" and c: "clean_manifest m"
    and f: "strtab_fits (mt_strtab mt)"
  shows "list_all2 (ref_ok (mt_strtab mt)) (lb_node lb) (map fst (node_entries (m_nodes m)))"
    "list_all2 (ref_ok (mt_strtab mt)) (lb_child lb) (map fst (child_entries (m_nodes m)))"
    "list_all2 (node_row_ok (mt_strtab mt)) (mt_node mt) (node_rows (m_nodes m))"
    "list_all2 (child_row_ok (mt_strtab mt)) (mt_child mt) (child_rows (m_nodes m))"
    "ref_ok (mt_strtab mt) i (text_or_empty (m_id m))" "ref_ok (mt_strtab mt) vnd (text_or_empty (m_vendor m))"
    "ref_ok (mt_strtab mt) ver (text_or_empty (m_version m))"
proof -
  obtain st1 st2 st3 where h: "kc_ipa_strtab_add alloc st (text_or_empty (m_id m)) = Inr (st1, i)"
      "kc_ipa_strtab_add alloc st1 (text_or_empty (m_vendor m)) = Inr (st2, vnd)"
      "kc_ipa_strtab_add alloc st2 (text_or_empty (m_version m)) = Inr (st3, ver)"
    and l: "fold_res (label_node alloc) (m_nodes m) \<lparr>lb_strtab = st3, lb_node = [], lb_child = [], lb_parent = []\<rparr> = Inr lb"
    and r: "fold_res (meta_node alloc) (m_nodes m) \<lparr>mt_strtab = lb_strtab lb, mt_node = [], mt_child = []\<rparr> = Inr mt"
    using cs by (auto simp: collect_strings_def sum_bind_Inr_iff split: prod.splits)
  have cn: "\<forall>nd \<in> set (m_nodes m). clean_node nd" using c by (simp add: clean_manifest_def)
  note lg = label_nodes_grows [OF l cn] and rg = meta_nodes_grows [OF r cn]
  let ?st = "mt_strtab mt"
  have e3: "extends st3 (lb_strtab lb)" "extends (lb_strtab lb) ?st" using lg rg by (auto simp: grows_def)
  have fl: "strtab_fits (lb_strtab lb)" using e3(2) f by (simp add: strtab.extends_def)
  show "list_all2 (node_row_ok ?st) (mt_node mt) (node_rows (m_nodes m))"
    "list_all2 (child_row_ok ?st) (mt_child mt) (child_rows (m_nodes m))"
    using rg f by (auto simp: grows_def)
  have "list_all2 (ref_ok (lb_strtab lb)) (lb_node lb) (map fst (node_entries (m_nodes m)))"
    "list_all2 (ref_ok (lb_strtab lb)) (lb_child lb) (map fst (child_entries (m_nodes m)))"
    using lg fl by (auto simp: grows_def)
  then show "list_all2 (ref_ok ?st) (lb_node lb) (map fst (node_entries (m_nodes m)))"
    "list_all2 (ref_ok ?st) (lb_child lb) (map fst (child_entries (m_nodes m)))"
    by (auto elim!: list_all2_mono intro: ref_ok_extends [OF _ e3(2) f])
  have e: "extends st3 ?st" "extends st2 ?st" "extends st1 ?st"
    using e3 strtab.extends_add [OF h(2)] strtab.extends_add [OF h(3)] strtab.extends_trans by blast+
  have cl: "clean (text_or_empty (m_id m))" "clean (text_or_empty (m_vendor m))" "clean (text_or_empty (m_version m))"
    using c by (auto simp: clean_manifest_def)
  show "ref_ok ?st i (text_or_empty (m_id m))" "ref_ok ?st vnd (text_or_empty (m_vendor m))"
    "ref_ok ?st ver (text_or_empty (m_version m))"
    using strtab.added_stays [OF h(1) e(3) f cl(1)] strtab.added_stays [OF h(2) e(2) f cl(2)]
      strtab.added_stays [OF h(3) e(1) f cl(3)] strtab_add_data [OF h(1)] strtab_add_data [OF h(2)] strtab_add_data [OF h(3)]
    by (auto simp: ref_ok_def)
qed


subsection \<open>Tables as bytes\<close>

definition emb_bytes :: "embedder \<Rightarrow> kc_ipa_str_ref_t \<Rightarrow> string \<Rightarrow> string" where
  "emb_bytes em r d = le32s (ref_words r @ the (em_exec em d))"

lemma le32s_append: "le32s (xs @ ys) = le32s xs @ le32s ys"
  by (simp add: le32s_def)

text \<open>Both kinds of table are written by loops that consume a scratch array from the front.\<close>

definition writes ::
    "('r \<Rightarrow> 'd \<Rightarrow> string) \<Rightarrow> ('d \<Rightarrow> bool) \<Rightarrow> 'r list \<Rightarrow> kc_ipa_wbuf_t \<times> nat \<Rightarrow> kc_ipa_wbuf_t \<times> nat \<Rightarrow> 'd list \<Rightarrow> bool" where
  "writes enc ok rs s t a \<longleftrightarrow> snd t = snd s + length a \<and> (a \<noteq> [] \<longrightarrow> snd t \<le> length rs) \<and> list_all ok a \<and>
     wb_data (fst t) = wb_data (fst s) @ concat (map2 enc (take (length a) (drop (snd s) rs)) a)"

lemma writes_refl: "writes enc ok rs s s []"
  by (simp add: writes_def)

lemma map2_append: "length xs = length ys \<Longrightarrow> map2 f (xs @ xs') (ys @ ys') = map2 f xs ys @ map2 f xs' ys'"
  by simp

lemma writes_trans:
  assumes "writes enc ok rs s t a" "writes enc ok rs t u b"
  shows "writes enc ok rs s u (a @ b)"
proof (cases "b = []")
  case True
  with assms show ?thesis by (auto simp: writes_def)
next
  case False
  with assms(2) have le: "snd s + length a + length b \<le> length rs" using assms(1) by (auto simp: writes_def)
  have "take (length (a @ b)) (drop (snd s) rs) = take (length a) (drop (snd s) rs) @ take (length b) (drop (snd s + length a) rs)"
    by (simp add: take_add drop_drop add.commute)
  moreover have "length (take (length a) (drop (snd s) rs)) = length a" using le by simp
  ultimately have "concat (map2 enc (take (length (a @ b)) (drop (snd s) rs)) (a @ b)) =
      concat (map2 enc (take (length a) (drop (snd s) rs)) a) @ concat (map2 enc (take (length b) (drop (snd s + length a) rs)) b)"
    by simp
  with assms le show ?thesis by (auto simp: writes_def)
qed

lemma writes_fold:
  assumes "\<And>x s t. x \<in> set xs \<Longrightarrow> f x s = Inr t \<Longrightarrow> writes enc ok rs s t (out x)" and "fold_res f xs s = Inr t"
  shows "writes enc ok rs s t (concat (map out xs))"
  by (rule fold_res_collect [where R = "writes enc ok rs"]) (use assms writes_trans in \<open>auto simp: writes_refl\<close>)

lemma writes_one:
  assumes "ie < length rs" "wb_data buf' = wb_data buf @ enc (rs ! ie) d" "ok d"
  shows "writes enc ok rs (buf, ie) (buf', ie + 1) [d]"
  using assms by (simp add: writes_def take_Suc_conv_app_nth hd_drop_conv_nth take_Suc)

lemma write_embedding_writes:
  assumes "write_embedding alloc em rs d s = Inr t"
  shows "writes (emb_bytes em) (\<lambda>d. em_exec em d \<noteq> None) rs s t [d]"
proof -
  obtain buf ie where s: "s = (buf, ie)" by fastforce
  obtain vec where v: "em_exec em d = Some vec"
    using assms s by (auto simp: write_embedding_def split: option.splits)
  with assms s obtain buf1 buf2 where w: "ie < length rs" "kc_ipa_wbuf_append alloc buf (le32s (ref_words (rs ! ie))) = Inr buf1"
      "kc_ipa_wbuf_append alloc buf1 (le32s vec) = Inr buf2" "t = (buf2, ie + 1)"
    by (auto simp: write_embedding_def sum_bind_Inr_iff fetch_Inr_iff)
  from wbuf_append_data [OF w(2)] wbuf_append_data [OF w(3)] v
  have "wb_data buf2 = wb_data buf @ emb_bytes em (rs ! ie) d" by (simp add: emb_bytes_def le32s_append)
  with w(1,4) v show ?thesis unfolding s w(4) by (intro writes_one) auto
qed

lemma write_row_writes:
  assumes "write_row alloc words rs s = Inr t"
  shows "writes (\<lambda>r _. le32s (words r)) (\<lambda>_. True) rs s t [x]"
proof -
  obtain buf ie where s: "s = (buf, ie)" by fastforce
  with assms obtain buf1 where "ie < length rs" "kc_ipa_wbuf_append alloc buf (le32s (words (rs ! ie))) = Inr buf1"
      "t = (buf1, ie + 1)"
    by (auto simp: write_row_def sum_bind_Inr_iff fetch_Inr_iff)
  with wbuf_append_data show ?thesis unfolding s by (metis writes_one)
qed

lemma concat_map_singleton: "concat (map (\<lambda>x. [x]) xs) = xs"
  by (induction xs) auto

lemma write_node_embeddings_writes:
  assumes "write_node_embeddings alloc em rs nodes buf = Inr t"
  shows "writes (emb_bytes em) (\<lambda>d. em_exec em d \<noteq> None) rs (buf, 0) t (map snd (node_entries nodes))"
proof -
  have "writes (emb_bytes em) (\<lambda>d. em_exec em d \<noteq> None) rs (buf, 0) t
      (concat (map (\<lambda>nd. concat (map (\<lambda>d. [d]) (nd_descriptions nd))) nodes))"
    by (rule writes_fold [OF _ assms [unfolded write_node_embeddings_def]], erule writes_fold [rotated],
        erule write_embedding_writes)
  then show ?thesis by (simp add: node_entries_def map_concat comp_def concat_map_singleton)
qed

lemma write_child_embeddings_writes:
  assumes "write_child_embeddings alloc em rs nodes buf = Inr t"
  shows "writes (emb_bytes em) (\<lambda>d. em_exec em d \<noteq> None) rs (buf, 0) t (map snd (child_entries nodes))"
proof -
  have "writes (emb_bytes em) (\<lambda>d. em_exec em d \<noteq> None) rs (buf, 0) t
      (concat (map (\<lambda>nd. concat (map (\<lambda>ch. concat (map (\<lambda>d. [d]) (nd_descriptions ch))) (nd_children nd))) nodes))"
    by (rule writes_fold [OF _ assms [unfolded write_child_embeddings_def]], erule writes_fold [rotated],
        erule writes_fold [rotated], erule write_embedding_writes)
  then show ?thesis by (simp add: child_entries_def node_entries_def map_concat comp_def concat_map_singleton)
qed

lemma write_node_metas_writes:
  assumes "write_node_metas alloc rs nodes buf = Inr t"
  shows "writes (\<lambda>r _. le32s (node_meta_words r)) (\<lambda>_. True) rs (buf, 0) t (node_rows nodes)"
proof -
  have "writes (\<lambda>r _. le32s (node_meta_words r)) (\<lambda>_. True) rs (buf, 0) t
      (concat (map (\<lambda>nd. concat (map (\<lambda>eo. [(the (nd_id nd), eo, nd_children nd \<noteq> [])]) (emit_rounds nd))) nodes))"
    by (rule writes_fold [OF _ assms [unfolded write_node_metas_def]], rule writes_fold) (auto intro: write_row_writes)
  then show ?thesis by (simp add: node_rows_def concat_singletons)
qed

lemma write_child_metas_writes:
  assumes "write_child_metas alloc rs nodes buf = Inr t"
  shows "writes (\<lambda>r _. le32s (child_meta_words r)) (\<lambda>_. True) rs (buf, 0) t (child_rows nodes)"
proof -
  have "writes (\<lambda>r _. le32s (child_meta_words r)) (\<lambda>_. True) rs (buf, 0) t
      (concat (map (\<lambda>nd. concat (map (\<lambda>ch. concat (map (\<lambda>eo. [(the (nd_id nd), the (nd_id ch), eo)]) (emit_rounds ch))) (nd_children nd))) nodes))"
    by (rule writes_fold [OF _ assms [unfolded write_child_metas_def]], rule writes_fold, rule writes_fold)
      (auto intro: write_row_writes)
  then show ?thesis by (simp add: child_rows_def concat_singletons)
qed


subsection \<open>The layout of the file\<close>

definition emb_table :: "embedder \<Rightarrow> kc_ipa_str_ref_t list \<Rightarrow> (string \<times> string) list \<Rightarrow> string" where
  "emb_table em rs es = concat (map2 (emb_bytes em) rs (map snd es))"

definition row_table :: "('r \<Rightarrow> u32 list) \<Rightarrow> 'r list \<Rightarrow> string" where
  "row_table words rows = concat (map (\<lambda>r. le32s (words r)) rows)"

text \<open>The parts of an image and the header that describes them.\<close>

record image_parts =
  ip_strtab :: kc_ipa_strtab_t
  ip_ids :: "kc_ipa_str_ref_t \<times> kc_ipa_str_ref_t \<times> kc_ipa_str_ref_t"
  ip_node_labels :: "kc_ipa_str_ref_t list"
  ip_child_labels :: "kc_ipa_str_ref_t list"
  ip_node_rows :: "kc_ipa_node_meta_t list"
  ip_child_rows :: "kc_ipa_child_meta_t list"

definition parts_ok :: "kc_ipa_manifest_t \<Rightarrow> image_parts \<Rightarrow> bool" where
  "parts_ok m ip \<longleftrightarrow>
     list_all2 (ref_ok (ip_strtab ip)) (ip_node_labels ip) (map fst (node_entries (m_nodes m))) \<and>
     list_all2 (ref_ok (ip_strtab ip)) (ip_child_labels ip) (map fst (child_entries (m_nodes m))) \<and>
     list_all2 (node_row_ok (ip_strtab ip)) (ip_node_rows ip) (node_rows (m_nodes m)) \<and>
     list_all2 (child_row_ok (ip_strtab ip)) (ip_child_rows ip) (child_rows (m_nodes m)) \<and>
     (case ip_ids ip of (i, vnd, ver) \<Rightarrow>
        ref_ok (ip_strtab ip) i (text_or_empty (m_id m)) \<and> ref_ok (ip_strtab ip) vnd (text_or_empty (m_vendor m)) \<and>
        ref_ok (ip_strtab ip) ver (text_or_empty (m_version m)))"

definition strtab_end :: "image_parts \<Rightarrow> nat" where
  "strtab_end ip = sizeof_file_hdr + st_size (ip_strtab ip)"

definition node_embs :: "embedder \<Rightarrow> kc_ipa_manifest_t \<Rightarrow> image_parts \<Rightarrow> string" where
  "node_embs em m ip = emb_table em (ip_node_labels ip) (node_entries (m_nodes m))"

definition child_embs :: "embedder \<Rightarrow> kc_ipa_manifest_t \<Rightarrow> image_parts \<Rightarrow> string" where
  "child_embs em m ip = emb_table em (ip_child_labels ip) (child_entries (m_nodes m))"

definition body :: "embedder \<Rightarrow> kc_ipa_manifest_t \<Rightarrow> image_parts \<Rightarrow> string" where
  "body em m ip = st_data (ip_strtab ip) @ node_embs em m ip @ child_embs em m ip @
     row_table node_meta_words (ip_node_rows ip) @ row_table child_meta_words (ip_child_rows ip)"

definition image_hdr :: "embedder \<Rightarrow> kc_ipa_manifest_t \<Rightarrow> image_parts \<Rightarrow> kc_ipa_file_hdr_t" where
  "image_hdr em m ip =
     (let e1 = strtab_end ip; e2 = e1 + length (node_embs em m ip); e3 = e2 + length (child_embs em m ip);
          e4 = e3 + length (row_table node_meta_words (ip_node_rows ip))
      in \<lparr>h_magic = KC_IPA_MAGIC, h_version = KC_IPA_FMT_VERSION,
          h_file_size = of_nat (sizeof_file_hdr + length (body em m ip)),
          h_strtab_off = 92, h_strtab_size = of_nat (st_size (ip_strtab ip)),
          h_id = fst (ip_ids ip), h_vendor = fst (snd (ip_ids ip)), h_schemaver = snd (snd (ip_ids ip)),
          h_node_threshold = m_node_threshold m,
          h_min_ngram = of_int (m_min_ngram m), h_max_ngram = of_int (m_max_ngram m),
          h_emb_dim = of_int (em_dim em),
          h_node_emb_off = of_nat e1, h_node_emb_count = of_nat (length (node_entries (m_nodes m))),
          h_child_emb_off = of_nat e2, h_child_emb_count = of_nat (length (child_entries (m_nodes m))),
          h_node_meta_off = of_nat e3, h_node_meta_count = of_nat (length (node_rows (m_nodes m))),
          h_child_meta_off = of_nat e4, h_child_meta_count = of_nat (length (child_rows (m_nodes m)))\<rparr>)"

definition embeds :: "embedder \<Rightarrow> kc_ipa_manifest_t \<Rightarrow> bool" where
  "embeds em m \<longleftrightarrow> (\<forall>d \<in> snd ` (set (node_entries (m_nodes m)) \<union> set (child_entries (m_nodes m))). em_exec em d \<noteq> None)"

lemma totals: "total_node_emb nodes = length (node_entries nodes)" "total_child_emb nodes = length (child_entries nodes)"
  by (simp_all add: total_node_emb_def total_child_emb_def node_entries_def child_entries_def length_concat comp_def)

lemma writes_all:
  assumes "writes enc ok rs (buf, 0) t a" "length rs = length a"
  shows "wb_data (fst t) = wb_data buf @ concat (map2 enc rs a)" "snd t = length a" "list_all ok a"
  using assms by (auto simp: writes_def)

lemma map2_const: "length rs = length a \<Longrightarrow> concat (map2 (\<lambda>r _. f r) rs a) = concat (map f rs)"
proof (induction rs arbitrary: a)
  case (Cons r rs)
  then show ?case by (cases a) auto
qed simp

lemma hdr_bytes_length: "length (hdr_bytes h) = length (h_magic h) + 88"
  by (simp add: hdr_bytes_def hdr_words_def ref_words_def)

lemma build_image_layout:
  assumes b: "build_image alloc em m = Inr data" and c: "clean_manifest m" and f: "length data < 2 ^ 32"
  obtains ip where "data = hdr_bytes (image_hdr em m ip) @ body em m ip" "parts_ok m ip" "embeds em m"
proof -
  obtain st0 buf0 buf1 i vnd ver lb mt buf2 buf3 n3 buf4 n4 buf5 n5 buf6 n6 where
    s0: "kc_ipa_strtab_init alloc = Inr st0" and w0: "kc_ipa_wbuf_init alloc = Inr buf0"
    and w1: "kc_ipa_wbuf_append alloc buf0 (replicate sizeof_file_hdr NUL) = Inr buf1"
    and cs: "collect_strings alloc m st0 = Inr ((i, vnd, ver), lb, mt)"
    and w2: "kc_ipa_wbuf_append alloc buf1 (st_data (mt_strtab mt)) = Inr buf2"
    and w3: "write_node_embeddings alloc em (lb_node lb) (m_nodes m) buf2 = Inr (buf3, n3)"
    and w4: "write_child_embeddings alloc em (lb_child lb) (m_nodes m) buf3 = Inr (buf4, n4)"
    and w5: "write_node_metas alloc (mt_node mt) (m_nodes m) buf4 = Inr (buf5, n5)"
    and w6: "write_child_metas alloc (mt_child mt) (m_nodes m) buf5 = Inr (buf6, n6)"
    and d: "data = hdr_bytes \<lparr>h_magic = KC_IPA_MAGIC, h_version = KC_IPA_FMT_VERSION,
                  h_file_size = of_nat (wb_size buf6),
                  h_strtab_off = of_nat (wb_size buf1), h_strtab_size = of_nat (st_size (mt_strtab mt)),
                  h_id = i, h_vendor = vnd, h_schemaver = ver,
                  h_node_threshold = m_node_threshold m,
                  h_min_ngram = of_int (m_min_ngram m), h_max_ngram = of_int (m_max_ngram m),
                  h_emb_dim = of_int (em_dim em),
                  h_node_emb_off = of_nat (wb_size buf2), h_node_emb_count = of_nat (total_node_emb (m_nodes m)),
                  h_child_emb_off = of_nat (wb_size buf3), h_child_emb_count = of_nat (total_child_emb (m_nodes m)),
                  h_node_meta_off = of_nat (wb_size buf4), h_node_meta_count = of_nat n5,
                  h_child_meta_off = of_nat (wb_size buf5), h_child_meta_count = of_nat n6\<rparr> @ drop sizeof_file_hdr (wb_data buf6)"
    using b by (auto simp: build_image_def sum_bind_Inr_iff Let_def)
  have buf1: "wb_data buf1 = replicate 92 NUL"
    using wbuf_append_data [OF w1] w0 by (auto simp: kc_ipa_wbuf_init_def split: if_splits)
  have buf2: "wb_data buf2 = replicate 92 NUL @ st_data (mt_strtab mt)"
    using wbuf_append_data [OF w2] buf1 by simp
  note wr3 = write_node_embeddings_writes [OF w3] and wr4 = write_child_embeddings_writes [OF w4]
    and wr5 = write_node_metas_writes [OF w5] and wr6 = write_child_metas_writes [OF w6]
  have "st_size (mt_strtab mt) \<le> length data"
    using d buf2 wr3 wr4 wr5 wr6 by (auto simp: writes_def)
  with f have "strtab_fits (mt_strtab mt)" by (simp add: strtab_fits_def)
  note ok = collect_strings_ok [OF cs c this]
  let ?ip = "\<lparr>ip_strtab = mt_strtab mt, ip_ids = (i, vnd, ver), ip_node_labels = lb_node lb, ip_child_labels = lb_child lb,
              ip_node_rows = mt_node mt, ip_child_rows = mt_child mt\<rparr>"
  note len = ok(1-4) [THEN list_all2_lengthD, unfolded length_map]
  note wa = writes_all [OF wr3] writes_all [OF wr4] writes_all [OF wr5 len(3)] writes_all [OF wr6 len(4)]
  have t: "wb_data buf3 = wb_data buf2 @ node_embs em m ?ip" "wb_data buf4 = wb_data buf3 @ child_embs em m ?ip"
      "wb_data buf5 = wb_data buf4 @ row_table node_meta_words (mt_node mt)"
      "wb_data buf6 = wb_data buf5 @ row_table child_meta_words (mt_child mt)"
    using wa len by (simp_all add: node_embs_def child_embs_def emb_table_def row_table_def map2_const)
  have n: "n5 = length (node_rows (m_nodes m))" "n6 = length (child_rows (m_nodes m))" using wa len by auto
  have "data = hdr_bytes (image_hdr em m ?ip) @ body em m ?ip"
    unfolding d image_hdr_def Let_def
    by (simp add: buf1 buf2 t n totals strtab_end_def body_def add.assoc)
  moreover have "parts_ok m ?ip" using ok by (simp add: parts_ok_def)
  moreover have "embeds em m" using wa(3,6) len by (auto simp: embeds_def list_all_iff)
  ultimately show ?thesis by (rule that)
qed

end
