(* ===== verification/Clean.thy ===== *)
theory Clean
  imports Image
begin

section \<open>What the parser guarantees of a manifest\<close>

text \<open>
  Every string of a parsed manifest is a C string: it has no NUL byte, because the tokenizer's buffer
  is read up to its first NUL. The n-gram bounds come from a conversion to \<open>int\<close> and fit one.
\<close>

definition results :: "('a \<Rightarrow> bool) \<Rightarrow> 'e + 'a \<times> nat \<Rightarrow> bool" where
  "results P r \<longleftrightarrow> (\<forall>x q. r = Inr (x, q) \<longrightarrow> P x)"

lemma results_bind: "results Q m \<Longrightarrow> (\<And>x q. Q x \<Longrightarrow> results P (f x q)) \<Longrightarrow> results P (sum_bind m (\<lambda>(x, q). f x q))"
  by (cases m) (fastforce simp: results_def)+

lemma results_step: "(\<And>q. results P (f q)) \<Longrightarrow> results P (sum_bind m f)"
  by (cases m) (auto simp: results_def)

lemma results_Inl [simp]: "results P (Inl e)"
  by (simp add: results_def)

lemma results_Inr [simp]: "results P (Inr (x, q)) \<longleftrightarrow> P x"
  by (simp add: results_def)

lemma results_any: "results (\<lambda>_. True) m"
  by (simp add: results_def)

lemma results_if: "results P a \<Longrightarrow> results P b \<Longrightarrow> results P (if c then a else b)"
  by simp

lemma string_loop_clean: "string_loop alloc src pos buf cap = Inr (s, q) \<Longrightarrow> clean s"
proof (induction "length src - pos" arbitrary: pos buf cap rule: less_induct)
  case less
  have again: "pos < length src \<Longrightarrow> pos < p \<Longrightarrow> string_loop alloc src p b c = Inr (s, q) \<Longrightarrow> clean s" for p b c
    by (rule less.hyps [of p]) auto
  from less.prems show ?case
    by (subst (asm) string_loop.simps) (auto simp: Let_def split: if_splits dest: again [rotated 2])
qed

lemma parse_string_clean: "results clean (kc_ipa_json_parse_string alloc src pos)"
  unfolding kc_ipa_json_parse_string_def results_def
  by (auto simp: Let_def sum_bind_Inr_iff split: if_splits dest: string_loop_clean)


lemmas results_intros = results_bind [OF parse_string_clean] results_step results_if

lemma string_array_clean:
  "\<forall>d \<in> set arr. clean d \<Longrightarrow> results (\<lambda>ds. \<forall>d \<in> set ds. clean d) (string_array_loop n alloc src pos arr cap)"
proof (induction n arbitrary: pos arr cap)
  case (Suc n)
  show ?case unfolding string_array_loop.simps
    by (rule results_bind [OF parse_string_clean])
      (auto simp: Let_def split: option.split intro!: results_step Suc.IH, use Suc.prems in auto)
qed simp

lemma parse_string_array_clean: "results (\<lambda>ds. \<forall>d \<in> set ds. clean d) (kc_ipa_parse_string_array alloc src pos)"
  unfolding kc_ipa_parse_string_array_def Let_def
  by (rule results_step) (auto intro: string_array_clean)

lemma emit_object_clean:
  "\<forall>e \<in> set arr. clean (ed_key e) \<and> clean (ed_value e) \<Longrightarrow>
   results (\<lambda>es. \<forall>e \<in> set es. clean (ed_key e) \<and> clean (ed_value e)) (emit_object_loop n alloc src pos arr cap)"
proof (induction n arbitrary: pos arr cap)
  case (Suc n)
  show ?case unfolding emit_object_loop.simps
    by (rule results_bind [OF parse_string_clean], rule results_step, rule results_bind [OF parse_string_clean])
      (auto simp: Let_def split: option.split intro!: results_step Suc.IH, use Suc.prems in auto)
qed simp

lemma parse_emit_object_clean:
  "results (\<lambda>es. \<forall>e \<in> set es. clean (ed_key e) \<and> clean (ed_value e)) (kc_ipa_parse_emit_object alloc src pos)"
  unfolding kc_ipa_parse_emit_object_def Let_def
  by (rule results_step) (auto intro: emit_object_clean)

lemma node_array_clean:
  assumes "\<And>p. results clean_node (parse_node p)"
  shows "\<forall>nd \<in> set arr. clean_node nd \<Longrightarrow> results (\<lambda>nds. \<forall>nd \<in> set nds. clean_node nd) (node_array_loop n parse_node alloc src pos arr cap)"
proof (induction n arbitrary: pos arr cap)
  case (Suc n)
  show ?case
  proof (cases "grown alloc 8 56 (length arr) cap")
    case (Some cap')
    show ?thesis unfolding node_array_loop.simps Some option.case
      by (rule results_bind [OF assms]) (auto simp: Let_def intro!: results_step Suc.IH, use Suc.prems in auto)
  qed simp
qed simp

lemma parse_node_array_clean:
  "(\<And>p. results clean_node (parse_node p)) \<Longrightarrow>
   results (\<lambda>nds. \<forall>nd \<in> set nds. clean_node nd) (kc_ipa_parse_node_array n parse_node alloc src pos)"
  unfolding kc_ipa_parse_node_array_def Let_def
  by (rule results_step) (auto intro: node_array_clean)

lemma node_member_clean:
  assumes "\<And>p. results (\<lambda>nds. \<forall>nd \<in> set nds. clean_node nd) (parse_children p)" and "clean_node nd"
  shows "results clean_node (node_member parse_children alloc fp src key p nd)"
proof (cases nd)
  case (NodeDef i ds es cs)
  show ?thesis unfolding node_member_def NodeDef kc_ipa_node_def.case
    by (intro results_if;
        (rule results_bind [OF parse_string_clean] | rule results_bind [OF parse_string_array_clean]
         | rule results_bind [OF parse_emit_object_clean] | rule results_bind [OF assms(1)] | rule results_step))
      (use assms(2) NodeDef in auto)
qed

lemma node_members_clean:
  assumes "\<And>p. results (\<lambda>nds. \<forall>nd \<in> set nds. clean_node nd) (parse_children p)"
  shows "clean_node nd \<Longrightarrow> results clean_node (node_members n parse_children alloc fp src pos nd)"
proof (induction n arbitrary: pos nd)
  case (Suc n)
  show ?case unfolding node_members.simps
    by (rule results_bind [OF parse_string_clean], rule results_step,
        rule results_bind [OF node_member_clean [OF assms Suc.prems]])
      (auto simp: Let_def intro!: results_step Suc.IH)
qed simp

lemma parse_node_clean: "results clean_node (kc_ipa_parse_node n alloc fp src pos)"
proof (induction n arbitrary: pos)
  case (Suc n)
  show ?case unfolding kc_ipa_parse_node.simps Let_def
    by (rule results_step) (auto intro!: node_members_clean parse_node_array_clean Suc.IH simp: empty_node_def)
qed simp

text \<open>The whole manifest. \<open>int_conversions\<close> says that the conversion from \<open>double\<close> to \<open>int\<close> gives an
  \<open>int\<close>.\<close>

definition int_conversions :: "fp_env \<Rightarrow> bool" where
  "int_conversions fp \<longleftrightarrow> (\<forall>x. fp_int fp x \<in> {- (2 ^ 31)..<2 ^ 31})"

definition int_ngrams :: "kc_ipa_manifest_t \<Rightarrow> bool" where
  "int_ngrams m \<longleftrightarrow> m_min_ngram m \<in> {- (2 ^ 31)..<2 ^ 31} \<and> m_max_ngram m \<in> {- (2 ^ 31)..<2 ^ 31}"

definition sane :: "fp_env \<Rightarrow> kc_ipa_manifest_t \<Rightarrow> bool" where
  "sane fp m \<longleftrightarrow> clean_manifest m \<and> (int_conversions fp \<longrightarrow> int_ngrams m)"

lemma defaults_member_sane: "sane fp m \<Longrightarrow> results (sane fp) (defaults_member alloc fp src dk p m)"
  unfolding defaults_member_def
  by (intro results_if; (rule results_bind [OF results_any] | rule results_step))
    (auto simp: sane_def clean_manifest_def int_ngrams_def int_conversions_def)

lemma defaults_loop_sane: "sane fp m \<Longrightarrow> results (sane fp) (defaults_loop n alloc fp src pos m)"
proof (induction n arbitrary: pos m)
  case (Suc n)
  show ?case unfolding defaults_loop.simps
    by (rule results_bind [OF parse_string_clean], rule results_step, rule results_bind [OF defaults_member_sane [OF Suc.prems]])
      (auto simp: Let_def intro!: results_step Suc.IH)
qed simp

lemma parse_defaults_sane: "sane fp m \<Longrightarrow> results (sane fp) (parse_defaults alloc fp src p m)"
  unfolding parse_defaults_def Let_def by (rule results_step) (auto intro: defaults_loop_sane)

lemma manifest_member_sane: "sane fp m \<Longrightarrow> results (sane fp) (manifest_member alloc fp src key p m)"
  unfolding manifest_member_def
  by (intro results_if;
      (rule parse_defaults_sane | rule results_bind [OF parse_string_clean]
       | rule results_bind [OF parse_node_array_clean [OF parse_node_clean]] | rule results_step))
    (auto simp: sane_def clean_manifest_def int_ngrams_def text_or_empty_def)

lemma manifest_loop_sane: "sane fp m \<Longrightarrow> results (sane fp) (manifest_loop n alloc fp src pos m)"
proof (induction n arbitrary: pos m)
  case (Suc n)
  show ?case unfolding manifest_loop.simps
    by (rule results_bind [OF parse_string_clean], rule results_step, rule results_bind [OF manifest_member_sane [OF Suc.prems]])
      (auto simp: Let_def intro!: results_step Suc.IH)
qed simp

lemma parse_manifest_sane: "results (sane fp) (kc_ipa_parse_manifest alloc fp src pos)"
proof -
  have "sane fp default_manifest"
    by (simp add: sane_def clean_manifest_def default_manifest_def text_or_empty_def int_ngrams_def)
  then show ?thesis
    unfolding kc_ipa_parse_manifest_def Let_def by (intro results_step) (auto intro: manifest_loop_sane)
qed

end
