(* ===== verification/Json_Print.thy ===== *)
theory Json_Print
  imports Manifest
begin

section \<open>Printing JSON and reading it back (src/ipa.c: json\_print\_string; src/libipa.c: parser)\<close>

text \<open>
  The string printer of the command line tool, and what the parser of the library makes of its
  output. Printed characters are a string. On top of the string printer stands a reference printer
  for nodes and manifests, the inverse the parser is measured against.
\<close>

subsection \<open>The string printer\<close>

definition hex_digit :: "nat \<Rightarrow> char" where
  "hex_digit n = (if n < 10 then char_of (48 + n) else char_of (87 + n))"

text \<open>\<open>printf("\u%04x", c)\<close> for a byte.\<close>

definition u_escape :: "char \<Rightarrow> string" where
  "u_escape c = [CHR 0x5C, CHR ''u'', CHR ''0'', CHR ''0'', hex_digit (of_char c div 16), hex_digit (of_char c mod 16)]"

definition escape_char :: "char \<Rightarrow> string" where
  "escape_char c =
     (if c = CHR 0x22 then [CHR 0x5C, CHR 0x22]
      else if c = CHR 0x5C then [CHR 0x5C, CHR 0x5C]
      else if c = CHR 0x0A then [CHR 0x5C, CHR ''n'']
      else if c = CHR 0x0D then [CHR 0x5C, CHR ''r'']
      else if c = CHR 0x09 then [CHR 0x5C, CHR ''t'']
      else if (of_char c :: nat) < 0x20 then u_escape c
      else [c])"

definition json_print_string :: "string option \<Rightarrow> string" where
  "json_print_string s =
     (case s of
        None \<Rightarrow> ''null''
      | Some t \<Rightarrow> [CHR 0x22] @ concat (map escape_char t) @ [CHR 0x22])"

text \<open>The characters that survive: everything but NUL and the control characters without a short
  escape.\<close>

definition plain :: "string \<Rightarrow> bool" where
  "plain s \<longleftrightarrow> (\<forall>c \<in> set s. (of_char c :: nat) \<ge> 0x20 \<or> c = CHR 0x0A \<or> c = CHR 0x0D \<or> c = CHR 0x09)"

subsection \<open>Reading at a position\<close>

definition sees :: "string \<Rightarrow> nat \<Rightarrow> string \<Rightarrow> bool" where
  "sees src pos s \<longleftrightarrow> pos \<le> length src \<and> drop pos src = s"

lemma sees_Cons: "sees src pos (c # s) \<Longrightarrow> pos < length src \<and> src ! pos = c \<and> sees src (Suc pos) s"
proof -
  assume "sees src pos (c # s)"
  then have d: "pos \<le> length src" "drop pos src = c # s" by (auto simp: sees_def)
  then have "pos < length src" by (cases "pos = length src") auto
  moreover have "src ! pos = c" using d by (metis calculation hd_drop_conv_nth list.sel(1))
  moreover have "drop (Suc pos) src = s" using d by (metis Suc_eq_plus1 drop_Suc list.sel(3) tl_drop)
  ultimately show ?thesis by (simp add: sees_def)
qed

lemma sees_length: "sees src pos s \<Longrightarrow> length s = length src - pos \<and> pos \<le> length src"
  by (auto simp: sees_def)

lemma sees_ws: "sees src pos (c # s) \<Longrightarrow> \<not> is_space c \<Longrightarrow> kc_ipa_json_skip_ws src pos = pos"
  by (auto simp: kc_ipa_json_skip_ws_def sees_def scan_while_closed)

lemma sees_expect: "sees src pos (c # s) \<Longrightarrow> \<not> is_space c \<Longrightarrow> kc_ipa_json_expect src pos c = Inr (Suc pos)"
  using sees_Cons [of src pos c s] sees_ws [of src pos c s] by (simp add: kc_ipa_json_expect_def)

lemma sees_peek: "sees src pos (c # s) \<Longrightarrow> peek src pos d \<longleftrightarrow> c = d"
  using sees_Cons [of src pos c s] by (auto simp: peek_def)

lemma spaces [simp]: "\<not> is_space (CHR 0x22)" "\<not> is_space (CHR '','')" "\<not> is_space (CHR '':'')"
  "\<not> is_space (CHR ''{'')" "\<not> is_space (CHR ''}'')" "\<not> is_space (CHR ''['')" "\<not> is_space (CHR '']'')"
  by (simp_all add: is_space_def)

lemma string_loop_char:
  assumes "sees src pos (c # s)" "c \<noteq> CHR 0x22" "c \<noteq> CHR 0x5C" "\<forall>n. alloc n"
  shows "string_loop alloc src pos buf cap =
    string_loop alloc src (Suc pos) (buf @ [c]) (if length buf + 2 \<ge> cap then cap * 2 else cap)"
  using sees_Cons [OF assms(1)] assms(2-) by (subst string_loop.simps) (auto simp: Let_def)

lemma string_loop_escape:
  assumes "sees src pos (CHR 0x5C # e # s)" "\<forall>n. alloc n"
  shows "string_loop alloc src pos buf cap =
    string_loop alloc src (Suc (Suc pos)) (buf @ [unescape e]) (if length buf + 2 \<ge> cap then cap * 2 else cap)"
  using sees_Cons [OF assms(1)] sees_Cons [of src "Suc pos" e s] assms(2)
  by (subst string_loop.simps) (auto simp: Let_def)

text \<open>One printed character is read back as itself.\<close>

lemma string_loop_printed_char:
  assumes s: "sees src pos (escape_char c @ s)" and p: "plain [c]" and mem: "\<forall>n. alloc n"
  shows "\<exists>q cap'. string_loop alloc src pos buf cap = string_loop alloc src q (buf @ [c]) cap' \<and> sees src q s"
proof (cases "escape_char c = [c]")
  case True
  then have "c \<noteq> CHR 0x22" "c \<noteq> CHR 0x5C" by (auto simp: escape_char_def)
  moreover have "sees src pos (c # s)" using s True by simp
  ultimately show ?thesis
    using string_loop_char [OF _ _ _ mem] sees_Cons by blast
next
  case False
  have "\<exists>e. escape_char c = [CHR 0x5C, e] \<and> unescape e = c"
  proof -
    have "c \<in> {CHR 0x22, CHR 0x5C, CHR 0x0A, CHR 0x0D, CHR 0x09}"
      using False p by (auto simp: escape_char_def plain_def split: if_splits)
    then show ?thesis by (auto simp: escape_char_def unescape_def)
  qed
  then obtain e where e: "escape_char c = [CHR 0x5C, e]" "unescape e = c" by blast
  with s have se: "sees src pos (CHR 0x5C # e # s)" by simp
  then have "sees src (Suc (Suc pos)) s" using sees_Cons [of src pos] sees_Cons [of src "Suc pos"] by fastforce
  with string_loop_escape [OF se mem] e(2) show ?thesis by metis
qed

lemma string_loop_printed:
  assumes "sees src pos (concat (map escape_char t) @ CHR 0x22 # s)" "plain t" "\<forall>n. alloc n"
  shows "\<exists>q. string_loop alloc src pos buf cap = Inr (c_str (buf @ t), q) \<and> sees src q s"
  using assms(1,2)
proof (induction t arbitrary: pos buf cap)
  case Nil
  then have "sees src pos (CHR 0x22 # s)" by simp
  from sees_Cons [OF this] show ?case
    by (intro exI [of _ "Suc pos"]) (subst string_loop.simps, simp)
next
  case (Cons c t)
  then have "sees src pos (escape_char c @ (concat (map escape_char t) @ CHR 0x22 # s))" "plain [c]" "plain t"
    by (auto simp: plain_def)
  from string_loop_printed_char [OF this(1,2) assms(3)] Cons.IH [OF _ this(3)] show ?case
    by (metis append.assoc append_Cons append_Nil)
qed

lemma plain_c_str: "plain s \<Longrightarrow> c_str s = s"
  by (rule c_str_no_nul) (auto simp: plain_def)

abbreviation (input) quoted :: "string \<Rightarrow> string" where
  "quoted s \<equiv> json_print_string (Some s)"

lemma parse_printed_string:
  assumes "sees src pos (quoted t @ s)" "plain t" "\<forall>n. alloc n"
  shows "\<exists>q. kc_ipa_json_parse_string alloc src pos = Inr (t, q) \<and> sees src q s"
proof -
  have s: "sees src pos (CHR 0x22 # concat (map escape_char t) @ CHR 0x22 # s)"
    using assms(1) by (simp add: json_print_string_def)
  have "\<exists>q. string_loop alloc src (Suc pos) [] 256 = Inr (c_str ([] @ t), q) \<and> sees src q s"
    using sees_Cons [OF s] by (intro string_loop_printed assms) auto
  with sees_ws [OF s] sees_Cons [OF s] assms(2,3) show ?thesis
    by (auto simp: kc_ipa_json_parse_string_def plain_c_str)
qed

subsection \<open>A reference printer\<close>

fun commas :: "string list \<Rightarrow> string" where
  "commas [] = []"
| "commas [x] = x"
| "commas (x # y # ys) = x @ CHR '','' # commas (y # ys)"

lemma commas_Cons: "commas (x # xs) = x @ (if xs = [] then [] else CHR '','' # commas xs)"
  by (cases xs) auto

definition show_strings :: "string list \<Rightarrow> string" where
  "show_strings ss = CHR ''['' # commas (map quoted ss) @ '']''"

definition show_emit :: "kc_ipa_emit_def_t \<Rightarrow> string" where
  "show_emit e = quoted (ed_key e) @ CHR '':'' # quoted (ed_value e)"

definition show_emits :: "kc_ipa_emit_def_t list \<Rightarrow> string" where
  "show_emits es = CHR ''{'' # commas (map show_emit es) @ ''}''"

fun show_node :: "kc_ipa_node_def \<Rightarrow> string" where
  "show_node (NodeDef i ds es cs) =
     CHR ''{'' # quoted ''id'' @ CHR '':'' # quoted (case i of None \<Rightarrow> [] | Some s \<Rightarrow> s) @
     CHR '','' # quoted ''descriptions'' @ CHR '':'' # show_strings ds @
     CHR '','' # quoted ''emit'' @ CHR '':'' # show_emits es @
     CHR '','' # quoted ''children'' @ CHR '':'' # (CHR ''['' # commas (map show_node cs) @ '']'') @ ''}''"

definition show_nodes :: "kc_ipa_node_def list \<Rightarrow> string" where
  "show_nodes nds = CHR ''['' # commas (map show_node nds) @ '']''"

text \<open>The text of a manifest that leaves out the \<open>defaults\<close> object, as the format allows; \<open>Manifest_Text\<close> has the
  text with it.\<close>

definition brief_manifest :: "kc_ipa_manifest_t \<Rightarrow> string" where
  "brief_manifest m =
     CHR ''{'' # quoted ''schema'' @ CHR '':'' # quoted (the (m_schema m)) @
     CHR '','' # quoted ''id'' @ CHR '':'' # quoted (the (m_id m)) @
     CHR '','' # quoted ''vendor'' @ CHR '':'' # quoted (the (m_vendor m)) @
     CHR '','' # quoted ''version'' @ CHR '':'' # quoted (the (m_version m)) @
     CHR '','' # quoted ''nodes'' @ CHR '':'' # show_nodes (m_nodes m) @ ''}''"

fun printable_node :: "kc_ipa_node_def \<Rightarrow> bool" where
  "printable_node (NodeDef i ds es cs) \<longleftrightarrow>
     (\<exists>s. i = Some s \<and> plain s) \<and> (\<forall>d \<in> set ds. plain d) \<and>
     (\<forall>e \<in> set es. plain (ed_key e) \<and> plain (ed_value e)) \<and> (\<forall>c \<in> set cs. printable_node c)"

lemma quoted_head: "\<exists>t. quoted s = CHR 0x22 # t"
  by (simp add: json_print_string_def)

lemma show_node_head: "\<exists>t. show_node nd = CHR ''{'' # t"
  by (cases nd) simp

lemma grown_granted: "\<forall>n. alloc n \<Longrightarrow> \<exists>c. grown alloc f e n cap = Some c"
  by (simp add: grown_def)

text \<open>After an element: a comma and the next one, or the closing bracket.\<close>

lemma sees_comma:
  assumes "sees src pos (CHR '','' # s)"
  shows "kc_ipa_json_skip_ws src pos = pos" "peek src pos (CHR '','')" "sees src (Suc pos) s"
  using sees_ws [OF assms] sees_peek [OF assms] sees_Cons [OF assms] by auto

lemma sees_close:
  assumes "sees src pos (c # s)" "c = CHR '']'' \<or> c = CHR ''}''"
  shows "kc_ipa_json_skip_ws src pos = pos" "\<not> peek src pos (CHR '','')"
    "kc_ipa_json_expect src pos c = Inr (Suc pos)" "sees src (Suc pos) s"
  using sees_ws [OF assms(1)] sees_peek [OF assms(1)] sees_Cons [OF assms(1)] sees_expect [OF assms(1)] assms(2)
  by auto

lemma string_array_loop_printed:
  assumes "sees src pos (commas (map quoted (d # ds)) @ CHR '']'' # s)" "\<forall>d \<in> set (d # ds). plain d"
    and "length src - pos < n" "\<forall>n. alloc n"
  shows "\<exists>q. string_array_loop n alloc src pos arr cap = Inr (arr @ d # ds, q) \<and> sees src q s"
  using assms(1-3)
proof (induction ds arbitrary: d pos n arr cap)
  case Nil
  then obtain m where n: "n = Suc m" by (cases n) auto
  have s0: "sees src pos (quoted d @ CHR '']'' # s)" using Nil.prems(1) by simp
  obtain c where c: "grown alloc 8 8 (length arr) cap = Some c" using grown_granted assms(4) by blast
  have w: "kc_ipa_json_skip_ws src pos = pos" using s0 quoted_head [of d] sees_ws by fastforce
  obtain q where q: "kc_ipa_json_parse_string alloc src pos = Inr (d, q)" "sees src q (CHR '']'' # s)"
    using parse_printed_string [OF s0 _ assms(4)] Nil.prems(2) by auto
  note cl = sees_close [OF q(2), simplified]
  show ?case unfolding n by (rule exI [of _ "Suc q"]) (simp add: w q(1) c cl)
next
  case (Cons e es)
  then obtain m where n: "n = Suc m" by (cases n) auto
  have s0: "sees src pos (quoted d @ CHR '','' # commas (map quoted (e # es)) @ CHR '']'' # s)"
    using Cons.prems(1) by simp
  obtain c where c: "grown alloc 8 8 (length arr) cap = Some c" using grown_granted assms(4) by blast
  have w: "kc_ipa_json_skip_ws src pos = pos" using s0 quoted_head [of d] sees_ws by fastforce
  obtain q where q: "kc_ipa_json_parse_string alloc src pos = Inr (d, q)"
      "sees src q (CHR '','' # commas (map quoted (e # es)) @ CHR '']'' # s)"
    using parse_printed_string [OF s0 _ assms(4)] Cons.prems(2) by auto
  note cm = sees_comma [OF q(2)]
  have "length src - Suc q < m"
    using Cons.prems(3) n sees_length [OF s0] sees_length [OF q(2)] by auto
  from Cons.IH [OF cm(3) _ this, of "arr @ [d]" c] Cons.prems(2)
  show ?case unfolding n by (simp add: w q(1) c cm(1,2))
qed

lemma parse_printed_strings:
  assumes "sees src pos (show_strings ds @ s)" "\<forall>d \<in> set ds. plain d" "\<forall>n. alloc n"
  shows "\<exists>q. kc_ipa_parse_string_array alloc src pos = Inr (ds, q) \<and> sees src q s"
proof -
  have s0: "sees src pos (CHR ''['' # commas (map quoted ds) @ CHR '']'' # s)"
    using assms(1) by (simp add: show_strings_def)
  note e = sees_expect [OF s0] sees_Cons [OF s0]
  show ?thesis
  proof (cases ds)
    case Nil
    with e have "sees src (Suc pos) (CHR '']'' # s)" by simp
    note cl = sees_close [OF this, simplified] sees_peek [OF this]
    from e cl Nil show ?thesis by (simp add: kc_ipa_parse_string_array_def)
  next
    case (Cons d ds')
    have s1: "sees src (Suc pos) (commas (map quoted (d # ds')) @ CHR '']'' # s)" using e Cons by simp
    obtain t where t: "sees src (Suc pos) (CHR 0x22 # t)" using s1 quoted_head [of d] by (auto simp: commas_Cons)
    have "\<exists>q. string_array_loop (json_fuel src) alloc src (Suc pos) [] 0 = Inr ([] @ d # ds', q) \<and> sees src q s"
      using assms(2,3) Cons by (intro string_array_loop_printed [OF s1]) (auto simp: json_fuel_def)
    with e sees_ws [OF t] sees_peek [OF t] Cons show ?thesis by (simp add: kc_ipa_parse_string_array_def)
  qed
qed

lemma emit_object_loop_printed:
  assumes "sees src pos (commas (map show_emit (e # es)) @ CHR ''}'' # s)"
    "\<forall>e \<in> set (e # es). plain (ed_key e) \<and> plain (ed_value e)"
    and "length src - pos < n" "\<forall>n. alloc n"
  shows "\<exists>q. emit_object_loop n alloc src pos arr cap = Inr (arr @ e # es, q) \<and> sees src q s"
  using assms(1-3)
proof (induction es arbitrary: e pos n arr cap)
  case Nil
  then obtain m where n: "n = Suc m" by (cases n) auto
  obtain c where c: "grown alloc 4 16 (length arr) cap = Some c" using grown_granted assms(4) by blast
  have s0: "sees src pos (quoted (ed_key e) @ CHR '':'' # quoted (ed_value e) @ CHR ''}'' # s)"
    using Nil.prems(1) by (simp add: show_emit_def)
  obtain p where p: "kc_ipa_json_parse_string alloc src pos = Inr (ed_key e, p)"
      "sees src p (CHR '':'' # quoted (ed_value e) @ CHR ''}'' # s)"
    using parse_printed_string [OF s0 _ assms(4)] Nil.prems(2) by auto
  obtain q where q: "kc_ipa_json_parse_string alloc src (Suc p) = Inr (ed_value e, q)" "sees src q (CHR ''}'' # s)"
    using parse_printed_string [OF _ _ assms(4)] sees_Cons [OF p(2)] Nil.prems(2) by fastforce
  note cl = sees_close [OF q(2), simplified]
  show ?case unfolding n by (rule exI [of _ "Suc q"]) (simp add: p(1) q(1) c cl sees_expect [OF p(2)])
next
  case (Cons f fs)
  then obtain m where n: "n = Suc m" by (cases n) auto
  obtain c where c: "grown alloc 4 16 (length arr) cap = Some c" using grown_granted assms(4) by blast
  let ?r = "CHR '','' # commas (map show_emit (f # fs)) @ CHR ''}'' # s"
  have s0: "sees src pos (quoted (ed_key e) @ CHR '':'' # quoted (ed_value e) @ ?r)"
    using Cons.prems(1) by (simp add: show_emit_def [of e])
  obtain p where p: "kc_ipa_json_parse_string alloc src pos = Inr (ed_key e, p)"
      "sees src p (CHR '':'' # quoted (ed_value e) @ ?r)"
    using parse_printed_string [OF s0 _ assms(4)] Cons.prems(2) by auto
  obtain q where q: "kc_ipa_json_parse_string alloc src (Suc p) = Inr (ed_value e, q)" "sees src q ?r"
    using parse_printed_string [OF _ _ assms(4)] sees_Cons [OF p(2)] Cons.prems(2) by fastforce
  note cm = sees_comma [OF q(2)]
  have "length src - Suc q < m"
    using Cons.prems(3) n sees_length [OF s0] sees_length [OF q(2)] by auto
  then have "\<exists>q'. emit_object_loop m alloc src (Suc q) (arr @ [\<lparr>ed_key = ed_key e, ed_value = ed_value e\<rparr>]) c =
      Inr ((arr @ [\<lparr>ed_key = ed_key e, ed_value = ed_value e\<rparr>]) @ f # fs, q') \<and> sees src q' s"
    using cm(3) Cons.prems(2) by (intro Cons.IH) auto
  then show ?case unfolding n by (auto simp: p(1) q(1) c cm(1,2) sees_expect [OF p(2)])
qed

lemma parse_printed_emits:
  assumes "sees src pos (show_emits es @ s)" "\<forall>e \<in> set es. plain (ed_key e) \<and> plain (ed_value e)" "\<forall>n. alloc n"
  shows "\<exists>q. kc_ipa_parse_emit_object alloc src pos = Inr (es, q) \<and> sees src q s"
proof -
  have s0: "sees src pos (CHR ''{'' # commas (map show_emit es) @ CHR ''}'' # s)"
    using assms(1) by (simp add: show_emits_def)
  note e = sees_expect [OF s0] sees_Cons [OF s0]
  show ?thesis
  proof (cases es)
    case Nil
    with e have "sees src (Suc pos) (CHR ''}'' # s)" by simp
    note cl = sees_close [OF this, simplified] sees_peek [OF this]
    from e cl Nil show ?thesis by (simp add: kc_ipa_parse_emit_object_def)
  next
    case (Cons f fs)
    have s1: "sees src (Suc pos) (commas (map show_emit (f # fs)) @ CHR ''}'' # s)" using e Cons by simp
    obtain t where t: "sees src (Suc pos) (CHR 0x22 # t)"
      using s1 quoted_head [of "ed_key f"] by (auto simp: commas_Cons show_emit_def)
    have "\<exists>q. emit_object_loop (json_fuel src) alloc src (Suc pos) [] 0 = Inr ([] @ f # fs, q) \<and> sees src q s"
      using assms(2,3) Cons by (intro emit_object_loop_printed [OF s1]) (auto simp: json_fuel_def)
    with e sees_ws [OF t] sees_peek [OF t] Cons show ?thesis by (simp add: kc_ipa_parse_emit_object_def)
  qed
qed

text \<open>A printed member of an object: its key, the colon, and a value that \<open>member\<close> reads.\<close>

lemma printed_member:
  assumes s: "sees src pos (quoted key @ CHR '':'' # v @ r)" and key: "plain key" and mem: "\<forall>n. alloc n"
    and v: "\<exists>c t. v = c # t \<and> \<not> is_space c"
    and member: "\<And>p. sees src p (v @ r) \<Longrightarrow> pos < p \<Longrightarrow> \<exists>q. member key p = Inr (x, q) \<and> sees src q r"
  shows "\<exists>q. sees src q r \<and>
    sum_bind (kc_ipa_json_parse_string alloc src pos) (\<lambda>(key, p).
     sum_bind (kc_ipa_json_expect src p (CHR '':'')) (\<lambda>p1.
     sum_bind (member key (kc_ipa_json_skip_ws src p1)) (\<lambda>(x, p2). rest x p2))) = rest x q"
proof -
  obtain p where p: "kc_ipa_json_parse_string alloc src pos = Inr (key, p)" "sees src p (CHR '':'' # v @ r)"
    using parse_printed_string [OF s key mem] by blast
  have p1: "kc_ipa_json_expect src p (CHR '':'') = Inr (Suc p)" "sees src (Suc p) (v @ r)"
    using sees_expect [OF p(2)] sees_Cons [OF p(2)] by auto
  then have "kc_ipa_json_skip_ws src (Suc p) = Suc p" using v sees_ws by fastforce
  moreover have "pos < Suc p" using sees_length [OF s] sees_length [OF p(2)] by auto
  then obtain q where "member key (Suc p) = Inr (x, q)" "sees src q r" using member [OF p1(2)] by blast
  ultimately show ?thesis using p(1) p1(1) by auto
qed

lemma printed_member_comma:
  assumes "sees src pos (quoted key @ CHR '':'' # v @ CHR '','' # r)" "plain key" "\<forall>n. alloc n"
    and "\<exists>c t. v = c # t \<and> \<not> is_space c"
    and "\<And>p. sees src p (v @ CHR '','' # r) \<Longrightarrow> pos < p \<Longrightarrow>
      \<exists>q. node_member pc alloc fp src key p nd = Inr (nd', q) \<and> sees src q (CHR '','' # r)"
  shows "\<exists>q. sees src q r \<and> node_members (Suc n) pc alloc fp src pos nd = node_members n pc alloc fp src q nd'"
proof -
  obtain q where q: "sees src q (CHR '','' # r)"
    "node_members (Suc n) pc alloc fp src pos nd = (let q' = kc_ipa_json_skip_ws src q
       in if peek src q' (CHR '','') then node_members n pc alloc fp src (q' + 1) nd'
          else sum_bind (kc_ipa_json_expect src q' (CHR ''}'')) (\<lambda>r. Inr (nd', r)))"
    unfolding node_members.simps
    using printed_member [OF assms(1-4), of "\<lambda>key p. node_member pc alloc fp src key p nd" nd', OF assms(5)] by blast
  with sees_comma [OF q(1)] show ?thesis by auto
qed

lemma printed_member_close:
  assumes "sees src pos (quoted key @ CHR '':'' # v @ CHR ''}'' # r)" "plain key" "\<forall>n. alloc n"
    and "\<exists>c t. v = c # t \<and> \<not> is_space c"
    and "\<And>p. sees src p (v @ CHR ''}'' # r) \<Longrightarrow> pos < p \<Longrightarrow>
      \<exists>q. node_member pc alloc fp src key p nd = Inr (nd', q) \<and> sees src q (CHR ''}'' # r)"
  shows "\<exists>q. sees src q r \<and> node_members (Suc n) pc alloc fp src pos nd = Inr (nd', q)"
proof -
  obtain q where q: "sees src q (CHR ''}'' # r)"
    "node_members (Suc n) pc alloc fp src pos nd = (let q' = kc_ipa_json_skip_ws src q
       in if peek src q' (CHR '','') then node_members n pc alloc fp src (q' + 1) nd'
          else sum_bind (kc_ipa_json_expect src q' (CHR ''}'')) (\<lambda>r. Inr (nd', r)))"
    unfolding node_members.simps
    using printed_member [OF assms(1-4), of "\<lambda>key p. node_member pc alloc fp src key p nd" nd', OF assms(5)] by blast
  with sees_close [OF q(1)] show ?thesis by auto
qed

lemma plain_keys [simp]: "plain ''id''" "plain ''descriptions''" "plain ''emit''" "plain ''children''"
  "plain ''schema''" "plain ''vendor''" "plain ''version''" "plain ''nodes''"
  by (simp_all add: plain_def)

lemma printed_head:
  "\<exists>c t. quoted s = c # t \<and> \<not> is_space c" "\<exists>c t. show_strings ds = c # t \<and> \<not> is_space c"
  "\<exists>c t. show_emits es = c # t \<and> \<not> is_space c" "\<exists>c t. show_nodes cs = c # t \<and> \<not> is_space c"
  by (simp_all add: json_print_string_def show_strings_def show_emits_def show_nodes_def)

lemma node_members_printed:
  assumes s: "sees src pos (quoted ''id'' @ CHR '':'' # quoted i @
     CHR '','' # quoted ''descriptions'' @ CHR '':'' # show_strings ds @
     CHR '','' # quoted ''emit'' @ CHR '':'' # show_emits es @
     CHR '','' # quoted ''children'' @ CHR '':'' # show_nodes cs @ CHR ''}'' # r)"
    and pl: "plain i" "\<forall>d \<in> set ds. plain d" "\<forall>e \<in> set es. plain (ed_key e) \<and> plain (ed_value e)"
    and mem: "\<forall>n. alloc n"
    and cs: "\<And>p r. sees src p (show_nodes cs @ r) \<Longrightarrow> pos < p \<Longrightarrow> \<exists>q. pc p = Inr (cs, q) \<and> sees src q r"
  shows "\<exists>q. node_members (Suc (Suc (Suc (Suc n)))) pc alloc fp src pos empty_node =
      Inr (NodeDef (Some i) ds es cs, q) \<and> sees src q r"
proof -
  have 1: "\<exists>q. node_member pc alloc fp src ''id'' p empty_node = Inr (NodeDef (Some i) [] [] [], q) \<and> sees src q r"
    if "sees src p (quoted i @ r)" for p r
    using parse_printed_string [OF that pl(1) mem] by (auto simp: node_member_def empty_node_def)
  obtain q1 where q1: "node_members (Suc (Suc (Suc (Suc n)))) pc alloc fp src pos empty_node =
      node_members (Suc (Suc (Suc n))) pc alloc fp src q1 (NodeDef (Some i) [] [] [])"
    "sees src q1 (quoted ''descriptions'' @ CHR '':'' # show_strings ds @
     CHR '','' # quoted ''emit'' @ CHR '':'' # show_emits es @
     CHR '','' # quoted ''children'' @ CHR '':'' # show_nodes cs @ CHR ''}'' # r)"
    using printed_member_comma [OF s _ mem printed_head(1) 1, of "Suc (Suc (Suc n))"] by auto
  have 2: "\<exists>q. node_member pc alloc fp src ''descriptions'' p (NodeDef (Some i) [] [] []) = Inr (NodeDef (Some i) ds [] [], q) \<and> sees src q r"
    if "sees src p (show_strings ds @ r)" for p r
    using parse_printed_strings [OF that pl(2) mem] by (auto simp: node_member_def)
  obtain q2 where q2: "node_members (Suc (Suc (Suc n))) pc alloc fp src q1 (NodeDef (Some i) [] [] []) =
      node_members (Suc (Suc n)) pc alloc fp src q2 (NodeDef (Some i) ds [] [])"
    "sees src q2 (quoted ''emit'' @ CHR '':'' # show_emits es @
     CHR '','' # quoted ''children'' @ CHR '':'' # show_nodes cs @ CHR ''}'' # r)"
    using printed_member_comma [OF q1(2) _ mem printed_head(2) 2, of "Suc (Suc n)"] by auto
  have 3: "\<exists>q. node_member pc alloc fp src ''emit'' p (NodeDef (Some i) ds [] []) = Inr (NodeDef (Some i) ds es [], q) \<and> sees src q r"
    if "sees src p (show_emits es @ r)" for p r
    using parse_printed_emits [OF that pl(3) mem] by (auto simp: node_member_def)
  obtain q3 where q3: "node_members (Suc (Suc n)) pc alloc fp src q2 (NodeDef (Some i) ds [] []) =
      node_members (Suc n) pc alloc fp src q3 (NodeDef (Some i) ds es [])"
    "sees src q3 (quoted ''children'' @ CHR '':'' # show_nodes cs @ CHR ''}'' # r)"
    using printed_member_comma [OF q2(2) _ mem printed_head(3) 3, of "Suc n"] by auto
  have le: "pos \<le> q3" using sees_length [OF s] sees_length [OF q3(2)] by auto
  have 4: "\<exists>q. node_member pc alloc fp src ''children'' p (NodeDef (Some i) ds es []) = Inr (NodeDef (Some i) ds es cs, q) \<and> sees src q r'"
    if "sees src p (show_nodes cs @ r')" "q3 < p" for p r'
    using cs [OF that(1)] that(2) le by (auto simp: node_member_def)
  show ?thesis
    using printed_member_close [OF q3(2) _ mem printed_head(4) 4, of n] q1(1) q2(1) q3(1) by auto
qed

text \<open>Arrays of nodes, over a function that reads each of them.\<close>

lemma node_array_loop_printed:
  assumes "sees src pos (commas (map show_node (c # cs)) @ CHR '']'' # s)" "length src - pos < n" "\<forall>n. alloc n"
    and pn: "\<And>x p r. x \<in> set (c # cs) \<Longrightarrow> sees src p (show_node x @ r) \<Longrightarrow> pos \<le> p \<Longrightarrow>
      \<exists>q. parse_node p = Inr (x, q) \<and> sees src q r"
  shows "\<exists>q. node_array_loop n parse_node alloc src pos arr cap = Inr (arr @ c # cs, q) \<and> sees src q s"
  using assms(1,2,4)
proof (induction cs arbitrary: c pos n arr cap)
  case Nil
  then obtain m where n: "n = Suc m" by (cases n) auto
  obtain k where k: "grown alloc 8 56 (length arr) cap = Some k" using grown_granted assms(3) by blast
  have s0: "sees src pos (show_node c @ CHR '']'' # s)" using Nil.prems(1) by simp
  have w: "kc_ipa_json_skip_ws src pos = pos" using s0 show_node_head [of c] sees_ws by fastforce
  obtain q where q: "parse_node pos = Inr (c, q)" "sees src q (CHR '']'' # s)"
    using Nil.prems(3) [OF _ s0] by auto
  note cl = sees_close [OF q(2), simplified]
  show ?case unfolding n by (rule exI [of _ "Suc q"]) (simp add: w q(1) k cl)
next
  case (Cons d ds)
  then obtain m where n: "n = Suc m" by (cases n) auto
  obtain k where k: "grown alloc 8 56 (length arr) cap = Some k" using grown_granted assms(3) by blast
  have s0: "sees src pos (show_node c @ CHR '','' # commas (map show_node (d # ds)) @ CHR '']'' # s)"
    using Cons.prems(1) by simp
  have w: "kc_ipa_json_skip_ws src pos = pos" using s0 show_node_head [of c] sees_ws by fastforce
  obtain q where q: "parse_node pos = Inr (c, q)" "sees src q (CHR '','' # commas (map show_node (d # ds)) @ CHR '']'' # s)"
    using Cons.prems(3) [OF _ s0] by auto
  note cm = sees_comma [OF q(2)]
  have lt: "length src - Suc q < m" "pos < q"
    using Cons.prems(2) n sees_length [OF s0] sees_length [OF q(2)] show_node_head [of c] by auto
  have "\<exists>q'. node_array_loop m parse_node alloc src (Suc q) (arr @ [c]) k = Inr ((arr @ [c]) @ d # ds, q') \<and> sees src q' s"
    using cm(3) lt(1) by (rule Cons.IH) (use Cons.prems(3) lt in auto)
  then show ?case unfolding n by (simp add: w q(1) k cm(1,2))
qed

lemma node_array_printed:
  assumes "sees src pos (show_nodes cs @ s)" "\<forall>n. alloc n"
    and pn: "\<And>x p r. x \<in> set cs \<Longrightarrow> sees src p (show_node x @ r) \<Longrightarrow> pos < p \<Longrightarrow>
      \<exists>q. parse_node p = Inr (x, q) \<and> sees src q r"
  shows "\<exists>q. kc_ipa_parse_node_array (json_fuel src) parse_node alloc src pos = Inr (cs, q) \<and> sees src q s"
proof -
  have s0: "sees src pos (CHR ''['' # commas (map show_node cs) @ CHR '']'' # s)"
    using assms(1) by (simp add: show_nodes_def)
  note e = sees_expect [OF s0] sees_Cons [OF s0]
  show ?thesis
  proof (cases cs)
    case Nil
    with e have "sees src (Suc pos) (CHR '']'' # s)" by simp
    note cl = sees_close [OF this, simplified] sees_peek [OF this]
    from e cl Nil show ?thesis by (simp add: kc_ipa_parse_node_array_def)
  next
    case (Cons d ds)
    have s1: "sees src (Suc pos) (commas (map show_node (d # ds)) @ CHR '']'' # s)" using e Cons by simp
    obtain t where t: "sees src (Suc pos) (CHR ''{'' # t)" using s1 show_node_head [of d] by (auto simp: commas_Cons)
    have "\<exists>q. node_array_loop (json_fuel src) parse_node alloc src (Suc pos) [] 0 = Inr ([] @ d # ds, q) \<and> sees src q s"
      by (rule node_array_loop_printed [OF s1 _ assms(2)]) (use pn Cons in \<open>auto simp: json_fuel_def\<close>)
    with e sees_ws [OF t] sees_peek [OF t] Cons show ?thesis by (simp add: kc_ipa_parse_node_array_def)
  qed
qed

lemma show_node_nodes:
  "show_node (NodeDef (Some i) ds es cs) =
     CHR ''{'' # quoted ''id'' @ CHR '':'' # quoted i @
     CHR '','' # quoted ''descriptions'' @ CHR '':'' # show_strings ds @
     CHR '','' # quoted ''emit'' @ CHR '':'' # show_emits es @
     CHR '','' # quoted ''children'' @ CHR '':'' # show_nodes cs @ ''}''"
  by (simp add: show_nodes_def)

lemma parse_node_printed:
  assumes "sees src pos (show_node nd @ s)" "printable_node nd" "length src - pos < n" "\<forall>n. alloc n"
  shows "\<exists>q. kc_ipa_parse_node n alloc fp src pos = Inr (nd, q) \<and> sees src q s"
  using assms(1-3)
proof (induction nd arbitrary: pos n s)
  case (NodeDef i0 ds es cs)
  then obtain i where i: "i0 = Some i" "plain i" by auto
  from NodeDef.prems(3) obtain m where n: "n = Suc m" by (cases n) auto
  let ?mem = "quoted ''id'' @ CHR '':'' # quoted i @
     CHR '','' # quoted ''descriptions'' @ CHR '':'' # show_strings ds @
     CHR '','' # quoted ''emit'' @ CHR '':'' # show_emits es @
     CHR '','' # quoted ''children'' @ CHR '':'' # show_nodes cs @ CHR ''}'' # s"
  have s0: "sees src pos (CHR ''{'' # ?mem)"
    using NodeDef.prems(1) unfolding i show_node_nodes by simp
  note e = sees_expect [OF s0] sees_Cons [OF s0]
  have s1: "sees src (Suc pos) ?mem" using e by blast
  obtain t where t: "sees src (Suc pos) (CHR 0x22 # t)" using s1 quoted_head [of "''id''"] by auto
  let ?pc = "kc_ipa_parse_node_array (json_fuel src) (kc_ipa_parse_node m alloc fp src) alloc src"
  have "\<exists>q. ?pc p = Inr (cs, q) \<and> sees src q r" if "sees src p (show_nodes cs @ r)" "Suc pos < p" for p r
  proof (rule node_array_printed [OF that(1) assms(4)])
    fix x p' r' assume x: "x \<in> set cs" "sees src p' (show_node x @ r')" "p < p'"
    have "sees src p' (show_node x @ r')" by (rule x(2))
    then show "\<exists>q. kc_ipa_parse_node m alloc fp src p' = Inr (x, q) \<and> sees src q r'"
      using NodeDef.IH [OF x(1)] NodeDef.prems(2,3) x that(2) n sees_length [OF s0] by auto
  qed
  moreover obtain k where k: "json_fuel src = Suc (Suc (Suc (Suc k)))"
    using sees_length [OF s1] by (auto simp: json_fuel_def json_print_string_def intro: that [of "length src - 3"])
  ultimately have "\<exists>q. node_members (json_fuel src) ?pc alloc fp src (Suc pos) empty_node =
      Inr (NodeDef (Some i) ds es cs, q) \<and> sees src q s"
    unfolding k by (intro node_members_printed [OF s1 i(2)]) (use NodeDef.prems(2) assms(4) in auto)
  then show ?case
    unfolding n using e sees_ws [OF t] sees_peek [OF t] i(1) by simp
qed

subsection \<open>The manifest\<close>

lemma manifest_member_comma:
  assumes "sees src pos (quoted key @ CHR '':'' # v @ CHR '','' # r)" "plain key" "\<forall>n. alloc n"
    and "\<exists>c t. v = c # t \<and> \<not> is_space c"
    and "\<And>p. sees src p (v @ CHR '','' # r) \<Longrightarrow> pos < p \<Longrightarrow>
      \<exists>q. manifest_member alloc fp src key p m = Inr (m', q) \<and> sees src q (CHR '','' # r)"
  shows "\<exists>q. sees src q r \<and> manifest_loop (Suc n) alloc fp src pos m = manifest_loop n alloc fp src q m'"
proof -
  obtain q where q: "sees src q (CHR '','' # r)"
    "manifest_loop (Suc n) alloc fp src pos m = (let q' = kc_ipa_json_skip_ws src q
       in if peek src q' (CHR '','') then manifest_loop n alloc fp src (q' + 1) m'
          else sum_bind (kc_ipa_json_expect src q' (CHR ''}'')) (\<lambda>r. Inr (m', r)))"
    unfolding manifest_loop.simps
    using printed_member [OF assms(1-4), of "\<lambda>key p. manifest_member alloc fp src key p m" m', OF assms(5)] by blast
  with sees_comma [OF q(1)] show ?thesis by auto
qed

lemma manifest_member_close:
  assumes "sees src pos (quoted key @ CHR '':'' # v @ CHR ''}'' # r)" "plain key" "\<forall>n. alloc n"
    and "\<exists>c t. v = c # t \<and> \<not> is_space c"
    and "\<And>p. sees src p (v @ CHR ''}'' # r) \<Longrightarrow> pos < p \<Longrightarrow>
      \<exists>q. manifest_member alloc fp src key p m = Inr (m', q) \<and> sees src q (CHR ''}'' # r)"
  shows "\<exists>q. sees src q r \<and> manifest_loop (Suc n) alloc fp src pos m = Inr (m', q)"
proof -
  obtain q where q: "sees src q (CHR ''}'' # r)"
    "manifest_loop (Suc n) alloc fp src pos m = (let q' = kc_ipa_json_skip_ws src q
       in if peek src q' (CHR '','') then manifest_loop n alloc fp src (q' + 1) m'
          else sum_bind (kc_ipa_json_expect src q' (CHR ''}'')) (\<lambda>r. Inr (m', r)))"
    unfolding manifest_loop.simps
    using printed_member [OF assms(1-4), of "\<lambda>key p. manifest_member alloc fp src key p m" m', OF assms(5)] by blast
  with sees_close [OF q(1)] show ?thesis by auto
qed

text \<open>A manifest with its defaults, all strings present and printable.\<close>

definition brief_printable :: "kc_ipa_manifest_t \<Rightarrow> bool" where
  "brief_printable m \<longleftrightarrow>
     (\<exists>s i v w. m_schema m = Some s \<and> m_id m = Some i \<and> m_vendor m = Some v \<and> m_version m = Some w \<and>
        plain s \<and> plain i \<and> plain v \<and> plain w) \<and>
     m_node_threshold m = m_node_threshold default_manifest \<and> m_min_ngram m = 1 \<and> m_max_ngram m = 5 \<and>
     (\<forall>nd \<in> set (m_nodes m). printable_node nd)"

lemma printed_nodes_member:
  assumes "sees src p (show_nodes nds @ r)" "\<forall>nd \<in> set nds. printable_node nd" "\<forall>n. alloc n"
  shows "\<exists>q. manifest_member alloc fp src ''nodes'' p m = Inr (m\<lparr>m_nodes := nds\<rparr>, q) \<and> sees src q r"
proof -
  have "\<exists>q. kc_ipa_parse_node_array (json_fuel src) (kc_ipa_parse_node (json_fuel src) alloc fp src) alloc src p =
      Inr (nds, q) \<and> sees src q r"
    by (rule node_array_printed [OF assms(1,3)], rule parse_node_printed)
      (use assms(2,3) in \<open>auto simp: json_fuel_def\<close>)
  then show ?thesis by (auto simp: manifest_member_def)
qed

lemma manifest_loop_printed:
  assumes s: "sees src pos (quoted ''schema'' @ CHR '':'' # quoted sc @
     CHR '','' # quoted ''id'' @ CHR '':'' # quoted i @
     CHR '','' # quoted ''vendor'' @ CHR '':'' # quoted v @
     CHR '','' # quoted ''version'' @ CHR '':'' # quoted w @
     CHR '','' # quoted ''nodes'' @ CHR '':'' # show_nodes nds @ CHR ''}'' # r)"
    and pl: "plain sc" "plain i" "plain v" "plain w" "\<forall>nd \<in> set nds. printable_node nd" and mem: "\<forall>n. alloc n"
  shows "\<exists>q. manifest_loop (Suc (Suc (Suc (Suc (Suc n))))) alloc fp src pos m =
      Inr (m\<lparr>m_schema := Some sc, m_id := Some i, m_vendor := Some v, m_version := Some w, m_nodes := nds\<rparr>, q) \<and>
      sees src q r"
proof -
  note str = parse_printed_string [OF _ _ mem]
  let ?r4 = "quoted ''nodes'' @ CHR '':'' # show_nodes nds @ CHR ''}'' # r"
  let ?r3 = "quoted ''version'' @ CHR '':'' # quoted w @ CHR '','' # ?r4"
  let ?r2 = "quoted ''vendor'' @ CHR '':'' # quoted v @ CHR '','' # ?r3"
  let ?r1 = "quoted ''id'' @ CHR '':'' # quoted i @ CHR '','' # ?r2"
  let ?m1 = "m\<lparr>m_schema := Some sc\<rparr>"
  let ?m2 = "?m1\<lparr>m_id := Some i\<rparr>"
  let ?m3 = "?m2\<lparr>m_vendor := Some v\<rparr>"
  let ?m4 = "?m3\<lparr>m_version := Some w\<rparr>"
  have 1: "\<exists>q. manifest_member alloc fp src ''schema'' p m = Inr (?m1, q) \<and> sees src q t" if "sees src p (quoted sc @ t)" for p t
    using str [OF that pl(1)] by (auto simp: manifest_member_def)
  obtain q1 where q1: "sees src q1 ?r1" "manifest_loop (Suc (Suc (Suc (Suc (Suc n))))) alloc fp src pos m =
      manifest_loop (Suc (Suc (Suc (Suc n)))) alloc fp src q1 ?m1"
    using manifest_member_comma [OF s _ mem printed_head(1) 1, of "Suc (Suc (Suc (Suc n)))"] by auto
  have 2: "\<exists>q. manifest_member alloc fp src ''id'' p ?m1 = Inr (?m2, q) \<and> sees src q t" if "sees src p (quoted i @ t)" for p t
    using str [OF that pl(2)] by (auto simp: manifest_member_def)
  obtain q2 where q2: "sees src q2 ?r2" "manifest_loop (Suc (Suc (Suc (Suc n)))) alloc fp src q1 ?m1 =
      manifest_loop (Suc (Suc (Suc n))) alloc fp src q2 ?m2"
    using manifest_member_comma [OF q1(1) _ mem printed_head(1) 2, of "Suc (Suc (Suc n))"] by auto
  have 3: "\<exists>q. manifest_member alloc fp src ''vendor'' p ?m2 = Inr (?m3, q) \<and> sees src q t" if "sees src p (quoted v @ t)" for p t
    using str [OF that pl(3)] by (auto simp: manifest_member_def)
  obtain q3 where q3: "sees src q3 ?r3" "manifest_loop (Suc (Suc (Suc n))) alloc fp src q2 ?m2 =
      manifest_loop (Suc (Suc n)) alloc fp src q3 ?m3"
    using manifest_member_comma [OF q2(1) _ mem printed_head(1) 3, of "Suc (Suc n)"] by auto
  have 4: "\<exists>q. manifest_member alloc fp src ''version'' p ?m3 = Inr (?m4, q) \<and> sees src q t" if "sees src p (quoted w @ t)" for p t
    using str [OF that pl(4)] by (auto simp: manifest_member_def)
  obtain q4 where q4: "sees src q4 ?r4" "manifest_loop (Suc (Suc n)) alloc fp src q3 ?m3 =
      manifest_loop (Suc n) alloc fp src q4 ?m4"
    using manifest_member_comma [OF q3(1) _ mem printed_head(1) 4, of "Suc n"] by auto
  obtain q5 where "sees src q5 r" "manifest_loop (Suc n) alloc fp src q4 ?m4 = Inr (?m4\<lparr>m_nodes := nds\<rparr>, q5)"
    using manifest_member_close [OF q4(1) _ mem printed_head(4) printed_nodes_member [OF _ pl(5) mem], of n] by auto
  with q1 q2 q3 q4 show ?thesis by auto
qed

lemma parse_brief_manifest:
  assumes "brief_printable m" "\<forall>n. alloc n"
  shows "kc_ipa_parse_manifest alloc fp (brief_manifest m) 0 = Inr (m, length (brief_manifest m))"
proof -
  obtain sc i v w where f: "m_schema m = Some sc" "m_id m = Some i" "m_vendor m = Some v" "m_version m = Some w"
      "plain sc" "plain i" "plain v" "plain w" "m_node_threshold m = m_node_threshold default_manifest"
      "m_min_ngram m = 1" "m_max_ngram m = 5" "\<forall>nd \<in> set (m_nodes m). printable_node nd"
    using assms(1) unfolding brief_printable_def by blast
  let ?src = "brief_manifest m"
  let ?mem = "quoted ''schema'' @ CHR '':'' # quoted sc @
     CHR '','' # quoted ''id'' @ CHR '':'' # quoted i @
     CHR '','' # quoted ''vendor'' @ CHR '':'' # quoted v @
     CHR '','' # quoted ''version'' @ CHR '':'' # quoted w @
     CHR '','' # quoted ''nodes'' @ CHR '':'' # show_nodes (m_nodes m) @ CHR ''}'' # []"
  have s0: "sees ?src 0 (CHR ''{'' # ?mem)" by (simp add: sees_def brief_manifest_def f)
  note e = sees_expect [OF s0] sees_Cons [OF s0]
  have s1: "sees ?src (Suc 0) ?mem" using e by blast
  obtain t where t: "sees ?src (Suc 0) (CHR 0x22 # t)" using s1 quoted_head [of "''schema''"] by auto
  obtain k where k: "json_fuel ?src = Suc (Suc (Suc (Suc (Suc k))))"
    using sees_length [OF s1] by (auto simp: json_fuel_def json_print_string_def intro: that [of "length ?src - 4"])
  let ?m = "default_manifest\<lparr>m_schema := Some sc, m_id := Some i, m_vendor := Some v, m_version := Some w, m_nodes := m_nodes m\<rparr>"
  obtain q where q: "manifest_loop (json_fuel ?src) alloc fp ?src (Suc 0) default_manifest = Inr (?m, q)" "sees ?src q []"
    using manifest_loop_printed [OF s1 f(5-8,12) assms(2), of k fp default_manifest] unfolding k by blast
  have "q = length ?src" using sees_length [OF q(2)] by simp
  moreover have "?m = m" using f by (cases m) (simp add: default_manifest_def)
  ultimately show ?thesis
    using e q(1) sees_ws [OF t] sees_peek [OF t] by (simp add: kc_ipa_parse_manifest_def)
qed

subsection \<open>A small manifest\<close>

definition sample_manifest :: kc_ipa_manifest_t where
  "sample_manifest = default_manifest\<lparr>m_schema := Some ''ipa.map.v1'', m_id := Some ''a'', m_vendor := Some ''b'',
     m_version := Some ''1'', m_nodes := [NodeDef (Some ''n'') [''turn on''] [\<lparr>ed_key = ''k'', ed_value = ''$raw''\<rparr>]
       [NodeDef (Some ''c'') [''light''] [] []]]\<rparr>"

lemma sample_printable: "brief_printable sample_manifest"
  by (simp add: brief_printable_def sample_manifest_def default_manifest_def plain_def)

text \<open>The string printer and the string parser agree on printable text, and only the missing
  decoding of \<open>\u\<close> escapes stands between them and full JSON: the printer writes a control character
  without a short escape as \<open>\u00xx\<close>, and the parser reads that back as the five characters
  \<open>u00xx\<close>.\<close>

lemma printed_string_read_back:
  assumes "\<forall>n. alloc n"
  shows "(plain t \<longrightarrow> kc_ipa_json_parse_string alloc (json_print_string (Some t)) 0 =
            Inr (t, length (json_print_string (Some t)))) \<and>
    kc_ipa_json_parse_string alloc (json_print_string (Some [CHR 0x01])) 0 = Inr (''u0001'', 8)"
proof -
  have "kc_ipa_json_parse_string alloc (quoted t) 0 = Inr (t, length (quoted t))" if "plain t"
  proof -
    have "sees (quoted t) 0 (quoted t @ [])" by (simp add: sees_def)
    from parse_printed_string [OF this that assms] show ?thesis by (auto dest: sees_length)
  qed
  moreover have "kc_ipa_json_parse_string alloc [CHR 0x22, CHR 0x5C, CHR ''u'', CHR ''0'', CHR ''0'', CHR ''0'', CHR ''1'', CHR 0x22] 0 =
      Inr (''u0001'', 8)"
    using assms by (simp add: kc_ipa_json_parse_string_def kc_ipa_json_skip_ws_def scan_while_closed
        string_loop.simps unescape_def c_str_def is_space_def)
  moreover have "json_print_string (Some [CHR 0x01]) =
      [CHR 0x22, CHR 0x5C, CHR ''u'', CHR ''0'', CHR ''0'', CHR ''0'', CHR ''1'', CHR 0x22]"
    by (simp add: json_print_string_def escape_char_def u_escape_def hex_digit_def) code_simp
  ultimately show ?thesis by simp
qed

end
