(* ===== verification/Loader.thy ===== *)
theory Loader
  imports Runtime Clean Json_Print
begin

section \<open>From the compiled file back to the schema\<close>

text \<open>
  What \<open>kc_ipa_open\<close> makes of a file that \<open>kc_ipa_build\<close> wrote: the header, the string table, the
  embeddings and the rows are read back as they were written, and the indexes hold exactly the
  vectors of the manifest's descriptions under the names of their nodes.
\<close>

subsection \<open>Reading back words\<close>

lemma nth_concat_uniform:
  "\<forall>c \<in> set cs. length c = n \<Longrightarrow> k < length cs \<Longrightarrow> j < n \<Longrightarrow> concat cs ! (k * n + j) = cs ! k ! j"
proof (induction cs arbitrary: k)
  case (Cons c cs)
  then show ?case by (cases k) (auto simp: nth_append)
qed simp

lemma length_concat_uniform: "\<forall>c \<in> set cs. length c = n \<Longrightarrow> length (concat cs) = length cs * n"
  by (induction cs) auto

lemma chunk_at:
  assumes "\<forall>c \<in> set cs. length c = n" "k < length cs"
  shows "words_at (pre @ le32s (concat cs) @ post) (length pre + k * (4 * n)) n = cs ! k"
proof (rule nth_equalityI)
  have c: "length (cs ! k) = n" using assms by simp
  then show "length (words_at (pre @ le32s (concat cs) @ post) (length pre + k * (4 * n)) n) = length (cs ! k)"
    by (simp add: words_at_def)
  fix j assume "j < length (words_at (pre @ le32s (concat cs) @ post) (length pre + k * (4 * n)) n)"
  then have j: "j < n" by (simp add: words_at_def)
  have "k * n + j < length cs * n"
  proof -
    have "k * n + j < Suc k * n" using j by simp
    also have "\<dots> \<le> length cs * n" using assms(2) by (intro mult_le_mono1) simp
    finally show ?thesis .
  qed
  then have "k * n + j < length (concat cs)" by (simp add: length_concat_uniform [OF assms(1)])
  from word_at_le32s [OF this, of pre post]
  have "word_at (pre @ le32s (concat cs) @ post) (length pre + k * (4 * n) + 4 * j) = concat cs ! (k * n + j)"
    by (simp add: algebra_simps)
  with nth_concat_uniform [OF assms j] j
  show "words_at (pre @ le32s (concat cs) @ post) (length pre + k * (4 * n)) n ! j = cs ! k ! j"
    by (simp add: words_at_def)
qed

lemma words_at_nth: "words_at mem off n = ws \<Longrightarrow> j < n \<Longrightarrow> word_at mem (off + 4 * j) = ws ! j"
  by (auto simp: words_at_def)

lemma ref_at_words: "words_at mem off n = ref_words r @ ws \<Longrightarrow> 2 \<le> n \<Longrightarrow> ref_at mem off = r"
  using words_at_nth [of mem off n _ 0] words_at_nth [of mem off n _ 1] by (simp add: ref_at_def ref_words_def)

lemma file_hdr_at_bytes:
  assumes "length (h_magic h) = 4"
  shows "file_hdr_at (hdr_bytes h @ rest) = h"
proof -
  have w: "word_at (hdr_bytes h @ rest) (4 + 4 * k) = hdr_words h ! k" if "k < 22" for k
    using word_at_le32s [of k "hdr_words h" "h_magic h" rest] that assms
    by (simp add: hdr_bytes_def hdr_words_def ref_words_def)
  have "take 4 (hdr_bytes h @ rest) = h_magic h" using assms by (simp add: hdr_bytes_def)
  then show ?thesis
    using w [of 0] w [of 1] w [of 2] w [of 3] w [of 4] w [of 5] w [of 6] w [of 7] w [of 8] w [of 9] w [of 10]
      w [of 11] w [of 12] w [of 13] w [of 14] w [of 15] w [of 16] w [of 17] w [of 18] w [of 19] w [of 20] w [of 21]
    by (simp add: file_hdr_at_def ref_at_def hdr_words_def ref_words_def)
qed

lemma node_meta_at_words: "words_at mem off 7 = node_meta_words r \<Longrightarrow> node_meta_at mem off = r"
  using words_at_nth [of mem off 7 "node_meta_words r" 0] words_at_nth [of mem off 7 "node_meta_words r" 1]
    words_at_nth [of mem off 7 "node_meta_words r" 2] words_at_nth [of mem off 7 "node_meta_words r" 3]
    words_at_nth [of mem off 7 "node_meta_words r" 4] words_at_nth [of mem off 7 "node_meta_words r" 5]
    words_at_nth [of mem off 7 "node_meta_words r" 6]
  by (simp add: node_meta_at_def ref_at_def node_meta_words_def ref_words_def add.assoc)

lemma child_meta_at_words: "words_at mem off 8 = child_meta_words r \<Longrightarrow> child_meta_at mem off = r"
  using words_at_nth [of mem off 8 "child_meta_words r" 0] words_at_nth [of mem off 8 "child_meta_words r" 1]
    words_at_nth [of mem off 8 "child_meta_words r" 2] words_at_nth [of mem off 8 "child_meta_words r" 3]
    words_at_nth [of mem off 8 "child_meta_words r" 4] words_at_nth [of mem off 8 "child_meta_words r" 5]
    words_at_nth [of mem off 8 "child_meta_words r" 6] words_at_nth [of mem off 8 "child_meta_words r" 7]
  by (simp add: child_meta_at_def ref_at_def child_meta_words_def ref_words_def add.assoc)

lemma row_table_words: "row_table words rows = le32s (concat (map words rows))"
  by (induction rows) (simp_all add: row_table_def le32s_append)

lemma emb_table_words:
  "emb_table em rs es = le32s (concat (map2 (\<lambda>r d. ref_words r @ the (em_exec em d)) rs (map snd es)))"
proof -
  have "concat (map2 (emb_bytes em) xs ys) = le32s (concat (map2 (\<lambda>r d. ref_words r @ the (em_exec em d)) xs ys))" for xs ys
  proof (induction xs arbitrary: ys)
    case (Cons x xs)
    then show ?case by (cases ys) (simp_all add: le32s_append emb_bytes_def)
  qed simp
  then show ?thesis by (simp add: emb_table_def)
qed

subsection \<open>Strings of the table in the file\<close>

lemma string_at_bound: "string_at mem off = Some s \<Longrightarrow> off + length s < length mem"
proof -
  assume "string_at mem off = Some s"
  then have n: "NUL \<in> set (drop off mem)" and s: "s = takeWhile (\<lambda>c. c \<noteq> NUL) (drop off mem)"
    by (auto simp: string_at_def c_str_def split: if_splits)
  have "length s \<noteq> length (drop off mem)" using n s takeWhile_eq_all_conv [of "\<lambda>c. c \<noteq> NUL" "drop off mem"]
    by (metis append_same_eq append_self_conv length_0_conv length_append nat_add_left_cancel_le order_refl takeWhile_dropWhile_id add_cancel_right_right)
  moreover have "length s \<le> length (drop off mem)" unfolding s by (rule length_takeWhile_le)
  ultimately have "length s < length (drop off mem)" by simp
  then show ?thesis by simp
qed

lemma string_in_file:
  assumes "ref_ok st r s" "strtab_fits st" "length pre = 92"
  shows "string_at (pre @ st_data st @ post) (92 + unat (ref_off r)) = Some s"
    "unat (ref_off r) + unat (ref_len r) + 1 \<le> st_size st" "unat (ref_len r) = length s"
proof -
  have l: "string_at (st_data st) (unat (ref_off r)) = Some s" and n: "ref_len r = of_nat (length s)"
    using assms(1) by (auto simp: ref_ok_def strtab_look_def)
  from string_at_mono [OF l] string_at_shift [of pre "st_data st @ post" "unat (ref_off r)"] assms(3)
  show "string_at (pre @ st_data st @ post) (92 + unat (ref_off r)) = Some s" by simp
  have b: "unat (ref_off r) + length s < st_size st" by (rule string_at_bound [OF l])
  with assms(2) have "length s < 2 ^ 32" by (simp add: strtab_fits_def)
  with n show "unat (ref_len r) = length s" by (simp only: unat_of_nat_u32)
  with b show "unat (ref_off r) + unat (ref_len r) + 1 \<le> st_size st" by simp
qed


subsection \<open>Filling an index\<close>

lemma yields_upt:
  assumes "\<And>i s. i < n \<Longrightarrow> I i s \<Longrightarrow> yields E (I (Suc i)) (f i s)" and "I 0 s"
  shows "yields E (I n) (fold_res f [0..<n] s)"
  using assms
proof (induction n)
  case (Suc n)
  have "yields E (I n) (fold_res f [0..<n] s)" using Suc by simp
  moreover have "\<And>t. I n t \<Longrightarrow> yields E (I (Suc n)) (fold_res f [n] t)"
  proof -
    fix t assume "I n t"
    with Suc.prems(1) [of n t] have "yields E (I (Suc n)) (f n t)" by simp
    then show "yields E (I (Suc n)) (fold_res f [n] t)" by (cases "f n t") auto
  qed
  ultimately have "yields E (I (Suc n)) (sum_bind (fold_res f [0..<n] s) (fold_res f [n]))" by (rule yields_bind)
  then show ?case by (simp add: fold_res_append del: fold_res.simps)
qed simp

text \<open>How loading the entries \<open>es\<close> may end early: for want of memory, or because the index refuses an entry
  without a name.\<close>

definition all_named :: "(string \<times> 'v) list \<Rightarrow> bool" where
  "all_named es \<longleftrightarrow> (\<forall>e \<in> set es. fst e \<noteq> [])"

lemma all_named_append [simp]: "all_named (xs @ ys) \<longleftrightarrow> all_named xs \<and> all_named ys"
  by (auto simp: all_named_def)

definition gives_up :: "allocator \<Rightarrow> (string \<times> 'v) list \<Rightarrow> load_stop set" where
  "gives_up alloc es = (if never_fails alloc \<and> all_named es then {} else {Gives_Up})"

definition same_frame :: "kc_hnsw \<Rightarrow> kc_hnsw \<Rightarrow> bool" where
  "same_frame h h' \<longleftrightarrow> hn_dimension h' = hn_dimension h \<and> hn_metric h' = hn_metric h \<and>
     hn_ef_search h' = hn_ef_search h \<and> hn_ef_construction h' = hn_ef_construction h"

lemma add_locked_spec:
  assumes "array_ok h" "add_locked alloc rnd h n v = (rc, h')"
  shows "(rc = KC_HNSW_OK \<and> hn_items h' = hn_items h @ [new_item rnd (hn_dimension h) n v] \<and> array_ok h' \<and> same_frame h h')
    \<or> (rc = KC_HNSW_ENOMEM \<and> \<not> never_fails alloc)"
proof -
  obtain rc1 h1 where g: "(if hn_count h = hn_capacity h
      then kc_hnsw_reserve_locked alloc h (if hn_capacity h = 0 then 8 else hn_capacity h * 2)
      else (KC_HNSW_OK, h)) = (rc1, h1)" by fastforce
  note room = grow_room [OF assms(1) g]
  have f: "same_frame h h1" "rc1 \<noteq> KC_HNSW_OK \<Longrightarrow> \<not> never_fails alloc"
    using g by (auto simp: kc_hnsw_reserve_locked_def same_frame_def split: if_splits)
  from assms(2) room f show ?thesis
    unfolding add_locked_def g Let_def prod.case
    by (auto simp: kc_hnsw_strdup_def array_ok_def same_frame_def split: if_splits option.splits)
qed

text \<open>The index that holds the named vectors \<open>es\<close>, not yet built.\<close>

definition holds :: "(real \<Rightarrow> real) \<Rightarrow> (string \<times> u32 list) list \<Rightarrow> kc_hnsw \<Rightarrow> bool" where
  "holds rnd es h \<longleftrightarrow> array_ok h \<and>
     hn_items h = map (\<lambda>(n, v). new_item rnd (hn_dimension h) n (map f32_real v)) es"

text \<open>The place of a table of embeddings in a file: \<open>labels\<close> resolve to the names and the words of an
  entry are its vector.\<close>

definition emb_place :: "string \<Rightarrow> nat \<Rightarrow> u32 \<Rightarrow> u32 \<Rightarrow> (string \<times> u32 list) list \<Rightarrow> bool" where
  "emb_place mem strtab off edim es \<longleftrightarrow> unat off + length es * emb_stride edim \<le> length mem \<and> length mem < 2 ^ 32 \<and>
     (\<forall>k < length es. case es ! k of (n, v) \<Rightarrow>
        (let eo = unat off + k * emb_stride edim; r = ref_at mem eo
         in unat (ref_off r) + unat (ref_len r) + 1 \<le> length mem \<and> string_at mem (strtab + unat (ref_off r)) = Some n \<and>
            words_at mem (eo + sizeof_emb_hdr) (unat edim) = v))"

lemma load_entry_ok:
  assumes p: "emb_place mem strtab off edim es" and k: "k < length es" and lk: "ho_rwlock ho"
    and i: "holds (ho_rnd ho) (take k es) h"
  shows "yields (gives_up (ho_alloc ho) es) (\<lambda>h'. holds (ho_rnd ho) (take (Suc k) es) h' \<and> same_frame h h' \<and> fst (es ! k) \<noteq> [])
    (load_entry_at ho mem off edim strtab k h)"
proof -
  obtain n v where e: "es ! k = (n, v)" by fastforce
  let ?eo = "unat off + k * emb_stride edim"
  let ?r = "ref_at mem ?eo"
  have q: "unat (ref_off ?r) + unat (ref_len ?r) + 1 \<le> length mem" "string_at mem (strtab + unat (ref_off ?r)) = Some n"
      "words_at mem (?eo + 8) (unat edim) = v" and len: "length mem < 2 ^ 32"
    using p k e by (auto simp: emb_place_def Let_def)
  have "?eo + emb_stride edim = unat off + Suc k * emb_stride edim" by simp
  also have "\<dots> \<le> unat off + length es * emb_stride edim" using k by (intro add_left_mono mult_le_mono1) simp
  also have "\<dots> \<le> length mem" using p by (simp add: emb_place_def)
  finally have eo: "?eo + emb_stride edim \<le> length mem" .
  then have eo': "?eo mod 2 ^ 64 = ?eo" "unat (of_nat ?eo :: u32) = ?eo"
    using len unat_of_nat_u32 [of ?eo] by simp_all
  have b: "kc_ipa_bounds_ok (length mem) (of_nat ?eo) (emb_stride edim)"
      "kc_ipa_bounds_ok (length mem) (ref_off ?r) (unat (ref_len ?r) + 1)"
    using eo eo' q(1) len by (simp_all add: kc_ipa_bounds_ok_def)
  show ?thesis
  proof (cases "n = []")
    case True
    then have "load_entry_at ho mem off edim strtab k h = Inl Gives_Up"
      using eo eo' b q by (simp add: load_entry_at_def Let_def kc_hnsw_add_def)
    moreover have "\<not> all_named es" using True e k unfolding all_named_def by (metis fst_conv nth_mem)
    ultimately show ?thesis by (simp add: gives_up_def)
  next
    case False
    obtain rc h' where a: "add_locked (ho_alloc ho) (ho_rnd ho) h n (map f32_real v) = (rc, h')" by fastforce
    have l: "load_entry_at ho mem off edim strtab k h =
        (if rc = OUT_OF_BOUNDS then Inl Fault else if rc \<noteq> KC_HNSW_OK then Inl Gives_Up else Inr h')"
      using eo eo' b q lk a False by (simp add: load_entry_at_def Let_def kc_hnsw_add_def)
    have t: "take (Suc k) es = take k es @ [(n, v)]" using k e by (simp add: take_Suc_conv_app_nth)
    from add_locked_spec [OF _ a] i False show ?thesis
      unfolding l by (auto simp: holds_def gives_up_def t same_frame_def e)
  qed
qed


text \<open>A loaded index over the named vectors \<open>es\<close>.\<close>

definition indexes :: "host \<Rightarrow> u32 \<Rightarrow> (string \<times> u32 list) list \<Rightarrow> kc_hnsw \<Rightarrow> bool" where
  "indexes ho edim es h \<longleftrightarrow> built h \<and> named_items h \<and> hn_dimension h = unat edim \<and> hn_metric h = KC_HNSW_METRIC_COSINE \<and>
     hn_ef_search h < 2 ^ 31 \<and>
     mset (map payload (hn_items h)) = mset (map (\<lambda>(n, v). payload (new_item (ho_rnd ho) (unat edim) n (map f32_real v))) es)"

definition locks_ok :: "host \<Rightarrow> bool" where
  "locks_ok ho \<longleftrightarrow> ho_mutex_init ho \<and> ho_rwlock_init ho \<and> ho_rwlock ho"

lemma hnsw_open_spec:
  assumes "d \<noteq> 0"
  shows "(\<exists>h. kc_hnsw_open alloc env True now addr d KC_HNSW_METRIC_COSINE = Some h \<and> holds rnd [] h \<and> hn_dimension h = d \<and>
      hn_metric h = KC_HNSW_METRIC_COSINE \<and> hn_ef_search h < 2 ^ 31 \<and> 1 \<le> to_size (hn_ef_construction h))
    \<or> (kc_hnsw_open alloc env True now addr d KC_HNSW_METRIC_COSINE = None \<and> \<not> never_fails alloc)"
proof -
  have "atoi t < 2 ^ 31" for t using to_int_range by (simp add: atoi_def)
  then have "hn_ef_search h < 2 ^ 31" if "kc_hnsw_open alloc env True now addr d KC_HNSW_METRIC_COSINE = Some h" for h
    using that by (auto simp: kc_hnsw_open_def Let_def split: if_splits option.splits)
  moreover have "alloc 144 \<Longrightarrow> \<exists>h. kc_hnsw_open alloc env True now addr d KC_HNSW_METRIC_COSINE = Some h"
    "\<not> alloc 144 \<Longrightarrow> kc_hnsw_open alloc env True now addr d KC_HNSW_METRIC_COSINE = None"
    using assms by (simp_all add: kc_hnsw_open_def kc_hnsw_metric_valid_def Let_def)
  moreover have "holds rnd [] h \<and> hn_dimension h = d \<and> hn_metric h = KC_HNSW_METRIC_COSINE \<and> 1 \<le> to_size (hn_ef_construction h)"
    if "kc_hnsw_open alloc env True now addr d KC_HNSW_METRIC_COSINE = Some h" for h
    using that by (auto simp: kc_hnsw_open_def holds_def array_ok_def to_size_def Let_def split: if_splits)
  ultimately show ?thesis by blast
qed

lemma reserve_holds:
  assumes "holds rnd [] h" "kc_hnsw_reserve_locked alloc h c = (rc, h')"
  shows "(rc = KC_HNSW_OK \<and> holds rnd [] h' \<and> same_frame h h') \<or> (rc = KC_HNSW_ENOMEM \<and> \<not> never_fails alloc)"
  using assms by (auto simp: kc_hnsw_reserve_locked_def holds_def array_ok_def same_frame_def split: if_splits)

lemma build_indexes:
  assumes h: "holds (ho_rnd ho) es h" "es \<noteq> []" "hn_dimension h = unat edim" "hn_metric h = KC_HNSW_METRIC_COSINE"
      "hn_ef_search h < 2 ^ 31" "1 \<le> to_size (hn_ef_construction h)"
    and b: "build_locked alloc (ho_rnd ho) h = (rc, h')"
  shows "(rc = KC_HNSW_OK \<and> indexes ho edim es h') \<or> (rc = KC_HNSW_ENOMEM \<and> \<not> never_fails alloc)"
proof -
  have "hn_count h \<noteq> 0" using h(1,2) by (simp add: holds_def)
  from build_locked_ok [OF this h(6) b] consider
      (ok) "rc = KC_HNSW_OK" "built h'" "mset (map payload (hn_items h')) = mset (map payload (hn_items h))"
        "hn_dimension h' = hn_dimension h" "hn_metric h' = hn_metric h" "hn_ef_search h' = hn_ef_search h"
    | (oom) "rc \<in> oom alloc" by blast
  then show ?thesis
  proof cases
    case ok
    have m: "mset (map payload (hn_items h')) =
        mset (map (\<lambda>(n, v). payload (new_item (ho_rnd ho) (unat edim) n (map f32_real v))) es)"
      using ok(3) h(1,3) by (simp add: holds_def case_prod_unfold comp_def del: mset_map)
    have "fst (payload it) \<noteq> None" if it: "it \<in> set (hn_items h')" for it
    proof -
      have "payload it \<in> set (map payload (hn_items h'))" using it by simp
      also have "\<dots> = set (map (\<lambda>(n, v). payload (new_item (ho_rnd ho) (unat edim) n (map f32_real v))) es)"
        using m by (metis set_mset_mset)
      finally obtain n v where "payload it = payload (new_item (ho_rnd ho) (unat edim) n (map f32_real v))" by auto
      then show ?thesis by (simp add: payload_def new_item_def)
    qed
    then have "named_items h'" by (simp add: named_items_def payload_def)
    with ok m h show ?thesis by (simp add: indexes_def)
  next
    case oom
    then show ?thesis by (auto simp: oom_def split: if_splits)
  qed
qed

lemma load_index_ok:
  assumes p: "emb_place mem strtab off edim es" and n: "length es = unat cnt" "es \<noteq> []" and d: "edim \<noteq> 0" and lk: "locks_ok ho"
  shows "yields (gives_up (ho_alloc ho) es) (\<lambda>h. indexes ho edim es h \<and> all_named es) (load_index ho addr mem off cnt edim strtab)"
proof -
  let ?alloc = "ho_alloc ho"
  have lk': "ho_rwlock_init ho" "ho_rwlock ho" using lk by (auto simp: locks_ok_def)
  have d': "unat edim \<noteq> 0" using d by (simp add: unat_eq_0)
  have cnt: "cnt \<noteq> 0" using n by (auto simp: unat_eq_0)
  from hnsw_open_spec [OF d', of ?alloc "ho_hnsw_ef ho" "ho_time ho" addr "ho_rnd ho"] show ?thesis
  proof (elim disjE exE conjE)
    assume "kc_hnsw_open ?alloc (ho_hnsw_ef ho) True (ho_time ho) addr (unat edim) KC_HNSW_METRIC_COSINE = None" "\<not> never_fails ?alloc"
    then show ?thesis using lk' by (simp add: load_index_def gives_up_def)
  next
    fix h0 assume o: "kc_hnsw_open ?alloc (ho_hnsw_ef ho) True (ho_time ho) addr (unat edim) KC_HNSW_METRIC_COSINE = Some h0"
      "holds (ho_rnd ho) [] h0" "hn_dimension h0 = unat edim" "hn_metric h0 = KC_HNSW_METRIC_COSINE"
      "hn_ef_search h0 < 2 ^ 31" "1 \<le> to_size (hn_ef_construction h0)"
    obtain rc h1 where r: "kc_hnsw_reserve_locked ?alloc h0 (unat cnt) = (rc, h1)" by fastforce
    let ?fin = "\<lambda>h2. case kc_hnsw_build ?alloc (ho_rnd ho) True (Some h2) of
        (rc, Some h3) \<Rightarrow> if rc = OUT_OF_BOUNDS then Inl Fault else if rc \<noteq> KC_HNSW_OK then Inl Gives_Up else Inr h3
      | (_, None) \<Rightarrow> Inl Gives_Up"
    have l: "load_index ho addr mem off cnt edim strtab =
        (if rc \<noteq> KC_HNSW_OK then Inl Gives_Up
         else sum_bind (fold_res (load_entry_at ho mem off edim strtab) [0..<length es] h1) ?fin)"
      using o(1) lk' cnt r n by (simp add: load_index_def kc_hnsw_reserve_def)
    show ?thesis
    proof (cases "rc = KC_HNSW_OK")
      case False
      with reserve_holds [OF o(2) r] show ?thesis unfolding l by (auto simp: gives_up_def)
    next
      case True
      with reserve_holds [OF o(2) r] have h1: "holds (ho_rnd ho) [] h1" "same_frame h0 h1" by auto
      have "yields (gives_up ?alloc es) (\<lambda>h. holds (ho_rnd ho) (take (length es) es) h \<and> same_frame h0 h \<and> all_named (take (length es) es))
          (fold_res (load_entry_at ho mem off edim strtab) [0..<length es] h1)"
      proof (rule yields_upt [where I = "\<lambda>k h. holds (ho_rnd ho) (take k es) h \<and> same_frame h0 h \<and> all_named (take k es)"])
        fix k h assume k: "k < length es" and "holds (ho_rnd ho) (take k es) h \<and> same_frame h0 h \<and> all_named (take k es)"
        then show "yields (gives_up ?alloc es) (\<lambda>h. holds (ho_rnd ho) (take (Suc k) es) h \<and> same_frame h0 h \<and> all_named (take (Suc k) es))
            (load_entry_at ho mem off edim strtab k h)"
          by (intro yields_mono [OF load_entry_ok [OF p k lk'(2)]]) (auto simp: same_frame_def all_named_def take_Suc_conv_app_nth [OF k])
      qed (use h1 in \<open>simp add: all_named_def\<close>)
      then have "yields (gives_up ?alloc es) (\<lambda>h. indexes ho edim es h \<and> all_named es)
          (sum_bind (fold_res (load_entry_at ho mem off edim strtab) [0..<length es] h1) ?fin)"
      proof (rule yields_bind, elim conjE)
        fix h2 assume h2: "holds (ho_rnd ho) (take (length es) es) h2" "same_frame h0 h2" "all_named (take (length es) es)"
        obtain rc' h3 where b: "build_locked ?alloc (ho_rnd ho) h2 = (rc', h3)" by fastforce
        have "(rc' = KC_HNSW_OK \<and> indexes ho edim es h3) \<or> (rc' = KC_HNSW_ENOMEM \<and> \<not> never_fails ?alloc)"
          by (rule build_indexes [OF _ n(2) _ _ _ _ b]) (use h2 o in \<open>auto simp: same_frame_def\<close>)
        then show "yields (gives_up ?alloc es) (\<lambda>h. indexes ho edim es h \<and> all_named es) (?fin h2)"
          using b h2(3) by (auto simp: kc_hnsw_build_def gives_up_def)
      qed
      with True show ?thesis unfolding l by simp
    qed
  qed
qed


subsection \<open>The tables of a compiled file\<close>

lemma words_at_tail: "words_at mem off (2 + n) = a @ b \<Longrightarrow> length a = 2 \<Longrightarrow> words_at mem (off + 8) n = b"
proof (rule nth_equalityI)
  assume w: "words_at mem off (2 + n) = a @ b" and a: "length a = 2"
  from arg_cong [OF w, of length] a show l: "length (words_at mem (off + 8) n) = length b" by (simp add: words_at_def)
  fix j assume j: "j < length (words_at mem (off + 8) n)"
  then have "word_at mem (off + 4 * (2 + j)) = (a @ b) ! (2 + j)"
    by (intro words_at_nth [OF w]) (simp add: words_at_def)
  with j a show "words_at mem (off + 8) n ! j = b ! j" by (simp add: words_at_def nth_append add.assoc)
qed

text \<open>A file that starts with a header of 92 bytes and the string table.\<close>

definition with_strtab :: "string \<Rightarrow> kc_ipa_strtab_t \<Rightarrow> bool" where
  "with_strtab mem st \<longleftrightarrow> (\<exists>pre post. mem = pre @ st_data st @ post \<and> length pre = 92) \<and> length mem < 2 ^ 32"

lemma with_strtab_ref:
  assumes "with_strtab mem st" "ref_ok st r s"
  shows "string_at mem (92 + unat (ref_off r)) = Some s \<and> unat (ref_len r) = length s \<and>
    unat (ref_off r) + unat (ref_len r) + 1 \<le> length mem"
proof -
  obtain pre post where m: "mem = pre @ st_data st @ post" "length pre = 92" and f: "strtab_fits st"
    using assms(1) by (auto simp: with_strtab_def strtab_fits_def)
  from string_in_file(1) [OF assms(2) f m(2), of post] string_in_file(2,3) [OF assms(2) f m(2)] m show ?thesis by simp
qed

lemma emb_place_table:
  assumes st: "with_strtab mem st" and mem: "mem = pre @ emb_table em rs es @ post"
    and rs: "list_all2 (ref_ok st) rs (map fst es)"
    and vec: "\<forall>e \<in> set es. \<exists>v. em_exec em (snd e) = Some v \<and> length v = unat edim"
  shows "emb_place mem 92 (of_nat (length pre)) edim (map (\<lambda>(n, d). (n, the (em_exec em d))) es)"
    "length (emb_table em rs es) = length es * emb_stride edim"
proof -
  let ?cs = "map2 (\<lambda>r d. ref_words r @ the (em_exec em d)) rs (map snd es)"
  have len: "length rs = length es" using rs by (auto dest: list_all2_lengthD)
  have cs: "\<forall>c \<in> set ?cs. length c = 2 + unat edim"
  proof
    fix c assume "c \<in> set ?cs"
    then obtain r d where c: "c = ref_words r @ the (em_exec em d)" "(r, d) \<in> set (zip rs (map snd es))" by auto
    then have "d \<in> snd ` set es" by (metis in_set_zipE set_map)
    with vec c(1) show "length c = 2 + unat edim" by (auto simp: ref_words_def)
  qed
  have stride: "4 * (2 + unat edim) = emb_stride edim" by (simp add: emb_stride_def)
  have tab: "emb_table em rs es = le32s (concat ?cs)" by (rule emb_table_words)
  have "length (concat ?cs) = length es * (2 + unat edim)" using length_concat_uniform [OF cs] len by simp
  then show tl: "length (emb_table em rs es) = length es * emb_stride edim"
    by (simp add: tab) (simp add: emb_stride_def algebra_simps)
  have l32: "length mem < 2 ^ 32" using st by (simp add: with_strtab_def)
  have off: "unat (of_nat (length pre) :: u32) = length pre" using mem l32 by (intro unat_of_nat_u32) simp
  show "emb_place mem 92 (of_nat (length pre)) edim (map (\<lambda>(n, d). (n, the (em_exec em d))) es)"
    unfolding emb_place_def off
  proof (intro conjI allI impI)
    show "length pre + length (map (\<lambda>(n, d). (n, the (em_exec em d))) es) * emb_stride edim \<le> length mem"
      using mem tl by simp
    show "length mem < 2 ^ 32" by (rule l32)
    fix k assume "k < length (map (\<lambda>(n, d). (n, the (em_exec em d))) es)"
    then have k: "k < length es" by simp
    obtain n d where e: "es ! k = (n, d)" by fastforce
    have w: "words_at mem (length pre + k * emb_stride edim) (2 + unat edim) = ref_words (rs ! k) @ the (em_exec em d)"
      using chunk_at [OF cs, of k pre post] k len e mem unfolding tab stride by simp
    from ref_at_words [OF w] have r: "ref_at mem (length pre + k * emb_stride edim) = rs ! k" by simp
    have v: "words_at mem (length pre + k * emb_stride edim + 8) (unat edim) = the (em_exec em d)"
      using words_at_tail [OF w] by (simp add: ref_words_def)
    have "ref_ok st (rs ! k) n" using list_all2_nthD2 [OF rs, of k] k e by simp
    from with_strtab_ref [OF st this] v r
    show "case map (\<lambda>(n, d). (n, the (em_exec em d))) es ! k of (n, v) \<Rightarrow>
        (let eo = length pre + k * emb_stride edim; r = ref_at mem eo
         in unat (ref_off r) + unat (ref_len r) + 1 \<le> length mem \<and> string_at mem (92 + unat (ref_off r)) = Some n \<and>
            words_at mem (eo + 8) (unat edim) = v)"
      using k e vec nth_mem [OF k] by (auto simp: Let_def)
  qed
qed

lemma rows_read:
  assumes mem: "mem = pre @ row_table words rows @ post" and n: "\<And>r. length (words r) = n"
    and rd: "\<And>off r. words_at mem off n = words r \<Longrightarrow> rd mem off = r"
  shows "map (\<lambda>i. rd mem (length pre + i * (4 * n))) [0..<length rows] = rows"
    "length (row_table words rows) = length rows * (4 * n)"
proof -
  have u: "\<forall>c \<in> set (map words rows). length c = n" using n by simp
  show "length (row_table words rows) = length rows * (4 * n)"
    using length_concat_uniform [OF u] by (simp add: row_table_words)
  show "map (\<lambda>i. rd mem (length pre + i * (4 * n))) [0..<length rows] = rows"
  proof (rule nth_equalityI, simp)
    fix i assume "i < length (map (\<lambda>i. rd mem (length pre + i * (4 * n))) [0..<length rows])"
    then have i: "i < length rows" by simp
    have "words_at mem (length pre + i * (4 * n)) n = words (rows ! i)"
      using chunk_at [OF u, of i pre post] i by (simp add: mem row_table_words)
    from rd [OF this] i show "map (\<lambda>i. rd mem (length pre + i * (4 * n))) [0..<length rows] ! i = rows ! i" by simp
  qed
qed


subsection \<open>The schema a manifest stands for\<close>

definition file_ref_ok :: "string \<Rightarrow> nat \<Rightarrow> kc_ipa_str_ref_t \<Rightarrow> string \<Rightarrow> bool" where
  "file_ref_ok mem strtab r s \<longleftrightarrow> string_at mem (strtab + unat (ref_off r)) = Some s \<and> unat (ref_len r) = length s"

definition file_emit_ok :: "string \<Rightarrow> nat \<Rightarrow> kc_ipa_str_ref_t \<Rightarrow> kc_ipa_str_ref_t \<Rightarrow> kc_ipa_emit_def_t option \<Rightarrow> bool" where
  "file_emit_ok mem strtab k v eo =
     (case eo of None \<Rightarrow> ref_len k = 0
      | Some e \<Rightarrow> file_ref_ok mem strtab k (ed_key e) \<and> file_ref_ok mem strtab v (ed_value e))"

definition file_node_row_ok :: "string \<Rightarrow> nat \<Rightarrow> kc_ipa_node_meta_t \<Rightarrow> string \<times> kc_ipa_emit_def_t option \<times> bool \<Rightarrow> bool" where
  "file_node_row_ok mem strtab row x =
     (case x of (i, eo, hc) \<Rightarrow> file_ref_ok mem strtab (nm_node_id row) i \<and>
        file_emit_ok mem strtab (nm_emit_key row) (nm_emit_val row) eo \<and> (nm_has_children row \<noteq> 0 \<longleftrightarrow> hc))"

definition file_child_row_ok :: "string \<Rightarrow> nat \<Rightarrow> kc_ipa_child_meta_t \<Rightarrow> string \<times> string \<times> kc_ipa_emit_def_t option \<Rightarrow> bool" where
  "file_child_row_ok mem strtab row x =
     (case x of (p, i, eo) \<Rightarrow> file_ref_ok mem strtab (cm_parent_id row) p \<and> file_ref_ok mem strtab (cm_node_id row) i \<and>
        file_emit_ok mem strtab (cm_emit_key row) (cm_emit_val row) eo)"

definition vectors :: "embedder \<Rightarrow> (string \<times> string) list \<Rightarrow> (string \<times> u32 list) list" where
  "vectors em es = map (\<lambda>(n, d). (n, the (em_exec em d))) es"

definition schema_for :: "host \<Rightarrow> embedder \<Rightarrow> kc_ipa_manifest_t \<Rightarrow> kc_ipa_schema \<Rightarrow> bool" where
  "schema_for ho em m s \<longleftrightarrow>
     sc_node_threshold s = m_node_threshold m \<and> sc_min_ngram s = m_min_ngram m \<and> sc_max_ngram s = m_max_ngram m \<and>
     sc_emb s = Some em \<and> sc_emb_dim s = em_dim em \<and> embeds em m \<and>
     (\<exists>h. ix_node_hnsw (sc_index s) = Some h \<and> indexes ho (of_int (em_dim em)) (vectors em (node_entries (m_nodes m))) h) \<and>
     (if child_entries (m_nodes m) = [] then ix_child_hnsw (sc_index s) = None
      else \<exists>h. ix_child_hnsw (sc_index s) = Some h \<and>
             indexes ho (of_int (em_dim em)) (vectors em (child_entries (m_nodes m))) h) \<and>
     list_all2 (file_node_row_ok (sc_base s) (sc_strtab s)) (ix_node_meta (sc_index s)) (node_rows (m_nodes m)) \<and>
     list_all2 (file_child_row_ok (sc_base s) (sc_strtab s)) (ix_child_meta (sc_index s)) (child_rows (m_nodes m))"

text \<open>What the model promises and what a manifest must satisfy beyond its validation: the children's
  names are not checked there.\<close>

definition embedder_ok :: "embedder \<Rightarrow> bool" where
  "embedder_ok em \<longleftrightarrow> 0 < em_dim em \<and> em_dim em < 2 ^ 31 \<and> (\<forall>d v. em_exec em d = Some v \<longrightarrow> int (length v) = em_dim em)"

definition named :: "kc_ipa_manifest_t \<Rightarrow> bool" where
  "named m \<longleftrightarrow> all_named (node_entries (m_nodes m) @ child_entries (m_nodes m))"

lemma sint_of_int_u32: "x \<in> {- (2 ^ 31)..<2 ^ 31} \<Longrightarrow> sint (of_int x :: u32) = x"
  by (simp add: signed_of_int signed_take_bit_int_eq_self)

lemma unat_of_int_u32: "0 \<le> x \<Longrightarrow> x < 2 ^ 31 \<Longrightarrow> unat (of_int x :: u32) = nat x"
proof -
  assume "0 \<le> x" "x < 2 ^ 31"
  moreover from this obtain n where "x = int n" by (metis nonneg_int_cases)
  ultimately show ?thesis using unat_of_nat_u32 [of n] by simp
qed

lemma with_strtab_rows:
  assumes "with_strtab mem st"
  shows "node_row_ok st r x \<Longrightarrow> file_node_row_ok mem 92 r x" "child_row_ok st r' x' \<Longrightarrow> file_child_row_ok mem 92 r' x'"
  using with_strtab_ref [OF assms]
  by (auto simp: node_row_ok_def child_row_ok_def file_node_row_ok_def file_child_row_ok_def emit_ok_def file_emit_ok_def
      file_ref_ok_def split: option.splits if_splits)

text \<open>A compiled file in memory.\<close>

definition compiled :: "embedder \<Rightarrow> kc_ipa_manifest_t \<Rightarrow> image_parts \<Rightarrow> string \<Rightarrow> bool" where
  "compiled em m ip mem \<longleftrightarrow> mem = hdr_bytes (image_hdr em m ip) @ body em m ip \<and> parts_ok m ip \<and> embeds em m \<and>
     length mem < 2 ^ 32 \<and> embedder_ok em"

lemma compiled_parts:
  assumes "compiled em m ip mem"
  shows "with_strtab mem (ip_strtab ip)" "file_hdr_at mem = image_hdr em m ip" "header_ok mem"
    "unat (of_int (em_dim em) :: u32) = nat (em_dim em)"
proof -
  let ?h = "image_hdr em m ip"
  have mem: "mem = hdr_bytes ?h @ body em m ip" and l: "length mem < 2 ^ 32" using assms by (auto simp: compiled_def)
  have hl: "length (hdr_bytes ?h) = 92" by (simp add: hdr_bytes_length image_hdr_def Let_def)
  then show ws: "with_strtab mem (ip_strtab ip)" using l unfolding with_strtab_def mem body_def by blast
  show fh: "file_hdr_at mem = ?h" unfolding mem by (rule file_hdr_at_bytes) (simp add: image_hdr_def Let_def)
  have "92 + st_size (ip_strtab ip) \<le> length mem" using hl by (simp add: mem body_def)
  moreover from this l have "unat (of_nat (st_size (ip_strtab ip)) :: u32) = st_size (ip_strtab ip)"
    by (intro unat_of_nat_u32) simp
  ultimately show "header_ok mem"
    using l hl unfolding header_ok_def fh Let_def
    by (simp add: image_hdr_def Let_def mem kc_ipa_bounds_ok_def)
  have "0 < em_dim em" "em_dim em < 2 ^ 31" using assms by (auto simp: compiled_def embedder_ok_def)
  then show "unat (of_int (em_dim em) :: u32) = nat (em_dim em)"
    by (simp add: unat_of_int_u32)
qed


lemma compiled_tables:
  assumes c: "compiled em m ip mem"
  shows "emb_place mem 92 (h_node_emb_off (image_hdr em m ip)) (of_int (em_dim em)) (vectors em (node_entries (m_nodes m)))"
    "emb_place mem 92 (h_child_emb_off (image_hdr em m ip)) (of_int (em_dim em)) (vectors em (child_entries (m_nodes m)))"
    "load_node_meta mem (image_hdr em m ip) = Inr (ip_node_rows ip)"
    "load_child_meta mem (image_hdr em m ip) = Inr (ip_child_rows ip)"
proof -
  let ?h = "image_hdr em m ip" and ?hb = "hdr_bytes (image_hdr em m ip)"
  let ?n = "node_embs em m ip" and ?c = "child_embs em m ip"
  let ?rn = "row_table node_meta_words (ip_node_rows ip)" and ?rc = "row_table child_meta_words (ip_child_rows ip)"
  let ?s = "st_data (ip_strtab ip)"
  note ws = compiled_parts(1) [OF c] and edim = compiled_parts(4) [OF c]
  have l: "length mem < 2 ^ 32" and pok: "parts_ok m ip" using c by (auto simp: compiled_def)
  have hl: "length ?hb = 92" by (simp add: hdr_bytes_length image_hdr_def Let_def)
  have vec: "\<forall>e \<in> set (node_entries (m_nodes m)) \<union> set (child_entries (m_nodes m)).
      \<exists>v. em_exec em (snd e) = Some v \<and> length v = unat (of_int (em_dim em) :: u32)"
    using c edim by (force simp: compiled_def embeds_def embedder_ok_def)
  have m1: "mem = (?hb @ ?s) @ emb_table em (ip_node_labels ip) (node_entries (m_nodes m)) @ (?c @ ?rn @ ?rc)"
    and m2: "mem = (?hb @ ?s @ ?n) @ emb_table em (ip_child_labels ip) (child_entries (m_nodes m)) @ (?rn @ ?rc)"
    and m3: "mem = (?hb @ ?s @ ?n @ ?c) @ ?rn @ ?rc" and m4: "mem = (?hb @ ?s @ ?n @ ?c @ ?rn) @ ?rc @ []"
    using c by (simp_all add: compiled_def body_def node_embs_def child_embs_def)
  show "emb_place mem 92 (h_node_emb_off ?h) (of_int (em_dim em)) (vectors em (node_entries (m_nodes m)))"
    using emb_place_table(1) [OF ws m1] pok vec hl by (simp add: parts_ok_def vectors_def image_hdr_def Let_def strtab_end_def)
  show "emb_place mem 92 (h_child_emb_off ?h) (of_int (em_dim em)) (vectors em (child_entries (m_nodes m)))"
    using emb_place_table(1) [OF ws m2] pok vec hl
    by (simp add: parts_ok_def vectors_def image_hdr_def Let_def strtab_end_def add.assoc)
  have w: "length (node_meta_words r) = 7" "length (child_meta_words r') = 8" for r r'
    by (simp_all add: node_meta_words_def child_meta_words_def ref_words_def)
  note rn = rows_read [OF m3 w(1), where rd = node_meta_at, OF node_meta_at_words]
    and rc = rows_read [OF m4 w(2), where rd = child_meta_at, OF child_meta_at_words]
  have ln: "length (ip_node_rows ip) = length (node_rows (m_nodes m))" "length (ip_child_rows ip) = length (child_rows (m_nodes m))"
    using pok by (auto simp: parts_ok_def dest: list_all2_lengthD)
  have lm: "length mem = 92 + length ?s + length ?n + length ?c + length ?rn + length ?rc"
    using arg_cong [OF m4, of length] hl by simp
  have pl: "length (?hb @ ?s @ ?n @ ?c) = strtab_end ip + length ?n + length ?c"
      "length (?hb @ ?s @ ?n @ ?c @ ?rn) = strtab_end ip + length ?n + length ?c + length ?rn"
    using hl by (simp_all add: strtab_end_def)
  have fields: "h_node_meta_off ?h = of_nat (strtab_end ip + length ?n + length ?c)"
      "h_child_meta_off ?h = of_nat (strtab_end ip + length ?n + length ?c + length ?rn)"
      "h_node_meta_count ?h = of_nat (length (ip_node_rows ip))" "h_child_meta_count ?h = of_nat (length (ip_child_rows ip))"
    unfolding ln by (simp_all only: image_hdr_def Let_def kc_ipa_file_hdr_t.simps)
  have on: "unat (h_node_meta_off ?h) = length (?hb @ ?s @ ?n @ ?c)" "unat (h_child_meta_off ?h) = length (?hb @ ?s @ ?n @ ?c @ ?rn)"
    "unat (h_node_meta_count ?h) = length (ip_node_rows ip)" "unat (h_child_meta_count ?h) = length (ip_child_rows ip)"
    unfolding fields pl
    by (rule unat_of_nat_u32, use l lm rn(2) rc(2) in \<open>simp add: strtab_end_def\<close>)+
  have b: "kc_ipa_bounds_ok (length mem) (h_node_meta_off ?h) (length (ip_node_rows ip) * 28)"
    "kc_ipa_bounds_ok (length mem) (h_child_meta_off ?h) (length (ip_child_rows ip) * 32)"
    using l rn(2) rc(2) lm hl unfolding kc_ipa_bounds_ok_def on by simp_all
  show "load_node_meta mem ?h = Inr (ip_node_rows ip)" "load_child_meta mem ?h = Inr (ip_child_rows ip)"
    using b rn(1) rc(1) by (simp_all add: load_node_meta_def load_child_meta_def Let_def on)
qed


lemma emb_place_count: "emb_place mem strtab off edim es \<Longrightarrow> unat (of_nat (length es) :: u32) = length es"
proof (rule unat_of_nat_u32)
  assume p: "emb_place mem strtab off edim es"
  have "length es * 1 \<le> length es * emb_stride edim" by (rule mult_le_mono2) (simp add: emb_stride_def)
  also have "\<dots> < 2 ^ 32"
  proof -
    have "unat off + length es * emb_stride edim \<le> length mem" "length mem < 2 ^ 32" using p unfolding emb_place_def by blast+
    then show ?thesis by linarith
  qed
  finally show "length es < 2 ^ 32" by simp
qed

lemma load_schema_ok:
  assumes c: "compiled em m ip mem" and ne: "node_entries (m_nodes m) \<noteq> []" and ng: "int_ngrams m"
    and lk: "locks_ok ho" and em: "ho_emb ho = Some em"
  shows "yields (gives_up (ho_alloc ho) (node_entries (m_nodes m) @ child_entries (m_nodes m))) (\<lambda>s'. schema_for ho em m s' \<and> sc_mmap s' = sc_mmap s \<and> named m)
    (load_schema ho addr1 addr2 mem s)"
proof -
  let ?h = "image_hdr em m ip" and ?d = "of_int (em_dim em) :: u32"
  let ?ne = "vectors em (node_entries (m_nodes m))" and ?ce = "vectors em (child_entries (m_nodes m))"
  note tabs = compiled_tables [OF c] and ws = compiled_parts(1) [OF c]
  have dpos: "0 < em_dim em" using c by (simp add: compiled_def embedder_ok_def)
  then have d0: "?d \<noteq> 0" using compiled_parts(4) [OF c] by (metis unat_0 zero_less_nat_eq less_irrefl)
  have cnt: "unat (h_node_emb_count ?h) = length ?ne" "unat (h_child_emb_count ?h) = length ?ce"
    using emb_place_count [OF tabs(1)] emb_place_count [OF tabs(2)] by (simp_all add: image_hdr_def Let_def vectors_def)
  have flds: "h_emb_dim ?h = ?d" "unat (h_strtab_off ?h) = 92" "h_node_threshold ?h = m_node_threshold m"
      "sint (h_min_ngram ?h) = m_min_ngram m" "sint (h_max_ngram ?h) = m_max_ngram m"
    using ng by (simp_all add: image_hdr_def Let_def int_ngrams_def sint_of_int_u32)
  let ?E = "gives_up (ho_alloc ho) (node_entries (m_nodes m) @ child_entries (m_nodes m))"
  have nm: "all_named (vectors em es) \<longleftrightarrow> all_named es" for es by (auto simp: all_named_def vectors_def)
  then have sub: "gives_up (ho_alloc ho) ?ne \<subseteq> ?E" "gives_up (ho_alloc ho) ?ce \<subseteq> ?E"
    by (auto simp: gives_up_def)
  have "yields (gives_up (ho_alloc ho) ?ne) (\<lambda>h. indexes ho ?d ?ne h \<and> all_named ?ne)
      (load_index ho addr1 mem (h_node_emb_off ?h) (h_node_emb_count ?h) ?d 92)"
    by (rule load_index_ok [OF tabs(1) _ _ d0 lk]) (use cnt ne in \<open>auto simp: vectors_def\<close>)
  note n = yields_mono_err [OF this sub(1)]
  have rows: "list_all2 (file_node_row_ok mem 92) (ip_node_rows ip) (node_rows (m_nodes m))"
      "list_all2 (file_child_row_ok mem 92) (ip_child_rows ip) (child_rows (m_nodes m))"
  proof -
    have "list_all2 (node_row_ok (ip_strtab ip)) (ip_node_rows ip) (node_rows (m_nodes m))"
      "list_all2 (child_row_ok (ip_strtab ip)) (ip_child_rows ip) (child_rows (m_nodes m))"
      using c by (simp_all add: compiled_def parts_ok_def)
    then show "list_all2 (file_node_row_ok mem 92) (ip_node_rows ip) (node_rows (m_nodes m))"
      "list_all2 (file_child_row_ok mem 92) (ip_child_rows ip) (child_rows (m_nodes m))"
      using with_strtab_rows [OF ws] by (auto elim: list_all2_mono)
  qed
  let ?child = "if h_child_emb_count ?h > 0
      then map_sum id Some (load_index ho addr2 mem (h_child_emb_off ?h) (h_child_emb_count ?h) ?d 92) else Inr None"
  have ch: "yields ?E (\<lambda>co. (if child_entries (m_nodes m) = [] then co = None
      else \<exists>h. co = Some h \<and> indexes ho ?d ?ce h) \<and> all_named ?ce) ?child"
  proof (cases "child_entries (m_nodes m) = []")
    case True
    then have "h_child_emb_count ?h = 0" by (simp add: image_hdr_def Let_def)
    with True show ?thesis by (simp add: all_named_def vectors_def)
  next
    case False
    with cnt(2) have "h_child_emb_count ?h > 0" by (auto simp: word_greater_zero_iff vectors_def)
    moreover have "yields (gives_up (ho_alloc ho) ?ce) (\<lambda>h. indexes ho ?d ?ce h \<and> all_named ?ce)
        (load_index ho addr2 mem (h_child_emb_off ?h) (h_child_emb_count ?h) ?d 92)"
      by (rule load_index_ok [OF tabs(2) _ _ d0 lk]) (use cnt False in \<open>auto simp: vectors_def\<close>)
    note yields_mono_err [OF this sub(2)]
    ultimately show ?thesis using False
      by (cases "load_index ho addr2 mem (h_child_emb_off ?h) (h_child_emb_count ?h) ?d 92") auto
  qed
  have "load_schema ho addr1 addr2 mem s =
      sum_bind (load_index ho addr1 mem (h_node_emb_off ?h) (h_node_emb_count ?h) ?d 92) (\<lambda>node_hnsw.
      sum_bind ?child (\<lambda>child_hnsw.
        Inr (s\<lparr>sc_base := mem, sc_strtab := 92, sc_node_threshold := m_node_threshold m,
               sc_min_ngram := m_min_ngram m, sc_max_ngram := m_max_ngram m, sc_emb := Some em, sc_emb_dim := em_dim em,
               sc_index := \<lparr>ix_node_hnsw = Some node_hnsw, ix_child_hnsw = child_hnsw,
                            ix_node_meta = ip_node_rows ip, ix_child_meta = ip_child_rows ip\<rparr>\<rparr>)))"
    using compiled_parts(2,3) [OF c] em dpos tabs(3,4) flds by (simp add: load_schema_def Let_def)
  also have "yields ?E (\<lambda>s'. schema_for ho em m s' \<and> sc_mmap s' = sc_mmap s \<and> named m) \<dots>"
    by (rule yields_bind [OF n], rule yields_bind [OF ch])
      (use rows c in \<open>auto simp: schema_for_def compiled_def nm named_def\<close>)
  finally show ?thesis .
qed


subsection \<open>From the source text to the open schema\<close>

definition children_named :: "kc_ipa_manifest_t \<Rightarrow> bool" where
  "children_named m \<longleftrightarrow> (\<forall>e \<in> set (child_entries (m_nodes m)). fst e \<noteq> [])"

text \<open>The file at a path, as the system answers for it.\<close>

definition file_at :: "sys_calls \<Rightarrow> string \<Rightarrow> string \<Rightarrow> bool" where
  "file_at sys path data \<longleftrightarrow> 0 \<le> sys_open sys path \<and> sys_fstat sys (sys_open sys path) = Some (length data) \<and>
     sys_bytes sys (sys_open sys path) = data \<and> sys_mmap sys (sys_open sys path) (length data) \<noteq> None"

lemma validate_nodes_names:
  "validate_nodes nodes = None \<Longrightarrow> (\<forall>e \<in> set (node_entries nodes). fst e \<noteq> []) \<and> (nodes \<noteq> [] \<longrightarrow> node_entries nodes \<noteq> [])"
  by (induction nodes rule: validate_nodes.induct)
    (auto simp: node_entries_def blank_def split: if_splits option.splits)

lemma build_ok_image:
  assumes "kc_ipa_build alloc fp (Some em) fin fout = Inr (KC_IPA_OK, Some data)"
  obtains src m q where "read_schema alloc fin = Inr src" "kc_ipa_parse_manifest alloc fp src 0 = Inr (m, q)"
    "kc_ipa_validate_manifest m = None" "build_image alloc em m = Inr data"
  using assms
  by (auto simp: kc_ipa_build_def write_image_def split: sum.splits prod.splits if_splits option.splits build_stop.splits)

lemma open_file:
  assumes "file_at (ho_sys ho) path mem" "mem \<noteq> []" "never_fails (ho_alloc ho)" "locks_ok ho"
  shows "load_schema ho addr1 addr2 mem = (\<lambda>s. Inr (g s)) \<Longrightarrow>
      \<exists>s os'. kc_ipa_open ho addr1 addr2 True (Some \<lparr>schema_path = Some path\<rparr>) os = Inr (KC_IPA_OK, Some (g s), os')"
    and "load_schema ho addr1 addr2 mem = (\<lambda>s. Inl Gives_Up) \<Longrightarrow>
      \<exists>os'. kc_ipa_open ho addr1 addr2 True (Some \<lparr>schema_path = Some path\<rparr>) os = Inr (KC_IPA_ERROR, None, os')"
  using assms
  by (auto simp: kc_ipa_open_def strdup_def locks_ok_def file_at_def kc_mmap_open_def mapped_def Let_def)

lemma compiled_opens:
  assumes b: "kc_ipa_build alloc fp (Some em) fin fout = Inr (KC_IPA_OK, Some data)"
    and small: "length data < 2 ^ 32" and em: "embedder_ok em" and fp: "int_conversions fp"
    and f: "file_at (ho_sys ho) path data" and ho: "never_fails (ho_alloc ho)" "locks_ok ho" "ho_emb ho = Some em"
  shows "\<exists>src m q. read_schema alloc fin = Inr src \<and> kc_ipa_parse_manifest alloc fp src 0 = Inr (m, q) \<and>
    kc_ipa_validate_manifest m = None \<and>
    (children_named m \<longrightarrow> (\<exists>s os'. schema_for ho em m s \<and>
       kc_ipa_open ho addr1 addr2 True (Some \<lparr>schema_path = Some path\<rparr>) os = Inr (KC_IPA_OK, Some s, os'))) \<and>
    (\<not> children_named m \<longrightarrow> (\<exists>os'.
       kc_ipa_open ho addr1 addr2 True (Some \<lparr>schema_path = Some path\<rparr>) os = Inr (KC_IPA_ERROR, None, os')))"
proof -
  obtain src m q where t: "read_schema alloc fin = Inr src" and p: "kc_ipa_parse_manifest alloc fp src 0 = Inr (m, q)"
      and v: "kc_ipa_validate_manifest m = None" and i: "build_image alloc em m = Inr data"
    by (rule build_ok_image [OF b])
  have "sane fp m" using parse_manifest_sane [of fp alloc src 0] p by (simp add: results_def)
  then have c: "clean_manifest m" and ng: "int_ngrams m" using fp by (auto simp: sane_def)
  have nn: "\<forall>e \<in> set (node_entries (m_nodes m)). fst e \<noteq> []" "node_entries (m_nodes m) \<noteq> []"
    using v validate_nodes_names [of "m_nodes m"] by (auto simp: kc_ipa_validate_manifest_def split: if_splits)
  then have cn: "named m \<longleftrightarrow> children_named m" by (auto simp: named_def all_named_def children_named_def)
  obtain ip where "data = hdr_bytes (image_hdr em m ip) @ body em m ip" "parts_ok m ip" "embeds em m"
    by (rule build_image_layout [OF i c small])
  then have cp: "compiled em m ip data" using small em by (simp add: compiled_def)
  have ne: "data \<noteq> []" using compiled_parts(3) [OF cp] by (auto simp: header_ok_def)
  note l = load_schema_ok [OF cp nn(2) ng ho(2,3), of _ addr1 addr2] and o = open_file [OF f ne ho(1,2), of addr1 addr2]
  have "\<exists>s os'. schema_for ho em m s \<and>
       kc_ipa_open ho addr1 addr2 True (Some \<lparr>schema_path = Some path\<rparr>) os = Inr (KC_IPA_OK, Some s, os')"
    if "children_named m"
  proof -
    have "gives_up (ho_alloc ho) (node_entries (m_nodes m) @ child_entries (m_nodes m)) = {}"
      using that ho(1) cn by (simp add: gives_up_def named_def)
    with l have "\<exists>s'. load_schema ho addr1 addr2 data s = Inr s' \<and> schema_for ho em m s'" for s
      by (fastforce simp: yields_value)
    then obtain g where g: "\<And>s. load_schema ho addr1 addr2 data s = Inr (g s)" "\<And>s. schema_for ho em m (g s)" by metis
    from o(1) [of g os] g show ?thesis by blast
  qed
  moreover have "\<exists>os'. kc_ipa_open ho addr1 addr2 True (Some \<lparr>schema_path = Some path\<rparr>) os = Inr (KC_IPA_ERROR, None, os')"
    if "\<not> children_named m"
  proof -
    have "load_schema ho addr1 addr2 data s = Inl Gives_Up" for s
      using l [of s] that cn by (cases "load_schema ho addr1 addr2 data s") (auto simp: gives_up_def split: if_splits)
    then show ?thesis by (intro o(2)) blast
  qed
  ultimately show ?thesis using t p v by blast
qed


text \<open>A small schema, the model that goes with it and the machine that opens it.\<close>

definition sample_embedder :: embedder where
  "sample_embedder = \<lparr>em_dim = 2, em_exec = (\<lambda>d. Some [0x3F800000, of_nat (length d)])\<rparr>"

lemma wbuf_append_fits:
  "wb_size w + length s \<le> wb_capacity w \<Longrightarrow> kc_ipa_wbuf_append alloc w s = Inr (w\<lparr>wb_data := wb_data w @ s\<rparr>)"
  by (simp add: kc_ipa_wbuf_append_def kc_ipa_wbuf_reserve_def)
lemma strtab_add_fits:
  "st_size st + length s + 1 \<le> st_capacity st \<Longrightarrow> kc_ipa_strtab_add alloc st s =
     Inr (st\<lparr>st_data := st_data st @ s @ [NUL]\<rparr>, \<lparr>ref_off = of_nat (st_size st), ref_len = of_nat (length s)\<rparr>)"
  by (simp add: kc_ipa_strtab_add_def strtab_room_def)

text \<open>The same schema with a child whose name is the empty string.\<close>

definition unnamed_manifest :: kc_ipa_manifest_t where
  "unnamed_manifest = sample_manifest\<lparr>m_nodes := [NodeDef (Some ''n'') [''turn on''] [\<lparr>ed_key = ''k'', ed_value = ''$raw''\<rparr>]
     [NodeDef (Some []) [''light''] [] []]]\<rparr>"

lemma sample_collected:
  assumes "m = sample_manifest \<or> m = unnamed_manifest"
  shows "\<exists>x lb mt. collect_strings granting m \<lparr>st_data = [], st_capacity = 65536\<rparr> = Inr (x, lb, mt) \<and>
  length (st_data (mt_strtab mt)) < 100 \<and> length (lb_node lb) = 1 \<and> length (lb_child lb) = 1 \<and> length (mt_node mt) = 1 \<and> length (mt_child mt) = 1"
  using assms by (auto simp add: collect_strings_def sample_manifest_def unnamed_manifest_def require_def text_or_empty_def default_manifest_def strtab_add_fits
     label_node_def node_label_def child_label_def add_string_def c_string_def meta_node_def emit_rounds_def node_meta_row_def child_meta_row_def add_emit_def)


lemma small_image:
  assumes "em_exec em ''turn on'' = Some v1" "em_exec em ''light'' = Some v2" "length v1 \<le> 8" "length v2 \<le> 8"
    and m: "m = sample_manifest \<or> m = unnamed_manifest"
  shows "\<exists>data. build_image granting em m = Inr data \<and> length data < 2 ^ 32"
proof -
  obtain i v w lb mt where c: "collect_strings granting m \<lparr>st_data = [], st_capacity = 65536\<rparr> = Inr ((i, v, w), lb, mt)"
    "length (st_data (mt_strtab mt)) < 100" "length (lb_node lb) = 1" "length (lb_child lb) = 1" "length (mt_node mt) = 1" "length (mt_child mt) = 1"
    using sample_collected [OF m] by auto
  obtain nm where n: "m_nodes m = [NodeDef (Some ''n'') [''turn on''] [\<lparr>ed_key = ''k'', ed_value = ''$raw''\<rparr>]
      [NodeDef (Some nm) [''light''] [] []]]" using m by (auto simp: sample_manifest_def unnamed_manifest_def)
  show ?thesis using c assms(1-4)
    by (simp add: build_image_def kc_ipa_strtab_init_def kc_ipa_wbuf_init_def wbuf_append_fits n write_node_embeddings_def
       write_child_embeddings_def write_node_metas_def write_child_metas_def write_embedding_def write_row_def emit_rounds_def
       fetch_def ref_words_def node_meta_words_def child_meta_words_def Let_def hdr_bytes_length) auto
qed

lemma sample_image: "\<exists>data. build_image granting sample_embedder sample_manifest = Inr data \<and> length data < 2 ^ 32"
  using small_image [of sample_embedder _ _ sample_manifest] by (simp add: sample_embedder_def)

definition sample_fp :: fp_env where
  "sample_fp = \<lparr>fp_double = Fin, fp_float = (\<lambda>_. 0), fp_int = (\<lambda>_. 0)\<rparr>"

definition sample_host :: "string \<Rightarrow> host" where
  "sample_host data =
     \<lparr>ho_alloc = granting, ho_rnd = (\<lambda>x. x), ho_fp = sample_fp, ho_mutex_init = True, ho_rwlock_init = True, ho_rwlock = True,
      ho_hnsw_ef = None, ho_time = 7,
      ho_sys = \<lparr>sys_open = (\<lambda>_. 3), sys_fstat = (\<lambda>_. Some (length data)), sys_mmap = (\<lambda>_ _. Some 4096), sys_bytes = (\<lambda>_. data)\<rparr>,
      ho_emb = Some sample_embedder\<rparr>"

definition sample_input :: "input_file option" where
  "sample_input = Some \<lparr>in_seek = True, in_tell = int (length (brief_manifest sample_manifest)),
     in_bytes = brief_manifest sample_manifest\<rparr>"

lemma sample_read: "read_schema granting sample_input = Inr (brief_manifest sample_manifest)"
  by (simp add: read_schema_def sample_input_def brief_manifest_def)

lemma sample_valid: "kc_ipa_validate_manifest sample_manifest = None"
proof -
  have "f32_val 0x3F3851EC = Fin (real (2 ^ 23 + 3690988) * 2 ^ 126 / 2 ^ 150)"
    by (simp add: f32_val_def Let_def take_bit_eq_mod drop_bit_eq_div bit_iff_odd_drop_bit)
  then show ?thesis
    by (simp add: kc_ipa_validate_manifest_def sample_manifest_def default_manifest_def blank_def fl_lt_def)
qed

lemma sample_parsed:
  "kc_ipa_parse_manifest granting sample_fp (brief_manifest sample_manifest) 0 =
     Inr (sample_manifest, length (brief_manifest sample_manifest))"
  by (rule parse_brief_manifest [OF sample_printable]) simp

lemma sample_build:
  "\<exists>data. kc_ipa_build granting sample_fp (Some sample_embedder) sample_input (Some (2 ^ 32)) = Inr (KC_IPA_OK, Some data) \<and>
     length data < 2 ^ 32"
proof -
  obtain data where d: "build_image granting sample_embedder sample_manifest = Inr data" "length data < 2 ^ 32"
    using sample_image by blast
  with sample_parsed sample_read sample_valid show ?thesis
    by (auto simp: kc_ipa_build_def write_image_def sample_embedder_def)
qed

lemma sample_hyps:
  "embedder_ok sample_embedder" "int_conversions sample_fp" "file_at (ho_sys (sample_host data)) ''a.ipa'' data"
  "never_fails (ho_alloc (sample_host data))" "locks_ok (sample_host data)" "ho_emb (sample_host data) = Some sample_embedder"
  "children_named sample_manifest"
  by (simp_all add: embedder_ok_def sample_embedder_def int_conversions_def sample_fp_def file_at_def sample_host_def locks_ok_def
      children_named_def child_entries_def node_entries_def sample_manifest_def)

lemma sample_opens:
  "\<exists>data s os'. schema_for (sample_host data) sample_embedder sample_manifest s \<and>
     kc_ipa_open (sample_host data) 1 2 True (Some \<lparr>schema_path = Some ''a.ipa''\<rparr>) \<lparr>os_fds = {}, os_maps = Map.empty\<rparr> =
       Inr (KC_IPA_OK, Some s, os')"
proof -
  obtain data where d: "kc_ipa_build granting sample_fp (Some sample_embedder) sample_input (Some (2 ^ 32)) = Inr (KC_IPA_OK, Some data)"
    "length data < 2 ^ 32" using sample_build by blast
  from compiled_opens [OF d sample_hyps(1-6), of 1 2 "\<lparr>os_fds = {}, os_maps = Map.empty\<rparr>"] sample_hyps(7) sample_read sample_parsed
  show ?thesis by auto
qed

text \<open>A schema whose child has the empty name is accepted by the compiler, and the file it writes cannot be opened.\<close>

lemma unnamed_child_refused:
  "\<exists>fin data os'. kc_ipa_build granting sample_fp (Some sample_embedder) fin (Some (2 ^ 32)) = Inr (KC_IPA_OK, Some data) \<and>
     kc_ipa_open (sample_host data) 1 2 True (Some \<lparr>schema_path = Some ''a.ipa''\<rparr>) \<lparr>os_fds = {}, os_maps = Map.empty\<rparr> =
       Inr (KC_IPA_ERROR, None, os')"
proof -
  let ?txt = "brief_manifest unnamed_manifest"
  let ?fin = "Some \<lparr>in_seek = True, in_tell = int (length ?txt), in_bytes = ?txt\<rparr> :: input_file option"
  have rd: "read_schema granting ?fin = Inr ?txt" by (simp add: read_schema_def brief_manifest_def)
  have ps: "kc_ipa_parse_manifest granting sample_fp ?txt 0 = Inr (unnamed_manifest, length ?txt)"
    by (rule parse_brief_manifest) (simp_all add: brief_printable_def unnamed_manifest_def sample_manifest_def default_manifest_def plain_def)
  have v: "kc_ipa_validate_manifest unnamed_manifest = None"
    using sample_valid by (simp add: unnamed_manifest_def kc_ipa_validate_manifest_def sample_manifest_def default_manifest_def blank_def split: if_splits)
  obtain data where d: "build_image granting sample_embedder unnamed_manifest = Inr data" "length data < 2 ^ 32"
    using small_image [of sample_embedder "[0x3F800000, 7]" "[0x3F800000, 5]" unnamed_manifest] by (auto simp: sample_embedder_def)
  with rd ps v have b: "kc_ipa_build granting sample_fp (Some sample_embedder) ?fin (Some (2 ^ 32)) = Inr (KC_IPA_OK, Some data)"
    by (simp add: kc_ipa_build_def write_image_def sample_embedder_def)
  have "\<not> children_named unnamed_manifest" by (simp add: children_named_def child_entries_def node_entries_def unnamed_manifest_def)
  with compiled_opens [OF b d(2) sample_hyps(1-6), of 1 2 "\<lparr>os_fds = {}, os_maps = Map.empty\<rparr>"] rd ps
  have "\<exists>os'. kc_ipa_open (sample_host data) 1 2 True (Some \<lparr>schema_path = Some ''a.ipa''\<rparr>) \<lparr>os_fds = {}, os_maps = Map.empty\<rparr> =
       Inr (KC_IPA_ERROR, None, os')" by auto
  with b show ?thesis by blast
qed

text \<open>C5. A schema that was compiled can be opened exactly when its children carry names, and the opened schema is
  the one of the source. When \<open>kc_ipa_build\<close> reports success with a file below 4 GiB, and the file is served to
  \<open>kc_ipa_open\<close> by a machine that grants memory and locks, with the same model (whose vectors have its dimension), then
  the schema text was parsed and validated, and:
  if every description of a child stands under a name that is not empty, the open succeeds. The handle has the
  manifest's threshold and n-gram bounds; its node index
  is a built index over exactly the vectors of the node descriptions, each under its node's name, the
  child index (absent when there are no children) likewise; and the metadata rows, with every string
  resolved through the mapped string table, are the manifest's emits, parents and child flags in
  order. If some child with a description has the empty name, which validation does not look at, the file
  cannot be opened: the index refuses the entry and \<open>kc_ipa_open\<close> returns \<open>KC_IPA_ERROR\<close>.\<close>

theorem compiled_schema_opens:
  assumes b: "kc_ipa_build alloc fp (Some em) fin fout = Inr (KC_IPA_OK, Some data)"
    and small: "length data < 2 ^ 32" and em: "embedder_ok em" and fp: "int_conversions fp"
    and f: "file_at (ho_sys ho) path data" and ho: "never_fails (ho_alloc ho)" "locks_ok ho" "ho_emb ho = Some em"
  shows "\<exists>src m q. read_schema alloc fin = Inr src \<and> kc_ipa_parse_manifest alloc fp src 0 = Inr (m, q) \<and>
    kc_ipa_validate_manifest m = None \<and>
    (children_named m \<longrightarrow> (\<exists>s os'. schema_for ho em m s \<and>
       kc_ipa_open ho addr1 addr2 True (Some \<lparr>schema_path = Some path\<rparr>) os = Inr (KC_IPA_OK, Some s, os'))) \<and>
    (\<not> children_named m \<longrightarrow> (\<exists>os'.
       kc_ipa_open ho addr1 addr2 True (Some \<lparr>schema_path = Some path\<rparr>) os = Inr (KC_IPA_ERROR, None, os')))"
  using assms by (rule compiled_opens)

lemma compiled_schema_opens_witness:
  "\<exists>data s os'. kc_ipa_build granting sample_fp (Some sample_embedder) sample_input (Some (2 ^ 32)) = Inr (KC_IPA_OK, Some data) \<and>
     schema_for (sample_host data) sample_embedder sample_manifest s \<and>
     kc_ipa_open (sample_host data) 1 2 True (Some \<lparr>schema_path = Some ''a.ipa''\<rparr>) \<lparr>os_fds = {}, os_maps = Map.empty\<rparr> =
       Inr (KC_IPA_OK, Some s, os')"
proof -
  obtain data where d: "kc_ipa_build granting sample_fp (Some sample_embedder) sample_input (Some (2 ^ 32)) = Inr (KC_IPA_OK, Some data)"
    "length data < 2 ^ 32" using sample_build by blast
  from compiled_schema_opens [OF d sample_hyps(1-6), of 1 2 "\<lparr>os_fds = {}, os_maps = Map.empty\<rparr>"] sample_hyps(7) d(1) sample_read sample_parsed
  show ?thesis by auto
qed

end
