(* ===== verification/Build_Total.thy ===== *)
theory Build_Total
  imports Loader
begin

section \<open>When the compilation succeeds\<close>

text \<open>
  With memory granted and a model that embeds every description, \<open>build_image\<close> ends in one of two ways:
  it produces the file, or it passes a null pointer to \<open>strlen\<close> because a node or a child has no
  \<open>id\<close>. Validation looks at the nodes only, so the second way is open for a validated manifest.
\<close>

subsection \<open>Buffers with room\<close>

lemma strtab_add_total:
  assumes "never_fails alloc" "0 < st_capacity st"
  shows "\<exists>st' r. kc_ipa_strtab_add alloc st s = Inr (st', r) \<and> 0 < st_capacity st'"
proof -
  obtain n where "double_until (st_capacity st * 2) (st_size st + length s + 1) = Inr n" "st_capacity st * 2 \<le> n"
    using double_until_spec [of "st_capacity st * 2"] assms(2) by (metis mult_pos_pos zero_less_numeral)
  with assms show ?thesis by (simp add: kc_ipa_strtab_add_def strtab_room_def)
qed

lemma wbuf_append_total:
  assumes "never_fails alloc" "0 < wb_capacity w"
  shows "\<exists>w'. kc_ipa_wbuf_append alloc w s = Inr w' \<and> 0 < wb_capacity w'"
proof -
  obtain n where "double_until (wb_capacity w * 2) (wb_size w + length s) = Inr n" "wb_capacity w * 2 \<le> n"
    using double_until_spec [of "wb_capacity w * 2"] assms(2) by (metis mult_pos_pos zero_less_numeral)
  with assms show ?thesis by (simp add: kc_ipa_wbuf_append_def kc_ipa_wbuf_reserve_def)
qed

text \<open>The only way out: a missing id.\<close>

definition no_id :: "kc_ipa_node_def \<Rightarrow> build_stop set" where
  "no_id nd = (if nd_id nd = None then {Null_String} else {})"

lemma add_string_total:
  assumes "never_fails alloc" "0 < st_capacity st"
  shows "yields (no_id nd) (\<lambda>(st', r). 0 < st_capacity st') (add_string alloc st (nd_id nd))"
proof (cases "nd_id nd")
  case (Some s)
  with strtab_add_total [OF assms, of s] show ?thesis by (auto simp: add_string_def c_string_def)
qed (simp add: add_string_def c_string_def no_id_def)

lemma add_emit_total:
  assumes "never_fails alloc" "0 < st_capacity st"
  shows "yields {} (\<lambda>(st', k, v). 0 < st_capacity st') (add_emit alloc st eo)"
proof (cases eo)
  case (Some e)
  obtain st1 k where a: "kc_ipa_strtab_add alloc st (ed_key e) = Inr (st1, k)" "0 < st_capacity st1"
    using strtab_add_total [OF assms] by blast
  with strtab_add_total [OF assms(1) a(2), of "ed_value e"] Some show ?thesis by (auto simp: add_emit_def)
qed (use assms in \<open>simp add: add_emit_def\<close>)

definition no_ids :: "kc_ipa_node_def list \<Rightarrow> build_stop set" where
  "no_ids nodes = (\<Union>nd \<in> set nodes. no_id nd \<union> (\<Union>ch \<in> set (nd_children nd). no_id ch))"

lemma no_ids_mono:
  "nd \<in> set nodes \<Longrightarrow> no_id nd \<subseteq> no_ids nodes"
  "nd \<in> set nodes \<Longrightarrow> ch \<in> set (nd_children nd) \<Longrightarrow> no_id ch \<subseteq> no_ids nodes"
  by (auto simp: no_ids_def)

abbreviation (input) lb_room :: "label_state \<Rightarrow> bool" where "lb_room lb \<equiv> 0 < st_capacity (lb_strtab lb)"
abbreviation (input) mt_room :: "meta_state \<Rightarrow> bool" where "mt_room mt \<equiv> 0 < st_capacity (mt_strtab mt)"

lemma label_node_total:
  assumes a: "never_fails alloc" and nd: "nd \<in> set nodes" and r: "lb_room lb"
  shows "yields (no_ids nodes) lb_room (label_node alloc nd lb)"
  unfolding label_node_def
proof (rule yields_bind)
  show "yields (no_ids nodes) lb_room (fold_res (\<lambda>_. node_label alloc nd) (nd_descriptions nd) lb)"
  proof (rule yields_fold)
    fix d lb assume "lb_room lb"
    from yields_mono_err [OF add_string_total [OF a this, of nd] no_ids_mono(1) [OF nd]]
    show "yields (no_ids nodes) lb_room (node_label alloc nd lb)"
      unfolding node_label_def by (rule yields_bind) auto
  qed (rule r)
next
  fix lb assume "lb_room lb"
  then show "yields (no_ids nodes) lb_room
      (fold_res (\<lambda>ch. fold_res (\<lambda>_. child_label alloc nd ch) (nd_descriptions ch)) (nd_children nd) lb)"
  proof (intro yields_fold)
    fix ch d lb assume ch: "ch \<in> set (nd_children nd)" and "lb_room lb"
    from yields_mono_err [OF add_string_total [OF a this(2), of ch] no_ids_mono(2) [OF nd ch]]
    show "yields (no_ids nodes) lb_room (child_label alloc nd ch lb)"
      unfolding child_label_def
    proof (rule yields_bind, clarsimp)
      fix st :: kc_ipa_strtab_t assume "0 < st_capacity st"
      from yields_mono_err [OF add_string_total [OF a this, of nd] no_ids_mono(1) [OF nd]]
      show "yields (no_ids nodes) lb_room (sum_bind (add_string alloc st (nd_id nd)) (\<lambda>(st', r').
          Inr (lb\<lparr>lb_strtab := st', lb_child := lb_child lb @ [r], lb_parent := lb_parent lb @ [r']\<rparr>)))" for r
        by (rule yields_bind) auto
    qed
  qed
qed

lemma meta_node_total:
  assumes a: "never_fails alloc" and nd: "nd \<in> set nodes" and r: "mt_room mt"
  shows "yields (no_ids nodes) mt_room (meta_node alloc nd mt)"
  unfolding meta_node_def
proof (rule yields_bind)
  have emit: "yields (no_ids nodes) (\<lambda>(st', k, v). 0 < st_capacity st') (add_emit alloc st eo)" if "0 < st_capacity st" for st eo
    using add_emit_total [OF a that] by (rule yields_mono_err) simp
  show "yields (no_ids nodes) mt_room (fold_res (node_meta_row alloc nd) (emit_rounds nd) mt)"
  proof (rule yields_fold)
    fix eo mt assume "mt_room mt"
    from yields_mono_err [OF add_string_total [OF a this, of nd] no_ids_mono(1) [OF nd]]
    show "yields (no_ids nodes) mt_room (node_meta_row alloc nd eo mt)"
      unfolding node_meta_row_def by (rule yields_bind) (auto intro: yields_bind [OF emit])
  qed (rule r)
  fix mt assume "mt_room mt"
  then show "yields (no_ids nodes) mt_room
      (fold_res (\<lambda>ch. fold_res (child_meta_row alloc nd ch) (emit_rounds ch)) (nd_children nd) mt)"
  proof (intro yields_fold)
    fix ch eo mt assume ch: "ch \<in> set (nd_children nd)" and "mt_room mt"
    from yields_mono_err [OF add_string_total [OF a this(2), of nd] no_ids_mono(1) [OF nd]]
    show "yields (no_ids nodes) mt_room (child_meta_row alloc nd ch eo mt)"
      unfolding child_meta_row_def
    proof (rule yields_bind, clarsimp)
      fix st :: kc_ipa_strtab_t and pid assume "0 < st_capacity st"
      from yields_mono_err [OF add_string_total [OF a this, of ch] no_ids_mono(2) [OF nd ch]]
      show "yields (no_ids nodes) mt_room (sum_bind (add_string alloc st (nd_id ch)) (\<lambda>(st', cid).
          sum_bind (add_emit alloc st' eo) (\<lambda>(st'', k, v).
            Inr (mt\<lparr>mt_strtab := st'', mt_child := mt_child mt @
              [\<lparr>cm_parent_id = pid, cm_node_id = cid, cm_emit_key = k, cm_emit_val = v\<rparr>]\<rparr>))))"
        by (rule yields_bind) (auto intro: yields_bind [OF emit])
    qed
  qed
qed


subsection \<open>The scratch arrays have the lengths the loops count on\<close>

definition gains :: "('s \<Rightarrow> 'r list) \<Rightarrow> 's \<Rightarrow> 's \<Rightarrow> 'x list \<Rightarrow> bool" where
  "gains sel s t a \<longleftrightarrow> length (sel t) = length (sel s) + length a"

lemma gains_fold:
  assumes "\<And>x s t. x \<in> set xs \<Longrightarrow> f x s = Inr t \<Longrightarrow> gains sel s t (out x)" "fold_res f xs s = Inr t"
  shows "gains sel s t (concat (map out xs))"
  by (rule fold_res_collect [where R = "gains sel"]) (use assms in \<open>auto simp: gains_def\<close>)

lemma gains_node:
  assumes "sum_bind (fold_res f as s) (fold_res (\<lambda>ch. fold_res (g ch) (bs ch)) cs) = Inr t"
    and "\<And>x u v. x \<in> set as \<Longrightarrow> f x u = Inr v \<Longrightarrow> gains sel u v (out x)"
    and "\<And>ch y u v. ch \<in> set cs \<Longrightarrow> y \<in> set (bs ch) \<Longrightarrow> g ch y u = Inr v \<Longrightarrow> gains sel u v (out' ch y)"
  shows "gains sel s t (concat (map out as) @ concat (map (\<lambda>ch. concat (map (out' ch) (bs ch))) cs))"
proof -
  obtain u where u: "fold_res f as s = Inr u" "fold_res (\<lambda>ch. fold_res (g ch) (bs ch)) cs u = Inr t"
    using assms(1) by (auto simp: sum_bind_Inr_iff)
  have "gains sel s u (concat (map out as))" by (rule gains_fold [OF assms(2) u(1)])
  moreover have "gains sel u t (concat (map (\<lambda>ch. concat (map (out' ch) (bs ch))) cs))"
    by (rule gains_fold [OF gains_fold u(2)]) (auto intro: assms(3))
  ultimately show ?thesis by (simp add: gains_def)
qed

lemma label_node_gains:
  assumes "label_node alloc nd s = Inr t"
  shows "gains lb_node s t (node_entries [nd])" "gains lb_child s t (child_entries [nd])"
proof -
  note b = assms [unfolded label_node_def]
  have n: "node_label alloc nd u = Inr v \<Longrightarrow> gains lb_node u v [d] \<and> gains lb_child u v ([] :: string list)" for u v and d :: string
    by (auto simp: node_label_def gains_def sum_bind_Inr_iff)
  have c: "child_label alloc nd ch u = Inr v \<Longrightarrow> gains lb_node u v ([] :: string list) \<and> gains lb_child u v [d]" for ch u v and d :: string
    by (auto simp: child_label_def gains_def sum_bind_Inr_iff)
  have "gains lb_node s t (concat (map (\<lambda>d. [d]) (nd_descriptions nd)) @
      concat (map (\<lambda>ch. concat (map (\<lambda>_. []) (nd_descriptions ch))) (nd_children nd)))"
    by (rule gains_node [OF b]) (auto dest: n c)
  then show "gains lb_node s t (node_entries [nd])"
    by (simp add: gains_def node_entries_def concat_map_singleton concat_nothing)
  have "gains lb_child s t (concat (map (\<lambda>d. []) (nd_descriptions nd)) @
      concat (map (\<lambda>ch. concat (map (\<lambda>d. [d]) (nd_descriptions ch))) (nd_children nd)))"
    by (rule gains_node [OF b]) (auto dest: n c)
  then show "gains lb_child s t (child_entries [nd])"
    by (simp add: gains_def child_entries_def node_entries_def concat_map_singleton concat_none length_concat comp_def)
qed

lemma meta_node_gains:
  assumes "meta_node alloc nd s = Inr t"
  shows "gains mt_node s t (node_rows [nd])" "gains mt_child s t (child_rows [nd])"
proof -
  note b = assms [unfolded meta_node_def]
  have n: "node_meta_row alloc nd eo u = Inr v \<Longrightarrow> gains mt_node u v [eo] \<and> gains mt_child u v ([] :: kc_ipa_emit_def_t option list)" for eo u v
    by (auto simp: node_meta_row_def gains_def sum_bind_Inr_iff)
  have c: "child_meta_row alloc nd ch eo u = Inr v \<Longrightarrow> gains mt_node u v ([] :: kc_ipa_emit_def_t option list) \<and> gains mt_child u v [eo]" for ch eo u v
    by (auto simp: child_meta_row_def gains_def sum_bind_Inr_iff)
  have "gains mt_node s t (concat (map (\<lambda>eo. [eo]) (emit_rounds nd)) @
      concat (map (\<lambda>ch. concat (map (\<lambda>_. []) (emit_rounds ch))) (nd_children nd)))"
    by (rule gains_node [OF b]) (auto dest: n c)
  then show "gains mt_node s t (node_rows [nd])"
    by (simp add: gains_def node_rows_def concat_map_singleton concat_nothing)
  have "gains mt_child s t (concat (map (\<lambda>_. []) (emit_rounds nd)) @
      concat (map (\<lambda>ch. concat (map (\<lambda>eo. [eo]) (emit_rounds ch))) (nd_children nd)))"
    by (rule gains_node [OF b]) (auto dest: n c)
  then show "gains mt_child s t (child_rows [nd])"
    by (simp add: gains_def child_rows_def concat_map_singleton concat_none length_concat comp_def)
qed

lemma entries_concat:
  "concat (map (\<lambda>nd. node_entries [nd]) nodes) = node_entries nodes" "concat (map (\<lambda>nd. child_entries [nd]) nodes) = child_entries nodes"
  "concat (map (\<lambda>nd. node_rows [nd]) nodes) = node_rows nodes" "concat (map (\<lambda>nd. child_rows [nd]) nodes) = child_rows nodes"
  by (simp_all add: node_entries_def child_entries_def node_rows_def child_rows_def)

lemma collect_strings_total:
  assumes a: "never_fails alloc" and r: "0 < st_capacity st"
  shows "yields (no_ids (m_nodes m)) (\<lambda>(x, lb, mt). length (lb_node lb) = length (node_entries (m_nodes m)) \<and>
      length (lb_child lb) = length (child_entries (m_nodes m)) \<and> length (mt_node mt) = length (node_rows (m_nodes m)) \<and>
      length (mt_child mt) = length (child_rows (m_nodes m)))
    (collect_strings alloc m st)"
proof -
  obtain st1 i st2 vnd st3 ver where h: "kc_ipa_strtab_add alloc st (text_or_empty (m_id m)) = Inr (st1, i)"
      "kc_ipa_strtab_add alloc st1 (text_or_empty (m_vendor m)) = Inr (st2, vnd)"
      "kc_ipa_strtab_add alloc st2 (text_or_empty (m_version m)) = Inr (st3, ver)" "0 < st_capacity st3"
    using strtab_add_total [OF a] r by metis
  let ?lb = "\<lparr>lb_strtab = st3, lb_node = [], lb_child = [], lb_parent = []\<rparr>"
  let ?mt = "\<lambda>lb. \<lparr>mt_strtab = lb_strtab lb, mt_node = [], mt_child = []\<rparr>"
  have l: "yields (no_ids (m_nodes m)) lb_room (fold_res (label_node alloc) (m_nodes m) ?lb)"
    by (rule yields_fold) (use h(4) label_node_total [OF a] in auto)
  have mt: "yields (no_ids (m_nodes m)) mt_room (fold_res (meta_node alloc) (m_nodes m) (?mt lb))" if "lb_room lb" for lb
    by (rule yields_fold) (use that meta_node_total [OF a] in auto)
  have gl: "length (lb_node lb) = length (node_entries (m_nodes m)) \<and> length (lb_child lb) = length (child_entries (m_nodes m))"
    if "fold_res (label_node alloc) (m_nodes m) ?lb = Inr lb" for lb
    using gains_fold [OF label_node_gains(1) that] gains_fold [OF label_node_gains(2) that]
    by (simp add: entries_concat gains_def)
  have gm: "length (mt_node mt) = length (node_rows (m_nodes m)) \<and> length (mt_child mt) = length (child_rows (m_nodes m))"
    if "fold_res (meta_node alloc) (m_nodes m) (?mt lb) = Inr mt" for lb mt
    using gains_fold [OF meta_node_gains(1) that] gains_fold [OF meta_node_gains(2) that]
    by (simp add: entries_concat gains_def)
  have c: "collect_strings alloc m st =
      sum_bind (fold_res (label_node alloc) (m_nodes m) ?lb) (\<lambda>lb.
      sum_bind (fold_res (meta_node alloc) (m_nodes m) (?mt lb)) (\<lambda>mt. Inr ((i, vnd, ver), lb, mt)))"
    using a h by (simp add: collect_strings_def require_def)
  show ?thesis
  proof (cases "fold_res (label_node alloc) (m_nodes m) ?lb")
    case (Inl e)
    with l show ?thesis by (simp add: c)
  next
    case (Inr lb)
    with l have "lb_room lb" by simp
    from mt [OF this] show ?thesis
      using gl [OF Inr] gm [of lb] by (cases "fold_res (meta_node alloc) (m_nodes m) (?mt lb)") (simp_all add: c Inr)
  qed
qed


subsection \<open>Writing the tables succeeds\<close>

lemma fold_res_flat: "fold_res (\<lambda>x. fold_res f (g x)) xs s = fold_res f (concat (map g xs)) s"
proof (induction xs arbitrary: s)
  case (Cons x xs)
  then show ?case by (cases "fold_res f (g x) s") (simp_all add: fold_res_append)
qed simp

lemma write_embeddings_total:
  assumes a: "never_fails alloc" and "\<forall>d \<in> set ds. em_exec em d \<noteq> None" "0 < wb_capacity buf" "ie + length ds \<le> length rs"
  shows "\<exists>buf'. fold_res (write_embedding alloc em rs) ds (buf, ie) = Inr (buf', ie + length ds) \<and> 0 < wb_capacity buf'"
  using assms(2-)
proof (induction ds arbitrary: buf ie)
  case (Cons d ds)
  obtain vec where v: "em_exec em d = Some vec" using Cons.prems(1) by auto
  obtain b1 where b1: "kc_ipa_wbuf_append alloc buf (le32s (ref_words (rs ! ie))) = Inr b1" "0 < wb_capacity b1"
    using wbuf_append_total [OF a Cons.prems(2)] by blast
  obtain b2 where b2: "kc_ipa_wbuf_append alloc b1 (le32s vec) = Inr b2" "0 < wb_capacity b2"
    using wbuf_append_total [OF a b1(2)] by blast
  have "write_embedding alloc em rs d (buf, ie) = Inr (b2, Suc ie)"
    using v b1 b2 Cons.prems(3) by (simp add: write_embedding_def)
  with Cons.IH [OF _ b2(2), of "Suc ie"] Cons.prems show ?case by auto
qed simp

lemma write_rows_total:
  assumes a: "never_fails alloc" and "0 < wb_capacity buf" "ni + length xs \<le> length rs"
  shows "\<exists>buf'. fold_res (\<lambda>_. write_row alloc words rs) xs (buf, ni) = Inr (buf', ni + length xs) \<and> 0 < wb_capacity buf'"
  using assms(2-)
proof (induction xs arbitrary: buf ni)
  case (Cons x xs)
  obtain b1 where b1: "kc_ipa_wbuf_append alloc buf (le32s (words (rs ! ni))) = Inr b1" "0 < wb_capacity b1"
    using wbuf_append_total [OF a Cons.prems(1)] by blast
  have "write_row alloc words rs (buf, ni) = Inr (b1, Suc ni)"
    using b1 Cons.prems(2) by (simp add: write_row_def)
  with Cons.IH [OF b1(2), of "Suc ni"] Cons.prems show ?case by auto
qed simp

lemma concat_map_concat: "concat (map f (concat (map g xs))) = concat (map (\<lambda>x. concat (map f (g x))) xs)"
  by (induction xs) simp_all

lemma node_descriptions_flat: "concat (map nd_descriptions nodes) = map snd (node_entries nodes)"
  by (simp add: node_entries_def map_concat comp_def)

lemma rows_length: "length (concat (map emit_rounds nodes)) = length (node_rows nodes)"
    "length (concat (map emit_rounds (concat (map nd_children nodes)))) = length (child_rows nodes)"
  by (simp_all only: concat_map_concat) (simp_all add: node_rows_def child_rows_def length_concat comp_def)

lemma write_tables_total:
  assumes a: "never_fails alloc" and e: "embeds em m" and r: "0 < wb_capacity buf"
    and n: "length nl = length (node_entries (m_nodes m))" "length cl = length (child_entries (m_nodes m))"
      "length nr = length (node_rows (m_nodes m))" "length cr = length (child_rows (m_nodes m))"
  shows "\<exists>b1 k1 b2 k2 b3 k3 b4 k4. write_node_embeddings alloc em nl (m_nodes m) buf = Inr (b1, k1) \<and>
    write_child_embeddings alloc em cl (m_nodes m) b1 = Inr (b2, k2) \<and>
    write_node_metas alloc nr (m_nodes m) b2 = Inr (b3, k3) \<and> write_child_metas alloc cr (m_nodes m) b3 = Inr (b4, k4)"
proof -
  let ?ns = "m_nodes m"
  have cd: "concat (map nd_descriptions (concat (map nd_children ?ns))) = map snd (child_entries ?ns)"
    by (simp only: concat_map_concat) (simp add: child_entries_def node_descriptions_flat map_concat comp_def)
  have ex: "\<forall>d \<in> set (map snd (node_entries ?ns)). em_exec em d \<noteq> None" "\<forall>d \<in> set (map snd (child_entries ?ns)). em_exec em d \<noteq> None"
    using e by (auto simp: embeds_def)
  obtain b1 where b1: "write_node_embeddings alloc em nl ?ns buf = Inr (b1, length (node_entries ?ns))" "0 < wb_capacity b1"
    using write_embeddings_total [OF a ex(1) r, of 0 nl] n(1)
    unfolding write_node_embeddings_def fold_res_flat node_descriptions_flat by auto
  obtain b2 where b2: "write_child_embeddings alloc em cl ?ns b1 = Inr (b2, length (child_entries ?ns))" "0 < wb_capacity b2"
    using write_embeddings_total [OF a ex(2) b1(2), of 0 cl] n(2)
    unfolding write_child_embeddings_def fold_res_flat cd by auto
  obtain b3 where b3: "write_node_metas alloc nr ?ns b2 = Inr (b3, length nr)" "0 < wb_capacity b3"
    using write_rows_total [OF a b2(2), of 0 "concat (map emit_rounds ?ns)" nr node_meta_words] n(3)
    unfolding write_node_metas_def fold_res_flat rows_length by auto
  obtain b4 where "write_child_metas alloc cr ?ns b3 = Inr (b4, length cr)"
    using write_rows_total [OF a b3(2), of 0 "concat (map emit_rounds (concat (map nd_children ?ns)))" cr child_meta_words] n(4)
    unfolding write_child_metas_def fold_res_flat rows_length(2) by auto
  with b1 b2 b3 show ?thesis by blast
qed

subsection \<open>The outcome of a compilation\<close>

definition ids_present :: "kc_ipa_manifest_t \<Rightarrow> bool" where
  "ids_present m \<longleftrightarrow> (\<forall>nd \<in> set (m_nodes m). nd_id nd \<noteq> None \<and> (\<forall>ch \<in> set (nd_children nd). nd_id ch \<noteq> None))"

lemma fold_res_steps: "fold_res f xs s = Inr t \<Longrightarrow> x \<in> set xs \<Longrightarrow> \<exists>u v. f x u = Inr v"
  by (induction xs arbitrary: s) (auto split: sum.splits)

lemma emit_rounds_nonempty: "\<exists>eo. eo \<in> set (emit_rounds nd)"
  by (cases "nd_emits nd") (auto simp: emit_rounds_def)

lemma meta_ids:
  assumes "fold_res (meta_node alloc) (m_nodes m) mt = Inr mt'"
  shows "ids_present m"
  unfolding ids_present_def
proof (intro ballI conjI)
  fix nd assume "nd \<in> set (m_nodes m)"
  then obtain u v where "meta_node alloc nd u = Inr v" using fold_res_steps [OF assms] by blast
  then obtain w where r: "fold_res (node_meta_row alloc nd) (emit_rounds nd) u = Inr w"
      "fold_res (\<lambda>ch. fold_res (child_meta_row alloc nd ch) (emit_rounds ch)) (nd_children nd) w = Inr v"
    by (auto simp: meta_node_def sum_bind_Inr_iff)
  obtain eo u1 v1 where "node_meta_row alloc nd eo u1 = Inr v1"
    using fold_res_steps [OF r(1)] emit_rounds_nonempty [of nd] by blast
  then show "nd_id nd \<noteq> None"
    by (auto simp: node_meta_row_def add_string_def c_string_def sum_bind_Inr_iff split: option.splits)
  fix ch assume "ch \<in> set (nd_children nd)"
  then obtain u2 v2 where "fold_res (child_meta_row alloc nd ch) (emit_rounds ch) u2 = Inr v2"
    using fold_res_steps [OF r(2)] by blast
  from fold_res_steps [OF this] obtain eo' u3 v3 where "child_meta_row alloc nd ch eo' u3 = Inr v3"
    using emit_rounds_nonempty [of ch] by blast
  then show "nd_id ch \<noteq> None"
    by (auto simp: child_meta_row_def add_string_def c_string_def sum_bind_Inr_iff split: option.splits)
qed

lemma no_ids_present: "no_ids (m_nodes m) \<subseteq> {Null_String} \<and> (ids_present m \<longrightarrow> no_ids (m_nodes m) = {})"
  by (fastforce simp: no_ids_def no_id_def ids_present_def split: if_splits)

lemma build_image_outcome:
  assumes a: "never_fails alloc" and e: "embeds em m"
  shows "if ids_present m then \<exists>data. build_image alloc em m = Inr data else build_image alloc em m = Inl Null_String"
proof -
  let ?st = "\<lparr>st_data = [], st_capacity = 65536\<rparr>"
  obtain b0 where b0: "kc_ipa_wbuf_append alloc \<lparr>wb_data = [], wb_capacity = 131072\<rparr> (replicate 92 NUL) = Inr b0" "0 < wb_capacity b0"
    using wbuf_append_total [OF a, of "\<lparr>wb_data = [], wb_capacity = 131072\<rparr>"] by auto
  have ct: "yields (no_ids (m_nodes m)) (\<lambda>(x, lb, mt). length (lb_node lb) = length (node_entries (m_nodes m)) \<and>
      length (lb_child lb) = length (child_entries (m_nodes m)) \<and> length (mt_node mt) = length (node_rows (m_nodes m)) \<and>
      length (mt_child mt) = length (child_rows (m_nodes m))) (collect_strings alloc m ?st)"
    by (rule collect_strings_total [OF a]) simp
  show ?thesis
  proof (cases "collect_strings alloc m ?st")
    case (Inl s)
    with ct have "s \<in> no_ids (m_nodes m)" by simp
    then have "s = Null_String" "\<not> ids_present m" using no_ids_present [of m] by auto
    with Inl a b0 show ?thesis by (simp add: build_image_def kc_ipa_strtab_init_def kc_ipa_wbuf_init_def)
  next
    case (Inr r)
    obtain i v w lb mt where r: "r = ((i, v, w), lb, mt)" by (metis prod_cases3)
    with Inr have p: "ids_present m"
      by (auto simp: collect_strings_def sum_bind_Inr_iff dest: meta_ids)
    obtain b1 where b1: "kc_ipa_wbuf_append alloc b0 (st_data (mt_strtab mt)) = Inr b1" "0 < wb_capacity b1"
      using wbuf_append_total [OF a b0(2)] by blast
    have len: "length (lb_node lb) = length (node_entries (m_nodes m))" "length (lb_child lb) = length (child_entries (m_nodes m))"
        "length (mt_node mt) = length (node_rows (m_nodes m))" "length (mt_child mt) = length (child_rows (m_nodes m))"
      using ct Inr r by simp_all
    have "alloc 65536" "alloc 131072" using a by blast+
    with write_tables_total [OF a e b1(2) len] p Inr r b0 b1 show ?thesis
      by (auto simp: build_image_def kc_ipa_strtab_init_def kc_ipa_wbuf_init_def Let_def)
  qed
qed

text \<open>C14. Given memory, a validated manifest whose descriptions can all be embedded compiles, and what
  is written is the compiled image (cut short, with an error status, when the output file takes
  fewer bytes), provided that every node and every child has an \<open>id\<close>. A child without one passes
  validation, which looks at the nodes only, and the compiler then calls \<open>strlen\<close> on a null
  pointer.\<close>

theorem valid_manifest_compiles:
  assumes "never_fails alloc" "read_schema alloc fin = Inr src" "kc_ipa_parse_manifest alloc fp src 0 = Inr (m, q)"
    and "kc_ipa_validate_manifest m = None" "0 < em_dim em" "embeds em m"
  shows "if ids_present m
    then \<exists>data. build_image alloc em m = Inr data \<and> kc_ipa_build alloc fp (Some em) fin fout = Inr (write_image fout data)
    else kc_ipa_build alloc fp (Some em) fin fout = Inl Null_String"
  using build_image_outcome [OF assms(1,6)] assms(1-5) by (auto simp: kc_ipa_build_def)

text \<open>A manifest with a nameless child.\<close>

definition orphan_manifest :: kc_ipa_manifest_t where
  "orphan_manifest = sample_manifest\<lparr>m_nodes := [NodeDef (Some ''n'') [''turn on''] [] [NodeDef None [''light''] [] []]]\<rparr>"

lemma sample_embeds: "embeds sample_embedder m"
  by (simp add: embeds_def sample_embedder_def)

lemma valid_manifest_compiles_witness:
  "(\<exists>data. kc_ipa_build granting sample_fp (Some sample_embedder) sample_input (Some (2 ^ 32)) = Inr (KC_IPA_OK, Some data)) \<and>
   ids_present sample_manifest"
proof -
  have i: "ids_present sample_manifest" by (simp add: ids_present_def sample_manifest_def)
  obtain d where d: "build_image granting sample_embedder sample_manifest = Inr d" "length d < 2 ^ 32" using sample_image by blast
  from i d(1) valid_manifest_compiles [OF _ sample_read sample_parsed sample_valid _ sample_embeds, of "Some (2 ^ 32)"]
  have "kc_ipa_build granting sample_fp (Some sample_embedder) sample_input (Some (2 ^ 32)) = Inr (write_image (Some (2 ^ 32)) d)"
    by (auto simp: sample_embedder_def)
  with i d(2) show ?thesis by (simp add: write_image_def)
qed

lemma orphan_passes_validation: "kc_ipa_validate_manifest orphan_manifest = None \<and> \<not> ids_present orphan_manifest"
  using sample_valid by (simp add: orphan_manifest_def ids_present_def kc_ipa_validate_manifest_def sample_manifest_def default_manifest_def
      blank_def split: if_splits)

end
