(* ===== verification/Open_Safety.thy ===== *)
theory Open_Safety
  imports Loader
begin

section \<open>Opening arbitrary files\<close>

text \<open>
  What holds of \<open>kc_ipa_open\<close> for every file, compiled or not: the operating-system resources are
  balanced, the tables are only read inside the mapping, and the one read that can leave the mapping
  is that of a label, whose offset is checked against the file but used from the string table.
\<close>

subsection \<open>Resources\<close>

lemma load_schema_mmap: "load_schema ho addr1 addr2 mem s = Inr s' \<Longrightarrow> sc_mmap s' = sc_mmap s"
  by (auto simp: load_schema_def Let_def sum_bind_Inr_iff split: if_splits option.splits)

lemma close_schema: "snd (kc_ipa_close (Some s) os) = snd (kc_mmap_close (Some (sc_mmap s)) os)"
  by (simp add: kc_ipa_close_def)

lemma open_restores:
  assumes f: "fresh_calls (ho_sys ho) path os"
    and o: "kc_ipa_open ho addr1 addr2 True (Some \<lparr>schema_path = Some path\<rparr>) os = Inr (rc, sc, os')"
  shows "(rc = KC_IPA_OK \<longrightarrow> (\<exists>s. sc = Some s \<and> snd (kc_ipa_close (Some s) os') = os)) \<and>
    (rc \<noteq> KC_IPA_OK \<longrightarrow> sc = None \<and> os' = os)"
proof (cases "\<not> ho_alloc ho 184 \<or> strdup (ho_alloc ho) path = None \<or> \<not> ho_mutex_init ho")
  case True
  with o show ?thesis by (auto simp: kc_ipa_open_def)
next
  case False
  obtain mrc mp os1 where m: "kc_mmap_open (ho_sys ho) (Some no_map) (Some path) os = (mrc, mp, os1)" by (metis prod_cases3)
  then obtain m0 where mp: "mp = Some m0"
    by (auto simp: kc_mmap_open_def Let_def split: if_splits option.splits)
  have "mmap_acquire (ho_sys ho) path os = (mrc = KC_MMAP_OK, mp, os1)"
    using m by (simp add: mmap_acquire_def)
  from mapping.undone [OF f this] have u: "snd (kc_mmap_close (Some m0) os1) = os" by (simp add: mp)
  let ?s = "(new_schema \<lparr>schema_path = Some path\<rparr>)\<lparr>sc_mmap := m0\<rparr>"
  have o': "(if mrc \<noteq> KC_MMAP_OK then Inr (KC_IPA_ERROR, None, snd (kc_ipa_close (Some ?s) os1))
      else case load_schema ho addr1 addr2 (mapped m0 os1) ?s of
             Inl Fault \<Rightarrow> Inl Outside_Mapping
           | Inl Gives_Up \<Rightarrow> Inr (KC_IPA_ERROR, None, snd (kc_ipa_close (Some ?s) os1))
           | Inr sc \<Rightarrow> Inr (KC_IPA_OK, Some sc, os1)) = Inr (rc, sc, os')"
  proof -
    obtain dup where "strdup (ho_alloc ho) path = Some dup" "ho_alloc ho 184" "ho_mutex_init ho" using False by auto
    with o show ?thesis
      by (cases mrc; cases "load_schema ho addr1 addr2 (mapped m0 os1) ?s")
        (auto simp: kc_ipa_open_def m mp Let_def split: load_stop.splits)
  qed
  then show ?thesis
    using u load_schema_mmap [of ho addr1 addr2 "mapped m0 os1" ?s]
    by (auto simp: close_schema split: if_splits sum.splits load_stop.splits)
qed

text \<open>C16. Opening a schema leaks no descriptor and no mapping, whatever the file holds: a failed open
  returns no handle and leaves the operating-system state as it was, and closing the handle of a
  successful one restores that state.\<close>

theorem open_close_balanced:
  assumes f: "fresh_calls (ho_sys ho) path os"
    and o: "kc_ipa_open ho addr1 addr2 True (Some \<lparr>schema_path = Some path\<rparr>) os = Inr (rc, sc, os')"
  shows "(rc = KC_IPA_OK \<longrightarrow> (\<exists>s. sc = Some s \<and> snd (kc_ipa_close (Some s) os') = os)) \<and>
    (rc \<noteq> KC_IPA_OK \<longrightarrow> sc = None \<and> os' = os)"
  using assms by (rule open_restores)

lemma open_close_balanced_witness:
  "\<exists>data s os'. kc_ipa_open (sample_host data) 1 2 True (Some \<lparr>schema_path = Some ''a.ipa''\<rparr>) \<lparr>os_fds = {}, os_maps = Map.empty\<rparr> =
       Inr (KC_IPA_OK, Some s, os') \<and> snd (kc_ipa_close (Some s) os') = \<lparr>os_fds = {}, os_maps = Map.empty\<rparr>"
proof -
  let ?os = "\<lparr>os_fds = {}, os_maps = Map.empty\<rparr>"
  obtain data s os' where o: "kc_ipa_open (sample_host data) 1 2 True (Some \<lparr>schema_path = Some ''a.ipa''\<rparr>) ?os = Inr (KC_IPA_OK, Some s, os')"
    using sample_opens by blast
  have "fresh_calls (ho_sys (sample_host data)) ''a.ipa'' ?os" by (simp add: fresh_calls_def sample_host_def)
  from open_close_balanced [OF this o] o show ?thesis by blast
qed

subsection \<open>Reads\<close>

lemma sum_bind_Inl_iff: "sum_bind m f = Inl e \<longleftrightarrow> m = Inl e \<or> (\<exists>x. m = Inr x \<and> f x = Inl e)"
  by (cases m) auto

lemma map_sum_Inl_iff: "map_sum id g m = Inl e \<longleftrightarrow> m = Inl e"
  by (cases m) auto

text \<open>An entry of a table of embeddings, inside the file, whose label passes the bounds check and is not a string
  of the file: the check is made against the file, and the label is read from the string table on.\<close>

definition stray_label :: "string \<Rightarrow> nat \<Rightarrow> u32 \<Rightarrow> u32 \<Rightarrow> u32 \<Rightarrow> bool" where
  "stray_label mem strtab emb_off emb_count emb_dim \<longleftrightarrow>
     (\<exists>i \<in> set [0..<unat emb_count].
        let entry_off = unat emb_off + i * emb_stride emb_dim; eh = ref_at mem entry_off
        in entry_off + emb_stride emb_dim \<le> length mem \<and>
           kc_ipa_bounds_ok (length mem) (ref_off eh) (unat (ref_len eh) + 1) \<and>
           string_at mem (strtab + unat (ref_off eh)) = None)"

definition stops :: "string \<Rightarrow> nat \<Rightarrow> u32 \<Rightarrow> u32 \<Rightarrow> u32 \<Rightarrow> load_stop set" where
  "stops mem strtab off cnt edim = insert Gives_Up (if stray_label mem strtab off cnt edim then {Fault} else {})"

lemma add_keeps_array:
  assumes "array_ok h" "kc_hnsw_add alloc rnd lk (Some h) (Some n) (Some v) = (rc, Some h')"
  shows "rc \<noteq> OUT_OF_BOUNDS \<and> (rc = KC_HNSW_OK \<longrightarrow> array_ok h' \<and> same_frame h h' \<and> hn_count h' = Suc (hn_count h))"
proof (cases "n = [] \<or> \<not> lk")
  case True
  with assms(2) show ?thesis by (auto simp: kc_hnsw_add_def split: if_splits)
next
  case False
  with assms(2) have "add_locked alloc rnd h n v = (rc, h')" by (auto simp: kc_hnsw_add_def split: prod.splits)
  from add_locked_spec [OF assms(1) this] show ?thesis by auto
qed

lemma load_entry_inside:
  assumes small: "length mem < 2 ^ 32" and h: "array_ok h" and pos: "i = 0 \<or> unat off + i * emb_stride edim \<le> length mem"
    and cnt: "i < unat cnt"
  shows "yields (stops mem strtab off cnt edim) (\<lambda>h'. array_ok h' \<and> same_frame h h' \<and> hn_count h' = Suc (hn_count h) \<and>
      unat off + Suc i * emb_stride edim \<le> length mem)
    (load_entry_at ho mem off edim strtab i h)"
proof -
  let ?s = "emb_stride edim" and ?eo = "unat off + i * emb_stride edim"
  have "?eo < 2 ^ 32"
  proof (cases "i = 0")
    case True
    have "unat off < 2 ^ LENGTH(32)" by (rule unsigned_less)
    with True show ?thesis by simp
  qed (use pos small in simp)
  then have eo: "?eo mod 2 ^ 64 = ?eo" "unat (of_nat ?eo :: u32) = ?eo"
    by (simp, rule unat_of_nat_u32)
  have ed: "unat edim < 2 ^ LENGTH(32)" by (rule unsigned_less)
  then have st: "?eo + ?s < 2 ^ 64" using \<open>?eo < 2 ^ 32\<close> by (simp add: emb_stride_def)
  show ?thesis
  proof (cases "kc_ipa_bounds_ok (length mem) (of_nat ?eo) ?s")
    case False
    with eo show ?thesis by (simp add: load_entry_at_def stops_def Let_def)
  next
    case True
    then have inside: "?eo + ?s \<le> length mem" using eo st by (simp add: kc_ipa_bounds_ok_def)
    let ?eh = "ref_at mem ?eo"
    show ?thesis
    proof (cases "kc_ipa_bounds_ok (length mem) (ref_off ?eh) (unat (ref_len ?eh) + 1)")
      case False
      with True inside eo show ?thesis by (simp add: load_entry_at_def stops_def Let_def)
    next
      case label: True
      show ?thesis
      proof (cases "string_at mem (strtab + unat (ref_off ?eh))")
        case None
        with label inside cnt have "stray_label mem strtab off cnt edim"
          unfolding stray_label_def Let_def by (intro bexI [of _ i]) simp_all
        with True inside eo label None show ?thesis by (simp add: load_entry_at_def stops_def Let_def)
      next
        case (Some nm)
        let ?v = "map f32_real (words_at mem (?eo + 8) (unat edim))"
        obtain rc ho' where a: "kc_hnsw_add (ho_alloc ho) (ho_rnd ho) (ho_rwlock ho) (Some h) (Some nm) (Some ?v) = (rc, ho')"
          by fastforce
        then obtain h' where h': "ho' = Some h'" by (auto simp: kc_hnsw_add_def split: if_splits prod.splits)
        have "load_entry_at ho mem off edim strtab i h =
            (if rc = OUT_OF_BOUNDS then Inl Fault else if rc \<noteq> KC_HNSW_OK then Inl Gives_Up else Inr h')"
          using True inside eo label Some a h' by (simp add: load_entry_at_def Let_def)
        with add_keeps_array [OF h a [unfolded h']] inside show ?thesis by (auto simp: stops_def algebra_simps)
      qed
    qed
  qed
qed


lemma load_index_inside:
  assumes small: "length mem < 2 ^ 32"
  shows "yields (stops mem strtab off cnt edim) (\<lambda>_. True) (load_index ho addr mem off cnt edim strtab)"
proof (cases "kc_hnsw_open (ho_alloc ho) (ho_hnsw_ef ho) (ho_rwlock_init ho) (ho_time ho) addr (unat edim) KC_HNSW_METRIC_COSINE")
  case None
  then show ?thesis by (simp add: load_index_def stops_def)
next
  case (Some h0)
  have h0: "array_ok h0" "hn_items h0 = []" "1 \<le> to_size (hn_ef_construction h0)"
    using open_array_ok [OF Some] Some by (auto simp: kc_hnsw_open_def Let_def to_size_def split: if_splits)
  show ?thesis
  proof (cases "cnt = 0 \<or> \<not> ho_rwlock ho")
    case True
    with Some show ?thesis by (auto simp: load_index_def stops_def kc_hnsw_reserve_def)
  next
    case False
    obtain rc h1 where r: "kc_hnsw_reserve_locked (ho_alloc ho) h0 (unat cnt) = (rc, h1)" by fastforce
    have h1: "array_ok h1" "hn_items h1 = []" "hn_ef_construction h1 = hn_ef_construction h0"
      using reserve_array_ok [OF h0(1) r] h0(2) r by (auto simp: kc_hnsw_reserve_locked_def split: if_splits)
    let ?fin = "\<lambda>h2. case kc_hnsw_build (ho_alloc ho) (ho_rnd ho) True (Some h2) of
        (rc, Some h3) \<Rightarrow> if rc = OUT_OF_BOUNDS then Inl Fault else if rc \<noteq> KC_HNSW_OK then Inl Gives_Up else Inr h3
      | (_, None) \<Rightarrow> Inl Gives_Up"
    have l: "load_index ho addr mem off cnt edim strtab = (if rc \<noteq> KC_HNSW_OK then Inl Gives_Up
        else sum_bind (fold_res (load_entry_at ho mem off edim strtab) [0..<unat cnt] h1) ?fin)"
      using Some False r by (simp add: load_index_def kc_hnsw_reserve_def)
    let ?I = "\<lambda>i h. array_ok h \<and> same_frame h1 h \<and> hn_count h = i \<and> (i = 0 \<or> unat off + i * emb_stride edim \<le> length mem)"
    have "yields (stops mem strtab off cnt edim) (?I (unat cnt)) (fold_res (load_entry_at ho mem off edim strtab) [0..<unat cnt] h1)"
    proof (rule yields_upt [where I = ?I])
      fix i h assume i: "i < unat cnt" and I: "?I i h"
      then show "yields (stops mem strtab off cnt edim) (?I (Suc i)) (load_entry_at ho mem off edim strtab i h)"
        by (intro yields_mono [OF load_entry_inside [OF small _ _ i]]) (auto simp: same_frame_def)
    qed (use h1 in \<open>simp add: same_frame_def\<close>)
    then have "yields (stops mem strtab off cnt edim) (\<lambda>_. True) (sum_bind (fold_res (load_entry_at ho mem off edim strtab) [0..<unat cnt] h1) ?fin)"
    proof (rule yields_bind)
      fix h2 assume I: "?I (unat cnt) h2"
      obtain rc' h3 where b: "build_locked (ho_alloc ho) (ho_rnd ho) h2 = (rc', h3)" by fastforce
      have "hn_count h2 \<noteq> 0" using I False by (simp add: unat_eq_0)
      moreover have "1 \<le> to_size (hn_ef_construction h2)" using I h1(3) h0(3) by (simp add: same_frame_def)
      ultimately have "rc' \<noteq> OUT_OF_BOUNDS" using build_locked_ok [OF _ _ b] by (auto simp: oom_def split: if_splits)
      then show "yields (stops mem strtab off cnt edim) (\<lambda>_. True) (?fin h2)" using b by (simp add: kc_hnsw_build_def stops_def)
    qed
    then show ?thesis unfolding l by (simp add: stops_def)
  qed
qed

lemma load_schema_inside:
  assumes small: "length mem < 2 ^ 32" and l: "load_schema ho addr1 addr2 mem s = Inl Fault"
  shows "let hdr = file_hdr_at mem; strtab = unat (h_strtab_off hdr) in
    stray_label mem strtab (h_node_emb_off hdr) (h_node_emb_count hdr) (h_emb_dim hdr) \<or>
    stray_label mem strtab (h_child_emb_off hdr) (h_child_emb_count hdr) (h_emb_dim hdr)"
proof -
  let ?h = "file_hdr_at mem"
  let ?st = "unat (h_strtab_off ?h)"
  have ix: "stray_label mem ?st off cnt edim" if "load_index ho addr mem off cnt edim ?st = Inl Fault" for addr off cnt edim
    using yields_InlD [OF load_index_inside [OF small, of ?st off cnt edim ho addr] that] by (auto simp: stops_def split: if_splits)
  from l have "load_index ho addr1 mem (h_node_emb_off ?h) (h_node_emb_count ?h) (h_emb_dim ?h) ?st = Inl Fault \<or>
      load_index ho addr2 mem (h_child_emb_off ?h) (h_child_emb_count ?h) (h_emb_dim ?h) ?st = Inl Fault"
    by (auto simp: load_schema_def load_node_meta_def load_child_meta_def Let_def sum_bind_Inl_iff map_sum_Inl_iff
        split: option.splits if_splits)
  with ix show ?thesis unfolding Let_def by blast
qed


text \<open>C15. Whatever a file below 4 GiB holds, the only read of \<open>kc_ipa_open\<close> that can leave the mapping
  is that of the label of one of its embeddings: the header, the embedding tables and the metadata rows are
  read inside the file, and building the indexes stays inside their arrays. When the open faults, the header has
  passed its checks and one of the two tables that it describes has an entry, inside the file, whose label passes the
  bounds check and is not a string of the file. This can be because the label's offset is checked against the
  size of the file but then used as an offset into the string table. (Of a file of 4 GiB or more the check of
  an entry looks at its offset modulo \<open>2\<^sup>3\<^sup>2\<close>.)\<close>

theorem open_faults_only_on_labels:
  assumes f: "file_at (ho_sys ho) path mem" and small: "length mem < 2 ^ 32"
    and o: "kc_ipa_open ho addr1 addr2 True (Some \<lparr>schema_path = Some path\<rparr>) os = Inl Outside_Mapping"
  shows "header_ok mem \<and>
    (let hdr = file_hdr_at mem; strtab = unat (h_strtab_off hdr) in
       stray_label mem strtab (h_node_emb_off hdr) (h_node_emb_count hdr) (h_emb_dim hdr) \<or>
       stray_label mem strtab (h_child_emb_off hdr) (h_child_emb_count hdr) (h_emb_dim hdr))"
proof -
  obtain s where l: "load_schema ho addr1 addr2 mem s = Inl Fault"
  proof (cases "mem = []")
    case True
    then have "load_schema ho addr1 addr2 (mapped no_map os') s = Inl Gives_Up" for s os'
      by (simp add: load_schema_def header_ok_def mapped_def no_map_def)
    with o f True have False
      by (auto simp: kc_ipa_open_def kc_mmap_open_def file_at_def Let_def split: if_splits)
    then show ?thesis ..
  next
    case False
    with o f that show ?thesis
      by (auto simp: kc_ipa_open_def kc_mmap_open_def file_at_def mapped_def Let_def split: if_splits sum.splits load_stop.splits)
  qed
  then have "header_ok mem" by (auto simp: load_schema_def split: if_splits)
  with load_schema_inside [OF small l] show ?thesis by blast
qed

text \<open>A file of 108 bytes with a well-formed header and one embedding whose label starts at offset 50.
  The check accepts it (50 + 0 + 1 is at most 108); the string table starts at 92, so the label is
  read from offset 142 on.\<close>

definition stray_hdr :: kc_ipa_file_hdr_t where
  "stray_hdr =
     \<lparr>h_magic = ''KIPA'', h_version = 1, h_file_size = 108, h_strtab_off = 92, h_strtab_size = 0,
      h_id = no_ref, h_vendor = no_ref, h_schemaver = no_ref, h_node_threshold = 0, h_min_ngram = 1, h_max_ngram = 1,
      h_emb_dim = 2, h_node_emb_off = 92, h_node_emb_count = 1, h_child_emb_off = 0, h_child_emb_count = 0,
      h_node_meta_off = 0, h_node_meta_count = 0, h_child_meta_off = 0, h_child_meta_count = 0\<rparr>"

definition stray_file :: string where
  "stray_file = hdr_bytes stray_hdr @ le32s [50, 0, 0, 0]"

lemma stray_file_parts:
  "length stray_file = 108" "file_hdr_at stray_file = stray_hdr" "ref_at stray_file 92 = \<lparr>ref_off = 50, ref_len = 0\<rparr>"
proof -
  have l: "length (hdr_bytes stray_hdr) = 92" by (simp add: hdr_bytes_length stray_hdr_def)
  then show "length stray_file = 108" by (simp add: stray_file_def)
  show "file_hdr_at stray_file = stray_hdr"
    unfolding stray_file_def by (rule file_hdr_at_bytes) (simp add: stray_hdr_def)
  show "ref_at stray_file 92 = \<lparr>ref_off = 50, ref_len = 0\<rparr>"
    using word_at_le32s [of 0 "[50, 0, 0, 0]" "hdr_bytes stray_hdr" "[]"] word_at_le32s [of 1 "[50, 0, 0, 0]" "hdr_bytes stray_hdr" "[]"] l
    by (simp add: ref_at_def stray_file_def)
qed

lemma stray_file_faults: "load_schema (sample_host stray_file) 1 2 stray_file s = Inl Fault"
proof -
  have "header_ok stray_file"
    using stray_file_parts by (simp add: header_ok_def Let_def stray_hdr_def kc_ipa_bounds_ok_def)
  moreover have "load_entry_at (sample_host stray_file) stray_file 92 2 92 0 h = Inl Fault" for h
    using stray_file_parts
    by (simp add: load_entry_at_def Let_def emb_stride_def kc_ipa_bounds_ok_def string_at_def)
  moreover have "kc_hnsw_open granting None True 7 1 2 KC_HNSW_METRIC_COSINE \<noteq> None"
    by (simp add: kc_hnsw_open_def kc_hnsw_metric_valid_def Let_def)
  ultimately show ?thesis
    using stray_file_parts(2)
    by (auto simp: load_schema_def Let_def stray_hdr_def sample_host_def sample_embedder_def load_index_def kc_hnsw_reserve_def
        kc_hnsw_reserve_locked_def split: prod.splits if_splits)
qed

lemma open_faults_only_on_labels_witness:
  "kc_ipa_open (sample_host stray_file) 1 2 True (Some \<lparr>schema_path = Some ''a.ipa''\<rparr>) \<lparr>os_fds = {}, os_maps = Map.empty\<rparr> =
     Inl Outside_Mapping \<and> header_ok stray_file \<and> stray_label stray_file 92 92 1 2"
proof -
  have o: "kc_ipa_open (sample_host stray_file) 1 2 True (Some \<lparr>schema_path = Some ''a.ipa''\<rparr>) \<lparr>os_fds = {}, os_maps = Map.empty\<rparr> =
     Inl Outside_Mapping"
    using stray_file_faults stray_file_parts(1)
    by (simp add: kc_ipa_open_def strdup_def kc_mmap_open_def mapped_def Let_def) (simp add: sample_host_def mapped_def)
  have "\<not> stray_label stray_file 92 0 0 2" by (simp add: stray_label_def)
  with open_faults_only_on_labels [OF sample_hyps(3) _ o] stray_file_parts(1,2) o show ?thesis
    by (simp add: Let_def stray_hdr_def)
qed

end
