(* ===== verification/Signals.thy ===== *)
theory Signals
  imports Runtime
begin

section \<open>Signal handlers (src/libipa.c: kc\_ipa\_on\_signal, kc\_ipa\_raise\_signal, listeners)\<close>

text \<open>
  The handler table of a schema handle and the process-wide listener. A callback is a number; what
  calling it does to the handle is the parameter \<open>call\<close>. Handles are addresses into a heap of live
  schemas, because the listener keeps one in the global \<open>g_signal_ctx\<close> across other calls.
\<close>

subsection \<open>The handler table\<close>

abbreviation (input) sizeof_signal_entry :: nat where "sizeof_signal_entry \<equiv> 16"

text \<open>The loop over the entries: the index of the first entry for a signal, or the number of entries.\<close>

definition find_signal :: "kc_ipa_signal_entry_t list \<Rightarrow> int \<Rightarrow> nat" where
  "find_signal hs sg = scan_while (\<lambda>e. se_sig e \<noteq> sg) hs 0"

definition kc_ipa_on_signal ::
    "allocator \<Rightarrow> kc_ipa_schema \<Rightarrow> int \<Rightarrow> nat option \<Rightarrow> ipa_status \<times> kc_ipa_schema" where
  "kc_ipa_on_signal alloc ctx sg cb =
     (let hs = sc_signal_handlers ctx; i = find_signal hs sg
      in if i < length hs
         then (case cb of
                 Some c \<Rightarrow> (KC_IPA_OK, ctx\<lparr>sc_signal_handlers := hs[i := (hs ! i)\<lparr>se_cb := c\<rparr>]\<rparr>)
               | None \<Rightarrow> (KC_IPA_OK, ctx\<lparr>sc_signal_handlers := take i hs @ drop (i + 1) hs\<rparr>))
         else case cb of
                None \<Rightarrow> (KC_IPA_OK, ctx)
              | Some c \<Rightarrow>
                  if length hs \<ge> sc_signal_handlers_capacity ctx
                  then let new_cap = (if sc_signal_handlers_capacity ctx \<noteq> 0 then sc_signal_handlers_capacity ctx * 2 else 4)
                       in if \<not> alloc (new_cap * sizeof_signal_entry) then (KC_IPA_ERROR, ctx)
                          else (KC_IPA_OK, ctx\<lparr>sc_signal_handlers_capacity := new_cap,
                                               sc_signal_handlers := hs @ [\<lparr>se_sig = sg, se_cb = c\<rparr>]\<rparr>)
                  else (KC_IPA_OK, ctx\<lparr>sc_signal_handlers := hs @ [\<lparr>se_sig = sg, se_cb = c\<rparr>]\<rparr>))"

definition kc_ipa_raise_signal ::
    "(nat \<Rightarrow> kc_ipa_schema \<Rightarrow> kc_ipa_schema) \<Rightarrow> kc_ipa_schema \<Rightarrow> int \<Rightarrow> ipa_status \<times> kc_ipa_schema" where
  "kc_ipa_raise_signal call ctx sg =
     (let hs = sc_signal_handlers ctx; i = find_signal hs sg
      in if i < length hs then (KC_IPA_OK, call (se_cb (hs ! i)) ctx) else (KC_IPA_ERROR, ctx))"

subsection \<open>A table of handlers is a finite map\<close>

text \<open>What a user of a registry relies on: a registered callback is found until it is replaced or
  removed, and no other key is affected.\<close>

locale registry =
  fixes look :: "'t \<Rightarrow> 'k \<Rightarrow> 'v option" and put :: "'t \<Rightarrow> 'k \<Rightarrow> 'v option \<Rightarrow> bool \<times> 't" and inv :: "'t \<Rightarrow> bool"
  assumes put_look: "inv t \<Longrightarrow> put t k v = (True, t') \<Longrightarrow> look t' = (look t)(k := v)"
    and put_failed: "inv t \<Longrightarrow> put t k v = (False, t') \<Longrightarrow> look t' = look t"
    and put_inv: "inv t \<Longrightarrow> put t k v = (b, t') \<Longrightarrow> inv t'"
begin

primrec puts :: "('k \<times> 'v option) list \<Rightarrow> 't \<Rightarrow> 't" where
  "puts [] t = t"
| "puts (u # us) t = puts us (snd (put t (fst u) (snd u)))"

text \<open>The last successful write of a key decides.\<close>

lemma puts_untouched: "inv t \<Longrightarrow> k \<notin> fst ` set us \<Longrightarrow> look (puts us t) k = look t k"
proof (induction us arbitrary: t)
  case (Cons u us)
  obtain b t' where p: "put t (fst u) (snd u) = (b, t')" by fastforce
  have "look t' k = look t k"
    using put_look [OF Cons.prems(1)] put_failed [OF Cons.prems(1)] p Cons.prems(2) by (cases b) auto
  with Cons.IH [OF put_inv [OF Cons.prems(1) p]] Cons.prems(2) p show ?case by simp
qed simp

lemma puts_inv: "inv t \<Longrightarrow> inv (puts us t)"
proof (induction us arbitrary: t)
  case (Cons u us)
  obtain b t' where "put t (fst u) (snd u) = (b, t')" by fastforce
  with Cons put_inv show ?case by fastforce
qed simp

lemma puts_last:
  assumes "inv t" "put t k v = (True, t')" "k \<notin> fst ` set us"
  shows "look (puts us t') k = v"
  using puts_untouched [OF put_inv [OF assms(1,2)] assms(3)] put_look [OF assms(1,2)] by simp

end

text \<open>The table of a handle.\<close>

definition handlers :: "kc_ipa_schema \<Rightarrow> int \<Rightarrow> nat option" where
  "handlers ctx = map_of (map (\<lambda>e. (se_sig e, se_cb e)) (sc_signal_handlers ctx))"

definition handlers_ok :: "kc_ipa_schema \<Rightarrow> bool" where
  "handlers_ok ctx \<longleftrightarrow> distinct (map se_sig (sc_signal_handlers ctx)) \<and>
     length (sc_signal_handlers ctx) \<le> sc_signal_handlers_capacity ctx"

lemma find_signal_spec:
  "find_signal hs sg < length hs \<Longrightarrow> se_sig (hs ! find_signal hs sg) = sg"
  "\<not> find_signal hs sg < length hs \<Longrightarrow> sg \<notin> se_sig ` set hs"
proof -
  show "find_signal hs sg < length hs \<Longrightarrow> se_sig (hs ! find_signal hs sg) = sg"
    using scan_while_stop [of "\<lambda>e. se_sig e \<noteq> sg" hs 0] by (simp add: find_signal_def)
  assume "\<not> find_signal hs sg < length hs"
  then have "\<And>j. j < length hs \<Longrightarrow> se_sig (hs ! j) \<noteq> sg"
    using scan_while_all [of 0 _ "\<lambda>e. se_sig e \<noteq> sg" hs] by (simp add: find_signal_def)
  then show "sg \<notin> se_sig ` set hs" by (metis imageE in_set_conv_nth)
qed

lemma distinct_entry:
  fixes hs :: "kc_ipa_signal_entry_t list"
  assumes "distinct (map se_sig hs)" "i < length hs"
  shows "map_of (map (\<lambda>e. (se_sig e, se_cb e)) (hs[i := (hs ! i)\<lparr>se_cb := c\<rparr>])) =
      (map_of (map (\<lambda>e. (se_sig e, se_cb e)) hs))(se_sig (hs ! i) \<mapsto> c)"
    "map_of (map (\<lambda>e. (se_sig e, se_cb e)) (take i hs @ drop (Suc i) hs)) =
      (map_of (map (\<lambda>e. (se_sig e, se_cb e)) hs))(se_sig (hs ! i) := None)"
proof -
  let ?kv = "\<lambda>e :: kc_ipa_signal_entry_t. (se_sig e, se_cb e)"
  have hs: "hs = take i hs @ hs ! i # drop (Suc i) hs" using assms(2) by (rule id_take_nth_drop)
  then have d: "distinct (map se_sig (take i hs @ hs ! i # drop (Suc i) hs))" using assms(1) by simp
  have up: "hs[i := (hs ! i)\<lparr>se_cb := c\<rparr>] = take i hs @ (hs ! i)\<lparr>se_cb := c\<rparr> # drop (Suc i) hs"
    using assms(2) by (rule upd_conv_take_nth_drop)
  have out: "map_of (map ?kv (take i hs)) (se_sig (hs ! i)) = None" "map_of (map ?kv (drop (Suc i) hs)) (se_sig (hs ! i)) = None"
    using d by (auto simp: map_of_eq_None_iff)
  have m: "map_of (map ?kv hs) = map_of (map ?kv (take i hs @ hs ! i # drop (Suc i) hs))" using hs by simp
  show "map_of (map ?kv (hs[i := (hs ! i)\<lparr>se_cb := c\<rparr>])) = (map_of (map ?kv hs))(se_sig (hs ! i) \<mapsto> c)"
    unfolding up m using out by (auto simp: map_add_def fun_eq_iff split: option.splits)
  show "map_of (map ?kv (take i hs @ drop (Suc i) hs)) = (map_of (map ?kv hs))(se_sig (hs ! i) := None)"
    unfolding m using out by (auto simp: map_add_def fun_eq_iff split: option.splits)
qed

definition put_handler :: "allocator \<Rightarrow> kc_ipa_schema \<Rightarrow> int \<Rightarrow> nat option \<Rightarrow> bool \<times> kc_ipa_schema" where
  "put_handler alloc ctx sg cb = (case kc_ipa_on_signal alloc ctx sg cb of (rc, ctx') \<Rightarrow> (rc = KC_IPA_OK, ctx'))"

lemma on_signal_handlers:
  assumes "handlers_ok ctx" "kc_ipa_on_signal alloc ctx sg cb = (rc, ctx')"
  shows "(if rc = KC_IPA_OK then handlers ctx' = (handlers ctx)(sg := cb) else ctx' = ctx) \<and> handlers_ok ctx'"
proof -
  let ?hs = "sc_signal_handlers ctx" and ?kv = "\<lambda>e :: kc_ipa_signal_entry_t. (se_sig e, se_cb e)"
  let ?i = "find_signal ?hs sg"
  have ok: "distinct (map se_sig ?hs)" "length ?hs \<le> sc_signal_handlers_capacity ctx"
    using assms(1) by (auto simp: handlers_ok_def)
  show ?thesis
  proof (cases "?i < length ?hs")
    case True
    note s = find_signal_spec(1) [OF True] and e = distinct_entry [OF ok(1) True]
    have hs: "?hs = take ?i ?hs @ ?hs ! ?i # drop (Suc ?i) ?hs" using True by (rule id_take_nth_drop)
    have "distinct (map se_sig (take ?i ?hs @ drop (Suc ?i) ?hs))"
    proof -
      have "distinct (map se_sig (take ?i ?hs @ ?hs ! ?i # drop (Suc ?i) ?hs))" using hs ok(1) by simp
      then show ?thesis by auto
    qed
    moreover have "map se_sig (?hs[?i := (?hs ! ?i)\<lparr>se_cb := c\<rparr>]) = map se_sig ?hs" for c
      using True by (simp add: map_update list_update_same_conv)
    ultimately show ?thesis
      using assms(2) True s e ok by (auto simp: kc_ipa_on_signal_def Let_def handlers_def handlers_ok_def split: option.splits)
  next
    case False
    note n = find_signal_spec(2) [OF False]
    then have none: "handlers ctx sg = None" by (auto simp: handlers_def map_of_eq_None_iff)
    have app: "map_of (map ?kv (?hs @ [\<lparr>se_sig = sg, se_cb = c\<rparr>])) = (map_of (map ?kv ?hs))(sg \<mapsto> c)" for c
      using none by (auto simp: handlers_def map_add_def fun_eq_iff split: option.splits)
    have "(handlers ctx)(sg := None) = handlers ctx" using none by auto
    with assms(2) False n ok app show ?thesis
      by (auto simp: kc_ipa_on_signal_def Let_def handlers_def handlers_ok_def Suc_le_eq split: option.splits if_splits)
  qed
qed

interpretation sigtab: registry handlers "put_handler alloc" handlers_ok
proof (unfold_locales, goal_cases)
  case (1 t k v t')
  then have "kc_ipa_on_signal alloc t k v = (KC_IPA_OK, t')" by (auto simp: put_handler_def split: prod.splits)
  from on_signal_handlers [OF 1(1) this] show ?case by simp
next
  case (2 t k v t')
  then obtain rc where "kc_ipa_on_signal alloc t k v = (rc, t')" "rc \<noteq> KC_IPA_OK" by (auto simp: put_handler_def split: prod.splits)
  with on_signal_handlers [OF 2(1) this(1)] show ?case by simp
next
  case (3 t k v b t')
  then obtain rc where "kc_ipa_on_signal alloc t k v = (rc, t')" by (auto simp: put_handler_def split: prod.splits)
  with on_signal_handlers [OF 3(1) this] show ?case by simp
qed

lemma raise_signal_handlers:
  assumes t: "handlers_ok t"
  shows "kc_ipa_raise_signal call t sg =
    (case handlers t sg of None \<Rightarrow> (KC_IPA_ERROR, t) | Some c \<Rightarrow> (KC_IPA_OK, call c t))"
proof (cases "find_signal (sc_signal_handlers t) sg < length (sc_signal_handlers t)")
  case True
  let ?hs = "sc_signal_handlers t"
  let ?e = "?hs ! find_signal ?hs sg"
  have "(se_sig ?e, se_cb ?e) \<in> set (map (\<lambda>e. (se_sig e, se_cb e)) ?hs)" using nth_mem [OF True] by auto
  moreover have "distinct (map fst (map (\<lambda>e. (se_sig e, se_cb e)) ?hs))" using t by (simp add: handlers_ok_def comp_def)
  ultimately have "handlers t (se_sig ?e) = Some (se_cb ?e)" unfolding handlers_def by (rule map_of_is_SomeI [rotated])
  with True find_signal_spec(1) [OF True] show ?thesis by (simp add: kc_ipa_raise_signal_def Let_def)
next
  case False
  with find_signal_spec(2) [OF False] have "handlers t sg = None" by (auto simp: handlers_def map_of_eq_None_iff)
  with False show ?thesis by (simp add: kc_ipa_raise_signal_def Let_def)
qed

text \<open>C18. The handler table behaves as a map from signals to callbacks: registering a callback makes it the
  one that \<open>kc_ipa_raise_signal\<close> calls for that signal, whatever is registered or removed for
  other signals afterwards; removing it makes raising fail; and a registration that runs out of memory
  changes nothing.\<close>

theorem last_registration_is_raised:
  assumes ok: "handlers_ok ctx" and reg: "kc_ipa_on_signal alloc ctx sg cb = (rc, ctx')" and us: "sg \<notin> fst ` set us"
  shows "(rc = KC_IPA_OK \<longrightarrow> kc_ipa_raise_signal call (sigtab.puts alloc us ctx') sg =
       (case cb of None \<Rightarrow> (KC_IPA_ERROR, sigtab.puts alloc us ctx')
        | Some c \<Rightarrow> (KC_IPA_OK, call c (sigtab.puts alloc us ctx')))) \<and>
    (rc \<noteq> KC_IPA_OK \<longrightarrow> ctx' = ctx \<and> (\<exists>n. \<not> alloc n))"
proof (intro conjI impI)
  assume "rc = KC_IPA_OK"
  then have p: "put_handler alloc ctx sg cb = (True, ctx')" using reg by (simp add: put_handler_def)
  have "handlers_ok (sigtab.puts alloc us ctx')" by (rule sigtab.puts_inv [OF sigtab.put_inv [OF ok p]])
  from raise_signal_handlers [OF this] sigtab.puts_last [OF ok p us]
  show "kc_ipa_raise_signal call (sigtab.puts alloc us ctx') sg =
       (case cb of None \<Rightarrow> (KC_IPA_ERROR, sigtab.puts alloc us ctx')
        | Some c \<Rightarrow> (KC_IPA_OK, call c (sigtab.puts alloc us ctx')))" by simp
next
  assume rc: "rc \<noteq> KC_IPA_OK"
  with on_signal_handlers [OF ok reg] show "ctx' = ctx" by simp
  show "\<exists>n. \<not> alloc n"
    using reg rc by (auto simp: kc_ipa_on_signal_def Let_def split: if_splits option.splits)
qed

lemma last_registration_is_raised_witness:
  "kc_ipa_raise_signal (\<lambda>c t. t\<lparr>sc_min_ngram := int c\<rparr>) (sigtab.puts granting [(2, Some 9)]
     (snd (kc_ipa_on_signal granting (new_schema kc_ipa_options_default) 15 (Some 7)))) 15 =
   (KC_IPA_OK, (sigtab.puts granting [(2, Some 9)]
     (snd (kc_ipa_on_signal granting (new_schema kc_ipa_options_default) 15 (Some 7))))\<lparr>sc_min_ngram := 7\<rparr>)"
proof -
  let ?c = "new_schema kc_ipa_options_default"
  have ok: "handlers_ok ?c" by (simp add: handlers_ok_def new_schema_def)
  have r: "kc_ipa_on_signal granting ?c 15 (Some 7) = (KC_IPA_OK, snd (kc_ipa_on_signal granting ?c 15 (Some 7)))"
    by (simp add: kc_ipa_on_signal_def find_signal_def scan_while_closed new_schema_def)
  from last_registration_is_raised [OF ok r, of "[(2, Some 9)]" "\<lambda>c t. t\<lparr>sc_min_ngram := int c\<rparr>"] show ?thesis by simp
qed


subsection \<open>The process-wide listener\<close>

text \<open>The global context pointer, the OS signals wired to the listener, and the live handles.\<close>

record signal_world =
  g_signal_ctx :: "nat option"
  sw_wired :: "int set"
  sw_heap :: "nat \<rightharpoonup> kc_ipa_schema"

datatype signal_fault = Use_After_Free

definition kc_ipa_listen_signals :: "nat option \<Rightarrow> signal_world \<Rightarrow> ipa_status \<times> signal_world" where
  "kc_ipa_listen_signals ctx w =
     (case ctx of None \<Rightarrow> (KC_IPA_ERROR, w) | Some a \<Rightarrow> (KC_IPA_OK, w\<lparr>g_signal_ctx := Some a\<rparr>))"

definition kc_ipa_listen_signal :: "nat option \<Rightarrow> int \<Rightarrow> signal_world \<Rightarrow> ipa_status \<times> signal_world" where
  "kc_ipa_listen_signal ctx sig_id w =
     (case ctx of
        None \<Rightarrow> (KC_IPA_ERROR, w)
      | Some a \<Rightarrow> (KC_IPA_OK, w\<lparr>g_signal_ctx := Some a, sw_wired := insert sig_id (sw_wired w)\<rparr>))"

definition kc_ipa_signal_listener ::
    "(nat \<Rightarrow> kc_ipa_schema \<Rightarrow> kc_ipa_schema) \<Rightarrow> int \<Rightarrow> signal_world \<Rightarrow> signal_fault + signal_world" where
  "kc_ipa_signal_listener call sg w =
     (case g_signal_ctx w of
        None \<Rightarrow> Inr w
      | Some a \<Rightarrow>
          (case sw_heap w a of
             None \<Rightarrow> Inl Use_After_Free
           | Some ctx \<Rightarrow> Inr (w\<lparr>sw_heap := (sw_heap w)(a \<mapsto> snd (kc_ipa_raise_signal call ctx sg))\<rparr>)))"

text \<open>\<open>kc_ipa_close\<close> on a handle of the process: what the handle holds is given back and the handle is freed.
  Nothing else of the process changes, in particular not the global context.\<close>

definition kc_ipa_close_handle :: "nat option \<Rightarrow> os_state \<Rightarrow> signal_world \<Rightarrow> ipa_status \<times> os_state \<times> signal_world" where
  "kc_ipa_close_handle s os w =
     (case s of
        None \<Rightarrow> (KC_IPA_OK, os, w)
      | Some a \<Rightarrow>
          let (rc, os') = kc_ipa_close (sw_heap w a) os
          in (rc, os', w\<lparr>sw_heap := (sw_heap w)(a := None)\<rparr>))"

text \<open>The calls of a process that uses the library, on handles by their address, and the arrival of a signal.\<close>

datatype lib_event = Open nat | Register nat int "nat option" | Listen nat | Wire nat int | Close nat | Deliver int

text \<open>What they do: opening gives a handle without handlers at a fresh address, registering, listening and
  closing are on a live handle, and a signal is delivered when it is wired. \<open>None\<close> is a process that touched
  freed memory.\<close>

inductive signal_step ::
    "allocator \<Rightarrow> (nat \<Rightarrow> kc_ipa_schema \<Rightarrow> kc_ipa_schema) \<Rightarrow> signal_world \<Rightarrow> lib_event \<Rightarrow> signal_world option \<Rightarrow> bool"
  for alloc call where
  opened: "sw_heap w a = None \<Longrightarrow> sc_signal_handlers ctx = [] \<Longrightarrow> sc_signal_handlers_capacity ctx = 0 \<Longrightarrow>
    signal_step alloc call w (Open a) (Some (w\<lparr>sw_heap := (sw_heap w)(a \<mapsto> ctx)\<rparr>))"
| registered: "sw_heap w a = Some ctx \<Longrightarrow>
    signal_step alloc call w (Register a sg cb) (Some (w\<lparr>sw_heap := (sw_heap w)(a \<mapsto> snd (kc_ipa_on_signal alloc ctx sg cb))\<rparr>))"
| listening: "sw_heap w a \<noteq> None \<Longrightarrow> signal_step alloc call w (Listen a) (Some (snd (kc_ipa_listen_signals (Some a) w)))"
| wired: "sw_heap w a \<noteq> None \<Longrightarrow> signal_step alloc call w (Wire a sg) (Some (snd (kc_ipa_listen_signal (Some a) sg w)))"
| closed: "sw_heap w a \<noteq> None \<Longrightarrow> signal_step alloc call w (Close a) (Some (snd (snd (kc_ipa_close_handle (Some a) os w))))"
| delivered: "sg \<in> sw_wired w \<Longrightarrow> kc_ipa_signal_listener call sg w = Inr w' \<Longrightarrow> signal_step alloc call w (Deliver sg) (Some w')"
| crashed: "sg \<in> sw_wired w \<Longrightarrow> kc_ipa_signal_listener call sg w = Inl f \<Longrightarrow> signal_step alloc call w (Deliver sg) None"

inductive_cases signal_crashE: "signal_step alloc call w e None"

definition no_signals :: signal_world where
  "no_signals = \<lparr>g_signal_ctx = None, sw_wired = {}, sw_heap = Map.empty\<rparr>"

text \<open>The states that a history (the newest event first) leads to.\<close>

inductive signal_run ::
    "allocator \<Rightarrow> (nat \<Rightarrow> kc_ipa_schema \<Rightarrow> kc_ipa_schema) \<Rightarrow> lib_event list \<Rightarrow> signal_world \<Rightarrow> bool" for alloc call where
  start: "signal_run alloc call [] no_signals"
| step: "signal_run alloc call es w \<Longrightarrow> signal_step alloc call w e (Some w') \<Longrightarrow> signal_run alloc call (e # es) w'"

text \<open>Seen from the history alone: the handle that listened last, the handles that are open, and the signals that
  were wired.\<close>

fun last_listener :: "lib_event list \<Rightarrow> nat option" where
  "last_listener [] = None"
| "last_listener (Listen a # es) = Some a"
| "last_listener (Wire a sg # es) = Some a"
| "last_listener (_ # es) = last_listener es"

fun is_open :: "lib_event list \<Rightarrow> nat \<Rightarrow> bool" where
  "is_open [] a \<longleftrightarrow> False"
| "is_open (Open b # es) a \<longleftrightarrow> a = b \<or> is_open es a"
| "is_open (Close b # es) a \<longleftrightarrow> a \<noteq> b \<and> is_open es a"
| "is_open (_ # es) a \<longleftrightarrow> is_open es a"

definition was_wired :: "lib_event list \<Rightarrow> int \<Rightarrow> bool" where
  "was_wired es sg \<longleftrightarrow> (\<exists>a. Wire a sg \<in> set es)"

text \<open>The state agrees with the history, and live tables are well formed when callbacks leave the tables alone.\<close>

definition agrees :: "lib_event list \<Rightarrow> signal_world \<Rightarrow> bool" where
  "agrees es w \<longleftrightarrow> (\<forall>a ctx. sw_heap w a = Some ctx \<longrightarrow> handlers_ok ctx) \<and> g_signal_ctx w = last_listener es \<and>
     (\<forall>a. sw_heap w a \<noteq> None \<longleftrightarrow> is_open es a) \<and> (\<forall>sg. sg \<in> sw_wired w \<longleftrightarrow> was_wired es sg)"

definition tame :: "(nat \<Rightarrow> kc_ipa_schema \<Rightarrow> kc_ipa_schema) \<Rightarrow> bool" where
  "tame call \<longleftrightarrow> (\<forall>c ctx. handlers_ok ctx \<longrightarrow> handlers_ok (call c ctx))"

lemma on_signal_ok: "handlers_ok ctx \<Longrightarrow> handlers_ok (snd (kc_ipa_on_signal alloc ctx sg cb))"
  using on_signal_handlers [of ctx alloc sg cb] by (cases "kc_ipa_on_signal alloc ctx sg cb") auto

lemma raise_signal_ok: "tame call \<Longrightarrow> handlers_ok ctx \<Longrightarrow> handlers_ok (snd (kc_ipa_raise_signal call ctx sg))"
  by (auto simp: kc_ipa_raise_signal_def Let_def tame_def)

lemma close_handle_world:
  "kc_ipa_close_handle (Some a) os w =
     (fst (kc_ipa_close (sw_heap w a) os), snd (kc_ipa_close (sw_heap w a) os), w\<lparr>sw_heap := (sw_heap w)(a := None)\<rparr>)"
  by (simp add: kc_ipa_close_handle_def split: prod.split)

lemma signal_step_agrees:
  assumes t: "tame call" and w: "agrees es w" and s: "signal_step alloc call w e (Some w')"
  shows "agrees (e # es) w'"
  using s
proof (cases rule: signal_step.cases)
  case opened
  then show ?thesis using w by (auto simp: agrees_def was_wired_def handlers_ok_def)
next
  case registered
  then show ?thesis using w on_signal_ok by (auto simp: agrees_def was_wired_def)
next
  case listening
  then show ?thesis using w by (auto simp: agrees_def was_wired_def kc_ipa_listen_signals_def)
next
  case wired
  then show ?thesis using w by (auto simp: agrees_def was_wired_def kc_ipa_listen_signal_def)
next
  case closed
  then show ?thesis using w by (auto simp: agrees_def was_wired_def close_handle_world)
next
  case delivered
  then show ?thesis using w raise_signal_ok [OF t]
    by (auto simp: agrees_def was_wired_def kc_ipa_signal_listener_def split: option.splits if_splits)
qed

lemma signal_run_agrees:
  assumes "tame call" "signal_run alloc call es w" shows "agrees es w"
  using assms(2)
proof induction
  case start
  show ?case by (simp add: agrees_def no_signals_def was_wired_def)
next
  case (step es w e w')
  from signal_step_agrees [OF assms(1) step.IH step.hyps(2)] show ?case .
qed

text \<open>C17. After any history of calls to the library (with callbacks that keep the handler tables well formed), the
  handler table of every live handle maps each signal to at most one callback inside its capacity; and the arrival
  of a signal makes the process touch freed memory exactly when that signal was wired at some time, and the handle
  that listened last was closed since and no handle has been opened at its address again: \<open>kc_ipa_close\<close> does
  not reset the global context.\<close>

theorem signals_crash_iff_listener_closed:
  assumes "tame call" "signal_run alloc call es w"
  shows "(\<forall>a ctx. sw_heap w a = Some ctx \<longrightarrow> handlers_ok ctx) \<and>
    (signal_step alloc call w (Deliver sg) None \<longleftrightarrow> was_wired es sg \<and> (\<exists>a. last_listener es = Some a \<and> \<not> is_open es a))"
proof -
  have "agrees es w" using assms by (rule signal_run_agrees)
  then have ok: "\<forall>a ctx. sw_heap w a = Some ctx \<longrightarrow> handlers_ok ctx" and ag: "g_signal_ctx w = last_listener es"
    "sg \<in> sw_wired w \<longleftrightarrow> was_wired es sg" "\<And>a. sw_heap w a = None \<longleftrightarrow> \<not> is_open es a"
    unfolding agrees_def by blast+
  have "signal_step alloc call w (Deliver sg) None \<longleftrightarrow> sg \<in> sw_wired w \<and> (\<exists>a. g_signal_ctx w = Some a \<and> sw_heap w a = None)"
    by (auto elim!: signal_crashE simp: kc_ipa_signal_listener_def intro: signal_step.crashed split: option.splits)
  with ok show ?thesis unfolding ag by blast
qed

text \<open>Open, listen to signal 15, close: the next signal 15 uses the freed handle.\<close>

definition stale_history :: "lib_event list" where
  "stale_history = [Close 1, Wire 1 15, Open 1]"

lemma stale_reachable: "\<exists>w. signal_run granting (\<lambda>_ s. s) stale_history w"
proof -
  let ?w0 = "no_signals\<lparr>sw_heap := (sw_heap no_signals)(1 \<mapsto> new_schema kc_ipa_options_default)\<rparr>"
  have "signal_run granting (\<lambda>_ s. s) [Open 1] ?w0"
    by (rule signal_run.step [OF signal_run.start signal_step.opened]) (simp_all add: no_signals_def new_schema_def)
  then have "signal_run granting (\<lambda>_ s. s) [Wire 1 15, Open 1] (snd (kc_ipa_listen_signal (Some 1) 15 ?w0))"
    by (rule signal_run.step) (rule signal_step.wired, simp)
  from signal_run.step [OF this signal_step.closed [of _ 1]] show ?thesis unfolding stale_history_def
    by (auto simp: kc_ipa_listen_signal_def)
qed

lemma signals_crash_iff_listener_closed_witness:
  "\<exists>w. signal_run granting (\<lambda>_ s. s) stale_history w \<and> signal_step granting (\<lambda>_ s. s) w (Deliver 15) None \<and>
     \<not> signal_step granting (\<lambda>_ s. s) w (Deliver 2) None"
proof -
  obtain w where w: "signal_run granting (\<lambda>_ s. s) stale_history w" using stale_reachable by blast
  have "tame (\<lambda>_ s. s)" by (simp add: tame_def)
  from signals_crash_iff_listener_closed [OF this w, of 15] signals_crash_iff_listener_closed [OF this w, of 2] w
  show ?thesis by (auto simp: stale_history_def was_wired_def)
qed

end
