(* ===== verification/Ngram.thy ===== *)
theory Ngram
  imports Prelude
begin

section \<open>Descending n-gram traversal (lib/libngram.c, lib/ngram.h)\<close>

text \<open>
  The traversal that drives the parser: the input is split into tokens, then every window of
  \<open>max_tokens\<close> down to \<open>min_tokens\<close> tokens is offered to a visitor, except those inside a
  window the visitor has closed before. The closed windows are kept in an array sorted by
  start index that is searched by bisection.

  A growable array is its live elements (a list, whose length is the source's \<open>count\<close>) and
  its capacity. Token and span indices are \<open>nat\<close>; the options keep C's \<open>int\<close>, since a
  negative \<open>max_tokens\<close> is a possible argument. The visitor is a state transformer: it gets
  the chunk and the caller's context and returns its decision and the new context.
\<close>

subsection \<open>Data\<close>

record kc_ngram_chunk_t =
  chunk_input :: string
  byte_start :: nat
  byte_end :: nat
  chunk_start :: nat
  chunk_end :: nat
  chunk_size :: nat

record kc_ngram_options_t =
  max_tokens :: int
  min_tokens :: int
  separators :: "string option"

record kc_ngram_token_t =
  tok_start :: nat
  tok_end :: nat

record kc_ngram_token_list_t =
  items :: "kc_ngram_token_t list"
  items_cap :: nat

record kc_ngram_span_t =
  sp_start :: nat
  sp_end :: nat

type_synonym 'c kc_ngram_visit_fn = "kc_ngram_chunk_t \<Rightarrow> 'c \<Rightarrow> int \<times> 'c"

abbreviation (input) sizeof_token :: nat where "sizeof_token \<equiv> 16"
abbreviation (input) sizeof_span :: nat where "sizeof_span \<equiv> 8"

subsection \<open>Tokens\<close>

definition kc_ngram_is_separator :: "char \<Rightarrow> string option \<Rightarrow> bool" where
  "kc_ngram_is_separator ch seps =
     (case seps of
        None \<Rightarrow> False
      | Some s \<Rightarrow> if s = [] then False else ch \<in> set s \<or> ch = NUL)"

definition kc_ngram_reserve_token_slot ::
    "allocator \<Rightarrow> kc_ngram_token_list_t \<Rightarrow> kc_ngram_token_list_t option" where
  "kc_ngram_reserve_token_slot alloc tokens =
     (if length (items tokens) < items_cap tokens then Some tokens
      else let next_cap = (if items_cap tokens > 0 then items_cap tokens * 2 else 16)
           in if alloc (next_cap * sizeof_token) then Some (tokens\<lparr>items_cap := next_cap\<rparr>)
              else None)"

definition kc_ngram_push_token ::
    "allocator \<Rightarrow> kc_ngram_token_list_t \<Rightarrow> nat \<Rightarrow> nat \<Rightarrow> kc_ngram_token_list_t option" where
  "kc_ngram_push_token alloc tokens b e =
     (if e \<le> b then None
      else case kc_ngram_reserve_token_slot alloc tokens of
        None \<Rightarrow> None
      | Some t \<Rightarrow> Some (t\<lparr>items := items t @ [\<lparr>tok_start = b, tok_end = e\<rparr>]\<rparr>))"

text \<open>The outer loop of \<open>kc_ngram_split_tokens\<close>; \<open>cursor\<close> is the offset from \<open>base\<close>.\<close>

function split_tokens_loop ::
    "allocator \<Rightarrow> string \<Rightarrow> string option \<Rightarrow> nat \<Rightarrow> kc_ngram_token_list_t
       \<Rightarrow> kc_ngram_token_list_t option" where
  "split_tokens_loop alloc input seps cursor tokens =
     (if cursor < length input then
        let token_start = scan_while (\<lambda>c. kc_ngram_is_separator c seps) input cursor
        in if token_start \<ge> length input then Some tokens
           else
             let cursor' = scan_while (\<lambda>c. \<not> kc_ngram_is_separator c seps) input token_start
             in if cursor' \<noteq> token_start then
                  (case kc_ngram_push_token alloc tokens token_start cursor' of
                     None \<Rightarrow> None
                   | Some t \<Rightarrow> split_tokens_loop alloc input seps cursor' t)
                else split_tokens_loop alloc input seps cursor' tokens
      else Some tokens)"
  by pat_completeness auto
termination
proof (relation "measure (\<lambda>(alloc, input, seps, cursor, tokens). length input - cursor)",
    goal_cases)
  case 1
  show ?case by simp
next
  case (2 alloc input seps cursor tokens token_start cursor' t)
  have "cursor \<le> token_start" "token_start \<le> cursor'"
    by (simp_all only: 2(2,4) scan_while_ge)
  with 2(1,3,5) have "cursor < cursor'" by linarith
  with 2(1) show ?case by simp
next
  case (3 alloc input seps cursor tokens token_start cursor')
  from 3(2,3) have "\<not> kc_ngram_is_separator (input ! token_start) seps"
    by (metis linorder_not_le scan_while_stop)
  with 3 have "token_start < cursor'"
    using scan_while_progress [of token_start input "\<lambda>c. \<not> kc_ngram_is_separator c seps"] by simp
  with 3 show ?case by simp
qed

declare split_tokens_loop.simps [simp del]

definition kc_ngram_split_tokens ::
    "allocator \<Rightarrow> string \<Rightarrow> string option \<Rightarrow> kc_ngram_token_list_t option" where
  "kc_ngram_split_tokens alloc input seps =
     split_tokens_loop alloc input seps 0 \<lparr>items = [], items_cap = 0\<rparr>"

subsection \<open>Closed spans\<close>

definition kc_ngram_find_span_insert_index :: "kc_ngram_span_t list \<Rightarrow> nat \<Rightarrow> nat" where
  "kc_ngram_find_span_insert_index spans start =
     bisect (\<lambda>s. sp_start s < start) spans 0 (length spans)"

definition kc_ngram_span_is_closed :: "nat \<Rightarrow> nat \<Rightarrow> kc_ngram_span_t list \<Rightarrow> bool" where
  "kc_ngram_span_is_closed start end closed_spans =
     (if length closed_spans < 1 then False
      else let left = bisect (\<lambda>s. sp_start s \<le> start) closed_spans 0 (length closed_spans)
           in if left = 0 then False
              else let s = closed_spans ! (left - 1)
                   in start \<ge> sp_start s \<and> end \<le> sp_end s)"

definition kc_ngram_reserve_span_slot :: "allocator \<Rightarrow> nat \<Rightarrow> nat \<Rightarrow> nat option" where
  "kc_ngram_reserve_span_slot alloc count cap =
     (if count < cap then Some cap
      else let next_cap = (if cap > 0 then cap * 2 else 16)
           in if alloc (next_cap * sizeof_span) then Some next_cap else None)"

text \<open>
  \<open>kc_ngram_add_closed_span\<close> on the array and its capacity. The two \<open>memmove\<close>s delete the
  elements from \<open>insert_at\<close> to \<open>remove_end\<close> and open a slot at \<open>insert_at\<close>. On an allocation
  failure the removed spans stay removed, as in the source.
\<close>

definition kc_ngram_add_closed_span ::
    "allocator \<Rightarrow> kc_ngram_span_t list \<Rightarrow> nat \<Rightarrow> nat \<Rightarrow> nat
       \<Rightarrow> bool \<times> kc_ngram_span_t list \<times> nat" where
  "kc_ngram_add_closed_span alloc spans cap start end =
     (let insert_at = kc_ngram_find_span_insert_index spans start
      in if insert_at > 0 \<and> start \<ge> sp_start (spans ! (insert_at - 1))
            \<and> end \<le> sp_end (spans ! (insert_at - 1))
         then (True, spans, cap)
         else if insert_at < length spans \<and> sp_start (spans ! insert_at) = start
            \<and> sp_end (spans ! insert_at) \<ge> end
         then (True, spans, cap)
         else
           let remove_end = scan_while (\<lambda>s. sp_end s \<le> end) spans insert_at;
               spans' = take insert_at spans @ drop remove_end spans
           in if insert_at < length spans' \<and> start \<ge> sp_start (spans' ! insert_at)
                 \<and> end \<le> sp_end (spans' ! insert_at)
              then (True, spans', cap)
              else case kc_ngram_reserve_span_slot alloc (length spans') cap of
                None \<Rightarrow> (False, spans', cap)
              | Some cap' \<Rightarrow>
                  (True, take insert_at spans' @ \<lparr>sp_start = start, sp_end = end\<rparr> # drop insert_at spans',
                   cap'))"

subsection \<open>Traversal\<close>

definition kc_ngram_options_default :: kc_ngram_options_t where
  "kc_ngram_options_default =
     \<lparr>max_tokens = 10, min_tokens = 1,
      separators = Some [CHR '' '', CHR 0x09, CHR 0x0D, CHR 0x0A]\<rparr>"

record 'c kc_ngram_run =
  closed_spans :: "kc_ngram_span_t list"
  closed_cap :: nat
  emitted :: nat
  run_ctx :: 'c

definition mk_chunk :: "string \<Rightarrow> kc_ngram_token_t list \<Rightarrow> nat \<Rightarrow> nat \<Rightarrow> kc_ngram_chunk_t" where
  "mk_chunk input toks start window_size =
     (let end = start + window_size - 1
      in \<lparr>chunk_input = input, byte_start = tok_start (toks ! start), byte_end = tok_end (toks ! end),
          chunk_start = start, chunk_end = end, chunk_size = window_size\<rparr>)"

text \<open>One iteration of the inner loop; \<open>False\<close> is the early return of \<open>-1\<close>.\<close>

definition ngram_step ::
    "allocator \<Rightarrow> 'c kc_ngram_visit_fn \<Rightarrow> string \<Rightarrow> kc_ngram_token_t list \<Rightarrow> nat \<Rightarrow> nat
       \<Rightarrow> 'c kc_ngram_run \<Rightarrow> bool \<times> 'c kc_ngram_run" where
  "ngram_step alloc visit input toks window_size start st =
     (let end = start + window_size - 1
      in if kc_ngram_span_is_closed start end (closed_spans st) then (True, st)
         else
           let (decision, ctx) = visit (mk_chunk input toks start window_size) (run_ctx st);
               st1 = st\<lparr>run_ctx := ctx\<rparr>
           in if decision < 0 then (False, st1)
              else
                let st2 = st1\<lparr>emitted := emitted st1 + 1\<rparr>
                in if decision = 1 then
                     let (ok, spans, cap) =
                           kc_ngram_add_closed_span alloc (closed_spans st2) (closed_cap st2) start end
                     in (ok, st2\<lparr>closed_spans := spans, closed_cap := cap\<rparr>)
                   else (True, st2))"

text \<open>\<open>for (start = 0; start <= tokens.count - window_size; start++)\<close>\<close>

function ngram_start_loop ::
    "allocator \<Rightarrow> 'c kc_ngram_visit_fn \<Rightarrow> string \<Rightarrow> kc_ngram_token_t list \<Rightarrow> nat \<Rightarrow> nat
       \<Rightarrow> 'c kc_ngram_run \<Rightarrow> bool \<times> 'c kc_ngram_run" where
  "ngram_start_loop alloc visit input toks window_size start st =
     (if start + window_size \<le> length toks then
        let (ok, st') = ngram_step alloc visit input toks window_size start st
        in if ok then ngram_start_loop alloc visit input toks window_size (start + 1) st'
           else (False, st')
      else (True, st))"
  by pat_completeness auto
termination
  by (relation "measure (\<lambda>(a, v, i, toks, w, start, st). Suc (length toks) - start)") auto

declare ngram_start_loop.simps [simp del]

text \<open>\<open>for (window_size = loop_max; window_size >= options->min_tokens; window_size--)\<close>\<close>

fun ngram_window_loop ::
    "allocator \<Rightarrow> 'c kc_ngram_visit_fn \<Rightarrow> string \<Rightarrow> kc_ngram_token_t list \<Rightarrow> nat \<Rightarrow> nat
       \<Rightarrow> 'c kc_ngram_run \<Rightarrow> bool \<times> 'c kc_ngram_run" where
  "ngram_window_loop alloc visit input toks min_tok window_size st =
     (if window_size \<ge> min_tok \<and> window_size > 0 then
        let (ok, st') = ngram_start_loop alloc visit input toks window_size 0 st
        in if ok then ngram_window_loop alloc visit input toks min_tok (window_size - 1) st'
           else (False, st')
      else (True, st))"

declare ngram_window_loop.simps [simp del]

definition kc_ngram_execute ::
    "allocator \<Rightarrow> string option \<Rightarrow> kc_ngram_options_t option \<Rightarrow> 'c kc_ngram_visit_fn option \<Rightarrow> 'c
       \<Rightarrow> int \<times> 'c" where
  "kc_ngram_execute alloc input_opt options_opt visit_opt context =
     (case (input_opt, visit_opt) of
        (Some input, Some visit) \<Rightarrow>
          let options = (case options_opt of None \<Rightarrow> kc_ngram_options_default | Some o' \<Rightarrow> o')
          in if min_tokens options < 1
                \<or> (max_tokens options > 0 \<and> max_tokens options < min_tokens options)
             then (-1, context)
             else (case kc_ngram_split_tokens alloc input (separators options) of
                None \<Rightarrow> (-1, context)
              | Some tokens \<Rightarrow>
                  if length (items tokens) = 0 then (0, context)
                  else
                    let count = int (length (items tokens));
                        loop_max = (if max_tokens options = 0 \<or> count < max_tokens options
                                    then count else max_tokens options);
                        (ok, st) = ngram_window_loop alloc visit input (items tokens)
                                     (nat (min_tokens options)) (nat loop_max)
                                     \<lparr>closed_spans = [], closed_cap = 0, emitted = 0, run_ctx = context\<rparr>
                    in if ok then (int (emitted st), run_ctx st) else (-1, run_ctx st))
      | _ \<Rightarrow> (-1, context))"

subsection \<open>Closed spans: invariant and meaning\<close>

text \<open>
  The array is an antichain of intervals, sorted by both ends; its meaning is the set of windows
  that lie inside one of its intervals.
\<close>

definition span_less :: "kc_ngram_span_t \<Rightarrow> kc_ngram_span_t \<Rightarrow> bool" where
  "span_less a b \<longleftrightarrow> sp_start a < sp_start b \<and> sp_end a < sp_end b"

definition spans_ok :: "kc_ngram_span_t list \<Rightarrow> bool" where
  "spans_ok spans = sorted_wrt span_less spans"

definition covers :: "kc_ngram_span_t list \<Rightarrow> nat \<Rightarrow> nat \<Rightarrow> bool" where
  "covers spans s e \<longleftrightarrow> (\<exists>sp \<in> set spans. sp_start sp \<le> s \<and> e \<le> sp_end sp)"

lemma covers_simps [simp]:
  "covers [] s e = False"
  "covers (sp # spans) s e \<longleftrightarrow> sp_start sp \<le> s \<and> e \<le> sp_end sp \<or> covers spans s e"
  "covers (xs @ ys) s e \<longleftrightarrow> covers xs s e \<or> covers ys s e"
  by (auto simp: covers_def)

lemma insert_index_takeWhile:
  "spans_ok spans \<Longrightarrow>
    kc_ngram_find_span_insert_index spans start = length (takeWhile (\<lambda>s. sp_start s < start) spans)"
  unfolding kc_ngram_find_span_insert_index_def spans_ok_def
  by (rule bisect_sorted [of span_less]) (auto simp: span_less_def)

lemma takeWhile_last_sorted:
  assumes "spans_ok spans" "sp \<in> set spans" "p sp"
    and closed: "\<And>a b. span_less a b \<Longrightarrow> p b \<Longrightarrow> p a"
  shows "takeWhile p spans \<noteq> []"
    and "sp_end sp \<le> sp_end (spans ! (length (takeWhile p spans) - 1))"
    and "p (spans ! (length (takeWhile p spans) - 1))"
proof -
  let ?k = "length (takeWhile p spans)"
  from assms(2) obtain i where i: "i < length spans" "spans ! i = sp"
    by (auto simp: in_set_conv_nth)
  have "Suc i \<le> ?k"
  proof (rule length_takeWhile_less_P_nth)
    fix j assume "j < Suc i"
    then show "p (spans ! j)"
      using i assms(1,3) closed sorted_wrt_nth_less [of span_less spans j i]
      by (cases "j = i") (auto simp: spans_ok_def)
  qed (use i in simp)
  then have "i < ?k" by simp
  then show "takeWhile p spans \<noteq> []" by auto
  have k: "?k \<le> length spans" by (rule length_takeWhile_le)
  show "sp_end sp \<le> sp_end (spans ! (?k - 1))"
  proof (cases "i = ?k - 1")
    case False
    with \<open>i < ?k\<close> k have "i < ?k - 1" "?k - 1 < length spans" by linarith+
    with assms(1) have "span_less (spans ! i) (spans ! (?k - 1))"
      unfolding spans_ok_def by (rule sorted_wrt_nth_less)
    with i show ?thesis by (simp add: span_less_def)
  qed (use i in simp)
  show "p (spans ! (?k - 1))"
    using \<open>i < ?k\<close> by (metis Suc_pred' diff_less gr_zeroI lessI not_less_zero nth_mem set_takeWhileD takeWhile_nth)
qed

lemma span_is_closed_covers:
  assumes "spans_ok spans"
  shows "kc_ngram_span_is_closed s e spans \<longleftrightarrow> covers spans s e"
proof -
  let ?p = "\<lambda>sp. sp_start sp \<le> s"
  let ?k = "length (takeWhile ?p spans)"
  have k: "bisect ?p spans 0 (length spans) = ?k"
    using assms unfolding spans_ok_def by (rule bisect_sorted) (auto simp: span_less_def)
  show ?thesis
  proof
    assume "kc_ngram_span_is_closed s e spans"
    then have "?k \<noteq> 0" and end_le: "e \<le> sp_end (spans ! (?k - 1))"
      and start_le: "sp_start (spans ! (?k - 1)) \<le> s"
      by (auto simp: kc_ngram_span_is_closed_def k Let_def split: if_splits)
    moreover have "?k - 1 < length spans"
      using \<open>?k \<noteq> 0\<close> length_takeWhile_le [of ?p spans] by linarith
    ultimately show "covers spans s e"
      unfolding covers_def by (metis nth_mem)
  next
    assume "covers spans s e"
    then obtain sp where sp: "sp \<in> set spans" "sp_start sp \<le> s" "e \<le> sp_end sp"
      by (auto simp: covers_def)
    then show "kc_ngram_span_is_closed s e spans"
      using takeWhile_last_sorted [of spans sp ?p, OF assms sp(1,2)]
      by (fastforce simp: kc_ngram_span_is_closed_def k Let_def span_less_def)
  qed
qed

text \<open>
  The effect of adding a span, read off the split of the array at the insertion point: the
  spans that start before stay, the ones after it that end inside the new span go.
\<close>

lemma scan_while_at_split:
  "scan_while p (xs @ ys) (length xs) = length xs + length (takeWhile p ys)"
  by (simp add: scan_while_closed)

lemma add_closed_span_split:
  fixes s e :: nat
  assumes "spans_ok spans"
  defines "A \<equiv> takeWhile (\<lambda>sp. sp_start sp < s) spans"
    and "B \<equiv> dropWhile (\<lambda>sp. sp_start sp < s) spans"
  defines "C \<equiv> dropWhile (\<lambda>sp. sp_end sp \<le> e) B"
  shows "kc_ngram_add_closed_span alloc spans cap s e =
    (if A \<noteq> [] \<and> e \<le> sp_end (last A) \<or> B \<noteq> [] \<and> sp_start (hd B) = s \<and> e \<le> sp_end (hd B)
     then (True, spans, cap)
     else if C \<noteq> [] \<and> sp_start (hd C) \<le> s \<and> e \<le> sp_end (hd C) then (True, A @ C, cap)
     else case kc_ngram_reserve_span_slot alloc (length (A @ C)) cap of
            None \<Rightarrow> (False, A @ C, cap)
          | Some cap' \<Rightarrow> (True, A @ \<lparr>sp_start = s, sp_end = e\<rparr> # C, cap'))"
proof -
  have spans: "spans = A @ B" by (simp add: A_def B_def)
  have idx: "kc_ngram_find_span_insert_index spans s = length A"
    using assms(1) by (simp add: insert_index_takeWhile A_def)
  have A: "sp_start sp < s" if "sp \<in> set A" for sp
    using that by (auto simp: A_def dest: set_takeWhileD)
  have c1: "(0 < length A \<and> sp_start (spans ! (length A - 1)) \<le> s \<and> e \<le> sp_end (spans ! (length A - 1)))
      = (A \<noteq> [] \<and> e \<le> sp_end (last A))"
    using A [of "last A"] by (auto simp: spans nth_append last_conv_nth)
  have c2: "(length A < length spans \<and> sp_start (spans ! length A) = s \<and> e \<le> sp_end (spans ! length A))
      = (B \<noteq> [] \<and> sp_start (hd B) = s \<and> e \<le> sp_end (hd B))"
    by (auto simp: spans nth_append hd_conv_nth)
  have rem: "scan_while (\<lambda>sp. sp_end sp \<le> e) spans (length A)
      = length A + length (takeWhile (\<lambda>sp. sp_end sp \<le> e) B)"
    unfolding spans by (rule scan_while_at_split)
  have cut: "take (length A) spans @ drop (length A + length (takeWhile (\<lambda>sp. sp_end sp \<le> e) B)) spans = A @ C"
    by (simp add: spans C_def dropWhile_eq_drop)
  have c3: "(length A < length (A @ C) \<and> sp_start ((A @ C) ! length A) \<le> s \<and> e \<le> sp_end ((A @ C) ! length A))
      = (C \<noteq> [] \<and> sp_start (hd C) \<le> s \<and> e \<le> sp_end (hd C))"
    by (auto simp: nth_append hd_conv_nth)
  have ins: "take (length A) (A @ C) @ x # drop (length A) (A @ C) = A @ x # C" for x
    by simp
  show ?thesis
    unfolding kc_ngram_add_closed_span_def Let_def idx c1 c2 rem cut c3 ins by simp
qed

lemma spans_ok_append:
  "spans_ok (xs @ ys) \<longleftrightarrow> spans_ok xs \<and> spans_ok ys \<and> (\<forall>a \<in> set xs. \<forall>b \<in> set ys. span_less a b)"
  by (simp add: spans_ok_def sorted_wrt_append)

lemma spans_ok_Cons:
  "spans_ok (x # ys) \<longleftrightarrow> (\<forall>b \<in> set ys. span_less x b) \<and> spans_ok ys"
  by (simp add: spans_ok_def)

text \<open>In a sorted antichain a monotone test that fails at the first element of a suffix fails on it.\<close>

lemma spans_dropWhile_all:
  assumes "spans_ok xs" and "\<And>a b. span_less a b \<Longrightarrow> p b \<Longrightarrow> p a" and "sp \<in> set (dropWhile p xs)"
  shows "\<not> p sp"
proof (cases "dropWhile p xs")
  case Nil
  from assms(3) show ?thesis unfolding Nil by simp
next
  case (Cons y ys)
  then have "\<not> p y" by (simp add: dropWhile_eq_Cons_conv)
  moreover have "spans_ok (y # ys)"
    using assms(1) spans_ok_append [of "takeWhile p xs" "y # ys"] takeWhile_dropWhile_id [of p xs]
    unfolding Cons by simp
  ultimately show ?thesis
    using assms(2,3) Cons by (auto simp: spans_ok_Cons)
qed

text \<open>Every branch of the insertion keeps the array an antichain sorted by both ends.\<close>

lemma add_closed_span_ok:
  assumes ok: "spans_ok spans" and add: "kc_ngram_add_closed_span alloc spans cap s e = (r, spans', cap')"
  shows "spans_ok spans'"
proof -
  define A where "A = takeWhile (\<lambda>sp. sp_start sp < s) spans"
  define B where "B = dropWhile (\<lambda>sp. sp_start sp < s) spans"
  define C where "C = dropWhile (\<lambda>sp. sp_end sp \<le> e) B"
  have spans: "spans = A @ B" by (simp add: A_def B_def)
  obtain R where B: "B = R @ C" using takeWhile_dropWhile_id [of _ B] unfolding C_def by metis
  from ok have sAC: "spans_ok (A @ C)" and sA: "spans_ok A" and sB: "spans_ok B" and sC: "spans_ok C"
    unfolding spans B spans_ok_append by auto
  have A: "sp_start a < s" if "a \<in> set A" for a
    using that by (auto simp: A_def dest: set_takeWhileD)
  have Bs: "s \<le> sp_start b" if "b \<in> set B" for b
    using spans_dropWhile_all [OF ok, of "\<lambda>sp. sp_start sp < s" b] that
    by (auto simp: B_def span_less_def)
  have Ce: "e < sp_end c" if "c \<in> set C" for c
    using spans_dropWhile_all [OF sB, of "\<lambda>sp. sp_end sp \<le> e" c] that
    by (auto simp: C_def span_less_def)
  have new: "spans_ok (A @ \<lparr>sp_start = s, sp_end = e\<rparr> # C)"
    if a: "\<not> (A \<noteq> [] \<and> e \<le> sp_end (last A))" and c: "\<not> (C \<noteq> [] \<and> sp_start (hd C) \<le> s \<and> e \<le> sp_end (hd C))"
  proof -
    have "sp_end x < e" if "x \<in> set A" for x
    proof -
      from that have "A = butlast A @ [last A]" by (cases A) auto
      with sA have "x = last A \<or> span_less x (last A)"
        using that spans_ok_append [of "butlast A" "[last A]"] by (metis Un_iff empty_iff empty_set insert_iff list.simps(15) set_append)
      with a that show ?thesis by (auto simp: span_less_def)
    qed
    moreover have "s < sp_start x" if "x \<in> set C" for x
    proof (cases C)
      case (Cons y ys)
      from Cons have "s < sp_start y" using c Ce [of y] by auto
      with that Cons sC show ?thesis by (auto simp: spans_ok_Cons span_less_def)
    qed (use that in simp)
    ultimately show ?thesis
      using sAC A Ce by (auto simp: spans_ok_append spans_ok_Cons span_less_def)
  qed
  show ?thesis
    using add new ok sAC unfolding add_closed_span_split [OF ok] A_def [symmetric] B_def [symmetric] C_def [symmetric]
    by (auto split: if_splits option.splits)
qed

text \<open>A successful insertion covers exactly what was covered before and the new window.\<close>

lemma add_closed_span_covers:
  assumes ok: "spans_ok spans" and add: "kc_ngram_add_closed_span alloc spans cap s e = (True, spans', cap')"
  shows "covers spans' x y \<longleftrightarrow> covers spans x y \<or> s \<le> x \<and> y \<le> e"
proof -
  define A where "A = takeWhile (\<lambda>sp. sp_start sp < s) spans"
  define B where "B = dropWhile (\<lambda>sp. sp_start sp < s) spans"
  define R where "R = takeWhile (\<lambda>sp. sp_end sp \<le> e) B"
  define C where "C = dropWhile (\<lambda>sp. sp_end sp \<le> e) B"
  have spans: "spans = A @ R @ C" by (simp add: A_def B_def R_def C_def)
  have "s \<le> sp_start b" if "b \<in> set B" for b
    using spans_dropWhile_all [OF ok, of "\<lambda>sp. sp_start sp < s" b] that
    by (auto simp: B_def span_less_def)
  then have R: "s \<le> sp_start b \<and> sp_end b \<le> e" if "b \<in> set R" for b
    using that by (auto simp: R_def dest: set_takeWhileD)
  have gone: "s \<le> x \<and> y \<le> e" if "covers R x y"
    using that R by (fastforce simp: covers_def)
  have inA: "covers spans x y" if "s \<le> x" "y \<le> e" "A \<noteq> []" "e \<le> sp_end (last A)"
  proof -
    have "last A \<in> set A" using that(3) by simp
    then have "last A \<in> set spans" "sp_start (last A) \<le> s"
      by (auto simp: A_def dest: set_takeWhileD)
    with that show ?thesis unfolding covers_def by (meson le_trans)
  qed
  have inB: "covers spans x y" if "s \<le> x" "y \<le> e" "B \<noteq> []" "sp_start (hd B) = s" "e \<le> sp_end (hd B)"
    using that spans hd_in_set [of B] unfolding covers_def B_def
    by (metis Un_iff le_trans order_refl set_append takeWhile_dropWhile_id)
  have inC: "covers C x y" if "s \<le> x" "y \<le> e" "C \<noteq> []" "sp_start (hd C) \<le> s" "e \<le> sp_end (hd C)"
    using that hd_in_set [of C] unfolding covers_def by (meson le_trans)
  show ?thesis
    using add gone inA inB inC
    unfolding add_closed_span_split [OF ok] A_def [symmetric] B_def [symmetric] C_def [symmetric]
    by (auto simp: spans split: if_splits option.splits)
qed

subsection \<open>The traversal as a walk over the windows\<close>

text \<open>
  The two nested loops visit the windows \<open>(start, size)\<close> of \<open>windows\<close> in this order. \<open>walk\<close> is
  that visit over any representation of the set of closed windows; \<open>islands\<close> is its
  specification, which simply remembers the windows the visitor has closed.
\<close>

definition windows :: "nat \<Rightarrow> nat \<Rightarrow> nat \<Rightarrow> (nat \<times> nat) list" where
  "windows n mn mx = concat (map (\<lambda>w. map (\<lambda>s. (s, w)) [0..<Suc n - w]) (rev [mn..<Suc mx]))"

fun walk :: "(nat \<Rightarrow> nat \<Rightarrow> 's \<Rightarrow> bool) \<Rightarrow> ('s \<Rightarrow> nat \<Rightarrow> nat \<Rightarrow> bool \<times> 's) \<Rightarrow> (nat \<times> nat \<Rightarrow> 'c \<Rightarrow> int \<times> 'c)
    \<Rightarrow> (nat \<times> nat) list \<Rightarrow> 's \<Rightarrow> nat \<Rightarrow> 'c \<Rightarrow> bool \<times> 's \<times> nat \<times> 'c" where
  "walk isc cl v [] t k c = (True, t, k, c)"
| "walk isc cl v ((s, w) # ws) t k c =
     (if isc s (s + w - 1) t then walk isc cl v ws t k c
      else let (d, c') = v (s, w) c
           in if d < 0 then (False, t, k, c')
              else if d = 1 then
                let (ok, t') = cl t s (s + w - 1)
                in if ok then walk isc cl v ws t' (k + 1) c' else (False, t', k + 1, c')
              else walk isc cl v ws t (k + 1) c')"

definition inside :: "(nat \<times> nat) list \<Rightarrow> nat \<Rightarrow> nat \<Rightarrow> bool" where
  "inside taken s e \<longleftrightarrow> (\<exists>(a, b) \<in> set taken. a \<le> s \<and> e \<le> b)"

fun islands :: "(nat \<times> nat \<Rightarrow> 'c \<Rightarrow> int \<times> 'c) \<Rightarrow> (nat \<times> nat) list \<Rightarrow> (nat \<times> nat) list \<Rightarrow> nat \<Rightarrow> 'c
    \<Rightarrow> int \<times> 'c" where
  "islands v [] taken k c = (int k, c)"
| "islands v ((s, w) # ws) taken k c =
     (if inside taken s (s + w - 1) then islands v ws taken k c
      else let (d, c') = v (s, w) c
           in if d < 0 then (-1, c')
              else islands v ws (if d = 1 then (s, s + w - 1) # taken else taken) (k + 1) c')"

text \<open>What the traversal needs of a representation of the closed windows.\<close>

locale closed_windows =
  fixes is_closed :: "nat \<Rightarrow> nat \<Rightarrow> 's \<Rightarrow> bool"
    and close :: "'s \<Rightarrow> nat \<Rightarrow> nat \<Rightarrow> bool \<times> 's"
    and invar :: "'s \<Rightarrow> bool"
    and meaning :: "'s \<Rightarrow> nat \<Rightarrow> nat \<Rightarrow> bool"
  assumes is_closed_meaning: "invar t \<Longrightarrow> is_closed s e t \<longleftrightarrow> meaning t s e"
    and close_invar: "invar t \<Longrightarrow> close t s e = (ok, t') \<Longrightarrow> invar t'"
    and close_meaning: "invar t \<Longrightarrow> close t s e = (True, t') \<Longrightarrow>
      meaning t' x y \<longleftrightarrow> meaning t x y \<or> s \<le> x \<and> y \<le> e"
begin

lemma walk_invar:
  "invar t \<Longrightarrow> walk is_closed close v ws t k c = (ok, t', k', c') \<Longrightarrow> invar t'"
proof (induction ws arbitrary: t k c)
  case (Cons sw ws)
  then show ?case
    by (cases sw) (auto split: if_splits prod.splits dest: close_invar)
qed simp

text \<open>A walk that is not cut short by a failed \<open>close\<close> does what the specification does.\<close>

lemma walk_islands:
  assumes "invar t" and "\<And>x y. meaning t x y \<longleftrightarrow> inside taken x y"
    and "walk is_closed close v ws t k c = (ok, t', k', c')"
    and "ok \<or> (\<forall>t s e. fst (close t s e))"
  shows "islands v ws taken k c = (if ok then int k' else -1, c')"
  using assms
proof (induction ws arbitrary: t taken k c)
  case Nil
  then show ?case by simp
next
  case (Cons sw ws)
  obtain s w where sw: "sw = (s, w)" by force
  let ?e = "s + w - 1"
  obtain d c1 where v: "v (s, w) c = (d, c1)" by force
  obtain r t1 where cl: "close t s ?e = (r, t1)" by force
  have isc: "is_closed s ?e t \<longleftrightarrow> inside taken s ?e"
    using is_closed_meaning [OF Cons.prems(1)] Cons.prems(2) by simp
  show ?case
  proof (cases "inside taken s ?e")
    case True
    with Cons.prems(3) isc have "walk is_closed close v ws t k c = (ok, t', k', c')"
      by (simp add: sw)
    from Cons.IH [OF Cons.prems(1,2) this Cons.prems(4)] True show ?thesis
      by (simp add: sw)
  next
    case out: False
    consider (abort) "d < 0" | (close) "d = 1" | (skip) "0 \<le> d" "d \<noteq> 1" by linarith
    then show ?thesis
    proof cases
      case abort
      with Cons.prems(3) isc out v show ?thesis by (simp add: sw)
    next
      case skip
      with Cons.prems(3) isc out v have "walk is_closed close v ws t (k + 1) c1 = (ok, t', k', c')"
        by (simp add: sw)
      from Cons.IH [OF Cons.prems(1,2) this Cons.prems(4)] skip out v show ?thesis
        by (simp add: sw)
    next
      case close
      have r: "r"
        using Cons.prems(3,4) isc out v cl close by (auto simp: sw split: if_splits) (metis fst_conv)
      with Cons.prems(3) isc out v cl close
      have w: "walk is_closed close v ws t1 (k + 1) c1 = (ok, t', k', c')"
        by (simp add: sw)
      have inv1: "invar t1" using Cons.prems(1) cl by (rule close_invar)
      have "meaning t1 x y \<longleftrightarrow> inside ((s, ?e) # taken) x y" for x y
        using close_meaning [OF Cons.prems(1)] cl r Cons.prems(2) by (auto simp: inside_def)
      from Cons.IH [OF inv1 this w Cons.prems(4)] close out v show ?thesis
        by (simp add: sw)
    qed
  qed
qed

text \<open>An invariant of the visitor's context, of the windows closed so far and of those offered so far
  holds at the end of a walk, however the walk ends; and a walk that ends well has offered every
  window that does not lie inside a closed one.\<close>

lemma walk_invariant:
  assumes step: "\<And>taken seen s w c d c'. (s, w) \<in> W \<Longrightarrow> \<not> inside taken s (s + w - 1) \<Longrightarrow> Q taken seen c \<Longrightarrow>
      v (s, w) c = (d, c') \<Longrightarrow> Q (if d = 1 then (s, s + w - 1) # taken else taken) ((s, w) # seen) c'"
  shows "invar t \<Longrightarrow> (\<And>x y. meaning t x y \<longleftrightarrow> inside taken x y) \<Longrightarrow> Q taken seen c \<Longrightarrow> set ws \<subseteq> W \<Longrightarrow>
    walk is_closed close v ws t k c = (ok, t', k', c') \<Longrightarrow>
    \<exists>taken' seen'. Q taken' seen' c' \<and> set taken \<subseteq> set taken' \<and> set seen \<subseteq> set seen' \<and>
      (ok \<longrightarrow> (\<forall>(s, w) \<in> set ws. (s, w) \<in> set seen' \<or> inside taken' s (s + w - 1)))"
proof (induction ws arbitrary: t taken seen k c)
  case Nil
  then show ?case by auto
next
  case (Cons sw ws)
  obtain s w where sw: "sw = (s, w)" by force
  let ?e = "s + w - 1"
  obtain d c1 where v: "v (s, w) c = (d, c1)" by force
  obtain r t1 where cl: "close t s ?e = (r, t1)" by force
  have ws: "(s, w) \<in> W" "set ws \<subseteq> W" using Cons.prems(4) by (auto simp: sw)
  have isc: "is_closed s ?e t \<longleftrightarrow> inside taken s ?e"
    using is_closed_meaning [OF Cons.prems(1)] Cons.prems(2) by simp
  have mono: "inside b x y" if "inside a x y" "set a \<subseteq> set b" for a b x y
    using that by (auto simp: inside_def)
  show ?case
  proof (cases "inside taken s ?e")
    case True
    with Cons.prems(5) isc have "walk is_closed close v ws t k c = (ok, t', k', c')" by (simp add: sw)
    from Cons.IH [OF Cons.prems(1-3) ws(2) this] obtain taken' seen' where
      *: "Q taken' seen' c'" "set taken \<subseteq> set taken'" "set seen \<subseteq> set seen'"
      "ok \<longrightarrow> (\<forall>(s, w) \<in> set ws. (s, w) \<in> set seen' \<or> inside taken' s (s + w - 1))" by blast
    from mono [OF True *(2)] *(4) have "ok \<longrightarrow> (\<forall>(s, w) \<in> set (sw # ws). (s, w) \<in> set seen' \<or> inside taken' s (s + w - 1))"
      by (simp add: sw)
    with * show ?thesis by blast
  next
    case out: False
    let ?taken = "if d = 1 then (s, ?e) # taken else taken"
    have Q1: "Q ?taken ((s, w) # seen) c1" by (rule step [OF ws(1) out Cons.prems(3) v])
    consider (go) t2 where "walk is_closed close v ws t2 (k + 1) c1 = (ok, t', k', c')" "invar t2"
        "\<And>x y. meaning t2 x y \<longleftrightarrow> inside ?taken x y" | (stop) "\<not> ok" "c' = c1"
    proof (cases "d = 1")
      case True
      have m: "meaning t1 x y \<longleftrightarrow> inside ((s, ?e) # taken) x y" if r for x y
        using close_meaning [OF Cons.prems(1)] cl that Cons.prems(2) by (auto simp: inside_def)
      show ?thesis
        using that Cons.prems(5) isc out v cl True m close_invar [OF Cons.prems(1) cl]
        by (cases r) (auto simp: sw)
    next
      case False
      then show ?thesis using that Cons.prems(1,2,5) isc out v by (cases "d < 0") (auto simp: sw)
    qed
    then show ?thesis
    proof cases
      case go
      from Cons.IH [OF go(2,3) Q1 ws(2) go(1)] obtain taken' seen' where
        *: "Q taken' seen' c'" "set ?taken \<subseteq> set taken'" "set ((s, w) # seen) \<subseteq> set seen'"
        "ok \<longrightarrow> (\<forall>(s, w) \<in> set ws. (s, w) \<in> set seen' \<or> inside taken' s (s + w - 1))" by blast
      from *(3,4) have "ok \<longrightarrow> (\<forall>(s, w) \<in> set (sw # ws). (s, w) \<in> set seen' \<or> inside taken' s (s + w - 1))"
        by (simp add: sw)
      moreover have "set taken \<subseteq> set taken'" using *(2) by (auto split: if_splits)
      ultimately show ?thesis using * by auto
    next
      case stop
      with Q1 show ?thesis by (intro exI [of _ ?taken] exI [of _ "(s, w) # seen"]) auto
    qed
  qed
qed

end

text \<open>The sorted span array provides the interface.\<close>

definition span_array_is_closed :: "nat \<Rightarrow> nat \<Rightarrow> kc_ngram_span_t list \<times> nat \<Rightarrow> bool" where
  "span_array_is_closed s e t = kc_ngram_span_is_closed s e (fst t)"

definition span_array_close ::
    "allocator \<Rightarrow> kc_ngram_span_t list \<times> nat \<Rightarrow> nat \<Rightarrow> nat \<Rightarrow> bool \<times> kc_ngram_span_t list \<times> nat" where
  "span_array_close alloc t s e = kc_ngram_add_closed_span alloc (fst t) (snd t) s e"

interpretation span_array: closed_windows span_array_is_closed "span_array_close alloc"
    "\<lambda>t. spans_ok (fst t)" "\<lambda>t. covers (fst t)" for alloc
proof
  show "spans_ok (fst t) \<Longrightarrow> span_array_is_closed s e t \<longleftrightarrow> covers (fst t) s e" for t s e
    unfolding span_array_is_closed_def by (rule span_is_closed_covers)
next
  fix t t' :: "kc_ngram_span_t list \<times> nat" and s e ok
  assume "spans_ok (fst t)" "span_array_close alloc t s e = (ok, t')"
  then show "spans_ok (fst t')"
    unfolding span_array_close_def by (cases t') (auto intro: add_closed_span_ok)
next
  fix t t' :: "kc_ngram_span_t list \<times> nat" and s e x y
  assume "spans_ok (fst t)" "span_array_close alloc t s e = (True, t')"
  then show "covers (fst t') x y \<longleftrightarrow> covers (fst t) x y \<or> s \<le> x \<and> y \<le> e"
    unfolding span_array_close_def by (cases t') (auto dest: add_closed_span_covers)
qed

subsection \<open>The loops of the source are that walk\<close>

abbreviation run_of :: "kc_ngram_span_t list \<Rightarrow> nat \<Rightarrow> nat \<Rightarrow> 'c \<Rightarrow> 'c kc_ngram_run" where
  "run_of a b k c \<equiv> \<lparr>closed_spans = a, closed_cap = b, emitted = k, run_ctx = c\<rparr>"

abbreviation visit_window ::
    "'c kc_ngram_visit_fn \<Rightarrow> string \<Rightarrow> kc_ngram_token_t list \<Rightarrow> nat \<times> nat \<Rightarrow> 'c \<Rightarrow> int \<times> 'c" where
  "visit_window visit input toks \<equiv> (\<lambda>(s, w). visit (mk_chunk input toks s w))"

abbreviation span_walk where
  "span_walk alloc visit input toks \<equiv>
     walk span_array_is_closed (span_array_close alloc) (visit_window visit input toks)"

lemma walk_append:
  "walk isc cl v (us @ ws) t k c =
     (case walk isc cl v us t k c of
        (True, t', k', c') \<Rightarrow> walk isc cl v ws t' k' c'
      | (False, r) \<Rightarrow> (False, r))"
  by (induction isc cl v us t k c rule: walk.induct) (auto split: prod.splits)

lemma ngram_start_loop_walk:
  "ngram_start_loop alloc visit input toks w start (run_of a b k c) =
     (case span_walk alloc visit input toks (map (\<lambda>s. (s, w)) [start..<Suc (length toks) - w]) (a, b) k c of
        (ok, (a', b'), k', c') \<Rightarrow> (ok, run_of a' b' k' c'))"
proof (induction "Suc (length toks) - start" arbitrary: start a b k c)
  case 0
  then show ?case by (simp add: ngram_start_loop.simps)
next
  case (Suc m)
  show ?case
  proof (cases "start + w \<le> length toks")
    case False
    then have "[start..<Suc (length toks) - w] = []" by simp
    with False show ?thesis by (simp add: ngram_start_loop.simps [of alloc visit input toks w start])
  next
    case True
    then have ws: "[start..<Suc (length toks) - w] = start # [Suc start..<Suc (length toks) - w]"
      by (simp add: upt_rec)
    have IH: "ngram_start_loop alloc visit input toks w (Suc start) (run_of a b k c) =
        (case span_walk alloc visit input toks (map (\<lambda>s. (s, w)) [Suc start..<Suc (length toks) - w]) (a, b) k c of
           (ok, (a', b'), k', c') \<Rightarrow> (ok, run_of a' b' k' c'))" for a b k c
      using Suc.hyps(2) by (intro Suc.hyps(1)) simp
    show ?thesis
      using True IH
      by (simp add: ngram_start_loop.simps [of alloc visit input toks w start] ws ngram_step_def Let_def
          span_array_is_closed_def span_array_close_def split: prod.split)
  qed
qed

lemma windows_step: "mn \<le> mx \<Longrightarrow>
    windows n mn mx = map (\<lambda>s. (s, mx)) [0..<Suc n - mx] @ (if mx = 0 then [] else windows n mn (mx - 1))"
  by (cases mx) (auto simp: windows_def)

lemma ngram_window_loop_walk:
  assumes "1 \<le> mn"
  shows "ngram_window_loop alloc visit input toks mn w (run_of a b k c) =
     (case span_walk alloc visit input toks (windows (length toks) mn w) (a, b) k c of
        (ok, (a', b'), k', c') \<Rightarrow> (ok, run_of a' b' k' c'))"
proof (induction w arbitrary: a b k c)
  case 0
  with assms show ?case by (simp add: ngram_window_loop.simps windows_def)
next
  case (Suc w)
  show ?case
  proof (cases "mn \<le> Suc w")
    case True
    then show ?thesis
      using Suc.IH
      by (simp add: ngram_window_loop.simps [of alloc visit input toks mn "Suc w"] windows_step
          ngram_start_loop_walk walk_append split: prod.split bool.split)
  next
    case False
    then show ?thesis
      by (simp add: ngram_window_loop.simps [of alloc visit input toks mn "Suc w"] windows_def)
  qed
qed

subsection \<open>Tokens are the maximal runs of non-separators\<close>

definition is_token :: "string \<Rightarrow> string option \<Rightarrow> nat \<Rightarrow> nat \<Rightarrow> bool" where
  "is_token input seps i j \<longleftrightarrow> i < j \<and> j \<le> length input
     \<and> (\<forall>k. i \<le> k \<and> k < j \<longrightarrow> \<not> kc_ngram_is_separator (input ! k) seps)
     \<and> (i = 0 \<or> kc_ngram_is_separator (input ! (i - 1)) seps)
     \<and> (j = length input \<or> kc_ngram_is_separator (input ! j) seps)"

definition tok_before :: "kc_ngram_token_t \<Rightarrow> kc_ngram_token_t \<Rightarrow> bool" where
  "tok_before a b \<longleftrightarrow> tok_end a < tok_start b"

text \<open>A cursor between two tokens: at the start, at the end, or on a separator.\<close>

definition at_gap :: "string \<Rightarrow> string option \<Rightarrow> nat \<Rightarrow> bool" where
  "at_gap input seps c \<longleftrightarrow> c = 0 \<or> c = length input \<or> kc_ngram_is_separator (input ! c) seps"

text \<open>From a gap, the two inner loops delimit the next token and stop at a gap again.\<close>

lemma next_token:
  fixes cursor :: nat
  assumes "at_gap input seps cursor"
  defines "ts \<equiv> scan_while (\<lambda>c. kc_ngram_is_separator c seps) input cursor"
  defines "te \<equiv> scan_while (\<lambda>c. \<not> kc_ngram_is_separator c seps) input ts"
  assumes lt: "ts < length input"
  shows "is_token input seps ts te" and "at_gap input seps te"
    and "is_token input seps i j \<Longrightarrow> cursor \<le> i \<Longrightarrow> i = ts \<and> j = te \<or> te < i"
proof -
  have ge: "cursor \<le> ts" by (simp add: ts_def)
  have nosep: "\<not> kc_ngram_is_separator (input ! ts) seps"
    using lt scan_while_stop [of "\<lambda>c. kc_ngram_is_separator c seps" input cursor] by (simp add: ts_def)
  have te: "ts < te" "te \<le> length input"
    using lt nosep scan_while_progress [of ts input "\<lambda>c. \<not> kc_ngram_is_separator c seps"]
      scan_while_le [of ts input] by (simp_all add: te_def)
  have gap: "kc_ngram_is_separator (input ! k) seps" if "cursor \<le> k" "k < ts" for k
    using that scan_while_all [of cursor k "\<lambda>c. kc_ngram_is_separator c seps" input] by (simp add: ts_def)
  have run: "\<not> kc_ngram_is_separator (input ! k) seps" if "ts \<le> k" "k < te" for k
    using that scan_while_all [of ts k "\<lambda>c. \<not> kc_ngram_is_separator c seps" input] by (simp add: te_def)
  have stop: "te = length input \<or> kc_ngram_is_separator (input ! te) seps"
    using te(2) scan_while_stop [of "\<lambda>c. \<not> kc_ngram_is_separator c seps" input ts, folded te_def]
    by (meson le_neq_implies_less)
  have left: "ts = 0 \<or> kc_ngram_is_separator (input ! (ts - 1)) seps"
  proof (cases "cursor < ts")
    case True
    then show ?thesis using gap [of "ts - 1"] by simp
  next
    case False
    with ge nosep lt assms(1) show ?thesis by (auto simp: at_gap_def)
  qed
  show "is_token input seps ts te"
    using te run left stop by (simp add: is_token_def)
  show "at_gap input seps te"
    using stop by (auto simp: at_gap_def)
  assume tok: "is_token input seps i j" and ci: "cursor \<le> i"
  from tok have i: "i < j" "j \<le> length input" "i = 0 \<or> kc_ngram_is_separator (input ! (i - 1)) seps"
    "j = length input \<or> kc_ngram_is_separator (input ! j) seps"
    and irun: "\<And>k. i \<le> k \<Longrightarrow> k < j \<Longrightarrow> \<not> kc_ngram_is_separator (input ! k) seps"
    by (auto simp: is_token_def)
  have "ts \<le> i" using gap [OF ci] irun [of i] i(1) by (meson leI order_refl)
  moreover have "\<not> (ts < i \<and> i \<le> te)"
    using i(3) run [of "i - 1"] by fastforce
  moreover have "j = te" if "i = ts"
  proof (rule linorder_cases [of j te])
    assume "j < te"
    with that i te run [of j] show ?thesis by auto
  next
    assume "te < j"
    with that te i irun [of te] stop show ?thesis by auto
  qed
  ultimately show "i = ts \<and> j = te \<or> te < i" by linarith
qed

lemma split_tokens_loop_spec:
  assumes "at_gap input seps cursor" "cursor \<le> length input"
    and "split_tokens_loop alloc input seps cursor tokens = Some t"
  shows "\<exists>new. items t = items tokens @ new \<and> sorted_wrt tok_before new \<and>
    set new = {tk. is_token input seps (tok_start tk) (tok_end tk) \<and> cursor \<le> tok_start tk}"
  using assms
proof (induction alloc input seps cursor tokens rule: split_tokens_loop.induct)
  case (1 alloc input seps cursor tokens)
  let ?ts = "scan_while (\<lambda>c. kc_ngram_is_separator c seps) input cursor"
  let ?te = "scan_while (\<lambda>c. \<not> kc_ngram_is_separator c seps) input ?ts"
  note unf = split_tokens_loop.simps [of alloc input seps cursor tokens] Let_def
  show ?case
  proof (cases "cursor < length input \<and> ?ts < length input")
    case False
    have none: "\<not> is_token input seps i j" if "cursor \<le> i" for i j
    proof
      assume tok: "is_token input seps i j"
      then have "i < length input" by (simp add: is_token_def)
      with that False have "i < ?ts" by linarith
      with that have "kc_ngram_is_separator (input ! i) seps"
        using scan_while_all [of cursor i "\<lambda>c. kc_ngram_is_separator c seps" input] by simp
      with tok show False by (auto simp: is_token_def)
    qed
    from False 1(5) have "t = tokens"
      by (cases "cursor < length input") (simp_all add: unf)
    with none show ?thesis by (intro exI [of _ "[]"]) auto
  next
    case True
    note nt = next_token [OF 1(3) conjunct2 [OF True]]
    then have lt: "?ts < ?te" "?te \<le> length input" by (auto simp: is_token_def)
    from True lt 1(5) obtain t1 where
      push: "kc_ngram_push_token alloc tokens ?ts ?te = Some t1"
      and loop: "split_tokens_loop alloc input seps ?te t1 = Some t"
      by (auto simp: unf split: option.splits)
    from push have t1: "items t1 = items tokens @ [\<lparr>tok_start = ?ts, tok_end = ?te\<rparr>]"
      by (auto simp: kc_ngram_push_token_def kc_ngram_reserve_token_slot_def Let_def
          split: if_splits option.splits)
    from 1(1) [OF conjunct1 [OF True] refl _ refl _ push nt(2) lt(2) loop] True lt
    obtain new where new: "items t = items t1 @ new" "sorted_wrt tok_before new"
      "set new = {tk. is_token input seps (tok_start tk) (tok_end tk) \<and> ?te \<le> tok_start tk}"
      by auto
    have cts: "cursor \<le> ?ts" by (rule scan_while_ge)
    have past: "cursor \<le> i" if "?te \<le> i" for i
      using cts lt(1) that by linarith
    have split: "is_token input seps i j \<and> cursor \<le> i \<longleftrightarrow>
        i = ?ts \<and> j = ?te \<or> is_token input seps i j \<and> ?te \<le> i" for i j
      using nt(1) nt(3) [of i j] cts past by (auto dest: less_imp_le)
    have after: "?te < tok_start tk" if "tk \<in> set new" for tk
      using that new(3) split [of "tok_start tk" "tok_end tk"] nt(3) [of "tok_start tk" "tok_end tk"] lt by auto
    let ?new = "\<lparr>tok_start = ?ts, tok_end = ?te\<rparr> # new"
    have "set ?new = {tk. is_token input seps (tok_start tk) (tok_end tk) \<and> cursor \<le> tok_start tk}"
      using new(3) split by auto
    moreover have "sorted_wrt tok_before ?new"
      using new(2) after by (simp add: tok_before_def)
    ultimately show ?thesis
      using new(1) t1 by (intro exI [of _ ?new]) simp
  qed
qed

lemma push_token_total:
  "never_fails alloc \<Longrightarrow> b < e \<Longrightarrow> \<exists>t. kc_ngram_push_token alloc tokens b e = Some t"
  by (simp add: kc_ngram_push_token_def kc_ngram_reserve_token_slot_def Let_def)

lemma split_tokens_loop_total:
  "never_fails alloc \<Longrightarrow> \<exists>t. split_tokens_loop alloc input seps cursor tokens = Some t"
proof (induction alloc input seps cursor tokens rule: split_tokens_loop.induct)
  case (1 alloc input seps cursor tokens)
  let ?ts = "scan_while (\<lambda>c. kc_ngram_is_separator c seps) input cursor"
  let ?te = "scan_while (\<lambda>c. \<not> kc_ngram_is_separator c seps) input ?ts"
  note unf = split_tokens_loop.simps [of alloc input seps cursor tokens] Let_def
  show ?case
  proof (cases "cursor < length input \<and> ?ts < length input")
    case False
    then show ?thesis by (cases "cursor < length input") (simp_all add: unf)
  next
    case True
    then have ts: "cursor < length input" "\<not> length input \<le> ?ts" by simp_all
    show ?thesis
    proof (cases "?te = ?ts")
      case same: True
      then have "split_tokens_loop alloc input seps cursor tokens = split_tokens_loop alloc input seps ?te tokens"
        using ts by (simp add: unf)
      with 1(2) [OF ts(1) refl ts(2) refl] 1(3) same show ?thesis by metis
    next
      case False
      then have "?ts < ?te" using scan_while_ge [of ?ts "\<lambda>c. \<not> kc_ngram_is_separator c seps" input] by linarith
      then obtain t1 where push: "kc_ngram_push_token alloc tokens ?ts ?te = Some t1"
        using 1(3) push_token_total by blast
      then have "split_tokens_loop alloc input seps cursor tokens = split_tokens_loop alloc input seps ?te t1"
        using ts False by (simp add: unf)
      with 1(1) [OF ts(1) refl ts(2) refl False push 1(3)] show ?thesis by metis
    qed
  qed
qed

subsection \<open>What a traversal offers to its visitor\<close>

text \<open>A visitor that also keeps the log of the chunks it was given and of its decisions.\<close>

definition logged :: "'c kc_ngram_visit_fn \<Rightarrow> ('c \<times> (kc_ngram_chunk_t \<times> int) list) kc_ngram_visit_fn" where
  "logged visit chunk cl =
     (let (d, c') = visit chunk (fst cl) in (d, c', snd cl @ [(chunk, d)]))"

definition closed_of :: "((nat \<times> nat) \<times> int) list \<Rightarrow> (nat \<times> nat) list" where
  "closed_of log = map (\<lambda>((s, w), d). (s, s + w - 1)) (filter (\<lambda>(sw, d). d = 1) log)"

lemma inside_mono: "inside cls s e \<Longrightarrow> set cls \<subseteq> set cls' \<Longrightarrow> inside cls' s e"
  by (auto simp: inside_def)

lemma inside_same: "set cls = set cls' \<Longrightarrow> inside cls s e \<longleftrightarrow> inside cls' s e"
  by (auto simp: inside_def)

lemma islands_log:
  assumes "islands (visit_window (logged visit) input toks) ws taken k (c, l) = (r, c', l')" and "0 \<le> r"
  shows "\<exists>new. l' = l @ map (\<lambda>((s, w), d). (mk_chunk input toks s w, d)) new
    \<and> r = int (k + length new) \<and> subseq (map fst new) ws
    \<and> (\<forall>i < length new. case new ! i of ((s, w), d) \<Rightarrow>
          0 \<le> d \<and> \<not> inside (taken @ closed_of (take i new)) s (s + w - 1))
    \<and> (\<forall>(s, w) \<in> set ws. (s, w) \<in> fst ` set new \<or> inside (taken @ closed_of new) s (s + w - 1))"
    (is "\<exists>new. ?P taken k c l ws new")
  using assms(1)
proof (induction ws arbitrary: taken k c l)
  case Nil
  with assms(2) show ?case by (intro exI [of _ "[]"]) simp
next
  case (Cons sw ws)
  obtain s w where sw: "sw = (s, w)" by force
  let ?e = "s + w - 1"
  show ?case
  proof (cases "inside taken s ?e")
    case True
    with Cons.prems have "islands (visit_window (logged visit) input toks) ws taken k (c, l) = (r, c', l')"
      by (simp add: sw)
    then obtain new where new: "?P taken k c l ws new" using Cons.IH by blast
    have "inside (taken @ closed_of new) s ?e" using True by (rule inside_mono) simp
    with new show ?thesis by (intro exI [of _ new]) (auto simp: sw intro: list_emb_Cons)
  next
    case False
    obtain d c1 where v: "visit (mk_chunk input toks s w) c = (d, c1)" by force
    let ?l1 = "l @ [(mk_chunk input toks s w, d)]"
    let ?taken1 = "if d = 1 then (s, ?e) # taken else taken"
    have lv: "logged visit (mk_chunk input toks s w) (c, l) = (d, c1, ?l1)"
      by (simp add: logged_def v)
    have d: "0 \<le> d" using Cons.prems assms(2) False lv by (auto simp: sw split: if_splits)
    with Cons.prems False lv
    have "islands (visit_window (logged visit) input toks) ws ?taken1 (k + 1) (c1, ?l1) = (r, c', l')"
      by (simp add: sw)
    then obtain new where new: "?P ?taken1 (k + 1) c1 ?l1 ws new" using Cons.IH by blast
    have app: "set (?taken1 @ closed_of xs) = set (taken @ closed_of (((s, w), d) # xs))" for xs
      by (simp add: closed_of_def)
    have skip: "case (((s, w), d) # new) ! i of ((x, y), z) \<Rightarrow>
        0 \<le> z \<and> \<not> inside (taken @ closed_of (take i (((s, w), d) # new))) x (x + y - 1)"
      if "i < length (((s, w), d) # new)" for i
    proof (cases i)
      case 0
      with False d show ?thesis by (simp add: closed_of_def)
    next
      case (Suc j)
      with that have j: "j < length new" by simp
      from new have "\<forall>i < length new. case new ! i of ((s, w), d) \<Rightarrow>
          0 \<le> d \<and> \<not> inside (?taken1 @ closed_of (take i new)) s (s + w - 1)"
        by (elim conjE)
      from this [rule_format, OF j] show ?thesis
        unfolding Suc nth_Cons_Suc take_Suc_Cons inside_same [OF app [symmetric]] .
    qed
    have complete: "(x, y) \<in> fst ` set (((s, w), d) # new) \<or> inside (taken @ closed_of (((s, w), d) # new)) x (x + y - 1)"
      if "(x, y) \<in> set (sw # ws)" for x y
    proof (cases "(x, y) = sw")
      case False
      from new have "\<forall>(s, w) \<in> set ws. (s, w) \<in> fst ` set new \<or> inside (?taken1 @ closed_of new) s (s + w - 1)"
        by (elim conjE)
      with False that show ?thesis unfolding inside_same [OF app [symmetric]] by fastforce
    qed (simp add: sw)
    show ?thesis
    proof (intro exI [of _ "((s, w), d) # new"] conjI)
      show "l' = l @ map (\<lambda>((s, w), d). (mk_chunk input toks s w, d)) (((s, w), d) # new)"
        "r = int (k + length (((s, w), d) # new))" "subseq (map fst (((s, w), d) # new)) (sw # ws)"
        using new by (simp_all add: sw)
    qed (use skip complete in blast)+
  qed
qed

subsection \<open>The traversal, end to end\<close>

definition loop_max_of :: "nat \<Rightarrow> kc_ngram_options_t \<Rightarrow> nat" where
  "loop_max_of n opts =
     nat (if max_tokens opts = 0 \<or> int n < max_tokens opts then int n else max_tokens opts)"

definition options_valid :: "kc_ngram_options_t \<Rightarrow> bool" where
  "options_valid opts \<longleftrightarrow> 1 \<le> min_tokens opts \<and> \<not> (0 < max_tokens opts \<and> max_tokens opts < min_tokens opts)"

definition windows_of :: "nat \<Rightarrow> kc_ngram_options_t \<Rightarrow> (nat \<times> nat) list" where
  "windows_of n opts = windows n (nat (min_tokens opts)) (loop_max_of n opts)"

definition window_before :: "nat \<times> nat \<Rightarrow> nat \<times> nat \<Rightarrow> bool" where
  "window_before a b \<longleftrightarrow> snd b < snd a \<or> snd a = snd b \<and> fst a < fst b"

lemma set_windows: "(s, w) \<in> set (windows n mn mx) \<longleftrightarrow> mn \<le> w \<and> w \<le> mx \<and> s < Suc n - w"
  by (auto simp: windows_def)

lemma windows_Suc: "mn \<le> Suc mx \<Longrightarrow>
    windows n mn (Suc mx) = map (\<lambda>s. (s, Suc mx)) [0..<n - mx] @ windows n mn mx"
  by (simp add: windows_def)

lemma windows_order: "sorted_wrt window_before (windows n mn mx)"
proof (induction mx)
  case 0
  show ?case
    by (cases mn) (auto simp: windows_def sorted_wrt_map sorted_wrt_append window_before_def)
next
  case (Suc mx)
  show ?case
  proof (cases "mn \<le> Suc mx")
    case True
    have "window_before (s, Suc mx) y" if "y \<in> set (windows n mn mx)" for s y
      using that set_windows [of "fst y" "snd y" n mn mx] by (simp add: window_before_def)
    with True Suc show ?thesis
      by (auto simp: windows_Suc sorted_wrt_append sorted_wrt_map window_before_def)
  qed (simp add: windows_def)
qed

lemma sorted_wrt_subseq: "subseq xs ys \<Longrightarrow> sorted_wrt r ys \<Longrightarrow> sorted_wrt r xs"
proof (induction xs ys rule: list_emb.induct)
  case (list_emb_Cons2 x y xs ys)
  then show ?case by (auto dest: list_emb_set)
qed auto

lemma execute_invalid:
  "\<not> options_valid opts \<Longrightarrow> kc_ngram_execute alloc (Some input) (Some opts) (Some visit) c = (-1, c)"
  by (auto simp: kc_ngram_execute_def options_valid_def Let_def)

lemma execute_walk:
  assumes "options_valid opts" "kc_ngram_split_tokens alloc input (separators opts) = Some t"
  shows "kc_ngram_execute alloc (Some input) (Some opts) (Some visit) c =
    (case span_walk alloc visit input (items t) (windows_of (length (items t)) opts) ([], 0) 0 c of
       (ok, _, k, c') \<Rightarrow> (if ok then int k else -1, c'))"
proof (cases "items t = []")
  case True
  have "windows_of 0 opts = []"
    using assms(1) by (auto simp: windows_of_def windows_def options_valid_def loop_max_of_def)
  with True assms show ?thesis
    by (auto simp: kc_ngram_execute_def options_valid_def Let_def)
next
  case False
  have "1 \<le> nat (min_tokens opts)" using assms(1) by (auto simp: options_valid_def)
  note loop = ngram_window_loop_walk [OF this]
  from False assms show ?thesis
    by (auto simp: kc_ngram_execute_def options_valid_def Let_def loop windows_of_def loop_max_of_def
        split: prod.splits)
qed

lemma span_array_close_granted: "never_fails alloc \<Longrightarrow> fst (span_array_close alloc t s e)"
  by (auto simp: span_array_close_def kc_ngram_add_closed_span_def kc_ngram_reserve_span_slot_def Let_def)

lemma execute_islands:
  assumes "options_valid opts" "kc_ngram_split_tokens alloc input (separators opts) = Some t"
    and "kc_ngram_execute alloc (Some input) (Some opts) (Some visit) c = (r, c')"
    and "0 \<le> r \<or> never_fails alloc"
  shows "islands (visit_window visit input (items t)) (windows_of (length (items t)) opts) [] 0 c = (r, c')"
proof -
  obtain ok t' k' c1 where w: "span_walk alloc visit input (items t) (windows_of (length (items t)) opts)
      ([], 0) 0 c = (ok, t', k', c1)"
    by (metis prod_cases4)
  with assms(1-3) have r: "r = (if ok then int k' else -1)" "c' = c1"
    by (auto simp: execute_walk)
  with assms(4) have ok: "ok \<or> (\<forall>t s e. fst (span_array_close alloc t s e))"
    using span_array_close_granted by (auto split: if_splits)
  have "islands (visit_window visit input (items t)) (windows_of (length (items t)) opts) [] 0 c
      = (if ok then int k' else -1, c1)"
    by (rule span_array.walk_islands [OF _ _ w ok]) (simp_all add: spans_ok_def inside_def)
  with r show ?thesis by simp
qed

text \<open>Invariants of the visitor carry over to a whole traversal.\<close>

lemma execute_invariant:
  assumes init: "Q [] [] c"
    and step: "\<And>t taken seen s w c d c'. options_valid opts \<Longrightarrow> kc_ngram_split_tokens alloc input (separators opts) = Some t \<Longrightarrow>
      (s, w) \<in> set (windows_of (length (items t)) opts) \<Longrightarrow> \<not> inside taken s (s + w - 1) \<Longrightarrow> Q taken seen c \<Longrightarrow>
      visit (mk_chunk input (items t) s w) c = (d, c') \<Longrightarrow>
      Q (if d = 1 then (s, s + w - 1) # taken else taken) ((s, w) # seen) c'"
    and run: "kc_ngram_execute alloc (Some input) (Some opts) (Some visit) c = (r, c')"
  shows "\<exists>taken seen. Q taken seen c' \<and> (0 \<le> r \<longrightarrow> (\<exists>t. kc_ngram_split_tokens alloc input (separators opts) = Some t \<and>
    (\<forall>(s, w) \<in> set (windows_of (length (items t)) opts). (s, w) \<in> set seen \<or> inside taken s (s + w - 1))))"
proof (cases "options_valid opts \<and> kc_ngram_split_tokens alloc input (separators opts) \<noteq> None")
  case False
  then have "c' = c \<and> r < 0"
    using run execute_invalid [of opts alloc input visit c] by (auto simp: kc_ngram_execute_def Let_def split: if_splits)
  with init show ?thesis by (metis linorder_not_le)
next
  case True
  then obtain t where v: "options_valid opts" and t: "kc_ngram_split_tokens alloc input (separators opts) = Some t" by auto
  obtain ok t' k' c1 where w: "span_walk alloc visit input (items t) (windows_of (length (items t)) opts)
      ([], 0) 0 c = (ok, t', k', c1)"
    by (metis prod_cases4)
  have c1: "c' = c1" "0 \<le> r \<longleftrightarrow> ok" using run w v t by (auto simp: execute_walk split: if_splits)
  have "\<exists>taken' seen'. Q taken' seen' c1 \<and> set [] \<subseteq> set taken' \<and> set [] \<subseteq> set seen' \<and>
      (ok \<longrightarrow> (\<forall>(s, w) \<in> set (windows_of (length (items t)) opts). (s, w) \<in> set seen' \<or> inside taken' s (s + w - 1)))"
  proof (rule span_array.walk_invariant [where Q = Q and taken = "[]" and seen = "[]", OF _ _ _ _ _ w])
    show "Q (if d = 1 then (s, s + w - 1) # taken else taken) ((s, w) # seen) c'"
      if "(s, w) \<in> set (windows_of (length (items t)) opts)" "\<not> inside taken s (s + w - 1)" "Q taken seen c"
        "visit_window visit input (items t) (s, w) c = (d, c')" for taken seen s w c d c'
      using step [OF v t that(1-3)] that(4) by simp
  qed (simp_all add: spans_ok_def inside_def init)
  with c1 t show ?thesis by auto
qed

text \<open>With memory, a visitor that never aborts lets the traversal complete.\<close>

lemma islands_completes:
  assumes "\<And>s w c. (s, w) \<in> set ws \<Longrightarrow> P c \<Longrightarrow> 0 \<le> fst (v (s, w) c) \<and> P (snd (v (s, w) c))"
  shows "P c \<Longrightarrow> 0 \<le> fst (islands v ws taken k c)"
  using assms
proof (induction ws arbitrary: taken k c)
  case (Cons sw ws)
  obtain s w where sw: "sw = (s, w)" by force
  obtain d c1 where v: "v (s, w) c = (d, c1)" by force
  with Cons.prems(2) [of s w c] Cons.prems(1) have "0 \<le> d" "P c1" by (auto simp: sw)
  with Cons v show ?case by (auto simp: sw)
qed simp

lemma execute_completes:
  assumes "never_fails alloc" "options_valid opts" "P c"
    and step: "\<And>t s w c. kc_ngram_split_tokens alloc input (separators opts) = Some t \<Longrightarrow>
      (s, w) \<in> set (windows_of (length (items t)) opts) \<Longrightarrow> P c \<Longrightarrow>
      0 \<le> fst (visit (mk_chunk input (items t) s w) c) \<and> P (snd (visit (mk_chunk input (items t) s w) c))"
  shows "0 \<le> fst (kc_ngram_execute alloc (Some input) (Some opts) (Some visit) c)"
proof -
  obtain t where t: "kc_ngram_split_tokens alloc input (separators opts) = Some t"
    using split_tokens_loop_total [OF assms(1)] unfolding kc_ngram_split_tokens_def by blast
  obtain r c' where r: "kc_ngram_execute alloc (Some input) (Some opts) (Some visit) c = (r, c')" by force
  have "0 \<le> fst (islands (visit_window visit input (items t)) (windows_of (length (items t)) opts) [] 0 c)"
    by (rule islands_completes [of _ P, OF _ assms(3)]) (use step [OF t] in auto)
  with execute_islands [OF assms(2) t r] assms(1) r show ?thesis by simp
qed

text \<open>Visitors that agree on the contexts of an invariant make the same traversal.\<close>

lemma walk_cong:
  assumes v: "\<And>s w c. P c \<Longrightarrow> v (s, w) c = v' (s, w) c \<and> P (snd (v (s, w) c))"
  shows "P c \<Longrightarrow> walk isc cl v ws t k c = walk isc cl v' ws t k c"
proof (induction ws arbitrary: t k c)
  case (Cons sw ws)
  obtain s w where sw: "sw = (s, w)" by force
  obtain d c1 where "v (s, w) c = (d, c1)" by force
  with v [OF Cons.prems, of s w] Cons show ?case by (auto simp: sw split: prod.splits)
qed simp

lemma execute_cong:
  assumes v: "\<And>ch c. P c \<Longrightarrow> visit ch c = visit' ch c \<and> P (snd (visit ch c))" and c: "P c"
  shows "kc_ngram_execute alloc (Some input) (Some opts) (Some visit) c =
    kc_ngram_execute alloc (Some input) (Some opts) (Some visit') c"
proof (cases "options_valid opts \<and> kc_ngram_split_tokens alloc input (separators opts) \<noteq> None")
  case False
  then show ?thesis by (auto simp: options_valid_def kc_ngram_execute_def Let_def)
next
  case True
  then obtain t where "options_valid opts" and "kc_ngram_split_tokens alloc input (separators opts) = Some t" by auto
  moreover have "span_walk alloc visit input (items t) ws t0 k c = span_walk alloc visit' input (items t) ws t0 k c" for ws t0 k
    by (rule walk_cong [of P, OF _ c]) (simp only: prod.case v conj_absorb, metis v)
  ultimately show ?thesis by (simp add: execute_walk)
qed

text \<open>Logging does not change a run.\<close>

lemma walk_logged:
  "walk isc cl (visit_window (logged visit) input toks) ws t k (c, l) = (ok, t', k', c', l') \<Longrightarrow>
    walk isc cl (visit_window visit input toks) ws t k c = (ok, t', k', c')"
proof (induction ws arbitrary: t k c l)
  case (Cons sw ws)
  obtain s w where sw: "sw = (s, w)" by force
  obtain d c1 where v: "visit (mk_chunk input toks s w) c = (d, c1)" by force
  then have lv: "logged visit (mk_chunk input toks s w) (c, l) = (d, c1, l @ [(mk_chunk input toks s w, d)])"
    by (simp add: logged_def)
  show ?case
    using Cons.prems Cons.IH v lv by (auto simp: sw split: if_splits prod.splits)
qed simp

lemma mk_chunk_simps [simp]:
  "chunk_start (mk_chunk input toks s w) = s" "chunk_size (mk_chunk input toks s w) = w"
  "chunk_end (mk_chunk input toks s w) = s + w - 1" "chunk_input (mk_chunk input toks s w) = input"
  "byte_start (mk_chunk input toks s w) = tok_start (toks ! s)"
  "byte_end (mk_chunk input toks s w) = tok_end (toks ! (s + w - 1))"
  by (simp_all add: mk_chunk_def Let_def)

lemma execute_nonneg:
  assumes "kc_ngram_execute alloc (Some input) (Some opts) (Some visit) c = (r, c')" "0 \<le> r"
  shows "options_valid opts \<and> (\<exists>t. kc_ngram_split_tokens alloc input (separators opts) = Some t)"
proof -
  have "options_valid opts"
    using assms execute_invalid [of opts alloc input visit c] by (cases "options_valid opts") auto
  moreover have False if "kc_ngram_split_tokens alloc input (separators opts) = None"
    using assms that by (simp add: kc_ngram_execute_def Let_def split: if_splits)
  ultimately show ?thesis by blast
qed

lemma inside_closed_of_nth:
  "j < length new \<Longrightarrow> new ! j = ((s, w), 1) \<Longrightarrow> s \<le> x \<Longrightarrow> y \<le> s + w - 1 \<Longrightarrow> inside (closed_of new) x y"
  unfolding inside_def closed_of_def by (force simp: in_set_conv_nth)

lemma inside_closed_ofD:
  "inside (closed_of new) x y \<Longrightarrow> \<exists>s w. ((s, w), 1) \<in> set new \<and> s \<le> x \<and> y \<le> s + w - 1"
  unfolding inside_def closed_of_def by auto

section \<open>Properties of the traversal\<close>

text \<open>C35. The tokens the splitter returns are exactly the maximal runs of non-separator bytes of the
  input, in increasing order and separated by at least one byte.\<close>

theorem split_tokens_are_maximal_runs:
  assumes "kc_ngram_split_tokens alloc input seps = Some t"
  shows "sorted_wrt tok_before (items t) \<and>
    set (items t) = {tk. is_token input seps (tok_start tk) (tok_end tk)}"
  using split_tokens_loop_spec [OF _ _ assms [unfolded kc_ngram_split_tokens_def]]
  by (simp add: at_gap_def)

theorem split_tokens_are_maximal_runs_witness:
  "kc_ngram_split_tokens granting ''a bc'' (Some '' '')
     = Some \<lparr>items = [\<lparr>tok_start = 0, tok_end = 1\<rparr>, \<lparr>tok_start = 2, tok_end = 4\<rparr>], items_cap = 16\<rparr> \<and>
   is_token ''a bc'' (Some '' '') 2 4"
proof -
  have run: "kc_ngram_split_tokens granting ''a bc'' (Some '' '')
      = Some \<lparr>items = [\<lparr>tok_start = 0, tok_end = 1\<rparr>, \<lparr>tok_start = 2, tok_end = 4\<rparr>], items_cap = 16\<rparr>"
    by code_simp
  have "\<lparr>tok_start = 2, tok_end = 4\<rparr> \<in> {tk. is_token ''a bc'' (Some '' '') (tok_start tk) (tok_end tk)}"
    unfolding split_tokens_are_maximal_runs [OF run, THEN conjunct2, symmetric] by simp
  with run show ?thesis by simp
qed

text \<open>The bisection over the closed-span array answers exactly the question whether the window lies
  inside some closed window, for every array the insertion can produce.\<close>

lemma span_is_closed_iff:
  assumes "spans_ok spans"
  shows "kc_ngram_span_is_closed s e spans \<longleftrightarrow>
    (\<exists>sp \<in> set spans. sp_start sp \<le> s \<and> e \<le> sp_end sp)"
  using span_is_closed_covers [OF assms] by (simp add: covers_def)

theorem span_is_closed_iff_witness:
  "kc_ngram_span_is_closed 3 4 [\<lparr>sp_start = 0, sp_end = 2\<rparr>, \<lparr>sp_start = 3, sp_end = 5\<rparr>]"
  by (subst span_is_closed_iff) (simp_all add: spans_ok_def span_less_def)

text \<open>C36. Insertion into the closed-span array keeps it an antichain sorted by both ends, and after a
  successful insertion the windows it covers are those covered before and those inside the new
  window; redundant spans are dropped without losing coverage.\<close>

theorem add_closed_span_refines:
  assumes "spans_ok spans" and "kc_ngram_add_closed_span alloc spans cap s e = (ok, spans', cap')"
  shows "spans_ok spans' \<and> (ok \<longrightarrow>
    (\<forall>x y. kc_ngram_span_is_closed x y spans' \<longleftrightarrow> kc_ngram_span_is_closed x y spans \<or> s \<le> x \<and> y \<le> e))"
proof -
  have ok': "spans_ok spans'" using assms by (rule add_closed_span_ok)
  with assms show ?thesis
    by (auto simp: span_is_closed_covers dest: add_closed_span_covers)
qed

theorem add_closed_span_refines_witness:
  "kc_ngram_add_closed_span granting [\<lparr>sp_start = 1, sp_end = 2\<rparr>, \<lparr>sp_start = 4, sp_end = 6\<rparr>] 16 1 3
     = (True, [\<lparr>sp_start = 1, sp_end = 3\<rparr>, \<lparr>sp_start = 4, sp_end = 6\<rparr>], 16) \<and>
   spans_ok [\<lparr>sp_start = 1, sp_end = 3\<rparr>, \<lparr>sp_start = 4, sp_end = 6\<rparr>]"
proof -
  have pre: "spans_ok [\<lparr>sp_start = 1, sp_end = 2\<rparr>, \<lparr>sp_start = 4, sp_end = 6\<rparr>]"
    by (simp add: spans_ok_def span_less_def)
  have run: "kc_ngram_add_closed_span granting [\<lparr>sp_start = 1, sp_end = 2\<rparr>, \<lparr>sp_start = 4, sp_end = 6\<rparr>] 16 1 3
     = (True, [\<lparr>sp_start = 1, sp_end = 3\<rparr>, \<lparr>sp_start = 4, sp_end = 6\<rparr>], 16)"
    by code_simp
  show ?thesis using add_closed_span_refines [OF pre run] run by simp
qed

text \<open>C12. With memory available, the traversal with its sorted array and bisection is the specification
  that offers every window in descending order of size, skips those inside a window the visitor
  closed, counts the offers and stops with -1 when the visitor aborts.\<close>

theorem ngram_execute_refines_islands:
  assumes "never_fails alloc" "options_valid opts"
  shows "\<exists>t. kc_ngram_split_tokens alloc input (separators opts) = Some t \<and>
    kc_ngram_execute alloc (Some input) (Some opts) (Some visit) c
      = islands (visit_window visit input (items t)) (windows_of (length (items t)) opts) [] 0 c"
proof -
  obtain t where t: "kc_ngram_split_tokens alloc input (separators opts) = Some t"
    using split_tokens_loop_total [OF assms(1)] unfolding kc_ngram_split_tokens_def by blast
  obtain r c' where r: "kc_ngram_execute alloc (Some input) (Some opts) (Some visit) c = (r, c')" by force
  from execute_islands [OF assms(2) t r] assms(1) r t show ?thesis by auto
qed

theorem ngram_execute_refines_islands_witness:
  "\<exists>t. kc_ngram_split_tokens granting ''a b'' (separators kc_ngram_options_default) = Some t \<and>
    kc_ngram_execute granting (Some ''a b'') (Some kc_ngram_options_default) (Some (\<lambda>ch k. (1, k + chunk_size ch))) 0
      = islands (visit_window (\<lambda>ch k. (1, k + chunk_size ch)) ''a b'' (items t))
          (windows_of (length (items t)) kc_ngram_options_default) [] 0 0"
  by (rule ngram_execute_refines_islands) (simp_all add: options_valid_def kc_ngram_options_default_def)

text \<open>C9. A traversal that returns a count has offered its visitor that many windows, each a window of
  the token list of an admissible size, larger windows first and from left to right, none of them
  inside a window closed before it; and every admissible window was either offered or lies inside
  one the visitor closed.\<close>

theorem ngram_execute_islands_complete:
  assumes run: "kc_ngram_execute alloc (Some input) (Some opts) (Some (logged visit)) (c, []) = (r, c', log)"
    and "0 \<le> r"
  shows "\<exists>t. kc_ngram_split_tokens alloc input (separators opts) = Some t \<and> r = int (length log) \<and>
    (\<forall>(ch, d) \<in> set log. ch = mk_chunk input (items t) (chunk_start ch) (chunk_size ch)
       \<and> (chunk_start ch, chunk_size ch) \<in> set (windows_of (length (items t)) opts)) \<and>
    sorted_wrt window_before (map (\<lambda>(ch, d). (chunk_start ch, chunk_size ch)) log) \<and>
    (\<forall>i < length log. \<forall>j < i. snd (log ! j) = 1 \<longrightarrow>
       \<not> (chunk_start (fst (log ! j)) \<le> chunk_start (fst (log ! i))
          \<and> chunk_end (fst (log ! i)) \<le> chunk_end (fst (log ! j)))) \<and>
    (\<forall>(s, w) \<in> set (windows_of (length (items t)) opts).
       (\<exists>(ch, d) \<in> set log. chunk_start ch = s \<and> chunk_size ch = w) \<or>
       (\<exists>(ch, d) \<in> set log. d = 1 \<and> chunk_start ch \<le> s \<and> s + w - 1 \<le> chunk_end ch))"
proof -
  note nonneg = execute_nonneg [OF run assms(2)]
  then have valid: "options_valid opts" by blast
  from nonneg obtain t where t: "kc_ngram_split_tokens alloc input (separators opts) = Some t" by blast
  let ?ws = "windows_of (length (items t)) opts"
  let ?f = "\<lambda>((s, w), d). (mk_chunk input (items t) s w, d)"
  from execute_islands [OF valid t run] assms(2)
  have "islands (visit_window (logged visit) input (items t)) ?ws [] 0 (c, []) = (r, c', log)" by blast
  from islands_log [OF this assms(2)] obtain new where
    new: "log = map ?f new" "r = int (length new)" "subseq (map fst new) ?ws"
    and skip: "\<forall>i < length new. case new ! i of ((s, w), d) \<Rightarrow>
          0 \<le> d \<and> \<not> inside (closed_of (take i new)) s (s + w - 1)"
    and all: "\<forall>(s, w) \<in> set ?ws. (s, w) \<in> fst ` set new \<or> inside (closed_of new) s (s + w - 1)"
    by (simp only: append_Nil add_0) blast
  have win: "map (\<lambda>(ch, d). (chunk_start ch, chunk_size ch)) log = map fst new"
    using new(1) by (auto simp: case_prod_beta)
  have mem: "(s, w) \<in> set ?ws" if "((s, w), d) \<in> set new" for s w d
    using subseq_order.trans [OF _ new(3)] that list_emb_set [OF new(3)] by force
  have "sorted_wrt window_before (map fst new)"
    using new(3) windows_order unfolding windows_of_def by (rule sorted_wrt_subseq)
  moreover have "\<not> (chunk_start (fst (log ! j)) \<le> chunk_start (fst (log ! i))
      \<and> chunk_end (fst (log ! i)) \<le> chunk_end (fst (log ! j)))"
    if "i < length log" "j < i" "snd (log ! j) = 1" for i j
  proof -
    from that(1,2) new(1) have ij: "i < length new" "j < length new" by auto
    obtain s w d x y d' where nth: "new ! i = ((s, w), d)" "new ! j = ((x, y), d')" by (metis prod.exhaust)
    with ij new(1) that(3) have d': "d' = 1" by simp
    have "\<not> inside (closed_of (take i new)) s (s + w - 1)"
      using skip [rule_format, OF ij(1)] nth(1) by simp
    then have "\<not> (x \<le> s \<and> s + w - 1 \<le> x + y - 1)"
      using inside_closed_of_nth [of j "take i new" x y s "s + w - 1"] ij that(2) nth(2) d' by auto
    with new(1) ij nth show ?thesis by simp
  qed
  moreover have "(\<exists>(ch, d) \<in> set log. chunk_start ch = s \<and> chunk_size ch = w) \<or>
      (\<exists>(ch, d) \<in> set log. d = 1 \<and> chunk_start ch \<le> s \<and> s + w - 1 \<le> chunk_end ch)"
    if "(s, w) \<in> set ?ws" for s w
    using all that new(1) inside_closed_ofD [of new s "s + w - 1"] by fastforce
  moreover have "\<forall>(ch, d) \<in> set log. ch = mk_chunk input (items t) (chunk_start ch) (chunk_size ch)
       \<and> (chunk_start ch, chunk_size ch) \<in> set ?ws"
    using new(1) mem by auto
  moreover have "r = int (length log)" using new(1,2) by simp
  ultimately show ?thesis
    using t unfolding win by (intro exI [of _ t] conjI) blast+
qed

theorem ngram_execute_islands_complete_witness:
  "\<exists>t. kc_ngram_split_tokens granting ''a b'' (separators kc_ngram_options_default) = Some t \<and>
     (\<exists>(ch, d) \<in> {(mk_chunk ''a b'' [\<lparr>tok_start = 0, tok_end = 1\<rparr>, \<lparr>tok_start = 2, tok_end = 3\<rparr>] 0 2, 1)}.
        chunk_start ch \<le> 1 \<and> 1 \<le> chunk_end ch)"
proof -
  let ?log = "[(mk_chunk ''a b'' [\<lparr>tok_start = 0, tok_end = 1\<rparr>, \<lparr>tok_start = 2, tok_end = 3\<rparr>] 0 2, 1)]"
  have run: "kc_ngram_execute granting (Some ''a b'') (Some kc_ngram_options_default)
      (Some (logged (\<lambda>ch c. (1, c)))) ((), []) = (1, (), ?log)"
    by code_simp
  show ?thesis
    using ngram_execute_islands_complete [OF run] by auto
qed

end
