(* ===== verification/Scan.thy ===== *)
theory Scan
  imports Loader Ngram
begin

section \<open>Parsing a text (src/libipa.c: kc\_ipa\_ngram\_visit, kc\_ipa\_scan\_children, kc\_ipa\_parse)\<close>

text \<open>
  The parser: the traversal of \<^theory_text>\<open>Ngram\<close> offers the windows of the input to a visitor that embeds the
  window's text, asks the node index for the nearest entry and keeps a match when the score reaches the
  schema's threshold. A node with children has its span scanned again, with the same visitor on the
  child index.

  Strings of the schema are read from the mapping at the time the source reads them: \<open>strtab_eq\<close> is
  \<open>strcmp\<close>, which stops at the first difference, and \<open>strtab_str\<close> a whole string. A read past the end of
  the mapping is the fault \<open>Bad_Read\<close>. The scratch buffer \<open>emb_buf\<close> is the vector passed from
  \<open>kc_emb_exec\<close> to the search. A pair of a pointer and a count is a list; \<open>free\<close> has no counterpart.
\<close>

subsection \<open>Results\<close>

record kc_ipa_emit_t =
  em_key :: "string option"
  em_value :: "string option"

datatype kc_ipa_match_t =
  Match (ma_id: string) (ma_span: string) (ma_score: u32) (ma_emits: "kc_ipa_emit_t list")
    (ma_children: "kc_ipa_match_t list")

record kc_ipa_result_t =
  rs_ok :: bool
  rs_matches :: "kc_ipa_match_t list"

abbreviation (input) sizeof_match :: nat where "sizeof_match \<equiv> 56"
abbreviation (input) sizeof_emit :: nat where "sizeof_emit \<equiv> 16"

record kc_ipa_scan_ctx_t =
  sx_emb :: "embedder option"
  sx_idx :: kc_ipa_runtime_index_t
  sx_base :: string
  sx_strtab :: nat
  sx_threshold :: u32
  sx_parent_id :: "string option"
  sx_matches :: "kc_ipa_match_t list"
  sx_cap :: nat

datatype scan_fault = Bad_Read | Uninitialised

subsection \<open>Strings of the mapping\<close>

fun strcmp_mem :: "string \<Rightarrow> string \<Rightarrow> bool option" where
  "strcmp_mem [] s = None"
| "strcmp_mem (c # mem) [] = Some (c = NUL)"
| "strcmp_mem (c # mem) (d # s) =
     (if c = NUL \<or> d = NUL then Some (c = d) else if c = d then strcmp_mem mem s else Some False)"

definition strtab_eq :: "string \<Rightarrow> nat \<Rightarrow> kc_ipa_str_ref_t \<Rightarrow> string \<Rightarrow> scan_fault + bool" where
  "strtab_eq mem strtab r s =
     (case strcmp_mem (drop (strtab + unat (ref_off r)) mem) s of None \<Rightarrow> Inl Bad_Read | Some b \<Rightarrow> Inr b)"

definition strtab_str :: "string \<Rightarrow> nat \<Rightarrow> kc_ipa_str_ref_t \<Rightarrow> scan_fault + string" where
  "strtab_str mem strtab r =
     (case string_at mem (strtab + unat (ref_off r)) of None \<Rightarrow> Inl Bad_Read | Some s \<Rightarrow> Inr s)"

subsection \<open>Emits and children\<close>

definition kc_ipa_resolve_emit :: "allocator \<Rightarrow> string \<Rightarrow> string \<Rightarrow> string option" where
  "kc_ipa_resolve_emit alloc tpl sp = (if tpl = ''$raw'' then strdup alloc sp else strdup alloc tpl)"

text \<open>The test both loops of \<open>kc_ipa_build_match_emits\<close> make on a row, and the emit a row gives.\<close>

definition node_row_emits :: "string \<Rightarrow> nat \<Rightarrow> string \<Rightarrow> kc_ipa_node_meta_t \<Rightarrow> scan_fault + bool" where
  "node_row_emits mem strtab node_id nm =
     (if ref_len (nm_emit_key nm) = 0 then Inr False else strtab_eq mem strtab (nm_node_id nm) node_id)"

definition make_emit ::
    "allocator \<Rightarrow> string \<Rightarrow> nat \<Rightarrow> kc_ipa_str_ref_t \<Rightarrow> kc_ipa_str_ref_t \<Rightarrow> string \<Rightarrow> scan_fault + kc_ipa_emit_t" where
  "make_emit alloc mem strtab k v sp =
     sum_bind (strtab_str mem strtab k) (\<lambda>key.
     sum_bind (strtab_str mem strtab v) (\<lambda>tpl.
       Inr \<lparr>em_key = strdup alloc key, em_value = kc_ipa_resolve_emit alloc tpl sp\<rparr>))"

definition count_rows :: "('r \<Rightarrow> scan_fault + bool) \<Rightarrow> 'r list \<Rightarrow> scan_fault + nat" where
  "count_rows hit rows = fold_res (\<lambda>r n. sum_bind (hit r) (\<lambda>b. Inr (if b then n + 1 else n))) rows 0"

definition kc_ipa_build_match_emits ::
    "allocator \<Rightarrow> string \<Rightarrow> nat \<Rightarrow> kc_ipa_runtime_index_t \<Rightarrow> string \<Rightarrow> string
       \<Rightarrow> scan_fault + kc_ipa_emit_t list option" where
  "kc_ipa_build_match_emits alloc mem strtab idx node_id sp =
     sum_bind (count_rows (node_row_emits mem strtab node_id) (ix_node_meta idx)) (\<lambda>n.
       if n = 0 then Inr (Some [])
       else if \<not> alloc (n * sizeof_emit) then Inr None
       else fold_res (\<lambda>nm emits.
              case emits of
                None \<Rightarrow> Inr None
              | Some es \<Rightarrow>
                  sum_bind (node_row_emits mem strtab node_id nm) (\<lambda>hit.
                    if \<not> hit then Inr (Some es)
                    else sum_bind (make_emit alloc mem strtab (nm_emit_key nm) (nm_emit_val nm) sp) (\<lambda>e.
                           Inr (if em_key e = None \<or> em_value e = None then None else Some (es @ [e])))))
            (ix_node_meta idx) (Some []))"

primrec has_children_loop :: "string \<Rightarrow> nat \<Rightarrow> string \<Rightarrow> kc_ipa_node_meta_t list \<Rightarrow> scan_fault + bool" where
  "has_children_loop mem strtab node_id [] = Inr False"
| "has_children_loop mem strtab node_id (nm # rows) =
     sum_bind (strtab_eq mem strtab (nm_node_id nm) node_id) (\<lambda>same.
       if same \<and> nm_has_children nm \<noteq> 0 then Inr True else has_children_loop mem strtab node_id rows)"

definition kc_ipa_node_has_children ::
    "string \<Rightarrow> nat \<Rightarrow> kc_ipa_runtime_index_t \<Rightarrow> string \<Rightarrow> scan_fault + bool" where
  "kc_ipa_node_has_children mem strtab idx node_id = has_children_loop mem strtab node_id (ix_node_meta idx)"

definition kc_ipa_match_push ::
    "allocator \<Rightarrow> kc_ipa_scan_ctx_t \<Rightarrow> kc_ipa_match_t \<Rightarrow> kc_ipa_scan_ctx_t option" where
  "kc_ipa_match_push alloc ctx m =
     (if length (sx_matches ctx) \<ge> sx_cap ctx then
        let nc = (if sx_cap ctx \<noteq> 0 then sx_cap ctx * 2 else 8)
        in if alloc (nc * sizeof_match) then Some (ctx\<lparr>sx_matches := sx_matches ctx @ [m], sx_cap := nc\<rparr>) else None
      else Some (ctx\<lparr>sx_matches := sx_matches ctx @ [m]\<rparr>))"

subsection \<open>The visitor\<close>

text \<open>The \<open>byte_end - byte_start\<close> bytes at \<open>chunk->input + byte_start\<close>.\<close>

definition chunk_span :: "kc_ngram_chunk_t \<Rightarrow> string" where
  "chunk_span chunk = take (byte_end chunk - byte_start chunk) (drop (byte_start chunk) (chunk_input chunk))"

text \<open>Does the child \<open>node_id\<close> belong to \<open>parent\<close>?\<close>

definition child_row_is :: "string \<Rightarrow> nat \<Rightarrow> string \<Rightarrow> string \<Rightarrow> kc_ipa_child_meta_t \<Rightarrow> scan_fault + bool" where
  "child_row_is mem strtab node_id parent cm =
     sum_bind (strtab_eq mem strtab (cm_node_id cm) node_id) (\<lambda>a.
       if a then strtab_eq mem strtab (cm_parent_id cm) parent else Inr False)"

primrec matched_parent :: "string \<Rightarrow> nat \<Rightarrow> string \<Rightarrow> string \<Rightarrow> kc_ipa_child_meta_t list \<Rightarrow> scan_fault + bool" where
  "matched_parent mem strtab node_id parent [] = Inr False"
| "matched_parent mem strtab node_id parent (cm # rows) =
     sum_bind (child_row_is mem strtab node_id parent cm) (\<lambda>b.
       if b then Inr True else matched_parent mem strtab node_id parent rows)"

text \<open>A match of a child replaces an earlier one of the same child when its score is higher.\<close>

definition keep_child :: "allocator \<Rightarrow> kc_ipa_scan_ctx_t \<Rightarrow> kc_ipa_match_t \<Rightarrow> int \<times> kc_ipa_scan_ctx_t" where
  "keep_child alloc ctx m =
     (let k = scan_while (\<lambda>x. ma_id x \<noteq> ma_id m) (sx_matches ctx) 0
      in if k < length (sx_matches ctx) then
           (1, if fl_lt (f32_val (ma_score (sx_matches ctx ! k))) (f32_val (ma_score m))
               then ctx\<lparr>sx_matches := (sx_matches ctx)[k := m]\<rparr> else ctx)
         else case kc_ipa_match_push alloc ctx m of None \<Rightarrow> (-1, ctx) | Some ctx' \<Rightarrow> (1, ctx'))"

text \<open>The nearest entry of the index the context scans: \<open>None\<close> when the visitor skips the window.\<close>

definition nearest :: "host \<Rightarrow> kc_ipa_scan_ctx_t \<Rightarrow> string \<Rightarrow> scan_fault + kc_hnsw_result_t option" where
  "nearest ho ctx sp =
     (case sx_emb ctx of
        None \<Rightarrow> Inr None
      | Some em \<Rightarrow>
        (case em_exec em sp of
           None \<Rightarrow> Inr None
         | Some emb_buf \<Rightarrow>
           (case (if sx_parent_id ctx \<noteq> None then ix_child_hnsw (sx_idx ctx) else ix_node_hnsw (sx_idx ctx)) of
              None \<Rightarrow> Inr None
            | Some hnsw \<Rightarrow>
              (case kc_hnsw_search (ho_alloc ho) (ho_rnd ho) (ho_rwlock ho) (Some hnsw) (Some (map f32_real emb_buf)) 1 0 True of
                 Inl e \<Rightarrow> if e = OUT_OF_BOUNDS then Inl Bad_Read else Inr None
               | Inr [] \<Rightarrow> Inr None
               | Inr (hr # _) \<Rightarrow> Inr (Some hr)))))"

text \<open>What the visitor does with an entry whose score reaches the threshold, in the scan of a parent's
  span and at the top level.\<close>

definition child_hit ::
    "host \<Rightarrow> kc_ipa_scan_ctx_t \<Rightarrow> string \<Rightarrow> string \<Rightarrow> string \<Rightarrow> u32 \<Rightarrow> scan_fault + int \<times> kc_ipa_scan_ctx_t" where
  "child_hit ho ctx parent hr_id sp score =
     sum_bind (matched_parent (sx_base ctx) (sx_strtab ctx) hr_id parent (ix_child_meta (sx_idx ctx))) (\<lambda>ok.
       if \<not> ok then Inr (0, ctx)
       else case strdup (ho_alloc ho) hr_id of
              None \<Rightarrow> Inr (0, ctx)
            | Some i \<Rightarrow> Inr (keep_child (ho_alloc ho) ctx (Match i sp score [] [])))"

type_synonym child_scan =
  "kc_ipa_scan_ctx_t \<Rightarrow> int \<Rightarrow> int \<Rightarrow> string \<Rightarrow> string \<Rightarrow> scan_fault + kc_ipa_match_t list"

definition node_hit ::
    "child_scan \<Rightarrow> host \<Rightarrow> kc_ngram_chunk_t \<Rightarrow> kc_ipa_scan_ctx_t \<Rightarrow> string \<Rightarrow> string \<Rightarrow> u32
       \<Rightarrow> scan_fault + int \<times> kc_ipa_scan_ctx_t" where
  "node_hit scan_children ho chunk ctx hr_id sp score =
     (let mem = sx_base ctx; strtab = sx_strtab ctx; idx = sx_idx ctx
      in case strdup (ho_alloc ho) hr_id of
           None \<Rightarrow> Inr (0, ctx)
         | Some i \<Rightarrow>
             sum_bind (kc_ipa_build_match_emits (ho_alloc ho) mem strtab idx hr_id sp) (\<lambda>es.
               case es of
                 None \<Rightarrow> Inr (0, ctx)
               | Some emits \<Rightarrow>
                   sum_bind (kc_ipa_node_has_children mem strtab idx hr_id) (\<lambda>has.
                   sum_bind (if has \<and> ix_child_hnsw idx \<noteq> None
                             then scan_children ctx 1 (int (chunk_size chunk)) hr_id sp else Inr []) (\<lambda>children.
                     case kc_ipa_match_push (ho_alloc ho) ctx (Match i sp score emits children) of
                       None \<Rightarrow> Inr (-1, ctx)
                     | Some ctx' \<Rightarrow> Inr (1, ctx')))))"

text \<open>
  \<open>kc_ipa_ngram_visit\<close> and \<open>kc_ipa_scan_children\<close> call each other. The visitor is written over the
  function it scans children with; the lemma \<open>scan_children_unfold\<close> below shows that tying the knot
  twice is the recursion of the source.
\<close>

definition visit_with ::
    "child_scan \<Rightarrow> host \<Rightarrow> kc_ngram_chunk_t \<Rightarrow> kc_ipa_scan_ctx_t \<Rightarrow> scan_fault + int \<times> kc_ipa_scan_ctx_t" where
  "visit_with scan_children ho chunk ctx =
     (if byte_start chunk \<ge> byte_end chunk then Inr (0, ctx)
      else if \<not> ho_alloc ho (byte_end chunk - byte_start chunk + 1) then Inr (0, ctx)
      else let sp = chunk_span chunk
           in sum_bind (nearest ho ctx sp) (\<lambda>found.
                case found of
                  None \<Rightarrow> Inr (0, ctx)
                | Some hr \<Rightarrow>
                    let score = fp_float (ho_fp ho) (Fin (res_score hr))
                    in if fl_lt (f32_val score) (f32_val (sx_threshold ctx)) then Inr (0, ctx)
                       else case sx_parent_id ctx of
                              Some parent \<Rightarrow> child_hit ho ctx parent (res_id hr) sp score
                            | None \<Rightarrow> node_hit scan_children ho chunk ctx (res_id hr) sp score))"

text \<open>A fault in the visitor ends the program: the traversal stops there and the fault is its outcome.\<close>

definition faulting ::
    "(kc_ngram_chunk_t \<Rightarrow> kc_ipa_scan_ctx_t \<Rightarrow> scan_fault + int \<times> kc_ipa_scan_ctx_t)
       \<Rightarrow> (scan_fault + kc_ipa_scan_ctx_t) kc_ngram_visit_fn" where
  "faulting visit chunk c =
     (case c of
        Inl e \<Rightarrow> (-1, Inl e)
      | Inr ctx \<Rightarrow> (case visit chunk ctx of Inl e \<Rightarrow> (-1, Inl e) | Inr (d, ctx') \<Rightarrow> (d, Inr ctx')))"

definition child_row_emits :: "string \<Rightarrow> nat \<Rightarrow> string \<Rightarrow> string \<Rightarrow> kc_ipa_child_meta_t \<Rightarrow> scan_fault + bool" where
  "child_row_emits mem strtab node_id parent cm =
     (if ref_len (cm_emit_key cm) = 0 then Inr False else child_row_is mem strtab node_id parent cm)"

text \<open>The emits of a child match; failed copies stay null, and a refused array leaves it without emits.\<close>

definition child_emits ::
    "allocator \<Rightarrow> string \<Rightarrow> nat \<Rightarrow> kc_ipa_runtime_index_t \<Rightarrow> string \<Rightarrow> kc_ipa_match_t \<Rightarrow> scan_fault + kc_ipa_match_t" where
  "child_emits alloc mem strtab idx parent ch =
     (case ch of Match i sp score emits children \<Rightarrow>
        if emits \<noteq> [] then Inr ch
        else sum_bind (count_rows (child_row_emits mem strtab i parent) (ix_child_meta idx)) (\<lambda>n.
               if n = 0 \<or> \<not> alloc (n * sizeof_emit) then Inr ch
               else sum_bind (fold_res (\<lambda>cm es.
                        sum_bind (child_row_emits mem strtab i parent cm) (\<lambda>hit.
                          if \<not> hit then Inr es
                          else sum_bind (make_emit alloc mem strtab (cm_emit_key cm) (cm_emit_val cm) sp) (\<lambda>e. Inr (es @ [e]))))
                      (ix_child_meta idx) [])
                    (\<lambda>es. Inr (Match i sp score es children))))"

definition scan_with ::
    "(kc_ngram_chunk_t \<Rightarrow> kc_ipa_scan_ctx_t \<Rightarrow> scan_fault + int \<times> kc_ipa_scan_ctx_t) \<Rightarrow> host
       \<Rightarrow> kc_ipa_scan_ctx_t \<Rightarrow> int \<Rightarrow> int \<Rightarrow> string \<Rightarrow> string \<Rightarrow> scan_fault + kc_ipa_match_t list" where
  "scan_with visit ho ctx0 min_ngram max_ngram parent_id sp =
     (let ctx = ctx0\<lparr>sx_parent_id := Some parent_id, sx_matches := [], sx_cap := 0\<rparr>;
          opts = kc_ngram_options_default\<lparr>min_tokens := min_ngram, max_tokens := max_ngram\<rparr>
      in sum_bind (snd (kc_ngram_execute (ho_alloc ho) (Some sp) (Some opts) (Some (faulting visit)) (Inr ctx)))
           (\<lambda>ctx'. fold_res (\<lambda>ch acc.
                      sum_bind (child_emits (ho_alloc ho) (sx_base ctx0) (sx_strtab ctx0) (sx_idx ctx0) parent_id ch)
                        (\<lambda>ch'. Inr (acc @ [ch'])))
                    (sx_matches ctx') []))"

definition kc_ipa_scan_children ::
    "host \<Rightarrow> kc_ipa_scan_ctx_t \<Rightarrow> int \<Rightarrow> int \<Rightarrow> string \<Rightarrow> string \<Rightarrow> scan_fault + kc_ipa_match_t list" where
  "kc_ipa_scan_children ho = scan_with (visit_with (\<lambda>_ _ _ _ _. Inr []) ho) ho"

definition kc_ipa_ngram_visit ::
    "host \<Rightarrow> kc_ngram_chunk_t \<Rightarrow> kc_ipa_scan_ctx_t \<Rightarrow> scan_fault + int \<times> kc_ipa_scan_ctx_t" where
  "kc_ipa_ngram_visit ho = visit_with (kc_ipa_scan_children ho) ho"

subsection \<open>Parsing\<close>

text \<open>The whole of \<open>kc_ipa_parse\<close>. When the scratch buffer is refused the source jumps over the
  declaration of its context and then reads it.\<close>

definition kc_ipa_parse ::
    "host \<Rightarrow> kc_ipa_schema option \<Rightarrow> string option \<Rightarrow> bool \<Rightarrow> scan_fault + ipa_status \<times> kc_ipa_result_t option" where
  "kc_ipa_parse ho schema input out_given =
     (case (schema, input, out_given) of
        (Some s, Some inp, True) \<Rightarrow>
          if \<not> ho_alloc ho (nat (sc_emb_dim s) * 4) then Inl Uninitialised
          else let ctx = \<lparr>sx_emb = sc_emb s, sx_idx = sc_index s, sx_base = sc_base s, sx_strtab = sc_strtab s,
                          sx_threshold = sc_node_threshold s, sx_parent_id = None, sx_matches = [], sx_cap = 0\<rparr>;
                   opts = kc_ngram_options_default\<lparr>min_tokens := sc_min_ngram s, max_tokens := sc_max_ngram s\<rparr>
               in (case snd (kc_ngram_execute (ho_alloc ho) (Some inp) (Some opts) (Some (faulting (kc_ipa_ngram_visit ho))) (Inr ctx)) of
                     Inl f \<Rightarrow> Inl f
                   | Inr ctx' \<Rightarrow> Inr (KC_IPA_OK, Some \<lparr>rs_ok = (sx_matches ctx' \<noteq> []), rs_matches = sx_matches ctx'\<rparr>))
      | _ \<Rightarrow> Inr (KC_IPA_ERROR, None))"

definition kc_ipa_result_free :: "kc_ipa_result_t option \<Rightarrow> kc_ipa_result_t option" where
  "kc_ipa_result_free result = (case result of None \<Rightarrow> None | Some r \<Rightarrow> Some \<lparr>rs_ok = False, rs_matches = []\<rparr>)"

subsection \<open>The recursion of the source\<close>

text \<open>In the context of a parent the visitor never scans children, so the two mutually recursive functions
  of the source are the ones above: \<open>kc_ipa_scan_children\<close> may as well be written over
  \<open>kc_ipa_ngram_visit\<close>.\<close>

lemma keep_child_parent: "sx_parent_id (snd (keep_child alloc ctx m)) = sx_parent_id ctx"
  by (auto simp: keep_child_def kc_ipa_match_push_def Let_def split: if_splits)

lemma child_hit_parent: "child_hit ho ctx p i sp sc = Inr (d, ctx') \<Longrightarrow> sx_parent_id ctx' = sx_parent_id ctx"
  using keep_child_parent [of "ho_alloc ho" ctx]
  by (auto simp: child_hit_def sum_bind_Inr_iff split: if_splits option.splits) (metis snd_conv)

lemma visit_with_child:
  assumes "sx_parent_id ctx = Some p"
  shows "visit_with f ho chunk ctx = visit_with g ho chunk ctx"
    and "visit_with f ho chunk ctx = Inr (d, ctx') \<Longrightarrow> sx_parent_id ctx' = Some p"
proof -
  show "visit_with f ho chunk ctx = visit_with g ho chunk ctx"
    unfolding visit_with_def assms option.case ..
  show "visit_with f ho chunk ctx = Inr (d, ctx') \<Longrightarrow> sx_parent_id ctx' = Some p"
    using assms by (auto simp: visit_with_def Let_def sum_bind_Inr_iff split: if_splits option.splits dest!: child_hit_parent)
qed

lemma scan_children_unfold: "kc_ipa_scan_children ho = scan_with (kc_ipa_ngram_visit ho) ho"
proof (intro ext)
  fix ctx0 mn mx p sp
  let ?P = "\<lambda>c. case c of Inl _ \<Rightarrow> True | Inr ctx \<Rightarrow> sx_parent_id ctx \<noteq> None"
  have "kc_ngram_execute (ho_alloc ho) (Some sp) (Some opts) (Some (faulting (visit_with f ho))) (Inr ctx) =
        kc_ngram_execute (ho_alloc ho) (Some sp) (Some opts) (Some (faulting (visit_with g ho))) (Inr ctx)"
    if "sx_parent_id ctx \<noteq> None" for f g opts ctx
  proof (rule execute_cong [of ?P])
    fix ch and c :: "scan_fault + kc_ipa_scan_ctx_t"
    assume "?P c"
    show "faulting (visit_with f ho) ch c = faulting (visit_with g ho) ch c \<and> ?P (snd (faulting (visit_with f ho) ch c))"
    proof (cases c)
      case (Inr ctx)
      with \<open>?P c\<close> obtain p where p: "sx_parent_id ctx = Some p" by auto
      have e: "visit_with f ho ch ctx = visit_with g ho ch ctx" by (rule visit_with_child(1) [OF p])
      then show ?thesis
        using visit_with_child(2) [OF p, of g ho ch] by (cases "visit_with g ho ch ctx") (auto simp: faulting_def Inr)
    qed (simp add: faulting_def)
  qed (use that in simp)
  note same = this [of "ctx0\<lparr>sx_parent_id := Some p, sx_matches := [], sx_cap := 0\<rparr>"
      "kc_ngram_options_default\<lparr>min_tokens := mn, max_tokens := mx\<rparr>" "\<lambda>_ _ _ _ _. Inr []" "kc_ipa_scan_children ho"]
  show "kc_ipa_scan_children ho ctx0 mn mx p sp = scan_with (kc_ipa_ngram_visit ho) ho ctx0 mn mx p sp"
    unfolding kc_ipa_ngram_visit_def by (subst kc_ipa_scan_children_def) (simp add: scan_with_def Let_def same)
qed

end
