(* ===== verification/Parse.thy ===== *)
theory Parse
  imports Scan
begin

section \<open>What a parse reports\<close>

text \<open>
  The contract of \<open>kc_ipa_parse\<close> on a schema that stands for a manifest (\<open>schema_for\<close>), stated over the
  manifest: descriptions and the embedding model instead of indexes, emits instead of metadata rows.
\<close>

subsection \<open>Similarity of texts\<close>

text \<open>The cosine similarity of two vectors as the index computes it.\<close>

definition cosine :: "(real \<Rightarrow> real) \<Rightarrow> nat \<Rightarrow> real list \<Rightarrow> real list \<Rightarrow> real" where
  "cosine rnd n v w =
     (let a = kc_hnsw_vector_norm rnd v n; b = kc_hnsw_vector_norm rnd w n
      in if a = 0 \<or> b = 0 then 0 else rnd (kc_hnsw_inner_product rnd v w n / rnd (a * b)))"

definition embedding :: "embedder \<Rightarrow> string \<Rightarrow> real list" where
  "embedding em d = map f32_real (the (em_exec em d))"

definition similarity :: "host \<Rightarrow> embedder \<Rightarrow> string \<Rightarrow> string \<Rightarrow> real" where
  "similarity ho em a b = cosine (ho_rnd ho) (nat (em_dim em)) (embedding em a) (embedding em b)"

lemma dist_is_cosine:
  "hn_metric h = KC_HNSW_METRIC_COSINE \<Longrightarrow> kc_hnsw_dist rnd h v (kc_hnsw_vector_norm rnd v (hn_dimension h)) w
     (kc_hnsw_vector_norm rnd w (hn_dimension h)) = cosine rnd (hn_dimension h) v w"
  by (simp add: kc_hnsw_dist_def cosine_def Let_def metric_consts)

lemma index_scores:
  assumes ix: "indexes ho edim es h"
  shows "(\<lambda>it. (the (item_id it), item_dist (ho_rnd ho) h q (kc_hnsw_vector_norm (ho_rnd ho) q (hn_dimension h)) it)) ` set (hn_items h) =
    (\<lambda>(n, v). (n, cosine (ho_rnd ho) (unat edim) q (take (unat edim) (map f32_real v)))) ` set es"
proof -
  let ?d = "hn_dimension h"
  let ?n = "kc_hnsw_vector_norm (ho_rnd ho) q ?d"
  let ?g = "\<lambda>p. (the (fst p), kc_hnsw_dist (ho_rnd ho) h q ?n (fst (snd p)) (snd (snd p)))"
  let ?new = "\<lambda>(n, v). payload (new_item (ho_rnd ho) (unat edim) n (map f32_real v))"
  have d: "unat edim = ?d" and m: "hn_metric h = KC_HNSW_METRIC_COSINE" using ix by (simp_all add: indexes_def)
  have "payload ` set (hn_items h) = ?new ` set es"
    using ix by (metis (no_types, lifting) indexes_def set_mset_mset set_map)
  then have "?g ` payload ` set (hn_items h) = ?g ` ?new ` set es" by simp
  moreover have "?g (?new e) = (\<lambda>(n, v). (n, cosine (ho_rnd ho) (unat edim) q (take (unat edim) (map f32_real v)))) e" for e
    by (cases e) (simp add: payload_def new_item_def d dist_is_cosine [OF m])
  ultimately show ?thesis by (simp add: image_image payload_def item_dist_def)
qed

text \<open>The entry a search finds for a text, and what it means that it finds none. A search over at most
  1024 entries that gets its memory is exact.\<close>

definition exact :: "host \<Rightarrow> 'e list \<Rightarrow> bool" where
  "exact ho es \<longleftrightarrow> length es \<le> 1024 \<and> (\<forall>n. ho_alloc ho n)"

definition found :: "host \<Rightarrow> embedder \<Rightarrow> (string \<times> string) list \<Rightarrow> string \<Rightarrow> string \<Rightarrow> string \<Rightarrow> bool" where
  "found ho em es sp n d \<longleftrightarrow> em_exec em sp \<noteq> None \<and> (n, d) \<in> set es \<and> 0 \<le> similarity ho em sp d \<and>
     (exact ho es \<longrightarrow> (\<forall>(n', d') \<in> set es. similarity ho em sp d' \<le> similarity ho em sp d))"

definition missed :: "host \<Rightarrow> embedder \<Rightarrow> (string \<times> string) list \<Rightarrow> string \<Rightarrow> bool" where
  "missed ho em es sp \<longleftrightarrow> em_exec em sp = None \<or>
     (exact ho es \<longrightarrow> (\<forall>(n, d) \<in> set es. similarity ho em sp d < 0))"

lemma search_entries:
  assumes ix: "indexes ho (of_int (em_dim em)) (vectors em es) h" and em: "embedder_ok em" and lk: "ho_rwlock ho"
    and all: "\<forall>(n, d) \<in> set es. em_exec em d \<noteq> None" and sp: "em_exec em sp = Some v"
  shows "case kc_hnsw_search (ho_alloc ho) (ho_rnd ho) (ho_rwlock ho) (Some h) (Some (map f32_real v)) 1 0 True of
      Inl e \<Rightarrow> e \<noteq> OUT_OF_BOUNDS \<and> missed ho em es sp
    | Inr [] \<Rightarrow> missed ho em es sp
    | Inr (hr # _) \<Rightarrow> \<exists>d. found ho em es sp (res_id hr) d \<and> res_score hr = similarity ho em sp d"
proof -
  let ?q = "map f32_real v" and ?s = "score_of (ho_rnd ho) h (map f32_real v)"
  have b: "built h" "named_items h" "hn_ef_search h < 2 ^ 31" "hn_metric h = KC_HNSW_METRIC_COSINE"
    using ix by (simp_all add: indexes_def)
  have dim: "unat (of_int (em_dim em) :: u32) = nat (em_dim em)"
    using em by (simp add: embedder_ok_def unat_of_int_u32)
  have len: "length (the (em_exec em d)) = nat (em_dim em)" if "(n, d) \<in> set es" for n d
    using em all that by (fastforce simp: embedder_ok_def)
  have "(\<lambda>i. (the (item_id (hn_items h ! i)), ?s i)) ` {..<hn_count h} =
      (\<lambda>it. (the (item_id it), item_dist (ho_rnd ho) h ?q (kc_hnsw_vector_norm (ho_rnd ho) ?q (hn_dimension h)) it)) ` set (hn_items h)"
    by (force simp: score_of_def in_set_conv_nth)
  also have "\<dots> = (\<lambda>(n, d). (n, similarity ho em sp d)) ` set es"
    unfolding index_scores [OF ix] vectors_def set_map image_image
    by (intro image_cong refl) (auto simp: similarity_def embedding_def dim sp len)
  finally have img: "(\<lambda>i. (the (item_id (hn_items h ! i)), ?s i)) ` {..<hn_count h} = (\<lambda>(n, d). (n, similarity ho em sp d)) ` set es" .
  have F1: "\<exists>d. (the (item_id (hn_items h ! i)), d) \<in> set es \<and> ?s i = similarity ho em sp d" if "i < hn_count h" for i
  proof -
    from that have "(the (item_id (hn_items h ! i)), ?s i) \<in> (\<lambda>(n, d). (n, similarity ho em sp d)) ` set es"
      unfolding img [symmetric] by blast
    then show ?thesis by auto
  qed
  have F2: "\<exists>i < hn_count h. ?s i = similarity ho em sp d" if "(n, d) \<in> set es" for n d
  proof -
    from that have "(n, similarity ho em sp d) \<in> (\<lambda>i. (the (item_id (hn_items h ! i)), ?s i)) ` {..<hn_count h}"
      unfolding img by force
    then show ?thesis by auto
  qed
  have cnt: "hn_count h = length es"
    using ix by (metis (no_types, lifting) indexes_def length_map size_mset vectors_def)
  have le: "is = [] \<or> (\<exists>i. is = [i])" if "length is \<le> 1" for "is" :: "nat list"
    using that by (cases "is") auto
  consider (out) "is" out where "kc_hnsw_search (ho_alloc ho) (ho_rnd ho) True (Some h) (Some ?q) 1 0 True = Inr out"
      "reports (ho_rnd ho) h ?q 1 0 is out"
      "hn_count h \<le> 1024 \<longrightarrow> (\<forall>j < hn_count h. 0 \<le> ?s j \<longrightarrow> j \<in> set is \<or> (length is = 1 \<and> (\<forall>i \<in> set is. ?s j \<le> ?s i)))"
    | (oom) "kc_hnsw_search (ho_alloc ho) (ho_rnd ho) True (Some h) (Some ?q) 1 0 True = Inl KC_HNSW_ENOMEM" "\<exists>n. \<not> ho_alloc ho n"
    | (no) out "is" where "kc_hnsw_search (ho_alloc ho) (ho_rnd ho) True (Some h) (Some ?q) 1 0 True = Inr out" "\<exists>n. \<not> ho_alloc ho n"
      "reports (ho_rnd ho) h ?q 1 0 is out"
  proof (cases "hn_count h \<le> 1024 \<and> ho_alloc ho (hn_count h * 16)")
    case True
    then obtain "is" out where r: "kc_hnsw_search (ho_alloc ho) (ho_rnd ho) True (Some h) (Some ?q) 1 0 True = Inr out"
      "reports (ho_rnd ho) h ?q 1 0 is out"
      "\<forall>j < hn_count h. accepts (hn_metric h) 0 (?s j) \<longrightarrow> j \<in> set is \<or>
         (length is = 1 \<and> (\<forall>i \<in> set is. \<not> score_worse (hn_metric h) (?s i) (?s j)))"
      using small_search_reports [OF b(1,2), of 1 "ho_alloc ho" "ho_rnd ho" ?q 0] by auto
    have "hn_metric h \<noteq> KC_HNSW_METRIC_L2" using b(4) by (simp add: metric_consts)
    with r(3) show ?thesis by (intro out [OF r(1,2)]) (auto simp: accepts_def score_worse_def not_less)
  next
    case False
    from search_reports [OF b(1-3) zero_less_one, of "ho_alloc ho" "ho_rnd ho" ?q 0] show ?thesis
    proof (elim disjE conjE exE)
      fix "is" out
      assume "kc_hnsw_search (ho_alloc ho) (ho_rnd ho) True (Some h) (Some ?q) 1 0 True = Inr out"
        "reports (ho_rnd ho) h ?q 1 0 is out"
      with False show ?thesis by (cases "hn_count h \<le> 1024") (blast intro: out no)+
    next
      fix n
      assume "kc_hnsw_search (ho_alloc ho) (ho_rnd ho) True (Some h) (Some ?q) 1 0 True = Inl KC_HNSW_ENOMEM" "\<not> ho_alloc ho n"
      then show ?thesis by (blast intro: oom)
    qed
  qed
  then show ?thesis
  proof cases
    case oom
    with lk show ?thesis by (auto simp: missed_def exact_def)
  next
    case no
    with b(4) have "0 \<le> ?s i" if "i \<in> set is" for i using that by (auto simp: reports_def accepts_def metric_consts)
    with no lk le [of "is"] F1 sp show ?thesis by (fastforce simp: missed_def reports_def found_def exact_def)
  next
    case out
    from le [of "is"] out(2) have "is = [] \<or> (\<exists>i. is = [i])" by (simp add: reports_def)
    then show ?thesis
    proof
      assume e: "is = []"
      have "similarity ho em sp d < 0" if "(n, d) \<in> set es" "length es \<le> 1024" for n d
        using F2 [OF that(1)] out(3) e that(2) cnt by (auto simp: not_le [symmetric])
      with e out lk show ?thesis by (auto simp: missed_def reports_def exact_def)
    next
      assume "\<exists>i. is = [i]"
      then obtain i where i: "is = [i]" ..
      with out(2) b(4) have "i < hn_count h" "0 \<le> ?s i" by (auto simp: reports_def accepts_def metric_consts)
      moreover have "similarity ho em sp d \<le> ?s i" if "(n, d) \<in> set es" "length es \<le> 1024" for n d
        using F2 [OF that(1)] out(3) i that(2) cnt \<open>0 \<le> ?s i\<close> by fastforce
      moreover obtain d where d: "(the (item_id (hn_items h ! i)), d) \<in> set es" "?s i = similarity ho em sp d"
        using F1 [OF \<open>i < hn_count h\<close>] by blast
      ultimately have "found ho em es sp (the (item_id (hn_items h ! i))) d"
        using sp by (auto simp: found_def exact_def)
      with d i out(1,2) lk show ?thesis by (auto simp: reports_def)
    qed
  qed
qed

subsection \<open>Strings and rows of the mapping\<close>

lemma strcmp_mem_ok: "NUL \<in> set mem \<Longrightarrow> NUL \<notin> set s \<Longrightarrow> strcmp_mem mem s = Some (c_str mem = s)"
  by (induction mem s rule: strcmp_mem.induct) (auto simp: c_str_def)

lemma strtab_eq_ok: "file_ref_ok mem st r t \<Longrightarrow> NUL \<notin> set s \<Longrightarrow> strtab_eq mem st r s = Inr (t = s)"
  by (auto simp: strtab_eq_def file_ref_ok_def string_at_def strcmp_mem_ok split: if_splits)

lemma strtab_str_ok: "file_ref_ok mem st r t \<Longrightarrow> strtab_str mem st r = Inr t"
  by (simp add: strtab_str_def file_ref_ok_def)

lemma file_ref_clean: "file_ref_ok mem st r t \<Longrightarrow> NUL \<notin> set t"
  by (auto simp: file_ref_ok_def string_at_def split: if_splits)

lemma file_ref_empty: "file_ref_ok mem st r t \<Longrightarrow> ref_len r = 0 \<longleftrightarrow> t = []"
  by (metis file_ref_ok_def length_0_conv unat_eq_zero)

lemma count_rows_ok:
  assumes "list_all2 (\<lambda>r x. hit r = Inr (P x)) rows xs"
  shows "count_rows hit rows = Inr (length (filter P xs))"
proof -
  have "fold_res (\<lambda>r n. sum_bind (hit r) (\<lambda>b. Inr (if b then n + 1 else n))) rows k = Inr (length (filter P xs) + k)" for k
    using assms by (induction arbitrary: k rule: list_all2_induct) auto
  then show ?thesis by (simp add: count_rows_def)
qed

text \<open>The emits a metadata row stands for, resolved against a span.\<close>

definition resolved :: "string \<Rightarrow> kc_ipa_emit_def_t \<Rightarrow> kc_ipa_emit_t" where
  "resolved sp e = \<lparr>em_key = Some (ed_key e), em_value = Some (if ed_value e = ''$raw'' then sp else ed_value e)\<rparr>"

definition emitting :: "kc_ipa_emit_def_t option \<Rightarrow> bool" where
  "emitting eo \<longleftrightarrow> (case eo of None \<Rightarrow> False | Some e \<Rightarrow> ed_key e \<noteq> [])"

definition node_emits :: "kc_ipa_manifest_t \<Rightarrow> string \<Rightarrow> string \<Rightarrow> kc_ipa_emit_t list" where
  "node_emits m i sp = map (\<lambda>(i', eo, hc). resolved sp (the eo))
     (filter (\<lambda>(i', eo, hc). i' = i \<and> emitting eo) (node_rows (m_nodes m)))"

definition child_emits_of :: "kc_ipa_manifest_t \<Rightarrow> string \<Rightarrow> string \<Rightarrow> string \<Rightarrow> kc_ipa_emit_t list" where
  "child_emits_of m p i sp = map (\<lambda>(p', i', eo). resolved sp (the eo))
     (filter (\<lambda>(p', i', eo). p' = p \<and> i' = i \<and> emitting eo) (child_rows (m_nodes m)))"

lemma node_row_emits_ok:
  "file_node_row_ok mem st row x \<Longrightarrow> NUL \<notin> set i \<Longrightarrow>
    node_row_emits mem st i row = Inr (case x of (i', eo, hc) \<Rightarrow> i' = i \<and> emitting eo)"
  by (auto simp: node_row_emits_def file_node_row_ok_def file_emit_ok_def emitting_def strtab_eq_ok file_ref_empty
      split: prod.splits option.splits)

lemma child_row_is_ok:
  "file_child_row_ok mem st row x \<Longrightarrow> NUL \<notin> set i \<Longrightarrow> NUL \<notin> set p \<Longrightarrow>
    child_row_is mem st i p row = Inr (case x of (p', i', eo) \<Rightarrow> p' = p \<and> i' = i)"
  by (auto simp: child_row_is_def file_child_row_ok_def strtab_eq_ok split: prod.splits)

lemma child_row_emits_ok:
  "file_child_row_ok mem st row x \<Longrightarrow> NUL \<notin> set i \<Longrightarrow> NUL \<notin> set p \<Longrightarrow>
    child_row_emits mem st i p row = Inr (case x of (p', i', eo) \<Rightarrow> p' = p \<and> i' = i \<and> emitting eo)"
  using child_row_is_ok [of mem st row x i p]
  by (auto simp: child_row_emits_def file_child_row_ok_def file_emit_ok_def emitting_def file_ref_empty
      split: prod.splits option.splits)

lemma make_emit_ok:
  assumes "file_emit_ok mem st k v (Some e)"
  shows "\<exists>x. make_emit alloc mem st k v sp = Inr x \<and>
    (em_key x \<noteq> None \<and> em_value x \<noteq> None \<longrightarrow> x = resolved sp e) \<and> (never_fails alloc \<longrightarrow> x = resolved sp e)"
  using assms by (auto simp: make_emit_def file_emit_ok_def strtab_str_ok kc_ipa_resolve_emit_def resolved_def strdup_def)

text \<open>The loops over the rows.\<close>

lemma has_children_ok:
  assumes "list_all2 (file_node_row_ok mem st) rows xs" "NUL \<notin> set i"
  shows "has_children_loop mem st i rows = Inr (\<exists>eo. (i, eo, True) \<in> set xs)"
  using assms
  by (induction rule: list_all2_induct) (auto simp: file_node_row_ok_def strtab_eq_ok)

lemma matched_parent_ok:
  assumes "list_all2 (file_child_row_ok mem st) rows xs" "NUL \<notin> set i" "NUL \<notin> set p"
  shows "matched_parent mem st i p rows = Inr (\<exists>eo. (p, i, eo) \<in> set xs)"
  using assms
  by (induction rule: list_all2_induct) (auto simp: child_row_is_ok)

lemma node_emits_loop:
  fixes alloc :: allocator and sp :: string
  assumes "list_all2 (file_node_row_ok mem st) rows xs" "NUL \<notin> set i"
  defines "bdy \<equiv> (\<lambda>nm emits. case emits of None \<Rightarrow> Inr None | Some es \<Rightarrow>
      sum_bind (node_row_emits mem st i nm) (\<lambda>hit.
        if \<not> hit then Inr (Some es)
        else sum_bind (make_emit alloc mem st (nm_emit_key nm) (nm_emit_val nm) sp) (\<lambda>e.
               Inr (if em_key e = None \<or> em_value e = None then None else Some (es @ [e])))))"
  shows "\<exists>r. fold_res bdy rows (Some es) = Inr r \<and> (never_fails alloc \<longrightarrow> r \<noteq> None) \<and>
    (\<forall>out. r = Some out \<longrightarrow>
       out = es @ map (\<lambda>(i', eo, hc). resolved sp (the eo)) (filter (\<lambda>(i', eo, hc). i' = i \<and> emitting eo) xs))"
proof -
  have none: "fold_res bdy rs None = Inr None" for rs by (induction rs) (simp_all add: bdy_def)
  show ?thesis using assms(1)
  proof (induction arbitrary: es rule: list_all2_induct)
    case (Cons row rows x xs)
    obtain i' eo hc where x: "x = (i', eo, hc)" by (metis prod.exhaust)
    show ?case
    proof (cases "i' = i \<and> emitting eo")
      case False
      then have "bdy row (Some es) = Inr (Some es)"
        using node_row_emits_ok [OF Cons(1) assms(2)] by (auto simp: bdy_def x)
      with Cons.IH [of es] False show ?thesis by (auto simp: x)
    next
      case True
      then obtain e where e: "eo = Some e" by (auto simp: emitting_def split: option.splits)
      have "file_emit_ok mem st (nm_emit_key row) (nm_emit_val row) (Some e)" using Cons(1) by (simp add: file_node_row_ok_def x e)
      from make_emit_ok [OF this, of alloc sp] obtain y where
        y: "make_emit alloc mem st (nm_emit_key row) (nm_emit_val row) sp = Inr y"
        "em_key y \<noteq> None \<and> em_value y \<noteq> None \<longrightarrow> y = resolved sp e" "never_fails alloc \<longrightarrow> y = resolved sp e" by blast
      then have b: "bdy row (Some es) = Inr (if em_key y = None \<or> em_value y = None then None else Some (es @ [y]))"
        using node_row_emits_ok [OF Cons(1) assms(2)] True by (auto simp: bdy_def x)
      show ?thesis
      proof (cases "em_key y = None \<or> em_value y = None")
        case bad: True
        then have "\<not> never_fails alloc" using y(3) by (auto simp: resolved_def)
        with bad b none show ?thesis by auto
      next
        case False
        with b y(2) Cons.IH [of "es @ [y]"] True show ?thesis by (auto simp: x e)
      qed
    qed
  qed simp
qed

lemma build_match_emits_ok:
  assumes "list_all2 (file_node_row_ok mem st) (ix_node_meta idx) (node_rows (m_nodes m))" "NUL \<notin> set i"
  shows "\<exists>r. kc_ipa_build_match_emits alloc mem st idx i sp = Inr r \<and> (never_fails alloc \<longrightarrow> r \<noteq> None) \<and>
    (\<forall>out. r = Some out \<longrightarrow> out = node_emits m i sp)"
proof -
  let ?P = "\<lambda>(i', eo, hc). i' = i \<and> emitting eo"
  have "list_all2 (\<lambda>row x. node_row_emits mem st i row = Inr (?P x)) (ix_node_meta idx) (node_rows (m_nodes m))"
    using assms(1) by (rule list_all2_mono) (simp add: node_row_emits_ok assms(2))
  note c = count_rows_ok [OF this]
  show ?thesis
  proof (cases "filter ?P (node_rows (m_nodes m)) = []")
    case True
    with c show ?thesis by (auto simp: kc_ipa_build_match_emits_def node_emits_def)
  next
    case False
    with c node_emits_loop [OF assms, of alloc sp "[]"] show ?thesis
      by (auto simp: kc_ipa_build_match_emits_def node_emits_def)
  qed
qed

lemma child_emits_ok:
  assumes r: "list_all2 (file_child_row_ok mem st) (ix_child_meta idx) (child_rows (m_nodes m))" and i: "NUL \<notin> set i" "NUL \<notin> set p"
  shows "\<exists>es. child_emits alloc mem st idx p (Match i sp sc [] []) = Inr (Match i sp sc es []) \<and>
    (never_fails alloc \<longrightarrow> es = child_emits_of m p i sp)"
proof -
  let ?P = "\<lambda>(p', i', eo). p' = p \<and> i' = i \<and> emitting eo"
  let ?bdy = "\<lambda>cm es. sum_bind (child_row_emits mem st i p cm) (\<lambda>hit.
      if \<not> hit then Inr es
      else sum_bind (make_emit alloc mem st (cm_emit_key cm) (cm_emit_val cm) sp) (\<lambda>e. Inr (es @ [e])))"
  have "list_all2 (\<lambda>row x. child_row_emits mem st i p row = Inr (?P x)) (ix_child_meta idx) (child_rows (m_nodes m))"
    using r by (rule list_all2_mono) (simp add: child_row_emits_ok i)
  note c = count_rows_ok [OF this]
  have "\<exists>out. fold_res ?bdy rows es = Inr out \<and>
      (never_fails alloc \<longrightarrow> out = es @ map (\<lambda>(p', i', eo). resolved sp (the eo)) (filter ?P xs))"
    if "list_all2 (file_child_row_ok mem st) rows xs" for rows xs es
    using that
  proof (induction arbitrary: es rule: list_all2_induct)
    case (Cons row rows x xs)
    obtain p' i' eo where x: "x = (p', i', eo)" by (metis prod.exhaust)
    show ?case
    proof (cases "?P x")
      case False
      with Cons.IH [of es] child_row_emits_ok [OF Cons(1) i] show ?thesis by (auto simp: x)
    next
      case True
      then obtain e where e: "eo = Some e" by (auto simp: emitting_def x split: option.splits)
      have "file_emit_ok mem st (cm_emit_key row) (cm_emit_val row) (Some e)" using Cons(1) by (simp add: file_child_row_ok_def x e)
      from make_emit_ok [OF this, of alloc sp] obtain y where
        y: "make_emit alloc mem st (cm_emit_key row) (cm_emit_val row) sp = Inr y" "never_fails alloc \<longrightarrow> y = resolved sp e" by blast
      with Cons.IH [of "es @ [y]"] child_row_emits_ok [OF Cons(1) i] True show ?thesis by (auto simp: x e)
    qed
  qed simp
  from this [OF r, of "[]"] c show ?thesis
    by (auto simp: child_emits_def child_emits_of_def)
qed

subsection \<open>The scan of a parent's span\<close>

text \<open>A schema that stands for a manifest and whose index can be searched, and the contexts of its scans.\<close>

definition ready :: "host \<Rightarrow> embedder \<Rightarrow> kc_ipa_manifest_t \<Rightarrow> kc_ipa_schema \<Rightarrow> bool" where
  "ready ho em m s \<longleftrightarrow> schema_for ho em m s \<and> embedder_ok em \<and> ho_rwlock ho"

definition scan_ctx :: "kc_ipa_schema \<Rightarrow> string option \<Rightarrow> kc_ipa_match_t list \<Rightarrow> nat \<Rightarrow> kc_ipa_scan_ctx_t" where
  "scan_ctx s parent ms cap =
     \<lparr>sx_emb = sc_emb s, sx_idx = sc_index s, sx_base = sc_base s, sx_strtab = sc_strtab s,
      sx_threshold = sc_node_threshold s, sx_parent_id = parent, sx_matches = ms, sx_cap = cap\<rparr>"

lemma scan_ctx_simps [simp]:
  "sx_emb (scan_ctx s par ms cap) = sc_emb s" "sx_idx (scan_ctx s par ms cap) = sc_index s"
  "sx_base (scan_ctx s par ms cap) = sc_base s" "sx_strtab (scan_ctx s par ms cap) = sc_strtab s"
  "sx_threshold (scan_ctx s par ms cap) = sc_node_threshold s" "sx_parent_id (scan_ctx s par ms cap) = par"
  "sx_matches (scan_ctx s par ms cap) = ms" "sx_cap (scan_ctx s par ms cap) = cap"
  "scan_ctx s par ms cap = scan_ctx s par' ms' cap' \<longleftrightarrow> par = par' \<and> ms = ms' \<and> cap = cap'"
  "(scan_ctx s par ms cap)\<lparr>sx_matches := ms'\<rparr> = scan_ctx s par ms' cap"
  "(scan_ctx s par ms cap)\<lparr>sx_matches := ms', sx_cap := cap'\<rparr> = scan_ctx s par ms' cap'"
  "(scan_ctx s par ms cap)\<lparr>sx_parent_id := q, sx_matches := ms', sx_cap := cap'\<rparr> = scan_ctx s q ms' cap'"
  by (simp_all add: scan_ctx_def)

text \<open>The entries a scan looks among.\<close>

definition entries :: "kc_ipa_manifest_t \<Rightarrow> string option \<Rightarrow> (string \<times> string) list" where
  "entries m parent = (if parent = None then node_entries (m_nodes m) else child_entries (m_nodes m))"

lemma entries_simps [simp]:
  "entries m None = node_entries (m_nodes m)" "entries m (Some p) = child_entries (m_nodes m)"
  by (simp_all add: entries_def)

lemma nearest_ok:
  assumes "ready ho em m s"
  shows "\<exists>r. nearest ho (scan_ctx s par ms cap) sp = Inr r \<and>
    (case r of None \<Rightarrow> missed ho em (entries m par) sp
     | Some hr \<Rightarrow> \<exists>d. found ho em (entries m par) sp (res_id hr) d \<and> res_score hr = similarity ho em sp d)"
proof (cases "em_exec em sp")
  case None
  with assms show ?thesis by (simp add: nearest_def ready_def schema_for_def missed_def)
next
  case (Some v)
  have sc: "schema_for ho em m s" and em: "embedder_ok em" and lk: "ho_rwlock ho" using assms by (simp_all add: ready_def)
  let ?ix = "if par \<noteq> None then ix_child_hnsw (sc_index s) else ix_node_hnsw (sc_index s)"
  show ?thesis
  proof (cases ?ix)
    case None
    with sc have "entries m par = []" by (auto simp: schema_for_def entries_def split: if_splits)
    with None Some sc show ?thesis by (auto simp: nearest_def schema_for_def missed_def)
  next
    case h: (Some h)
    have ix: "indexes ho (of_int (em_dim em)) (vectors em (entries m par)) h"
      using sc h by (auto simp: schema_for_def entries_def split: if_splits)
    have "em_exec em d \<noteq> None" if "(n, d) \<in> set (entries m par)" for n d
    proof -
      from that have "d \<in> snd ` (set (node_entries (m_nodes m)) \<union> set (child_entries (m_nodes m)))"
        by (force simp: entries_def split: if_splits)
      moreover have "embeds em m" using sc by (simp add: schema_for_def)
      ultimately show ?thesis unfolding embeds_def by blast
    qed
    then have "\<forall>(n, d) \<in> set (entries m par). em_exec em d \<noteq> None" by blast
    note se = search_entries [OF ix em lk this Some]
    have e: "sc_emb s = Some em" using sc by (simp add: schema_for_def)
    show ?thesis
      unfolding nearest_def scan_ctx_simps e option.case Some h using se by (auto split: sum.splits list.splits)
  qed
qed

lemma schema_rows:
  assumes "schema_for ho em m s"
  shows "list_all2 (file_node_row_ok (sc_base s) (sc_strtab s)) (ix_node_meta (sc_index s)) (node_rows (m_nodes m))"
    and "list_all2 (file_child_row_ok (sc_base s) (sc_strtab s)) (ix_child_meta (sc_index s)) (child_rows (m_nodes m))"
    and "(i, eo, hc) \<in> set (node_rows (m_nodes m)) \<Longrightarrow> NUL \<notin> set i"
    and "(p, i, eo) \<in> set (child_rows (m_nodes m)) \<Longrightarrow> NUL \<notin> set i"
proof -
  show r: "list_all2 (file_node_row_ok (sc_base s) (sc_strtab s)) (ix_node_meta (sc_index s)) (node_rows (m_nodes m))"
    "list_all2 (file_child_row_ok (sc_base s) (sc_strtab s)) (ix_child_meta (sc_index s)) (child_rows (m_nodes m))"
    using assms by (simp_all add: schema_for_def)
  have snd: "\<exists>row. P row x" if "list_all2 P rows xs" "x \<in> set xs" for P :: "'r \<Rightarrow> 'x \<Rightarrow> bool" and rows xs x
    using that by (induction rule: list_all2_induct) auto
  show "NUL \<notin> set i" if "(i, eo, hc) \<in> set (node_rows (m_nodes m))"
    using snd [OF r(1) that] by (auto simp: file_node_row_ok_def dest: file_ref_clean)
  show "NUL \<notin> set i" if "(p, i, eo) \<in> set (child_rows (m_nodes m))"
    using snd [OF r(2) that] by (auto simp: file_child_row_ok_def dest: file_ref_clean)
qed

lemma emit_rounds_hd: "hd (emit_rounds nd) \<in> set (emit_rounds nd)"
  by (simp add: emit_rounds_def)

lemma node_entry_row:
  assumes "(i, d) \<in> set (node_entries nodes)"
  shows "\<exists>eo hc. (i, eo, hc) \<in> set (node_rows nodes)"
proof -
  from assms obtain nd where nd: "nd \<in> set nodes" "i = the (nd_id nd)" by (auto simp: node_entries_def)
  then have "(i, hd (emit_rounds nd), nd_children nd \<noteq> []) \<in> set (node_rows nodes)"
    using emit_rounds_hd [of nd] unfolding node_rows_def by auto
  then show ?thesis by blast
qed

lemma child_entry_row:
  assumes "(i, d) \<in> set (child_entries nodes)"
  shows "\<exists>p eo. (p, i, eo) \<in> set (child_rows nodes)"
proof -
  from assms obtain nd ch where nd: "nd \<in> set nodes" "ch \<in> set (nd_children nd)" "i = the (nd_id ch)"
    by (auto simp: child_entries_def node_entries_def)
  then have "(the (nd_id nd), i, hd (emit_rounds ch)) \<in> set (child_rows nodes)"
    using emit_rounds_hd [of ch] unfolding child_rows_def by auto
  then show ?thesis by blast
qed

lemma entry_clean:
  assumes "schema_for ho em m s" "(i, d) \<in> set (entries m par)"
  shows "NUL \<notin> set i"
proof (cases par)
  case None
  with node_entry_row [of i d "m_nodes m"] assms schema_rows(3) [OF assms(1)] show ?thesis by (auto simp: entries_def)
next
  case Some
  with child_entry_row [of i d "m_nodes m"] assms schema_rows(4) [OF assms(1)] show ?thesis by (auto simp: entries_def)
qed

text \<open>A text that is a window of another.\<close>

definition scan_opts :: "int \<Rightarrow> int \<Rightarrow> kc_ngram_options_t" where
  "scan_opts mn mx = kc_ngram_options_default\<lparr>min_tokens := mn, max_tokens := mx\<rparr>"

definition window_text :: "string \<Rightarrow> kc_ngram_token_list_t \<Rightarrow> nat \<times> nat \<Rightarrow> string" where
  "window_text inp t sw = chunk_span (mk_chunk inp (items t) (fst sw) (snd sw))"

definition is_window :: "allocator \<Rightarrow> kc_ngram_options_t \<Rightarrow> string \<Rightarrow> kc_ngram_token_list_t \<Rightarrow> nat \<times> nat \<Rightarrow> bool" where
  "is_window alloc opts inp t sw \<longleftrightarrow> options_valid opts \<and> kc_ngram_split_tokens alloc inp (separators opts) = Some t \<and>
     sw \<in> set (windows_of (length (items t)) opts)"

text \<open>A window that lies inside another.\<close>

definition window_in :: "nat \<times> nat \<Rightarrow> nat \<times> nat \<Rightarrow> bool" where
  "window_in x y \<longleftrightarrow> fst y \<le> fst x \<and> fst x + snd x \<le> fst y + snd y"

lemma inside_window:
  "1 \<le> w \<Longrightarrow> \<forall>sw \<in> set ws. 1 \<le> snd sw \<Longrightarrow> inside (map (\<lambda>(a, w). (a, a + w - 1)) ws) a (a + w - 1) \<longleftrightarrow> (\<exists>sw \<in> set ws. window_in (a, w) sw)"
  by (force simp: inside_def window_in_def)

lemma window_size: "is_window alloc opts inp t sw \<Longrightarrow> 1 \<le> snd sw"
  by (cases sw) (auto simp: is_window_def options_valid_def windows_of_def set_windows)

text \<open>A match's name and score come from a description that the search finds for its span, and the score
  is not below the threshold.\<close>

definition scored :: "host \<Rightarrow> embedder \<Rightarrow> kc_ipa_manifest_t \<Rightarrow> (string \<times> string) list \<Rightarrow> kc_ipa_match_t \<Rightarrow> bool" where
  "scored ho em m es x \<longleftrightarrow> (\<exists>d. found ho em es (ma_span x) (ma_id x) d \<and>
     ma_score x = fp_float (ho_fp ho) (Fin (similarity ho em (ma_span x) d))) \<and>
     \<not> fl_lt (f32_val (ma_score x)) (f32_val (m_node_threshold m))"

definition child_found :: "host \<Rightarrow> embedder \<Rightarrow> kc_ipa_manifest_t \<Rightarrow> int \<Rightarrow> string \<Rightarrow> string \<Rightarrow> kc_ipa_match_t \<Rightarrow> bool" where
  "child_found ho em m mx p psp x \<longleftrightarrow> ma_children x = [] \<and> scored ho em m (child_entries (m_nodes m)) x \<and>
     (\<exists>eo. (p, ma_id x, eo) \<in> set (child_rows (m_nodes m))) \<and>
     (\<exists>t sw. is_window (ho_alloc ho) (scan_opts 1 mx) psp t sw \<and> ma_span x = window_text psp t sw)"

text \<open>A window of a parent's span that gives no child: the node has no children, the model or the search has no
  entry for its text, the entry's score is below the threshold, or the entry is a child of another node.\<close>

definition child_score :: "host \<Rightarrow> embedder \<Rightarrow> string \<Rightarrow> string \<Rightarrow> u32" where
  "child_score ho em sp d = fp_float (ho_fp ho) (Fin (similarity ho em sp d))"

definition child_rejected :: "host \<Rightarrow> embedder \<Rightarrow> kc_ipa_manifest_t \<Rightarrow> string \<Rightarrow> string \<Rightarrow> bool" where
  "child_rejected ho em m p sp \<longleftrightarrow> (\<forall>n eo. (p, n, eo) \<notin> set (child_rows (m_nodes m))) \<or> missed ho em (child_entries (m_nodes m)) sp \<or>
     (\<exists>n d. found ho em (child_entries (m_nodes m)) sp n d \<and>
        (fl_lt (f32_val (child_score ho em sp d)) (f32_val (m_node_threshold m)) \<or> (\<forall>eo. (p, n, eo) \<notin> set (child_rows (m_nodes m)))))"

text \<open>A child that is reported with a score that is no lower, and a window whose text is found to be that child.\<close>

definition reported :: "kc_ipa_match_t list \<Rightarrow> string \<Rightarrow> u32 \<Rightarrow> bool" where
  "reported xs n sc \<longleftrightarrow> (\<exists>x \<in> set xs. ma_id x = n \<and> \<not> fl_lt (f32_val (ma_score x)) (f32_val sc))"

definition child_kept :: "host \<Rightarrow> embedder \<Rightarrow> kc_ipa_manifest_t \<Rightarrow> kc_ipa_match_t list \<Rightarrow> string \<Rightarrow> bool" where
  "child_kept ho em m xs sp \<longleftrightarrow> (\<exists>n d. found ho em (child_entries (m_nodes m)) sp n d \<and> reported xs n (child_score ho em sp d))"

definition children_complete :: "host \<Rightarrow> embedder \<Rightarrow> kc_ipa_manifest_t \<Rightarrow> int \<Rightarrow> string \<Rightarrow> string \<Rightarrow> kc_ipa_match_t list \<Rightarrow> bool" where
  "children_complete ho em m mx p psp xs \<longleftrightarrow> (\<forall>t sw. is_window (ho_alloc ho) (scan_opts 1 mx) psp t sw \<longrightarrow>
     child_rejected ho em m p (window_text psp t sw) \<or>
     (\<exists>sw'. is_window (ho_alloc ho) (scan_opts 1 mx) psp t sw' \<and> window_in sw sw' \<and> child_kept ho em m xs (window_text psp t sw')))"

lemma reported_mono:
  assumes "\<forall>x \<in> set xs. \<exists>y \<in> set ys. ma_id y = ma_id x \<and> (ma_score y = ma_score x \<or> fl_lt (f32_val (ma_score x)) (f32_val (ma_score y)))"
    and "reported xs n sc"
  shows "reported ys n sc"
proof -
  have "fl_lt a c" if "fl_lt a b" "fl_lt b c" for a b c
    using that by (auto simp: fl_lt_def split: dbl.splits)
  with assms show ?thesis unfolding reported_def by metis
qed

lemma window_bytes:
  assumes "is_window alloc opts inp t (a, w)"
  shows "byte_start (mk_chunk inp (items t) a w) < byte_end (mk_chunk inp (items t) a w)"
proof -
  have sp: "kc_ngram_split_tokens alloc inp (separators opts) = Some t" and aw: "1 \<le> w" "a + w \<le> length (items t)"
    using assms by (auto simp: is_window_def options_valid_def windows_of_def set_windows)
  have tk: "sorted_wrt tok_before (items t)" "\<forall>x \<in> set (items t). tok_start x < tok_end x"
    using split_tokens_loop_spec [OF _ _ sp [unfolded kc_ngram_split_tokens_def]] by (auto simp: at_gap_def is_token_def)
  then have "tok_end (items t ! a) \<le> tok_end (items t ! (a + w - 1))"
  proof (cases "w = 1")
    case False
    with aw have "a < a + w - 1" "a + w - 1 < length (items t)" by auto
    with tk(1) have "tok_before (items t ! a) (items t ! (a + w - 1))" by (auto simp: sorted_wrt_iff_nth_less)
    moreover have "tok_start (items t ! (a + w - 1)) < tok_end (items t ! (a + w - 1))" using tk(2) aw by auto
    ultimately show ?thesis by (simp add: tok_before_def)
  qed simp
  moreover have "tok_start (items t ! a) < tok_end (items t ! a)" using tk(2) aw by auto
  ultimately show ?thesis by simp
qed

lemma match_push_ok:
  obtains cap' where "kc_ipa_match_push alloc (scan_ctx s par ms cap) x = Some (scan_ctx s par (ms @ [x]) cap')"
  | "kc_ipa_match_push alloc (scan_ctx s par ms cap) x = None" "\<exists>n. \<not> alloc n"
proof (cases "kc_ipa_match_push alloc (scan_ctx s par ms cap) x")
  case None
  then have "\<exists>n. \<not> alloc n" by (auto simp: kc_ipa_match_push_def Let_def split: if_splits)
  with None that(2) show ?thesis by blast
next
  case (Some c)
  then have "c = scan_ctx s par (ms @ [x]) (sx_cap c)"
    by (auto simp: kc_ipa_match_push_def Let_def scan_ctx_def split: if_splits)
  with Some that(1) show ?thesis by metis
qed

lemma keep_child_spec:
  assumes "distinct (map ma_id ms)" "\<forall>x \<in> set ms. P x" "P x"
  shows "\<exists>d ms' cap'. keep_child alloc (scan_ctx s par ms cap) x = (d, scan_ctx s par ms' cap') \<and>
    distinct (map ma_id ms') \<and> (\<forall>x \<in> set ms'. P x) \<and> (\<forall>n sc. reported ms n sc \<longrightarrow> reported ms' n sc) \<and>
    (never_fails alloc \<longrightarrow> d = 1) \<and> (d = 1 \<longrightarrow> reported ms' (ma_id x) (ma_score x))"
proof -
  let ?k = "scan_while (\<lambda>y. ma_id y \<noteq> ma_id x) ms 0"
  have irrefl: "\<not> fl_lt a a" for a by (auto simp: fl_lt_def split: dbl.splits)
  show ?thesis
  proof (cases "?k < length ms")
    case True
    with scan_while_stop [of "\<lambda>y. ma_id y \<noteq> ma_id x" ms 0] have i: "ma_id (ms ! ?k) = ma_id x" by blast
    show ?thesis
    proof (cases "fl_lt (f32_val (ma_score (ms ! ?k))) (f32_val (ma_score x))")
      case lt: True
      let ?ms = "ms[?k := x]"
      have "map ma_id ?ms = map ma_id ms" by (simp add: map_update list_update_same_conv True i)
      moreover have "\<forall>y \<in> set ?ms. P y" using assms(2,3) set_update_subset_insert by fastforce
      moreover have "x \<in> set ?ms" using True by (rule set_update_memI)
      moreover have "reported ?ms n sc" if "reported ms n sc" for n sc
      proof (rule reported_mono [OF _ that], rule ballI)
        fix y assume "y \<in> set ms"
        then obtain j where j: "j < length ms" "y = ms ! j" by (auto simp: in_set_conv_nth)
        show "\<exists>z \<in> set ?ms. ma_id z = ma_id y \<and> (ma_score z = ma_score y \<or> fl_lt (f32_val (ma_score y)) (f32_val (ma_score z)))"
        proof (cases "j = ?k")
          case True
          with j i lt \<open>x \<in> set ?ms\<close> show ?thesis by (intro bexI [of _ x]) auto
        next
          case False
          with j have "?ms ! j = y" "j < length ?ms" by auto
          then have "y \<in> set ?ms" by (metis nth_mem)
          then show ?thesis by (intro bexI [of _ y]) simp_all
        qed
      qed
      ultimately show ?thesis using True lt assms irrefl
        by (auto simp: keep_child_def Let_def reported_def)
    next
      case False
      then have "reported ms (ma_id x) (ma_score x)" using True i nth_mem unfolding reported_def by blast
      with True False assms show ?thesis by (auto simp: keep_child_def Let_def)
    qed
  next
    case False
    then have "ma_id y \<noteq> ma_id x" if "y \<in> set ms" for y
      using scan_while_all [of 0 _ "\<lambda>y. ma_id y \<noteq> ma_id x" ms] that by (auto simp: in_set_conv_nth)
    then have "ma_id x \<notin> ma_id ` set ms" by force
    with assms have new: "distinct (map ma_id (ms @ [x]))" "\<forall>y \<in> set (ms @ [x]). P y" by auto
    have rep: "reported (ms @ [x]) (ma_id x) (ma_score x)" "reported ms n sc \<Longrightarrow> reported (ms @ [x]) n sc" for n sc
      using irrefl by (auto simp: reported_def)
    show ?thesis
      by (rule match_push_ok [of alloc s par ms cap x])
        (use False assms new rep in \<open>auto simp: keep_child_def Let_def simp del: map_append set_append\<close>)
  qed
qed

lemma child_visit_ok:
  assumes r: "ready ho em m s" and p: "NUL \<notin> set p"
    and sw: "is_window (ho_alloc ho) (scan_opts 1 mx) psp t (a, w)"
    and ms: "distinct (map ma_id ms)" "\<forall>x \<in> set ms. child_found ho em m mx p psp x \<and> ma_emits x = []"
  shows "\<exists>d ms' cap'. visit_with f ho (mk_chunk psp (items t) a w) (scan_ctx s (Some p) ms cap) = Inr (d, scan_ctx s (Some p) ms' cap') \<and>
    distinct (map ma_id ms') \<and> (\<forall>x \<in> set ms'. child_found ho em m mx p psp x \<and> ma_emits x = []) \<and>
    (\<forall>n sc. reported ms n sc \<longrightarrow> reported ms' n sc) \<and> (never_fails (ho_alloc ho) \<longrightarrow> 0 \<le> d) \<and>
    (never_fails (ho_alloc ho) \<longrightarrow> (if d = 1 then child_kept ho em m ms' (window_text psp t (a, w))
       else child_rejected ho em m p (window_text psp t (a, w))))"
proof -
  let ?ch = "mk_chunk psp (items t) a w" and ?c = "scan_ctx s (Some p) ms cap"
  let ?sp = "chunk_span ?ch"
  let ?goal = "\<lambda>r. \<exists>(d :: int) ms' cap'. r = Inr (d, scan_ctx s (Some p) ms' cap') \<and>
    distinct (map ma_id ms') \<and> (\<forall>x \<in> set ms'. child_found ho em m mx p psp x \<and> ma_emits x = []) \<and>
    (\<forall>n sc. reported ms n sc \<longrightarrow> reported ms' n sc) \<and> (never_fails (ho_alloc ho) \<longrightarrow> 0 \<le> d) \<and>
    (never_fails (ho_alloc ho) \<longrightarrow> (if d = 1 then child_kept ho em m ms' ?sp else child_rejected ho em m p ?sp))"
  have stay: "?goal (Inr (0, ?c))" if "never_fails (ho_alloc ho) \<Longrightarrow> child_rejected ho em m p ?sp" using that ms by simp
  have sf: "schema_for ho em m s" using r by (simp add: ready_def)
  have thr: "sc_node_threshold s = m_node_threshold m" using sf by (simp add: schema_for_def)
  obtain n where n: "nearest ho ?c ?sp = Inr n" "n = None \<Longrightarrow> missed ho em (child_entries (m_nodes m)) ?sp"
      "\<And>hr. n = Some hr \<Longrightarrow> \<exists>d. found ho em (child_entries (m_nodes m)) ?sp (res_id hr) d \<and> res_score hr = similarity ho em ?sp d"
    using nearest_ok [OF r, of "Some p" ms cap ?sp] by (auto split: option.splits)
  have hit: "?goal (child_hit ho ?c p (res_id hr) ?sp sc)"
    if hr: "n = Some hr" and sc: "sc = fp_float (ho_fp ho) (Fin (res_score hr))"
      "\<not> fl_lt (f32_val sc) (f32_val (sc_node_threshold s))" for hr sc
  proof -
    from n(3) [OF hr] obtain d where d: "found ho em (child_entries (m_nodes m)) ?sp (res_id hr) d" "res_score hr = similarity ho em ?sp d"
      by blast
    have i: "NUL \<notin> set (res_id hr)"
      using entry_clean [OF sf, of "res_id hr" d "Some p"] d(1) by (simp add: entries_def found_def)
    have win: "\<exists>t sw. is_window (ho_alloc ho) (scan_opts 1 mx) psp t sw \<and> ?sp = window_text psp t sw"
      using sw by (intro exI [of _ t] exI [of _ "(a, w)"]) (simp add: window_text_def)
    let ?ok = "\<exists>eo. (p, res_id hr, eo) \<in> set (child_rows (m_nodes m))" and ?x = "Match (res_id hr) ?sp sc [] []"
    have mp: "matched_parent (sc_base s) (sc_strtab s) (res_id hr) p (ix_child_meta (sc_index s)) = Inr ?ok"
      by (rule matched_parent_ok [OF schema_rows(2) [OF sf] i p])
    have new: "child_found ho em m mx p psp ?x \<and> ma_emits ?x = []" if ?ok
      using that d sc(1) sc(2) [unfolded thr] win unfolding child_found_def scored_def kc_ipa_match_t.sel
      by (intro conjI refl exI [of _ d]) simp_all
    have kept: "child_kept ho em m ms' ?sp" if "reported ms' (res_id hr) sc" for ms'
      using that d sc(1) unfolding child_kept_def child_score_def by auto
    show ?thesis
    proof (cases "?ok \<and> strdup (ho_alloc ho) (res_id hr) = Some (res_id hr)")
      case True
      then have h: "child_hit ho ?c p (res_id hr) ?sp sc = Inr (keep_child (ho_alloc ho) ?c ?x)" using mp by (simp add: child_hit_def)
      show ?thesis using keep_child_spec [OF ms(1) ms(2), of ?x "ho_alloc ho" s "Some p" cap] new True kept unfolding h
        by (elim exE conjE) fastforce
    next
      case False
      then have "child_hit ho ?c p (res_id hr) ?sp sc = Inr (0, ?c)" using mp by (auto simp: child_hit_def strdup_def)
      moreover have "child_rejected ho em m p ?sp" if "never_fails (ho_alloc ho)"
        using that False d(1) unfolding child_rejected_def by (auto simp: strdup_def)
      ultimately show ?thesis using stay by simp
    qed
  qed
  show ?thesis
  proof (cases "ho_alloc ho (byte_end ?ch - byte_start ?ch + 1)")
    case False
    then have "visit_with f ho ?ch ?c = Inr (0, ?c)" by (simp add: visit_with_def)
    with False stay show ?thesis by (auto simp: window_text_def)
  next
    case True
    have v: "visit_with f ho ?ch ?c = (case n of None \<Rightarrow> Inr (0, ?c) | Some hr \<Rightarrow>
        let score = fp_float (ho_fp ho) (Fin (res_score hr))
        in if fl_lt (f32_val score) (f32_val (sc_node_threshold s)) then Inr (0, ?c)
           else child_hit ho ?c p (res_id hr) ?sp score)"
      using window_bytes [OF sw] n(1) True by (simp add: visit_with_def Let_def split: option.split)
    have "?goal (visit_with f ho ?ch ?c)"
    proof (cases n)
      case None
      with n(2) v stay show ?thesis by (simp add: child_rejected_def)
    next
      case (Some hr)
      show ?thesis
      proof (cases "fl_lt (f32_val (fp_float (ho_fp ho) (Fin (res_score hr)))) (f32_val (sc_node_threshold s))")
        case True
        with n(3) [OF Some] thr have "child_rejected ho em m p ?sp" unfolding child_rejected_def child_score_def by metis
        with True Some v stay show ?thesis by simp
      next
        case False
        with Some v hit [OF Some refl False] show ?thesis by (simp add: Let_def)
      qed
    qed
    then show ?thesis unfolding window_text_def fst_conv snd_conv .
  qed
qed

lemma fold_collect_all:
  assumes "\<forall>x \<in> set xs. \<exists>y. f x = Inr y \<and> R x y"
  shows "\<exists>ys. fold_res (\<lambda>x acc. sum_bind (f x) (\<lambda>y. Inr (acc @ [y]))) xs acc = Inr (acc @ ys) \<and> list_all2 R xs ys"
  using assms
proof (induction xs arbitrary: acc)
  case (Cons x xs)
  from Cons.prems obtain y where y: "f x = Inr y" "R x y" by auto
  from Cons.prems Cons.IH [of "acc @ [y]"] obtain ys where
    "fold_res (\<lambda>x acc. sum_bind (f x) (\<lambda>y. Inr (acc @ [y]))) xs (acc @ [y]) = Inr (acc @ y # ys)" "list_all2 R xs ys" by auto
  with y show ?case by (intro exI [of _ "y # ys"]) simp
qed simp

text \<open>What a scan of a parent's span has collected when it ends: children of the node, each once, and with
  memory available nothing that a window of the span gives is lost.\<close>

lemma children_scanned:
  assumes r: "ready ho em m s" and p: "NUL \<notin> set p"
    and run: "kc_ngram_execute (ho_alloc ho) (Some psp) (Some (scan_opts 1 mx)) (Some (faulting (visit_with f ho)))
      (Inr (scan_ctx s (Some p) [] 0)) = (rc, c)"
  shows "\<exists>ms cap. c = Inr (scan_ctx s (Some p) ms cap) \<and> distinct (map ma_id ms) \<and>
    (\<forall>x \<in> set ms. child_found ho em m mx p psp x \<and> ma_emits x = []) \<and>
    (0 \<le> rc \<and> never_fails (ho_alloc ho) \<longrightarrow> children_complete ho em m mx p psp ms)"
proof -
  let ?opts = "scan_opts 1 mx"
  define T where "T = the (kc_ngram_split_tokens (ho_alloc ho) psp (separators ?opts))"
  define kept where "kept = (\<lambda>ms sw. is_window (ho_alloc ho) ?opts psp T sw \<and> child_kept ho em m ms (window_text psp T sw))"
  define Q where "Q = (\<lambda>taken seen (c :: scan_fault + kc_ipa_scan_ctx_t). \<exists>ms cap. c = Inr (scan_ctx s (Some p) ms cap) \<and>
      distinct (map ma_id ms) \<and> (\<forall>x \<in> set ms. child_found ho em m mx p psp x \<and> ma_emits x = []) \<and>
      (never_fails (ho_alloc ho) \<longrightarrow> (\<forall>x \<in> set taken. \<exists>sw. x = (fst sw, fst sw + snd sw - 1) \<and> kept ms sw) \<and>
         (\<forall>sw \<in> set seen. child_rejected ho em m p (window_text psp T sw) \<or> kept ms sw)))"
  have "\<exists>taken seen. Q taken seen c \<and> (0 \<le> rc \<longrightarrow> (\<exists>t. kc_ngram_split_tokens (ho_alloc ho) psp (separators ?opts) = Some t \<and>
    (\<forall>(a, w) \<in> set (windows_of (length (items t)) ?opts). (a, w) \<in> set seen \<or> inside taken a (a + w - 1))))"
  proof (rule execute_invariant [where Q = Q, OF _ _ run])
    show "Q [] [] (Inr (scan_ctx s (Some p) [] 0))" by (simp add: Q_def)
  next
    fix t :: kc_ngram_token_list_t and taken seen a w c d c'
    assume a: "options_valid ?opts" "kc_ngram_split_tokens (ho_alloc ho) psp (separators ?opts) = Some t"
      "(a, w) \<in> set (windows_of (length (items t)) ?opts)" "Q taken seen c"
      "faulting (visit_with f ho) (mk_chunk psp (items t) a w) c = (d, c')"
    have t: "t = T" using a(2) by (simp add: T_def)
    have sw: "is_window (ho_alloc ho) ?opts psp T (a, w)" using a(1-3) t by (simp add: is_window_def)
    from a(4) obtain ms cap where c: "c = Inr (scan_ctx s (Some p) ms cap)" and ms: "distinct (map ma_id ms)"
        "\<forall>x \<in> set ms. child_found ho em m mx p psp x \<and> ma_emits x = []"
      and k: "never_fails (ho_alloc ho) \<Longrightarrow> x \<in> set taken \<Longrightarrow> \<exists>sw. x = (fst sw, fst sw + snd sw - 1) \<and> kept ms sw"
        "never_fails (ho_alloc ho) \<Longrightarrow> sw \<in> set seen \<Longrightarrow> child_rejected ho em m p (window_text psp T sw) \<or> kept ms sw" for x sw
      unfolding Q_def by blast
    from child_visit_ok [OF r p sw ms, of f cap] obtain d' ms1 cap1 where
      v: "visit_with f ho (mk_chunk psp (items T) a w) (scan_ctx s (Some p) ms cap) = Inr (d', scan_ctx s (Some p) ms1 cap1)"
        "distinct (map ma_id ms1)" "\<forall>x \<in> set ms1. child_found ho em m mx p psp x \<and> ma_emits x = []"
        "\<forall>n sc. reported ms n sc \<longrightarrow> reported ms1 n sc"
        "never_fails (ho_alloc ho) \<longrightarrow> (if d' = 1 then child_kept ho em m ms1 (window_text psp T (a, w))
           else child_rejected ho em m p (window_text psp T (a, w)))" by blast
    with a(5) have "d = d'" "c' = Inr (scan_ctx s (Some p) ms1 cap1)" by (auto simp: faulting_def c t)
    with v(2-5) obtain ms' cap' where
      c': "c' = Inr (scan_ctx s (Some p) ms' cap')" "distinct (map ma_id ms')"
        "\<forall>x \<in> set ms'. child_found ho em m mx p psp x \<and> ma_emits x = []"
      and rep: "\<And>n sc. reported ms n sc \<Longrightarrow> reported ms' n sc"
      and d: "never_fails (ho_alloc ho) \<Longrightarrow> if d = 1 then child_kept ho em m ms' (window_text psp T (a, w))
         else child_rejected ho em m p (window_text psp T (a, w))"
      by blast
    have mono: "kept ms' sw" if "kept ms sw" for sw using that rep unfolding kept_def child_kept_def by blast
    have new: "kept ms' (a, w)" if "never_fails (ho_alloc ho)" "d = 1" using d that sw by (simp add: kept_def)
    have "\<exists>sw. x = (fst sw, fst sw + snd sw - 1) \<and> kept ms' sw"
      if "never_fails (ho_alloc ho)" "x \<in> set (if d = 1 then (a, a + w - 1) # taken else taken)" for x
    proof (cases "d = 1 \<and> x = (a, a + w - 1)")
      case True
      with new that(1) show ?thesis by (intro exI [of _ "(a, w)"]) simp
    next
      case False
      then have "x \<in> set taken" using that(2) by (auto split: if_splits)
      with k(1) [OF that(1)] mono show ?thesis by blast
    qed
    moreover have "child_rejected ho em m p (window_text psp T sw) \<or> kept ms' sw"
      if "never_fails (ho_alloc ho)" "sw \<in> set ((a, w) # seen)" for sw
      using that k(2) [of sw] mono [of sw] d new by (auto split: if_splits)
    ultimately show "Q (if d = 1 then (a, a + w - 1) # taken else taken) ((a, w) # seen) c'"
      unfolding Q_def using c' by blast
  qed
  then obtain taken seen ms cap where c: "c = Inr (scan_ctx s (Some p) ms cap)" "distinct (map ma_id ms)"
      "\<forall>x \<in> set ms. child_found ho em m mx p psp x \<and> ma_emits x = []"
    and k: "never_fails (ho_alloc ho) \<Longrightarrow> x \<in> set taken \<Longrightarrow> \<exists>sw. x = (fst sw, fst sw + snd sw - 1) \<and> kept ms sw"
      "never_fails (ho_alloc ho) \<Longrightarrow> sw \<in> set seen \<Longrightarrow> child_rejected ho em m p (window_text psp T sw) \<or> kept ms sw"
    and all: "0 \<le> rc \<Longrightarrow> (\<exists>t. kc_ngram_split_tokens (ho_alloc ho) psp (separators ?opts) = Some t \<and>
      (\<forall>(a, w) \<in> set (windows_of (length (items t)) ?opts). (a, w) \<in> set seen \<or> inside taken a (a + w - 1)))" for x sw
    unfolding Q_def by blast
  have "child_rejected ho em m p (window_text psp T sw) \<or>
      (\<exists>sw'. is_window (ho_alloc ho) ?opts psp T sw' \<and> window_in sw sw' \<and> child_kept ho em m ms (window_text psp T sw'))"
    if rc: "0 \<le> rc" and nf: "never_fails (ho_alloc ho)" and win: "is_window (ho_alloc ho) ?opts psp T sw" for sw
  proof -
    obtain a w where aw: "sw = (a, w)" by force
    from all [OF rc] win aw have "(a, w) \<in> set seen \<or> inside taken a (a + w - 1)" by (auto simp: is_window_def T_def)
    then show ?thesis
    proof
      assume "(a, w) \<in> set seen"
      with k(2) [OF nf, of "(a, w)"] show ?thesis unfolding aw kept_def by (auto simp: window_in_def)
    next
      assume "inside taken a (a + w - 1)"
      then obtain x y where xy: "(x, y) \<in> set taken" "x \<le> a" "a + w - 1 \<le> y" by (auto simp: inside_def)
      from k(1) [OF nf xy(1)] obtain w' where w': "y = x + w' - 1" "kept ms (x, w')" by auto
      have "1 \<le> w" "1 \<le> w'" using window_size [OF win] w'(2) window_size by (auto simp: aw kept_def dest: window_size)
      with xy w'(1) have "window_in (a, w) (x, w')" by (simp add: window_in_def)
      with w'(2) show ?thesis unfolding aw kept_def by blast
    qed
  qed
  then have "children_complete ho em m mx p psp ms" if "0 \<le> rc" "never_fails (ho_alloc ho)"
    using that unfolding children_complete_def is_window_def T_def by (metis option.sel)
  with c show ?thesis by blast
qed

lemma children_scan_completes:
  assumes r: "ready ho em m s" and p: "NUL \<notin> set p" and a: "never_fails (ho_alloc ho)" and o: "options_valid (scan_opts 1 mx)"
  shows "0 \<le> fst (kc_ngram_execute (ho_alloc ho) (Some psp) (Some (scan_opts 1 mx)) (Some (faulting (visit_with f ho)))
    (Inr (scan_ctx s (Some p) [] 0)))"
proof (rule execute_completes [where P = "\<lambda>c. \<exists>ms cap. c = Inr (scan_ctx s (Some p) ms cap) \<and> distinct (map ma_id ms) \<and>
    (\<forall>x \<in> set ms. child_found ho em m mx p psp x \<and> ma_emits x = [])", OF a o])
  fix t :: kc_ngram_token_list_t and b w and c :: "scan_fault + kc_ipa_scan_ctx_t"
  assume t: "kc_ngram_split_tokens (ho_alloc ho) psp (separators (scan_opts 1 mx)) = Some t"
    "(b, w) \<in> set (windows_of (length (items t)) (scan_opts 1 mx))"
    "\<exists>ms cap. c = Inr (scan_ctx s (Some p) ms cap) \<and> distinct (map ma_id ms) \<and>
      (\<forall>x \<in> set ms. child_found ho em m mx p psp x \<and> ma_emits x = [])"
  then have sw: "is_window (ho_alloc ho) (scan_opts 1 mx) psp t (b, w)" using o by (simp add: is_window_def)
  obtain ms cap where c: "c = Inr (scan_ctx s (Some p) ms cap)" "distinct (map ma_id ms)"
    "\<forall>x \<in> set ms. child_found ho em m mx p psp x \<and> ma_emits x = []" using t(3) by blast
  from child_visit_ok [OF r p sw c(2,3), of f cap] a
  show "0 \<le> fst (faulting (visit_with f ho) (mk_chunk psp (items t) b w) c) \<and>
      (\<exists>ms cap. snd (faulting (visit_with f ho) (mk_chunk psp (items t) b w) c) = Inr (scan_ctx s (Some p) ms cap) \<and>
        distinct (map ma_id ms) \<and> (\<forall>x \<in> set ms. child_found ho em m mx p psp x \<and> ma_emits x = []))"
    by (elim exE conjE) (simp add: faulting_def c(1))
qed simp

definition children_ok :: "host \<Rightarrow> embedder \<Rightarrow> kc_ipa_manifest_t \<Rightarrow> int \<Rightarrow> string \<Rightarrow> string \<Rightarrow> kc_ipa_match_t list \<Rightarrow> bool" where
  "children_ok ho em m mx p psp xs \<longleftrightarrow> distinct (map ma_id xs) \<and>
     (\<forall>x \<in> set xs. child_found ho em m mx p psp x \<and>
        (never_fails (ho_alloc ho) \<longrightarrow> ma_emits x = child_emits_of m p (ma_id x) (ma_span x))) \<and>
     (never_fails (ho_alloc ho) \<longrightarrow> children_complete ho em m mx p psp xs)"

lemma scan_children_ok:
  assumes r: "ready ho em m s" and p: "NUL \<notin> set p"
  shows "\<exists>out. kc_ipa_scan_children ho (scan_ctx s par ms cap) 1 mx p psp = Inr out \<and> children_ok ho em m mx p psp out"
proof -
  let ?f = "\<lambda>_ _ _ _ _. Inr []" and ?opts = "scan_opts 1 mx"
  obtain rc c where run: "kc_ngram_execute (ho_alloc ho) (Some psp) (Some ?opts) (Some (faulting (visit_with ?f ho)))
      (Inr (scan_ctx s (Some p) [] 0)) = (rc, c)" by force
  from children_scanned [OF r p run] obtain ms' cap' where c: "c = Inr (scan_ctx s (Some p) ms' cap')" "distinct (map ma_id ms')"
    "\<forall>x \<in> set ms'. child_found ho em m mx p psp x \<and> ma_emits x = []"
    "0 \<le> rc \<and> never_fails (ho_alloc ho) \<longrightarrow> children_complete ho em m mx p psp ms'" by blast
  have full: "children_complete ho em m mx p psp ms'" if "never_fails (ho_alloc ho)"
  proof (cases "options_valid ?opts")
    case True
    with children_scan_completes [OF r p that True, of psp ?f] run c(4) that show ?thesis by simp
  next
    case False
    then show ?thesis by (simp add: children_complete_def is_window_def)
  qed
  let ?R = "\<lambda>x y. ma_id y = ma_id x \<and> ma_score y = ma_score x \<and> child_found ho em m mx p psp y \<and>
      (never_fails (ho_alloc ho) \<longrightarrow> ma_emits y = child_emits_of m p (ma_id y) (ma_span y))"
  have "\<exists>y. child_emits (ho_alloc ho) (sc_base s) (sc_strtab s) (sc_index s) p x = Inr y \<and> ?R x y" if x: "x \<in> set ms'" for x
  proof -
    obtain i sp sc es cs where X: "x = Match i sp sc es cs" by (cases x)
    from c(3) x have f: "child_found ho em m mx p psp x" "ma_emits x = []" by blast+
    then have e: "es = []" "cs = []" by (simp_all add: X child_found_def)
    have sf: "schema_for ho em m s" using r by (simp add: ready_def)
    have i: "NUL \<notin> set i" using f(1) schema_rows(4) [OF sf] by (auto simp: X child_found_def)
    from child_emits_ok [OF schema_rows(2) [OF sf] i p, of "ho_alloc ho" sp sc] obtain es' where
      "child_emits (ho_alloc ho) (sc_base s) (sc_strtab s) (sc_index s) p x = Inr (Match i sp sc es' [])"
      "never_fails (ho_alloc ho) \<longrightarrow> es' = child_emits_of m p i sp" by (auto simp: X e)
    moreover have "child_found ho em m mx p psp (Match i sp sc es' [])"
      using f(1) unfolding X e by (simp add: child_found_def scored_def)
    ultimately show ?thesis by (intro exI [of _ "Match i sp sc es' []"]) (simp add: X)
  qed
  then obtain ys where ys: "fold_res (\<lambda>ch acc. sum_bind (child_emits (ho_alloc ho) (sc_base s) (sc_strtab s) (sc_index s) p ch)
      (\<lambda>ch'. Inr (acc @ [ch']))) ms' [] = Inr ys" "list_all2 ?R ms' ys"
    using fold_collect_all [of ms' "child_emits (ho_alloc ho) (sc_base s) (sc_strtab s) (sc_index s) p" ?R "[]"] by auto
  have R: "map ma_id ys = map ma_id ms' \<and> (\<forall>y \<in> set ys. \<exists>x. ?R x y) \<and> (\<forall>x \<in> set ms'. \<exists>y \<in> set ys. ?R x y)"
    using ys(2) by (induction rule: list_all2_induct) auto
  then have "reported ys n sc" if "reported ms' n sc" for n sc
    using reported_mono [of ms' ys n sc] that by blast
  then have "children_complete ho em m mx p psp ys" if "never_fails (ho_alloc ho)"
    using full [OF that] unfolding children_complete_def child_kept_def by meson
  with R c(2) have "children_ok ho em m mx p psp ys" unfolding children_ok_def by metis
  moreover have "kc_ipa_scan_children ho (scan_ctx s par ms cap) 1 mx p psp = Inr ys"
    using run c(1) ys(1) by (simp add: kc_ipa_scan_children_def scan_with_def scan_opts_def Let_def)
  ultimately show ?thesis by blast
qed

subsection \<open>The top-level scan\<close>

text \<open>A match at the top level: its span is a window of the input, its name and score come from the node
  descriptions, its emits are the manifest's, and its children are those of the node.\<close>

definition node_found ::
    "host \<Rightarrow> embedder \<Rightarrow> kc_ipa_manifest_t \<Rightarrow> string \<Rightarrow> kc_ngram_token_list_t \<Rightarrow> nat \<times> nat \<Rightarrow> kc_ipa_match_t \<Rightarrow> bool" where
  "node_found ho em m inp t sw x \<longleftrightarrow> ma_span x = window_text inp t sw \<and> scored ho em m (node_entries (m_nodes m)) x \<and>
     ma_emits x = node_emits m (ma_id x) (ma_span x) \<and>
     children_ok ho em m (int (snd sw)) (ma_id x) (ma_span x) (ma_children x)"

text \<open>A window that is not matched: the model or the search has no entry for its text, or the entry's score
  is below the threshold.\<close>

definition rejected :: "host \<Rightarrow> embedder \<Rightarrow> kc_ipa_manifest_t \<Rightarrow> string \<Rightarrow> bool" where
  "rejected ho em m sp \<longleftrightarrow> missed ho em (node_entries (m_nodes m)) sp \<or>
     (\<exists>n d. found ho em (node_entries (m_nodes m)) sp n d \<and>
        fl_lt (f32_val (fp_float (ho_fp ho) (Fin (similarity ho em sp d)))) (f32_val (m_node_threshold m)))"

lemma no_child_rows:
  assumes "(p, n, eo) \<in> set (child_rows nodes)" shows "\<exists>e. (p, e, True) \<in> set (node_rows nodes)"
proof -
  from assms obtain nd ch where nd: "nd \<in> set nodes" "ch \<in> set (nd_children nd)" "p = the (nd_id nd)"
    by (auto simp: child_rows_def)
  moreover from nd(2) have "nd_children nd \<noteq> []" by auto
  ultimately have "(p, hd (emit_rounds nd), True) \<in> set (node_rows nodes)"
    using emit_rounds_hd [of nd] unfolding node_rows_def by auto
  then show ?thesis by blast
qed

lemma node_visit_ok:
  assumes r: "ready ho em m s" and sw: "is_window (ho_alloc ho) opts inp t (a, w)"
  shows "\<exists>d ms' cap'. kc_ipa_ngram_visit ho (mk_chunk inp (items t) a w) (scan_ctx s None ms cap) = Inr (d, scan_ctx s None ms' cap') \<and>
    (never_fails (ho_alloc ho) \<longrightarrow> 0 \<le> d) \<and>
    (if d = 1 then \<exists>x. ms' = ms @ [x] \<and> node_found ho em m inp t (a, w) x
     else ms' = ms \<and> (never_fails (ho_alloc ho) \<longrightarrow> rejected ho em m (window_text inp t (a, w))))"
proof -
  let ?ch = "mk_chunk inp (items t) a w" and ?c = "scan_ctx s None ms cap"
  let ?sp = "chunk_span ?ch"
  let ?goal = "\<lambda>r. \<exists>(d :: int) ms' cap'. r = Inr (d, scan_ctx s None ms' cap') \<and>
    (never_fails (ho_alloc ho) \<longrightarrow> 0 \<le> d) \<and>
    (if d = 1 then \<exists>x. ms' = ms @ [x] \<and> node_found ho em m inp t (a, w) x
     else ms' = ms \<and> (never_fails (ho_alloc ho) \<longrightarrow> rejected ho em m (window_text inp t (a, w))))"
  have stay: "?goal (Inr (0, ?c))" if "never_fails (ho_alloc ho) \<Longrightarrow> rejected ho em m ?sp"
    using that by (simp add: window_text_def)
  have sf: "schema_for ho em m s" using r by (simp add: ready_def)
  have thr: "sc_node_threshold s = m_node_threshold m" using sf by (simp add: schema_for_def)
  obtain n where n: "nearest ho ?c ?sp = Inr n" "n = None \<Longrightarrow> missed ho em (node_entries (m_nodes m)) ?sp"
      "\<And>hr. n = Some hr \<Longrightarrow> \<exists>d. found ho em (node_entries (m_nodes m)) ?sp (res_id hr) d \<and> res_score hr = similarity ho em ?sp d"
    using nearest_ok [OF r, of None ms cap ?sp] by (auto split: option.splits)
  have hit: "?goal (node_hit (kc_ipa_scan_children ho) ho ?ch ?c (res_id hr) ?sp sc)"
    if hr: "n = Some hr" and sc: "sc = fp_float (ho_fp ho) (Fin (res_score hr))"
      "\<not> fl_lt (f32_val sc) (f32_val (sc_node_threshold s))" for hr sc
  proof -
    from n(3) [OF hr] obtain d where d: "found ho em (node_entries (m_nodes m)) ?sp (res_id hr) d" "res_score hr = similarity ho em ?sp d"
      by blast
    have i: "NUL \<notin> set (res_id hr)"
      using entry_clean [OF sf, of "res_id hr" d None] d(1) by (simp add: found_def)
    obtain er where er: "kc_ipa_build_match_emits (ho_alloc ho) (sc_base s) (sc_strtab s) (sc_index s) (res_id hr) ?sp = Inr er"
        "never_fails (ho_alloc ho) \<longrightarrow> er \<noteq> None" "\<And>out. er = Some out \<Longrightarrow> out = node_emits m (res_id hr) ?sp"
      using build_match_emits_ok [OF schema_rows(1) [OF sf] i, of "ho_alloc ho" ?sp] by blast
    have hc: "kc_ipa_node_has_children (sc_base s) (sc_strtab s) (sc_index s) (res_id hr) =
        Inr (\<exists>eo. (res_id hr, eo, True) \<in> set (node_rows (m_nodes m)))"
      unfolding kc_ipa_node_has_children_def by (rule has_children_ok [OF schema_rows(1) [OF sf] i])
    obtain cs where cs: "(if (\<exists>eo. (res_id hr, eo, True) \<in> set (node_rows (m_nodes m))) \<and> ix_child_hnsw (sc_index s) \<noteq> None
          then kc_ipa_scan_children ho ?c 1 (int w) (res_id hr) ?sp else Inr []) = Inr cs"
        "children_ok ho em m (int w) (res_id hr) ?sp cs"
    proof (cases "(\<exists>eo. (res_id hr, eo, True) \<in> set (node_rows (m_nodes m))) \<and> ix_child_hnsw (sc_index s) \<noteq> None")
      case True
      with scan_children_ok [OF r i, of None ms cap "int w" ?sp] show ?thesis by (metis that)
    next
      case False
      have "child_rejected ho em m (res_id hr) sp" for sp
      proof (cases "ix_child_hnsw (sc_index s) = None")
        case True
        with sf have "child_entries (m_nodes m) = []" by (auto simp: schema_for_def split: if_splits)
        then show ?thesis by (simp add: child_rejected_def missed_def)
      next
        case have_index: False
        with False no_child_rows [of "res_id hr" _ _ "m_nodes m"] show ?thesis by (auto simp: child_rejected_def)
      qed
      with False show ?thesis by (intro that [of "[]"]) (auto simp: children_ok_def children_complete_def)
    qed
    show ?thesis
    proof (cases "strdup (ho_alloc ho) (res_id hr) = Some (res_id hr) \<and> er \<noteq> None")
      case False
      then have "\<not> never_fails (ho_alloc ho)" using er(2) by (auto simp: strdup_def)
      moreover have "node_hit (kc_ipa_scan_children ho) ho ?ch ?c (res_id hr) ?sp sc = Inr (0, ?c)"
        using False er(1) by (auto simp: node_hit_def strdup_def Let_def)
      ultimately show ?thesis using stay by auto
    next
      case True
      then obtain out where "er = Some out" by auto
      with er(1,3) have er': "kc_ipa_build_match_emits (ho_alloc ho) (sc_base s) (sc_strtab s) (sc_index s) (res_id hr) ?sp =
          Inr (Some (node_emits m (res_id hr) ?sp))" by simp
      let ?x = "Match (res_id hr) ?sp sc (node_emits m (res_id hr) ?sp) cs"
      have e: "node_hit (kc_ipa_scan_children ho) ho ?ch ?c (res_id hr) ?sp sc =
          (case kc_ipa_match_push (ho_alloc ho) ?c ?x of None \<Rightarrow> Inr (-1, ?c) | Some ctx' \<Rightarrow> Inr (1, ctx'))"
        unfolding node_hit_def Let_def scan_ctx_simps mk_chunk_simps True [THEN conjunct1] option.case er' sum_bind.simps hc cs(1) ..
      have x: "node_found ho em m inp t (a, w) ?x"
        using d sc(1) sc(2) [unfolded thr] cs(2) by (auto simp: node_found_def scored_def window_text_def)
      show ?thesis
        by (rule match_push_ok [of "ho_alloc ho" s None ms cap ?x]) (use e x in auto)
    qed
  qed
  show ?thesis
  proof (cases "ho_alloc ho (byte_end ?ch - byte_start ?ch + 1)")
    case False
    then have "kc_ipa_ngram_visit ho ?ch ?c = Inr (0, ?c)"
      by (simp add: kc_ipa_ngram_visit_def visit_with_def)
    with False stay show ?thesis by auto
  next
    case True
    then have v: "kc_ipa_ngram_visit ho ?ch ?c = (case n of None \<Rightarrow> Inr (0, ?c) | Some hr \<Rightarrow>
        let score = fp_float (ho_fp ho) (Fin (res_score hr))
        in if fl_lt (f32_val score) (f32_val (sc_node_threshold s)) then Inr (0, ?c)
           else node_hit (kc_ipa_scan_children ho) ho ?ch ?c (res_id hr) ?sp score)"
      using window_bytes [OF sw] n(1) by (simp add: kc_ipa_ngram_visit_def visit_with_def Let_def split: option.split)
    show ?thesis
    proof (cases n)
      case None
      with n(2) v stay show ?thesis by (simp add: rejected_def)
    next
      case (Some hr)
      show ?thesis
      proof (cases "fl_lt (f32_val (fp_float (ho_fp ho) (Fin (res_score hr)))) (f32_val (sc_node_threshold s))")
        case True
        with n(3) [OF Some] thr have "rejected ho em m ?sp" unfolding rejected_def by metis
        with True Some v stay show ?thesis by simp
      next
        case False
        with Some v hit [OF Some refl False] show ?thesis by (simp add: Let_def)
      qed
    qed
  qed
qed

text \<open>The matches of a scan with the windows they cover.\<close>

definition matches_ok ::
    "host \<Rightarrow> embedder \<Rightarrow> kc_ipa_manifest_t \<Rightarrow> kc_ngram_options_t \<Rightarrow> string \<Rightarrow> kc_ngram_token_list_t \<Rightarrow> (nat \<times> nat) list \<Rightarrow>
       kc_ipa_match_t list \<Rightarrow> bool" where
  "matches_ok ho em m opts inp t ws ms \<longleftrightarrow> list_all2 (node_found ho em m inp t) ws ms \<and>
     (\<forall>sw \<in> set ws. is_window (ho_alloc ho) opts inp t sw) \<and> sorted_wrt (\<lambda>x y. \<not> window_in y x) ws"

lemma scan_ok:
  assumes r: "ready ho em m s"
    and run: "kc_ngram_execute (ho_alloc ho) (Some inp) (Some opts) (Some (faulting (kc_ipa_ngram_visit ho)))
      (Inr (scan_ctx s None [] 0)) = (rc, c)"
  shows "\<exists>ms cap t ws. c = Inr (scan_ctx s None ms cap) \<and> matches_ok ho em m opts inp t ws ms \<and>
    (0 \<le> rc \<and> never_fails (ho_alloc ho) \<longrightarrow> kc_ngram_split_tokens (ho_alloc ho) inp (separators opts) = Some t \<and>
       (\<forall>sw. is_window (ho_alloc ho) opts inp t sw \<longrightarrow>
          rejected ho em m (window_text inp t sw) \<or> (\<exists>x \<in> set ws. window_in sw x)))"
proof -
  define T where "T = the (kc_ngram_split_tokens (ho_alloc ho) inp (separators opts))"
  let ?f = "\<lambda>(a, w). (a, a + w - 1)"
  define Q where "Q = (\<lambda>taken seen (c :: scan_fault + kc_ipa_scan_ctx_t). \<exists>ms cap ws. c = Inr (scan_ctx s None ms cap) \<and> matches_ok ho em m opts inp T ws ms \<and>
      set taken = set (map ?f ws) \<and>
      (never_fails (ho_alloc ho) \<longrightarrow> (\<forall>sw \<in> set seen. rejected ho em m (window_text inp T sw) \<or> sw \<in> set ws)))"
  have ins: "inside taken a (a + w - 1) \<longleftrightarrow> (\<exists>sw \<in> set ws. window_in (a, w) sw)"
    if "set taken = set (map ?f ws)" "matches_ok ho em m opts inp T ws ms" "is_window (ho_alloc ho) opts inp T (a, w)" for taken ws ms a w
  proof -
    have "inside taken a (a + w - 1) \<longleftrightarrow> inside (map ?f ws) a (a + w - 1)" using that(1) by (simp add: inside_def)
    also have "\<dots> \<longleftrightarrow> (\<exists>sw \<in> set ws. window_in (a, w) sw)"
      using that(2,3) window_size by (intro inside_window) (auto simp: matches_ok_def dest: window_size)
    finally show ?thesis .
  qed
  have "\<exists>taken seen. Q taken seen c \<and> (0 \<le> rc \<longrightarrow> (\<exists>t. kc_ngram_split_tokens (ho_alloc ho) inp (separators opts) = Some t \<and>
    (\<forall>(a, w) \<in> set (windows_of (length (items t)) opts). (a, w) \<in> set seen \<or> inside taken a (a + w - 1))))"
  proof (rule execute_invariant [where Q = Q, OF _ _ run])
    show "Q [] [] (Inr (scan_ctx s None [] 0))" by (simp add: Q_def matches_ok_def)
  next
    fix t :: kc_ngram_token_list_t and taken seen a w c d c'
    assume a: "options_valid opts" "kc_ngram_split_tokens (ho_alloc ho) inp (separators opts) = Some t"
      "(a, w) \<in> set (windows_of (length (items t)) opts)" "\<not> inside taken a (a + w - 1)" "Q taken seen c"
      "faulting (kc_ipa_ngram_visit ho) (mk_chunk inp (items t) a w) c = (d, c')"
    have t: "t = T" using a(2) by (simp add: T_def)
    have sw: "is_window (ho_alloc ho) opts inp T (a, w)" using a(1-3) t by (simp add: is_window_def)
    from a(5) obtain ms cap ws where c: "c = Inr (scan_ctx s None ms cap)" and ok: "matches_ok ho em m opts inp T ws ms"
      and tk: "set taken = set (map ?f ws)"
      and sn: "never_fails (ho_alloc ho) \<longrightarrow> (\<forall>sw \<in> set seen. rejected ho em m (window_text inp T sw) \<or> sw \<in> set ws)"
      unfolding Q_def by blast
    obtain d' ms1 cap1 where v: "kc_ipa_ngram_visit ho (mk_chunk inp (items T) a w) (scan_ctx s None ms cap) = Inr (d', scan_ctx s None ms1 cap1)"
      "if d' = 1 then \<exists>x. ms1 = ms @ [x] \<and> node_found ho em m inp T (a, w) x
        else ms1 = ms \<and> (never_fails (ho_alloc ho) \<longrightarrow> rejected ho em m (window_text inp T (a, w)))"
      using node_visit_ok [OF r sw, of ms cap] by blast
    with a(6) obtain ms' cap' where c': "c' = Inr (scan_ctx s None ms' cap')"
      and d: "if d = 1 then \<exists>x. ms' = ms @ [x] \<and> node_found ho em m inp T (a, w) x
        else ms' = ms \<and> (never_fails (ho_alloc ho) \<longrightarrow> rejected ho em m (window_text inp T (a, w)))"
      by (auto simp: faulting_def c t)
    show "Q (if d = 1 then (a, a + w - 1) # taken else taken) ((a, w) # seen) c'"
    proof (cases "d = 1")
      case True
      with d obtain x where x: "ms' = ms @ [x]" "node_found ho em m inp T (a, w) x" by auto
      have "\<forall>y \<in> set ws. \<not> window_in (a, w) y" using ins [OF tk ok sw] a(4) by blast
      then have "matches_ok ho em m opts inp T (ws @ [(a, w)]) ms'"
        using ok x sw by (auto simp: matches_ok_def list_all2_appendI sorted_wrt_append)
      then show ?thesis unfolding Q_def
        using True c' tk sn by (intro exI [of _ ms'] exI [of _ cap'] exI [of _ "ws @ [(a, w)]"]) auto
    next
      case False
      with d c' ok tk sn show ?thesis unfolding Q_def by (intro exI [of _ ms'] exI [of _ cap'] exI [of _ ws]) auto
    qed
  qed
  then obtain taken seen where q: "Q taken seen c" and all: "0 \<le> rc \<longrightarrow> (\<exists>t. kc_ngram_split_tokens (ho_alloc ho) inp (separators opts) = Some t \<and>
    (\<forall>(a, w) \<in> set (windows_of (length (items t)) opts). (a, w) \<in> set seen \<or> inside taken a (a + w - 1)))" by blast
  from q obtain ms cap ws where c: "c = Inr (scan_ctx s None ms cap)" and ok: "matches_ok ho em m opts inp T ws ms"
      and tk: "set taken = set (map ?f ws)"
      and sn: "never_fails (ho_alloc ho) \<longrightarrow> (\<forall>sw \<in> set seen. rejected ho em m (window_text inp T sw) \<or> sw \<in> set ws)"
    unfolding Q_def by blast
  have "rejected ho em m (window_text inp T sw) \<or> (\<exists>x \<in> set ws. window_in sw x)"
    if "0 \<le> rc" "never_fails (ho_alloc ho)" "is_window (ho_alloc ho) opts inp T sw" for sw
  proof -
    obtain a w where aw: "sw = (a, w)" by force
    from all that(1) obtain t where t: "kc_ngram_split_tokens (ho_alloc ho) inp (separators opts) = Some t"
      "\<forall>(a, w) \<in> set (windows_of (length (items t)) opts). (a, w) \<in> set seen \<or> inside taken a (a + w - 1)" by blast
    then have "t = T" by (simp add: T_def)
    with t(2) that(3) aw have "(a, w) \<in> set seen \<or> inside taken a (a + w - 1)" by (auto simp: is_window_def)
    moreover have "window_in (a, w) (a, w)" by (simp add: window_in_def)
    ultimately show ?thesis using sn that(2) ins [OF tk ok that(3) [unfolded aw]] unfolding aw by blast
  qed
  moreover have "kc_ngram_split_tokens (ho_alloc ho) inp (separators opts) = Some T" if "0 \<le> rc" using all that by (auto simp: T_def)
  ultimately show ?thesis using c ok by blast
qed

subsection \<open>Parsing\<close>

lemma scan_completes:
  assumes r: "ready ho em m s" and a: "never_fails (ho_alloc ho)" and o: "options_valid opts"
  shows "0 \<le> fst (kc_ngram_execute (ho_alloc ho) (Some inp) (Some opts) (Some (faulting (kc_ipa_ngram_visit ho)))
    (Inr (scan_ctx s None [] 0)))"
proof (rule execute_completes [where P = "\<lambda>c. \<exists>ms cap. c = Inr (scan_ctx s None ms cap)", OF a o])
  fix t :: kc_ngram_token_list_t and b w and c :: "scan_fault + kc_ipa_scan_ctx_t"
  assume t: "kc_ngram_split_tokens (ho_alloc ho) inp (separators opts) = Some t"
    "(b, w) \<in> set (windows_of (length (items t)) opts)" "\<exists>ms cap. c = Inr (scan_ctx s None ms cap)"
  then have sw: "is_window (ho_alloc ho) opts inp t (b, w)" using o by (simp add: is_window_def)
  obtain ms cap where c: "c = Inr (scan_ctx s None ms cap)" using t(3) by blast
  obtain d ms' cap' where "kc_ipa_ngram_visit ho (mk_chunk inp (items t) b w) (scan_ctx s None ms cap) = Inr (d, scan_ctx s None ms' cap')" "0 \<le> d"
    using node_visit_ok [OF r sw, of ms cap] a by blast
  with c
  show "0 \<le> fst (faulting (kc_ipa_ngram_visit ho) (mk_chunk inp (items t) b w) c) \<and>
      (\<exists>ms cap. snd (faulting (kc_ipa_ngram_visit ho) (mk_chunk inp (items t) b w) c) = Inr (scan_ctx s None ms cap))"
    by (auto simp: faulting_def)
qed blast

definition node_opts :: "kc_ipa_manifest_t \<Rightarrow> kc_ngram_options_t" where
  "node_opts m = scan_opts (m_min_ngram m) (m_max_ngram m)"

lemma parse_ready:
  assumes "ready ho em m s" "ho_alloc ho (nat (em_dim em) * 4)"
  shows "\<exists>ms t ws. kc_ipa_parse ho (Some s) (Some inp) True = Inr (KC_IPA_OK, Some \<lparr>rs_ok = (ms \<noteq> []), rs_matches = ms\<rparr>) \<and>
    matches_ok ho em m (node_opts m) inp t ws ms \<and>
    (never_fails (ho_alloc ho) \<and> options_valid (node_opts m) \<longrightarrow>
       kc_ngram_split_tokens (ho_alloc ho) inp (separators (node_opts m)) = Some t \<and>
       (\<forall>sw. is_window (ho_alloc ho) (node_opts m) inp t sw \<longrightarrow>
          rejected ho em m (window_text inp t sw) \<or> (\<exists>x \<in> set ws. window_in sw x)))"
proof -
  let ?o = "node_opts m"
  have sf: "schema_for ho em m s" using assms(1) by (simp add: ready_def)
  obtain rc c where run: "kc_ngram_execute (ho_alloc ho) (Some inp) (Some ?o) (Some (faulting (kc_ipa_ngram_visit ho)))
      (Inr (scan_ctx s None [] 0)) = (rc, c)" by force
  from scan_ok [OF assms(1) run] obtain ms cap t ws where c: "c = Inr (scan_ctx s None ms cap)" "matches_ok ho em m ?o inp t ws ms"
    "0 \<le> rc \<and> never_fails (ho_alloc ho) \<longrightarrow> kc_ngram_split_tokens (ho_alloc ho) inp (separators ?o) = Some t \<and>
       (\<forall>sw. is_window (ho_alloc ho) ?o inp t sw \<longrightarrow> rejected ho em m (window_text inp t sw) \<or> (\<exists>x \<in> set ws. window_in sw x))" by blast
  have p: "kc_ipa_parse ho (Some s) (Some inp) True = Inr (KC_IPA_OK, Some \<lparr>rs_ok = (ms \<noteq> []), rs_matches = ms\<rparr>)"
    using run c(1) assms(2) sf by (simp add: kc_ipa_parse_def schema_for_def node_opts_def scan_opts_def scan_ctx_def Let_def)
  have "0 \<le> rc" if "never_fails (ho_alloc ho)" "options_valid ?o"
    using scan_completes [OF assms(1) that, of inp] run by simp
  with p c(2,3) show ?thesis by blast
qed

end
