(* ===== verification/Islands.thy ===== *)
theory Islands
  imports Parse
begin

section \<open>The contract of the parser\<close>

text \<open>What \<open>kc_ipa_parse\<close> promises, on a handle that stands for a manifest. The lemmas are those of
  \<^theory_text>\<open>Parse\<close>; here is what they say to a caller, with a small schema on which they are used.\<close>

subsection \<open>A schema to parse with\<close>

definition parse_host :: "string \<Rightarrow> host" where
  "parse_host data = (sample_host data)\<lparr>ho_fp := sample_fp\<lparr>fp_float := (\<lambda>_. 0x3F800000)\<rparr>\<rparr>"

lemma parse_host_simps [simp]:
  "ho_alloc (parse_host data) = granting" "ho_rnd (parse_host data) = (\<lambda>x. x)" "ho_rwlock (parse_host data)"
  "ho_sys (parse_host data) = ho_sys (sample_host data)" "ho_emb (parse_host data) = Some sample_embedder"
  "fp_float (ho_fp (parse_host data)) x = 0x3F800000" "locks_ok (parse_host data)"
  by (simp_all add: parse_host_def sample_host_def locks_ok_def)

lemma parse_sample:
  "\<exists>data s. kc_ipa_build granting sample_fp (Some sample_embedder) sample_input (Some (2 ^ 32)) = Inr (KC_IPA_OK, Some data) \<and>
     ready (parse_host data) sample_embedder sample_manifest s"
proof -
  obtain data where d: "kc_ipa_build granting sample_fp (Some sample_embedder) sample_input (Some (2 ^ 32)) = Inr (KC_IPA_OK, Some data)"
    "length data < 2 ^ 32" using sample_build by blast
  have f: "file_at (ho_sys (parse_host data)) ''a.ipa'' data" using sample_hyps(3) [of data] by simp
  from compiled_opens [OF d sample_hyps(1,2) f, of 1 2 "\<lparr>os_fds = {}, os_maps = Map.empty\<rparr>"] sample_hyps(1,7) sample_read sample_parsed
  obtain s where "schema_for (parse_host data) sample_embedder sample_manifest s" by auto
  with d(1) sample_hyps(1) show ?thesis by (auto simp: ready_def)
qed

lemma sample_opts: "options_valid (node_opts sample_manifest)"
  by (simp add: options_valid_def node_opts_def scan_opts_def kc_ngram_options_default_def sample_manifest_def default_manifest_def)

lemma sample_tokens:
  "kc_ngram_split_tokens granting ''on'' (separators (node_opts sample_manifest)) = Some \<lparr>items = [\<lparr>tok_start = 0, tok_end = 2\<rparr>], items_cap = 16\<rparr>"
proof -
  have "separators (node_opts sample_manifest) = separators kc_ngram_options_default" by (simp add: node_opts_def scan_opts_def)
  moreover have "kc_ngram_split_tokens granting ''on'' (separators kc_ngram_options_default) = Some \<lparr>items = [\<lparr>tok_start = 0, tok_end = 2\<rparr>], items_cap = 16\<rparr>"
    by code_simp
  ultimately show ?thesis by simp
qed

text \<open>The text \<open>on\<close> is found: its vector and that of the only description have non-negative entries.\<close>

lemma sample_similarity: "d = ''turn on'' \<or> d = ''light'' \<Longrightarrow> 0 \<le> similarity (parse_host data) sample_embedder ''on'' d"
proof -
  assume d: "d = ''turn on'' \<or> d = ''light''"
  have f: "f32_real 0x3F800000 = 1" "0 \<le> f32_real 2" "0 \<le> f32_real 7" "0 \<le> f32_real 5"
    by (simp_all add: f32_real_def f32_val_def Let_def take_bit_eq_mod drop_bit_eq_div bit_iff_odd_drop_bit)
  have "kc_hnsw_inner_product (\<lambda>x. x) [1, a] [1, b] 2 = 1 + a * b" for a b :: real
    by (simp add: kc_hnsw_inner_product_def numeral_2_eq_2)
  moreover have "0 \<le> kc_hnsw_vector_norm (\<lambda>x. x) [1, a] 2" for a :: real
    by (simp add: kc_hnsw_vector_norm_def numeral_2_eq_2)
  ultimately show ?thesis
    using f d by (auto simp: similarity_def cosine_def embedding_def sample_embedder_def Let_def)
qed

lemma sample_above: "\<not> fl_lt (f32_val 0x3F800000) (f32_val (m_node_threshold sample_manifest))"
  by (simp add: sample_manifest_def default_manifest_def fl_lt_def f32_val_def Let_def take_bit_eq_mod drop_bit_eq_div bit_iff_odd_drop_bit)

lemma sample_rows:
  "node_entries (m_nodes sample_manifest) = [(''n'', ''turn on'')]" "child_entries (m_nodes sample_manifest) = [(''c'', ''light'')]"
  "child_rows (m_nodes sample_manifest) = [(''n'', ''c'', None)]"
  by (simp_all add: node_entries_def child_entries_def child_rows_def emit_rounds_def sample_manifest_def)

lemma sample_window:
  assumes "is_window granting (scan_opts 1 mx) ''on'' t sw"
  shows "t = \<lparr>items = [\<lparr>tok_start = 0, tok_end = 2\<rparr>], items_cap = 16\<rparr> \<and> sw = (0, 1) \<and> window_text ''on'' t sw = ''on''"
proof -
  obtain a w where aw: "sw = (a, w)" by force
  have t: "t = \<lparr>items = [\<lparr>tok_start = 0, tok_end = 2\<rparr>], items_cap = 16\<rparr>"
    using assms sample_tokens by (simp add: is_window_def node_opts_def scan_opts_def)
  moreover have "a = 0 \<and> w = 1" using assms unfolding aw t
    by (auto simp: is_window_def windows_of_def set_windows loop_max_of_def scan_opts_def split: if_splits)
  ultimately show ?thesis by (simp add: aw window_text_def chunk_span_def mk_chunk_def)
qed

lemma sample_is_window:
  "is_window granting (scan_opts 1 1) ''on'' \<lparr>items = [\<lparr>tok_start = 0, tok_end = 2\<rparr>], items_cap = 16\<rparr> (0, 1)"
  "is_window granting (node_opts sample_manifest) ''on'' \<lparr>items = [\<lparr>tok_start = 0, tok_end = 2\<rparr>], items_cap = 16\<rparr> (0, 1)"
  using sample_opts sample_tokens
  by (auto simp: is_window_def windows_of_def set_windows loop_max_of_def node_opts_def scan_opts_def options_valid_def
      sample_manifest_def default_manifest_def kc_ngram_options_default_def)

lemma sample_node_opts: "node_opts sample_manifest = scan_opts 1 5"
  by (simp add: node_opts_def sample_manifest_def default_manifest_def)

lemma sample_matches:
  assumes "ready (parse_host data) sample_embedder sample_manifest s"
  shows "\<exists>res x. kc_ipa_parse (parse_host data) (Some s) (Some ''on'') True = Inr (KC_IPA_OK, Some res) \<and>
    x \<in> set (rs_matches res) \<and> ma_id x = ''n'' \<and> ma_span x = ''on''"
proof -
  let ?t = "\<lparr>items = [\<lparr>tok_start = 0, tok_end = 2\<rparr>], items_cap = 16\<rparr>"
  from parse_ready [OF assms, of "''on''"] sample_opts obtain ms t ws where
    p: "kc_ipa_parse (parse_host data) (Some s) (Some ''on'') True = Inr (KC_IPA_OK, Some \<lparr>rs_ok = (ms \<noteq> []), rs_matches = ms\<rparr>)"
      "matches_ok (parse_host data) sample_embedder sample_manifest (node_opts sample_manifest) ''on'' t ws ms"
      "kc_ngram_split_tokens granting ''on'' (separators (node_opts sample_manifest)) = Some t"
    and all: "is_window granting (node_opts sample_manifest) ''on'' t (0, 1) \<Longrightarrow>
       rejected (parse_host data) sample_embedder sample_manifest (window_text ''on'' t (0, 1)) \<or> (\<exists>x \<in> set ws. window_in (0, 1) x)"
    by auto
  have t: "t = ?t" using p(3) sample_tokens by simp
  have w: "window_text ''on'' ?t (0, 1) = ''on''" using sample_window [OF sample_is_window(1)] by simp
  have "em_exec sample_embedder ''on'' \<noteq> None" by (simp add: sample_embedder_def)
  then have "\<not> rejected (parse_host data) sample_embedder sample_manifest ''on''"
    using sample_similarity [of "''turn on''" data] sample_above
    by (auto simp: rejected_def missed_def found_def exact_def sample_rows)
  with all sample_is_window(2) w have "ws \<noteq> []" unfolding t by auto
  then obtain x xs w ws' where x: "ms = x # xs" "ws = w # ws'" using p(2) by (auto simp: matches_ok_def neq_Nil_conv list_all2_Cons1)
  with p(2) have nf: "node_found (parse_host data) sample_embedder sample_manifest ''on'' t w x"
    and "is_window granting (node_opts sample_manifest) ''on'' t w" by (auto simp: matches_ok_def)
  then have "window_text ''on'' t w = ''on''"
    using sample_window [of 5 t w] unfolding sample_node_opts by blast
  with nf have "ma_id x = ''n''" "ma_span x = ''on''" by (auto simp: node_found_def scored_def found_def sample_rows)
  with p(1) x show ?thesis by auto
qed

section \<open>Properties\<close>

text \<open>An entry that is at least as similar to a text as every other.\<close>

definition most_similar :: "host \<Rightarrow> embedder \<Rightarrow> (string \<times> string) list \<Rightarrow> string \<Rightarrow> string \<times> string \<Rightarrow> bool" where
  "most_similar ho em es sp e \<longleftrightarrow> e \<in> set es \<and> (\<forall>e' \<in> set es. similarity ho em sp (snd e') \<le> similarity ho em sp (snd e))"

text \<open>A text in which the node \<open>p\<close> has no child: it cannot be embedded, every child's description is at a negative
  similarity, or the most similar one scores below the threshold or is that of a child of other nodes only.\<close>

definition childless :: "host \<Rightarrow> embedder \<Rightarrow> kc_ipa_manifest_t \<Rightarrow> string \<Rightarrow> string \<Rightarrow> bool" where
  "childless ho em m p sp \<longleftrightarrow> em_exec em sp = None \<or>
     (\<forall>(n, d) \<in> set (child_entries (m_nodes m)). similarity ho em sp d < 0) \<or>
     (\<exists>n d. most_similar ho em (child_entries (m_nodes m)) sp (n, d) \<and>
        (fl_lt (f32_val (child_score ho em sp d)) (f32_val (m_node_threshold m)) \<or> (\<forall>eo. (p, n, eo) \<notin> set (child_rows (m_nodes m)))))"

text \<open>A text whose most similar description is that of a child in \<open>xs\<close>, with a score there that is no lower.\<close>

definition accounted :: "host \<Rightarrow> embedder \<Rightarrow> kc_ipa_manifest_t \<Rightarrow> kc_ipa_match_t list \<Rightarrow> string \<Rightarrow> bool" where
  "accounted ho em m xs sp \<longleftrightarrow> (\<exists>d. \<exists>c \<in> set xs. most_similar ho em (child_entries (m_nodes m)) sp (ma_id c, d) \<and>
     \<not> fl_lt (f32_val (ma_score c)) (f32_val (child_score ho em sp d)))"

lemma exact_children:
  assumes "exact ho (child_entries (m_nodes m))"
  shows "child_rejected ho em m p sp \<Longrightarrow> (p, n, eo) \<in> set (child_rows (m_nodes m)) \<Longrightarrow> childless ho em m p sp"
    and "child_kept ho em m xs sp \<Longrightarrow> accounted ho em m xs sp"
proof -
  have best: "most_similar ho em (child_entries (m_nodes m)) sp (n, d)" if "found ho em (child_entries (m_nodes m)) sp n d" for n d
    using that assms unfolding most_similar_def found_def by fastforce
  show "childless ho em m p sp" if "child_rejected ho em m p sp" "(p, n, eo) \<in> set (child_rows (m_nodes m))"
    using that best assms unfolding child_rejected_def missed_def childless_def by blast
  show "accounted ho em m xs sp" if "child_kept ho em m xs sp"
    using that best unfolding child_kept_def reported_def accounted_def by blast
qed

text \<open>A child \<open>c\<close> that a match \<open>x\<close> on a window of \<open>k\<close> tokens may have, and what its children are together.\<close>

definition child_of :: "host \<Rightarrow> embedder \<Rightarrow> kc_ipa_manifest_t \<Rightarrow> nat \<Rightarrow> kc_ipa_match_t \<Rightarrow> kc_ipa_match_t \<Rightarrow> bool" where
  "child_of ho em m k x c \<longleftrightarrow> ma_children c = [] \<and>
     (\<exists>eo. (ma_id x, ma_id c, eo) \<in> set (child_rows (m_nodes m))) \<and>
     (\<exists>t' sw'. is_window (ho_alloc ho) (scan_opts 1 (int k)) (ma_span x) t' sw' \<and> ma_span c = window_text (ma_span x) t' sw') \<and>
     (\<exists>d. (ma_id c, d) \<in> set (child_entries (m_nodes m)) \<and> ma_score c = child_score ho em (ma_span c) d) \<and>
     \<not> fl_lt (f32_val (ma_score c)) (f32_val (m_node_threshold m)) \<and>
     (never_fails (ho_alloc ho) \<longrightarrow> ma_emits c = child_emits_of m (ma_id x) (ma_id c) (ma_span c))"

definition refined :: "host \<Rightarrow> embedder \<Rightarrow> kc_ipa_manifest_t \<Rightarrow> nat \<Rightarrow> kc_ipa_match_t \<Rightarrow> bool" where
  "refined ho em m k x \<longleftrightarrow> distinct (map ma_id (ma_children x)) \<and> (\<forall>c \<in> set (ma_children x). child_of ho em m k x c) \<and>
     (never_fails (ho_alloc ho) \<and> length (child_entries (m_nodes m)) \<le> 1024 \<and> (\<exists>n eo. (ma_id x, n, eo) \<in> set (child_rows (m_nodes m))) \<longrightarrow>
       (\<forall>t' sw'. is_window (ho_alloc ho) (scan_opts 1 (int k)) (ma_span x) t' sw' \<longrightarrow>
          childless ho em m (ma_id x) (window_text (ma_span x) t' sw') \<or>
          (\<exists>w. is_window (ho_alloc ho) (scan_opts 1 (int k)) (ma_span x) t' w \<and> window_in sw' w \<and>
             accounted ho em m (ma_children x) (window_text (ma_span x) t' w))))"

lemma found_child:
  assumes "child_found ho em m (int k) (ma_id x) (ma_span x) c"
    and "never_fails (ho_alloc ho) \<longrightarrow> ma_emits c = child_emits_of m (ma_id x) (ma_id c) (ma_span c)"
  shows "child_of ho em m k x c"
proof -
  from assms(1) have "scored ho em m (child_entries (m_nodes m)) c" by (simp add: child_found_def)
  then have "\<exists>d. (ma_id c, d) \<in> set (child_entries (m_nodes m)) \<and> ma_score c = child_score ho em (ma_span c) d"
    "\<not> fl_lt (f32_val (ma_score c)) (f32_val (m_node_threshold m))" unfolding scored_def found_def child_score_def by blast+
  with assms show ?thesis unfolding child_of_def child_found_def by blast
qed

lemma found_refined:
  assumes "node_found ho em m inp t sw x" shows "refined ho em m (snd sw) x"
proof -
  have ch: "children_ok ho em m (int (snd sw)) (ma_id x) (ma_span x) (ma_children x)" using assms unfolding node_found_def by blast
  have "childless ho em m (ma_id x) (window_text (ma_span x) t' sw') \<or>
      (\<exists>w. is_window (ho_alloc ho) (scan_opts 1 (int (snd sw))) (ma_span x) t' w \<and> window_in sw' w \<and>
         accounted ho em m (ma_children x) (window_text (ma_span x) t' w))"
    if h: "never_fails (ho_alloc ho)" "length (child_entries (m_nodes m)) \<le> 1024" "(ma_id x, n, eo) \<in> set (child_rows (m_nodes m))"
      "is_window (ho_alloc ho) (scan_opts 1 (int (snd sw))) (ma_span x) t' sw'" for n eo t' sw'
  proof -
    have ex: "exact ho (child_entries (m_nodes m))" using h by (simp add: exact_def)
    from ch h(1,4) have "child_rejected ho em m (ma_id x) (window_text (ma_span x) t' sw') \<or>
        (\<exists>w. is_window (ho_alloc ho) (scan_opts 1 (int (snd sw))) (ma_span x) t' w \<and> window_in sw' w \<and>
           child_kept ho em m (ma_children x) (window_text (ma_span x) t' w))" unfolding children_ok_def children_complete_def by blast
    with exact_children(1) [OF ex _ h(3), of em "window_text (ma_span x) t' sw'"] exact_children(2) [OF ex, of em "ma_children x"]
    show ?thesis by blast
  qed
  moreover have "distinct (map ma_id (ma_children x))" "\<And>c. c \<in> set (ma_children x) \<Longrightarrow> child_of ho em m (snd sw) x c"
    using ch found_child unfolding children_ok_def by blast+
  ultimately show ?thesis unfolding refined_def by blast
qed

text \<open>The islands of a text under a manifest: what each match is, the texts in which there is no node, and what a
  list of matches is together. That the best description decides is promised for at most 1024 descriptions, the
  width of the search; with more of them a match is still sound.\<close>

definition island ::
    "host \<Rightarrow> embedder \<Rightarrow> kc_ipa_manifest_t \<Rightarrow> string \<Rightarrow> kc_ngram_token_list_t \<Rightarrow> nat \<times> nat \<Rightarrow> kc_ipa_match_t \<Rightarrow> bool" where
  "island ho em m inp t sw x \<longleftrightarrow> is_window (ho_alloc ho) (node_opts m) inp t sw \<and> ma_span x = window_text inp t sw \<and>
     (\<exists>d. (ma_id x, d) \<in> set (node_entries (m_nodes m)) \<and>
        ma_score x = fp_float (ho_fp ho) (Fin (similarity ho em (ma_span x) d)) \<and>
        (length (node_entries (m_nodes m)) \<le> 1024 \<longrightarrow> most_similar ho em (node_entries (m_nodes m)) (ma_span x) (ma_id x, d))) \<and>
     \<not> fl_lt (f32_val (ma_score x)) (f32_val (m_node_threshold m)) \<and>
     ma_emits x = node_emits m (ma_id x) (ma_span x) \<and> refined ho em m (snd sw) x"

definition nodeless :: "host \<Rightarrow> embedder \<Rightarrow> kc_ipa_manifest_t \<Rightarrow> string \<Rightarrow> bool" where
  "nodeless ho em m sp \<longleftrightarrow> em_exec em sp = None \<or>
     (\<forall>(n, d) \<in> set (node_entries (m_nodes m)). similarity ho em sp d < 0) \<or>
     (\<exists>n d. most_similar ho em (node_entries (m_nodes m)) sp (n, d) \<and>
        fl_lt (f32_val (fp_float (ho_fp ho) (Fin (similarity ho em sp d)))) (f32_val (m_node_threshold m)))"

definition islands_of :: "host \<Rightarrow> embedder \<Rightarrow> kc_ipa_manifest_t \<Rightarrow> string \<Rightarrow> kc_ipa_match_t list \<Rightarrow> bool" where
  "islands_of ho em m inp ms \<longleftrightarrow> (\<exists>t ws. kc_ngram_split_tokens (ho_alloc ho) inp (separators (node_opts m)) = Some t \<and>
     list_all2 (island ho em m inp t) ws ms \<and> sorted_wrt (\<lambda>x y. \<not> window_in y x) ws \<and>
     (length (node_entries (m_nodes m)) \<le> 1024 \<longrightarrow> (\<forall>sw. is_window (ho_alloc ho) (node_opts m) inp t sw \<longrightarrow>
        (\<exists>x \<in> set ws. window_in sw x) \<or> nodeless ho em m (window_text inp t sw))))"

lemma exact_node:
  assumes "exact ho (node_entries (m_nodes m))"
  shows "found ho em (node_entries (m_nodes m)) sp n d \<Longrightarrow> most_similar ho em (node_entries (m_nodes m)) sp (n, d)"
    and "rejected ho em m sp \<Longrightarrow> nodeless ho em m sp"
proof -
  have best: "most_similar ho em (node_entries (m_nodes m)) sp (n, d)" if "found ho em (node_entries (m_nodes m)) sp n d" for n d
    using that assms unfolding most_similar_def found_def by fastforce
  then show "found ho em (node_entries (m_nodes m)) sp n d \<Longrightarrow> most_similar ho em (node_entries (m_nodes m)) sp (n, d)" .
  show "nodeless ho em m sp" if "rejected ho em m sp"
    using that best assms unfolding rejected_def missed_def nodeless_def by blast
qed

lemma found_island:
  assumes n: "node_found ho em m inp t sw x" and w: "is_window (ho_alloc ho) (node_opts m) inp t sw" and mem: "never_fails (ho_alloc ho)"
  shows "island ho em m inp t sw x"
proof -
  from n have sc: "scored ho em m (node_entries (m_nodes m)) x" by (simp add: node_found_def)
  then obtain d where d: "found ho em (node_entries (m_nodes m)) (ma_span x) (ma_id x) d"
    "ma_score x = fp_float (ho_fp ho) (Fin (similarity ho em (ma_span x) d))" unfolding scored_def by blast
  have "length (node_entries (m_nodes m)) \<le> 1024 \<longrightarrow> most_similar ho em (node_entries (m_nodes m)) (ma_span x) (ma_id x, d)"
    using exact_node(1) [OF _ d(1)] mem by (simp add: exact_def)
  moreover have "(ma_id x, d) \<in> set (node_entries (m_nodes m))" using d(1) by (simp add: found_def)
  moreover have "\<not> fl_lt (f32_val (ma_score x)) (f32_val (m_node_threshold m))" using sc by (simp add: scored_def)
  ultimately show ?thesis using n w d(2) found_refined [OF n] unfolding island_def node_found_def by blast
qed

lemma parse_islands:
  assumes r: "ready ho em m s" and mem: "never_fails (ho_alloc ho)" and o: "options_valid (node_opts m)"
  shows "\<exists>ms. kc_ipa_parse ho (Some s) (Some inp) True = Inr (KC_IPA_OK, Some \<lparr>rs_ok = (ms \<noteq> []), rs_matches = ms\<rparr>) \<and> islands_of ho em m inp ms"
proof -
  have "ho_alloc ho (nat (em_dim em) * 4)" using mem by blast
  from parse_ready [OF r this, of inp] mem o obtain ms t ws where
    p: "kc_ipa_parse ho (Some s) (Some inp) True = Inr (KC_IPA_OK, Some \<lparr>rs_ok = (ms \<noteq> []), rs_matches = ms\<rparr>)"
      "kc_ngram_split_tokens (ho_alloc ho) inp (separators (node_opts m)) = Some t"
    and ok: "matches_ok ho em m (node_opts m) inp t ws ms"
    and all: "\<forall>sw. is_window (ho_alloc ho) (node_opts m) inp t sw \<longrightarrow>
          rejected ho em m (window_text inp t sw) \<or> (\<exists>x \<in> set ws. window_in sw x)" by blast
  have "list_all2 (island ho em m inp t) ws ms"
    using ok found_island [OF _ _ mem] unfolding matches_ok_def list_all2_conv_all_nth by (metis nth_mem)
  moreover have "sorted_wrt (\<lambda>x y. \<not> window_in y x) ws" using ok by (simp add: matches_ok_def)
  moreover have "nodeless ho em m sp" if "length (node_entries (m_nodes m)) \<le> 1024" "rejected ho em m sp" for sp
    using exact_node(2) [OF _ that(2)] that(1) mem by (simp add: exact_def)
  ultimately have "islands_of ho em m inp ms" using p(2) all unfolding islands_of_def by blast
  with p(1) show ?thesis by blast
qed

text \<open>The islands of the text \<open>on\<close> under the small schema.\<close>

lemma sample_refined:
  assumes "refined (parse_host data) sample_embedder sample_manifest 1 x" and x: "ma_id x = ''n''" "ma_span x = ''on''"
  shows "map ma_id (ma_children x) = [''c'']"
proof -
  let ?t = "\<lparr>items = [\<lparr>tok_start = 0, tok_end = 2\<rparr>], items_cap = 16\<rparr>" and ?ho = "parse_host data"
  have "\<exists>n eo. (''n'', n, eo) \<in> set (child_rows (m_nodes sample_manifest))" "length (child_entries (m_nodes sample_manifest)) \<le> 1024"
    by (auto simp: sample_rows)
  with assms(1) have d: "distinct (map ma_id (ma_children x))"
    and c: "\<forall>c \<in> set (ma_children x). \<exists>eo. (''n'', ma_id c, eo) \<in> set (child_rows (m_nodes sample_manifest))"
    and all: "\<forall>t' sw'. is_window granting (scan_opts 1 1) ''on'' t' sw' \<longrightarrow>
       childless ?ho sample_embedder sample_manifest ''n'' (window_text ''on'' t' sw') \<or>
       (\<exists>w. is_window granting (scan_opts 1 1) ''on'' t' w \<and> window_in sw' w \<and>
          accounted ?ho sample_embedder sample_manifest (ma_children x) (window_text ''on'' t' w))"
    unfolding refined_def child_of_def x parse_host_simps of_nat_1 by blast+
  have "childless ?ho sample_embedder sample_manifest ''n'' ''on'' \<or> ma_children x \<noteq> []"
    using all [rule_format, of ?t "(0, 1)"] sample_is_window(1) sample_window [OF sample_is_window(1)] by (auto simp: accounted_def)
  moreover have "\<not> childless ?ho sample_embedder sample_manifest ''n'' ''on''"
    using sample_above sample_similarity [of "''light''" data]
    by (auto simp: childless_def most_similar_def sample_rows child_score_def sample_embedder_def)
  ultimately have "ma_children x \<noteq> []" by blast
  moreover have "set (map ma_id (ma_children x)) \<subseteq> {''c''}" using c by (auto simp: sample_rows)
  ultimately show ?thesis using d by (cases "ma_children x"; cases "tl (ma_children x)") auto
qed

lemma sample_islands:
  assumes "islands_of (parse_host data) sample_embedder sample_manifest ''on'' ms"
  shows "\<exists>x \<in> set ms. ma_id x = ''n'' \<and> ma_span x = ''on'' \<and> map ma_id (ma_children x) = [''c'']"
proof -
  let ?t = "\<lparr>items = [\<lparr>tok_start = 0, tok_end = 2\<rparr>], items_cap = 16\<rparr>" and ?ho = "parse_host data"
  from assms obtain ws where w: "list_all2 (island ?ho sample_embedder sample_manifest ''on'' ?t) ws ms"
    and all: "\<forall>sw. is_window granting (node_opts sample_manifest) ''on'' ?t sw \<longrightarrow>
        (\<exists>x \<in> set ws. window_in sw x) \<or> nodeless ?ho sample_embedder sample_manifest (window_text ''on'' ?t sw)"
    using sample_tokens unfolding islands_of_def parse_host_simps by (auto simp: sample_rows)
  have "\<not> nodeless ?ho sample_embedder sample_manifest ''on''"
    using sample_above sample_similarity [of "''turn on''" data] by (auto simp: nodeless_def most_similar_def sample_rows sample_embedder_def)
  then have "ws \<noteq> []" using all sample_is_window(2) sample_window [OF sample_is_window(1)] by fastforce
  with w obtain v x xs where x: "ms = x # xs" "island ?ho sample_embedder sample_manifest ''on'' ?t v x" by (auto simp: neq_Nil_conv list_all2_Cons1)
  from x(2) have i: "is_window granting (node_opts sample_manifest) ''on'' ?t v" "ma_span x = window_text ''on'' ?t v"
    "refined ?ho sample_embedder sample_manifest (snd v) x" "\<exists>d. (ma_id x, d) \<in> set (node_entries (m_nodes sample_manifest))"
    unfolding island_def parse_host_simps by blast+
  note sw = sample_window [OF i(1) [unfolded sample_node_opts]]
  have v: "v = (0, 1)" using sw by blast
  have sp: "ma_span x = ''on''" unfolding i(2) using sw by blast
  have "ma_id x = ''n''" using i(4) by (simp add: sample_rows)
  with v sp i(3) x(1) sample_refined [of data x] show ?thesis by auto
qed

text \<open>C7. A parse against a schema that stands for a manifest succeeds and reports islands: every match
  covers a window of the input (of between \<open>min_ngram\<close> and \<open>max_ngram\<close> tokens) whose text is its span, no
  window lies inside the window of an earlier match, and a match's name is that of a node with a description
  whose similarity to the span, rounded to a \<open>float\<close>, is the score and is not below the threshold. The match
  carries the manifest's emits of that node, with \<open>$raw\<close> replaced by the span.\<close>

theorem parse_reports_islands:
  assumes "schema_for ho em m s" "embedder_ok em" "ho_rwlock ho" "ho_alloc ho (nat (em_dim em) * 4)"
  shows "\<exists>ms t ws. kc_ipa_parse ho (Some s) (Some inp) True = Inr (KC_IPA_OK, Some \<lparr>rs_ok = (ms \<noteq> []), rs_matches = ms\<rparr>) \<and>
    length ws = length ms \<and> sorted_wrt (\<lambda>x y. \<not> window_in y x) ws \<and>
    (\<forall>k < length ms. is_window (ho_alloc ho) (node_opts m) inp t (ws ! k) \<and>
       ma_span (ms ! k) = window_text inp t (ws ! k) \<and>
       (\<exists>d. (ma_id (ms ! k), d) \<in> set (node_entries (m_nodes m)) \<and>
          ma_score (ms ! k) = fp_float (ho_fp ho) (Fin (similarity ho em (ma_span (ms ! k)) d))) \<and>
       \<not> fl_lt (f32_val (ma_score (ms ! k))) (f32_val (m_node_threshold m)) \<and>
       ma_emits (ms ! k) = node_emits m (ma_id (ms ! k)) (ma_span (ms ! k)))"
proof -
  have "ready ho em m s" using assms by (simp add: ready_def)
  from parse_ready [OF this assms(4), of inp] obtain ms t ws where
    p: "kc_ipa_parse ho (Some s) (Some inp) True = Inr (KC_IPA_OK, Some \<lparr>rs_ok = (ms \<noteq> []), rs_matches = ms\<rparr>)"
    and ok: "matches_ok ho em m (node_opts m) inp t ws ms" by blast
  have "is_window (ho_alloc ho) (node_opts m) inp t (ws ! k) \<and> node_found ho em m inp t (ws ! k) (ms ! k)" if "k < length ms" for k
    using ok that by (auto simp: matches_ok_def list_all2_conv_all_nth)
  moreover have "length ws = length ms" "sorted_wrt (\<lambda>x y. \<not> window_in y x) ws"
    using ok by (auto simp: matches_ok_def list_all2_lengthD)
  ultimately show ?thesis using p
    by (intro exI [of _ ms] exI [of _ t] exI [of _ ws]) (fastforce simp: node_found_def scored_def found_def)
qed

lemma parse_reports_islands_witness:
  "\<exists>data s ms. kc_ipa_parse (parse_host data) (Some s) (Some ''on'') True = Inr (KC_IPA_OK, Some \<lparr>rs_ok = (ms \<noteq> []), rs_matches = ms\<rparr>) \<and>
     (\<forall>x \<in> set ms. ma_emits x = node_emits sample_manifest (ma_id x) (ma_span x))"
proof -
  obtain data s where r: "ready (parse_host data) sample_embedder sample_manifest s" using parse_sample by blast
  then have "schema_for (parse_host data) sample_embedder sample_manifest s" "embedder_ok sample_embedder" by (simp_all add: ready_def)
  from parse_reports_islands [OF this, of "''on''"] show ?thesis by (fastforce simp: in_set_conv_nth)
qed

text \<open>C4. With memory available and at most 1024 node descriptions, a parse misses nothing: every admissible
  window of the input either lies inside the window of a reported match, or its text cannot be embedded, or
  every description is at a negative similarity, or the most similar description's score is below the
  threshold.\<close>

theorem parse_is_complete:
  assumes "schema_for ho em m s" "embedder_ok em" "ho_rwlock ho" "never_fails (ho_alloc ho)"
    and "length (node_entries (m_nodes m)) \<le> 1024" "options_valid (node_opts m)"
  shows "\<exists>ms t ws. kc_ipa_parse ho (Some s) (Some inp) True = Inr (KC_IPA_OK, Some \<lparr>rs_ok = (ms \<noteq> []), rs_matches = ms\<rparr>) \<and>
    kc_ngram_split_tokens (ho_alloc ho) inp (separators (node_opts m)) = Some t \<and>
    list_all2 (\<lambda>sw x. ma_span x = window_text inp t sw) ws ms \<and>
    (\<forall>sw. is_window (ho_alloc ho) (node_opts m) inp t sw \<longrightarrow>
       (\<exists>x \<in> set ws. window_in sw x) \<or>
       (let sp = window_text inp t sw in
         em_exec em sp = None \<or>
         (\<forall>(n, d) \<in> set (node_entries (m_nodes m)). similarity ho em sp d < 0) \<or>
         (\<exists>(n, d) \<in> set (node_entries (m_nodes m)).
            (\<forall>(n', d') \<in> set (node_entries (m_nodes m)). similarity ho em sp d' \<le> similarity ho em sp d) \<and>
            fl_lt (f32_val (fp_float (ho_fp ho) (Fin (similarity ho em sp d)))) (f32_val (m_node_threshold m)))))"
proof -
  have r: "ready ho em m s" using assms by (simp add: ready_def)
  have ex: "exact ho (node_entries (m_nodes m))" using assms by (simp add: exact_def)
  have buf: "ho_alloc ho (nat (em_dim em) * 4)" using assms(4) by blast
  from parse_ready [OF r buf, of inp] assms(4,6) obtain ms t ws where
    p: "kc_ipa_parse ho (Some s) (Some inp) True = Inr (KC_IPA_OK, Some \<lparr>rs_ok = (ms \<noteq> []), rs_matches = ms\<rparr>)"
      "kc_ngram_split_tokens (ho_alloc ho) inp (separators (node_opts m)) = Some t"
    and ok: "matches_ok ho em m (node_opts m) inp t ws ms"
    and all: "\<forall>sw. is_window (ho_alloc ho) (node_opts m) inp t sw \<longrightarrow>
          rejected ho em m (window_text inp t sw) \<or> (\<exists>x \<in> set ws. window_in sw x)" by blast
  have rej: "em_exec em sp = None \<or> (\<forall>(n, d) \<in> set (node_entries (m_nodes m)). similarity ho em sp d < 0) \<or>
      (\<exists>(n, d) \<in> set (node_entries (m_nodes m)).
         (\<forall>(n', d') \<in> set (node_entries (m_nodes m)). similarity ho em sp d' \<le> similarity ho em sp d) \<and>
         fl_lt (f32_val (fp_float (ho_fp ho) (Fin (similarity ho em sp d)))) (f32_val (m_node_threshold m)))"
    if "rejected ho em m sp" for sp
    using that ex by (auto simp: rejected_def missed_def found_def)
  have "list_all2 (\<lambda>sw x. ma_span x = window_text inp t sw) ws ms"
    using ok by (auto simp: matches_ok_def node_found_def elim: list_all2_mono)
  with p all rej show ?thesis unfolding Let_def by blast
qed

lemma parse_is_complete_witness:
  "\<exists>data s ms. kc_ipa_parse (parse_host data) (Some s) (Some ''on'') True = Inr (KC_IPA_OK, Some \<lparr>rs_ok = True, rs_matches = ms\<rparr>) \<and> ms \<noteq> []"
proof -
  obtain data s where r: "ready (parse_host data) sample_embedder sample_manifest s" using parse_sample by blast
  then have sf: "schema_for (parse_host data) sample_embedder sample_manifest s" and em: "embedder_ok sample_embedder" by (simp_all add: ready_def)
  have n: "node_entries (m_nodes sample_manifest) = [(''n'', ''turn on'')]" by (simp add: node_entries_def sample_manifest_def)
  let ?t = "\<lparr>items = [\<lparr>tok_start = 0, tok_end = 2\<rparr>], items_cap = 16\<rparr>"
  have h: "ho_rwlock (parse_host data)" "never_fails (ho_alloc (parse_host data))" "length (node_entries (m_nodes sample_manifest)) \<le> 1024"
    by (simp_all add: n)
  from parse_is_complete [OF sf em h sample_opts, of "''on''"] obtain ms t ws where
    p: "kc_ipa_parse (parse_host data) (Some s) (Some ''on'') True = Inr (KC_IPA_OK, Some \<lparr>rs_ok = (ms \<noteq> []), rs_matches = ms\<rparr>)"
      "kc_ngram_split_tokens (ho_alloc (parse_host data)) ''on'' (separators (node_opts sample_manifest)) = Some t"
      "list_all2 (\<lambda>sw x. ma_span x = window_text ''on'' t sw) ws ms"
    and all: "is_window (ho_alloc (parse_host data)) (node_opts sample_manifest) ''on'' t (0, 1) \<longrightarrow>
       (\<exists>x \<in> set ws. window_in (0, 1) x) \<or>
       (let sp = window_text ''on'' t (0, 1) in
         em_exec sample_embedder sp = None \<or>
         (\<forall>(n, d) \<in> set (node_entries (m_nodes sample_manifest)). similarity (parse_host data) sample_embedder sp d < 0) \<or>
         (\<exists>(n, d) \<in> set (node_entries (m_nodes sample_manifest)).
            (\<forall>(n', d') \<in> set (node_entries (m_nodes sample_manifest)).
               similarity (parse_host data) sample_embedder sp d' \<le> similarity (parse_host data) sample_embedder sp d) \<and>
            fl_lt (f32_val (fp_float (ho_fp (parse_host data)) (Fin (similarity (parse_host data) sample_embedder sp d))))
              (f32_val (m_node_threshold sample_manifest))))" by blast
  have t: "t = ?t" using p(2) sample_tokens by simp
  have "is_window granting (node_opts sample_manifest) ''on'' ?t (0, 1)"
    using sample_opts sample_tokens
    by (auto simp: is_window_def windows_of_def set_windows loop_max_of_def node_opts_def scan_opts_def sample_manifest_def default_manifest_def)
  moreover have w: "window_text ''on'' ?t (0, 1) = ''on''" by (simp add: window_text_def chunk_span_def mk_chunk_def)
  moreover have "em_exec sample_embedder ''on'' \<noteq> None" by (simp add: sample_embedder_def)
  moreover have "\<not> fl_lt (f32_val 0x3F800000) (f32_val (m_node_threshold sample_manifest))" by (rule sample_above)
  ultimately have "ws \<noteq> []" using all sample_similarity [of "''turn on''" data] unfolding t Let_def n by auto
  with p(3) have "ms \<noteq> []" by auto
  with p(1) show ?thesis by auto
qed

text \<open>C8. The children of a match are those of its node, one level deep: each child's name belongs to the matched
  node in the manifest, the names are distinct, its span is a window of the match's span of no more tokens than
  the match's own window, its score is that of a description and reaches the threshold, and it has no children of
  its own (the manifest may nest deeper and the documentation speaks of recursion; the parser goes no further).
  With memory available its emits are the manifest's for that parent and child. And with memory available and
  at most 1024 descriptions of children in the manifest, no child is lost: every such window of the match's span
  that can be embedded and has a most similar description of non-negative similarity either scores below the
  threshold, or that description is a child of other nodes only, or it lies inside a window whose most similar
  description is that of a child which is reported with a score that is no lower.\<close>

theorem parse_children_belong:
  assumes "schema_for ho em m s" "embedder_ok em" "ho_rwlock ho" "ho_alloc ho (nat (em_dim em) * 4)"
    and "kc_ipa_parse ho (Some s) (Some inp) True = Inr (rc, Some res)" "x \<in> set (rs_matches res)"
  shows "\<exists>t sw. is_window (ho_alloc ho) (node_opts m) inp t sw \<and> ma_span x = window_text inp t sw \<and>
    distinct (map ma_id (ma_children x)) \<and>
    (\<forall>c \<in> set (ma_children x). ma_children c = [] \<and>
       (\<exists>eo. (ma_id x, ma_id c, eo) \<in> set (child_rows (m_nodes m))) \<and>
       (\<exists>t' sw'. is_window (ho_alloc ho) (scan_opts 1 (int (snd sw))) (ma_span x) t' sw' \<and> ma_span c = window_text (ma_span x) t' sw') \<and>
       (\<exists>d. (ma_id c, d) \<in> set (child_entries (m_nodes m)) \<and> ma_score c = child_score ho em (ma_span c) d) \<and>
       \<not> fl_lt (f32_val (ma_score c)) (f32_val (m_node_threshold m)) \<and>
       (never_fails (ho_alloc ho) \<longrightarrow> ma_emits c = child_emits_of m (ma_id x) (ma_id c) (ma_span c))) \<and>
    (never_fails (ho_alloc ho) \<and> length (child_entries (m_nodes m)) \<le> 1024 \<and> (\<exists>n eo. (ma_id x, n, eo) \<in> set (child_rows (m_nodes m))) \<longrightarrow>
       (\<forall>t' sw'. is_window (ho_alloc ho) (scan_opts 1 (int (snd sw))) (ma_span x) t' sw' \<longrightarrow>
          childless ho em m (ma_id x) (window_text (ma_span x) t' sw') \<or>
          (\<exists>w. is_window (ho_alloc ho) (scan_opts 1 (int (snd sw))) (ma_span x) t' w \<and> window_in sw' w \<and>
             accounted ho em m (ma_children x) (window_text (ma_span x) t' w))))"
proof -
  have "ready ho em m s" using assms by (simp add: ready_def)
  from parse_ready [OF this assms(4), of inp] obtain ms t ws where
    p: "kc_ipa_parse ho (Some s) (Some inp) True = Inr (KC_IPA_OK, Some \<lparr>rs_ok = (ms \<noteq> []), rs_matches = ms\<rparr>)"
      "matches_ok ho em m (node_opts m) inp t ws ms" by blast
  then have "matches_ok ho em m (node_opts m) inp t ws (rs_matches res)" using assms(5) by auto
  moreover obtain k where "k < length (rs_matches res)" "x = rs_matches res ! k" using assms(6) by (auto simp: in_set_conv_nth)
  ultimately have "node_found ho em m inp t (ws ! k) x" "is_window (ho_alloc ho) (node_opts m) inp t (ws ! k)"
    by (auto simp: matches_ok_def list_all2_conv_all_nth)
  then obtain sw where x: "node_found ho em m inp t sw x" "is_window (ho_alloc ho) (node_opts m) inp t sw" ..
  have "ma_span x = window_text inp t sw" using x(1) by (simp add: node_found_def)
  with x(2) found_refined [OF x(1)] show ?thesis unfolding refined_def child_of_def by (intro exI [of _ t] exI [of _ sw] conjI) blast+
qed

lemma parse_children_belong_witness:
  "\<exists>data s res. kc_ipa_parse (parse_host data) (Some s) (Some ''on'') True = Inr (KC_IPA_OK, Some res) \<and>
     (\<exists>x \<in> set (rs_matches res). ma_id x = ''n'' \<and> ma_span x = ''on'' \<and> map ma_id (ma_children x) = [''c''])"
proof -
  obtain data s where r: "ready (parse_host data) sample_embedder sample_manifest s" using parse_sample by blast
  then have sf: "schema_for (parse_host data) sample_embedder sample_manifest s" and em: "embedder_ok sample_embedder" by (simp_all add: ready_def)
  let ?ho = "parse_host data"
  from sample_matches [OF r] obtain res x where p: "kc_ipa_parse ?ho (Some s) (Some ''on'') True = Inr (KC_IPA_OK, Some res)"
    and x: "x \<in> set (rs_matches res)" "ma_id x = ''n''" "ma_span x = ''on''" by blast
  have h: "ho_rwlock ?ho" "ho_alloc ?ho (nat (em_dim sample_embedder) * 4)" by simp_all
  from parse_children_belong [OF sf em h p x(1)] obtain t sw where
    w: "is_window granting (node_opts sample_manifest) ''on'' t sw" "refined ?ho sample_embedder sample_manifest (snd sw) x"
    unfolding refined_def child_of_def parse_host_simps by (elim exE conjE) blast
  have "sw = (0, 1)" using sample_window [of 5 t sw] w(1) unfolding sample_node_opts by blast
  with w(2) have "map ma_id (ma_children x) = [''c'']" using sample_refined [OF _ x(2,3)] by simp
  with x have "\<exists>x \<in> set (rs_matches res). ma_id x = ''n'' \<and> ma_span x = ''on'' \<and> map ma_id (ma_children x) = [''c'']"
    by (intro bexI [of _ x] conjI)
  with p show ?thesis by (intro exI conjI)
qed

text \<open>C20. When the scratch buffer for one embedding is refused, \<open>kc_ipa_parse\<close> jumps past the initialisation
  of its scan context and then reads it; on a schema that stands for a manifest this is the only thing that
  can go wrong: otherwise it returns \<open>KC_IPA_OK\<close>, and null arguments are refused with \<open>KC_IPA_ERROR\<close>.\<close>

theorem parse_faults_iff_no_buffer:
  assumes "schema_for ho em m s" "embedder_ok em" "ho_rwlock ho"
  shows "(\<not> ho_alloc ho (nat (em_dim em) * 4) \<longrightarrow> kc_ipa_parse ho (Some s) (Some inp) True = Inl Uninitialised) \<and>
    (ho_alloc ho (nat (em_dim em) * 4) \<longrightarrow> (\<exists>res. kc_ipa_parse ho (Some s) (Some inp) True = Inr (KC_IPA_OK, Some res))) \<and>
    kc_ipa_parse ho None (Some inp) True = Inr (KC_IPA_ERROR, None) \<and> kc_ipa_parse ho (Some s) None True = Inr (KC_IPA_ERROR, None) \<and>
    kc_ipa_parse ho (Some s) (Some inp) False = Inr (KC_IPA_ERROR, None)"
proof -
  have r: "ready ho em m s" using assms by (simp add: ready_def)
  have "sc_emb_dim s = em_dim em" using assms(1) by (simp add: schema_for_def)
  then show ?thesis using parse_ready [OF r, of inp] by (auto simp: kc_ipa_parse_def)
qed

lemma parse_faults_iff_no_buffer_witness:
  "\<exists>data s. kc_ipa_parse ((parse_host data)\<lparr>ho_alloc := (\<lambda>n. n \<noteq> 8)\<rparr>) (Some s) (Some ''on'') True = Inl Uninitialised"
proof -
  obtain data s where r: "ready (parse_host data) sample_embedder sample_manifest s" using parse_sample by blast
  let ?ho = "(parse_host data)\<lparr>ho_alloc := (\<lambda>n. n \<noteq> 8)\<rparr>"
  have "indexes ?ho = indexes (parse_host data)" by (intro ext) (simp add: indexes_def)
  then have "schema_for ?ho sample_embedder sample_manifest s" using r by (simp add: ready_def schema_for_def)
  moreover have "embedder_ok sample_embedder" "ho_rwlock ?ho" "\<not> ho_alloc ?ho (nat (em_dim sample_embedder) * 4)"
    using r by (simp_all add: ready_def sample_embedder_def)
  ultimately show ?thesis using parse_faults_iff_no_buffer by blast
qed

end
