(* ===== verification/Cli_Print.thy ===== *)
theory Cli_Print
  imports Scan Json_Print
begin

section \<open>Printing a result (src/ipa.c: print\_emits, print\_match, print\_result)\<close>

text \<open>
  What the command line tool writes to standard output for a parse result, as a string. \<open>fixed4\<close> is
  \<open>printf("%.4f", (double)score)\<close> on the bits of the score: the exact binary value, scaled by 10000 and
  rounded to the nearest integer (ties to even), as C libraries with exact conversion print it.

  The properties: a printed finite score is read back by \<open>strtod\<close> within half a unit of its last
  digit, and a printed result is one JSON value for the library's own reader.
\<close>

subsection \<open>The score\<close>

definition digit :: "nat \<Rightarrow> char" where
  "digit n = char_of (48 + n mod 10)"

definition pad4 :: "nat \<Rightarrow> string" where
  "pad4 n = [digit (n div 1000), digit (n div 100), digit (n div 10), digit n]"

definition round_half_even :: "nat \<Rightarrow> nat \<Rightarrow> nat" where
  "round_half_even num den =
     (let q = num div den; r = num mod den
      in if 2 * r < den \<or> (2 * r = den \<and> even q) then q else q + 1)"

text \<open>The magnitude of a finite \<open>float\<close>, as a fraction.\<close>

definition f32_fraction :: "u32 \<Rightarrow> nat \<times> nat" where
  "f32_fraction w =
     (let e = unat (take_bit 8 (drop_bit 23 w)); m = unat (take_bit 23 w)
      in if e = 0 then (m, 2 ^ 149) else ((2 ^ 23 + m) * 2 ^ e, 2 ^ 150))"

definition sign_text :: "u32 \<Rightarrow> string" where
  "sign_text w = (if bit w 31 then ''-'' else [])"

definition ten_thousandths :: "u32 \<Rightarrow> nat" where
  "ten_thousandths w = (case f32_fraction w of (num, den) \<Rightarrow> round_half_even (num * 10000) den)"

definition fixed4 :: "u32 \<Rightarrow> string" where
  "fixed4 w =
     (case f32_val w of
        NaN \<Rightarrow> sign_text w @ ''nan''
      | Inf _ \<Rightarrow> sign_text w @ ''inf''
      | Fin _ \<Rightarrow> let k = ten_thousandths w
                in sign_text w @ nat_text (k div 10000) @ ''.'' @ pad4 (k mod 10000))"

subsection \<open>Matches\<close>

definition pad :: "nat \<Rightarrow> string" where
  "pad indent = replicate (if indent < 30 then indent else 30) (CHR '' '')"

definition print_emit :: "kc_ipa_emit_t \<Rightarrow> string" where
  "print_emit e = json_print_string (em_key e) @ '':'' @ json_print_string (em_value e)"

definition print_emits :: "kc_ipa_emit_t list \<Rightarrow> nat \<Rightarrow> string" where
  "print_emits emits indent = pad indent @ quoted ''emit'' @ '':{'' @ commas (map print_emit emits) @ ''}''"

fun print_match :: "kc_ipa_match_t \<Rightarrow> nat \<Rightarrow> string" where
  "print_match (Match i sp score emits children) indent =
     pad indent @ ''{'' @
     quoted ''id'' @ '':'' @ quoted i @
     '','' @ quoted ''span'' @ '':'' @ quoted sp @
     '','' @ quoted ''score'' @ '':'' @ fixed4 score @
     (if emits \<noteq> [] then '','' @ print_emits emits 0 else []) @
     (if children \<noteq> []
      then '','' @ quoted ''children'' @ '':['' @ commas (map (\<lambda>c. print_match c 0) children) @ '']''
      else []) @
     ''}''"

definition print_result :: "kc_ipa_result_t \<Rightarrow> string" where
  "print_result r =
     ''{'' @ quoted ''ok'' @ '':'' @ (if rs_ok r then ''true'' else ''false'') @
     '','' @ quoted ''matches'' @ '':['' @ commas (map (\<lambda>m. print_match m 0) (rs_matches r)) @ '']}'' @ [CHR 0x0A]"

subsection \<open>Digits\<close>

lemma is_digit_digit [simp]: "is_digit (digit n)" "digit_val (digit n) = n mod 10"
proof -
  have "of_char (char_of (48 + n mod 10) :: char) = 48 + n mod 10" by (simp add: of_char_of)
  then show "is_digit (digit n)" "digit_val (digit n) = n mod 10" by (simp_all add: is_digit_def digit_val_def digit_def)
qed

lemma nat_text_digit: "nat_text n = (if n < 10 then [digit n] else nat_text (n div 10) @ [digit n])"
  by (subst nat_text.simps) (simp add: digit_def)

lemma nat_text_digits: "nat_text n \<noteq> [] \<and> (\<forall>c \<in> set (nat_text n). is_digit c)"
proof (induction n rule: less_induct)
  case (less n)
  show ?case
  proof (cases "n < 10")
    case False
    then have "nat_text (n div 10) \<noteq> [] \<and> (\<forall>c \<in> set (nat_text (n div 10)). is_digit c)" by (intro less) simp
    with False show ?thesis by (subst (1 2) nat_text_digit) auto
  qed (subst (1 2) nat_text_digit, simp)
qed

lemma decimal_snoc: "decimal (ds @ [c]) = 10 * decimal ds + digit_val c"
  by (simp add: decimal_def)

lemma decimal_nat_text: "decimal (nat_text n) = n"
proof (induction n rule: less_induct)
  case (less n)
  show ?case
  proof (cases "n < 10")
    case True
    then show ?thesis by (subst nat_text_digit) (simp add: decimal_def)
  next
    case False
    then have "decimal (nat_text (n div 10)) = n div 10" by (intro less) simp
    with False show ?thesis by (subst nat_text_digit) (simp add: decimal_snoc)
  qed
qed

lemma pad4_digits: "length (pad4 n) = 4" "\<forall>c \<in> set (pad4 n). is_digit c"
  by (simp_all add: pad4_def)

lemma decimal_pad4:
  assumes "n < 10000" shows "decimal (ds @ pad4 n) = 10000 * decimal ds + n"
proof -
  have d: "decimal (ds @ pad4 n) = 10000 * decimal ds + 1000 * (n div 1000 mod 10) + 100 * (n div 100 mod 10) + 10 * (n div 10 mod 10) + n mod 10"
    by (simp add: decimal_def pad4_def algebra_simps)
  define b c a where "b = n div 10" and "c = b div 10" and "a = c div 10"
  then have "n = 10 * b + n mod 10" "b = 10 * c + b mod 10" "c = 10 * a + c mod 10" by simp_all
  then have "1000 * a + 100 * (c mod 10) + 10 * (b mod 10) + n mod 10 = n" by (simp del: mult_div_mod_eq)
  moreover have "n div 1000 mod 10 = a" "n div 100 = c" "n div 10 = b"
    using assms by (simp_all add: a_def b_def c_def div_mult2_eq [symmetric])
  ultimately show ?thesis using d by simp
qed

subsection \<open>Reading a printed score\<close>

definition ends_number :: "string \<Rightarrow> bool" where
  "ends_number r \<longleftrightarrow> (case r of [] \<Rightarrow> True | c # _ \<Rightarrow> c = CHR '','' \<or> c = CHR ''}'' \<or> c = CHR '']'')"

lemma takeWhile_digits: "\<forall>c \<in> set ds. is_digit c \<Longrightarrow> r = [] \<or> \<not> is_digit (hd r) \<Longrightarrow> takeWhile is_digit (ds @ r) = ds"
  by (induction ds) (auto simp: takeWhile_eq_Nil_iff)

lemma not_digit [simp]: "\<not> is_digit (CHR ''.'')" "\<not> is_digit (CHR '','')" "\<not> is_digit (CHR ''}'')" "\<not> is_digit (CHR '']'')" "\<not> is_digit (CHR ''-'')" "\<not> is_digit (CHR ''+'')"
  "\<not> is_digit (CHR ''x'')"
  by (simp_all add: is_digit_def)

lemma digit_lower: "is_digit c \<Longrightarrow> lower c = c"
  by (simp add: is_digit_def lower_def)

lemma digit_letters: "is_digit c \<Longrightarrow> c \<noteq> CHR ''i'' \<and> c \<noteq> CHR ''n'' \<and> c \<noteq> CHR ''-'' \<and> c \<noteq> CHR ''+'' \<and> c \<noteq> CHR ''x'' \<and> \<not> is_space c"
  by (auto simp: is_digit_def is_space_def)

lemma ends_digits: "ends_number r \<Longrightarrow> r = [] \<or> \<not> is_digit (hd r)"
  by (auto simp: ends_number_def split: list.splits)

lemma ends_exponent: "ends_number r \<Longrightarrow> exponent (CHR ''e'') r = (0, 0)"
  by (auto simp: ends_number_def exponent_def lower_def split: list.splits)

lemma point_digits_printed:
  assumes "\<forall>c \<in> set ip. is_digit c" "\<forall>c \<in> set fp. is_digit c" "ip \<noteq> []" "ends_number r"
  shows "point_digits is_digit (ip @ CHR ''.'' # fp @ r) = (ip, fp, length ip + 1 + length fp)"
  using takeWhile_digits [OF assms(1), of "CHR ''.'' # fp @ r"] takeWhile_digits [OF assms(2) ends_digits [OF assms(4)]] assms(3)
  by (simp add: point_digits_def)

lemma strtod_body_printed:
  assumes d: "\<forall>c \<in> set ip. is_digit c" "\<forall>c \<in> set fp. is_digit c" "ip \<noteq> []" "ends_number r"
  shows "strtod_body to_dbl neg (ip @ CHR ''.'' # fp @ r) =
    (to_dbl (let x = real (decimal (ip @ fp)) * 10 powr (- real (length fp)) in if neg then - x else x), length ip + 1 + length fp)"
proof -
  let ?u = "ip @ CHR ''.'' # fp @ r"
  obtain c ip' where ip: "ip = c # ip'" using d(3) by (cases ip) auto
  then have c: "is_digit c" using d(1) by simp
  note l = digit_lower [OF c] digit_letters [OF c]
  have "\<not> starts_ci ''infinity'' ?u" "\<not> starts_ci ''inf'' ?u" "\<not> starts_ci ''nan'' ?u"
    using ip l by (simp_all add: starts_ci_def)
  moreover have "\<not> starts_ci ''0x'' ?u"
    using ip d(1) digit_letters digit_lower by (cases ip') (auto simp: starts_ci_def lower_def)
  moreover have "drop (length ip + 1 + length fp) ?u = r" by simp
  ultimately show ?thesis
    using point_digits_printed [OF d] ends_exponent [OF d(4)] by (simp add: strtod_body_def Let_def)
qed

lemma strtod_signed:
  assumes "is_digit (hd u)" "u \<noteq> []" "strtod_body to_dbl neg u = (v, n)" "0 < n"
  shows "strtod to_dbl ((if neg then ''-'' else []) @ u) = (v, (if neg then 1 else 0) + n)"
proof -
  obtain c u' where u: "u = c # u'" using assms(2) by (cases u) auto
  then have "is_digit c" using assms(1) by simp
  then have c: "\<not> is_space c" "c \<noteq> CHR ''-''" "c \<noteq> CHR ''+''" using digit_letters by auto
  have m: "\<not> is_space (CHR ''-'')" by (simp add: is_space_def)
  show ?thesis using assms(3,4) c m by (cases neg) (simp_all add: strtod_def u)
qed

lemma fixed4_finite:
  assumes "f32_val w = Fin x"
  shows "fixed4 w = (if bit w 31 then ''-'' else []) @ nat_text (ten_thousandths w div 10000) @ CHR ''.'' # pad4 (ten_thousandths w mod 10000)"
  using assms by (simp add: fixed4_def sign_text_def Let_def)

lemma strtod_fixed4:
  assumes w: "f32_val w = Fin x" and r: "ends_number r"
  shows "strtod to_dbl (fixed4 w @ r) =
    (to_dbl (let y = real (ten_thousandths w) / 10000 in if bit w 31 then - y else y), length (fixed4 w))"
proof -
  let ?k = "ten_thousandths w"
  let ?ip = "nat_text (?k div 10000)" and ?fp = "pad4 (?k mod 10000)"
  have ip: "?ip \<noteq> []" "\<forall>c \<in> set ?ip. is_digit c" using nat_text_digits by auto
  have "decimal (?ip @ ?fp) = 10000 * decimal ?ip + ?k mod 10000" by (rule decimal_pad4) simp
  then have dec: "decimal (?ip @ ?fp) = ?k" by (simp add: decimal_nat_text)
  have "(10 :: real) powr 4 = 10 ^ 4" by (rule powr_numeral) simp
  also have "\<dots> = 10000" by simp
  finally have ten: "z * 10 powr (- 4 :: real) = z / 10000" for z unfolding powr_minus divide_inverse by (rule arg_cong)
  have b: "strtod_body to_dbl (bit w 31) (?ip @ CHR ''.'' # ?fp @ r) =
      (to_dbl (let y = real ?k / 10000 in if bit w 31 then - y else y), length ?ip + 1 + 4)"
    using strtod_body_printed [OF ip(2) pad4_digits(2) ip(1) r, of to_dbl "bit w 31" "?k mod 10000"]
    by (simp only: dec pad4_digits(1) of_nat_numeral ten)
  have "is_digit (hd (?ip @ CHR ''.'' # ?fp @ r))" using ip by simp
  from strtod_signed [OF this _ b] show ?thesis by (simp add: fixed4_finite [OF w] pad4_digits)
qed

lemma round_half_even_near:
  assumes "0 < den" shows "\<bar>real (round_half_even num den) - real num / real den\<bar> \<le> 1 / 2"
proof -
  let ?q = "num div den" and ?r = "num mod den"
  have "num = ?q * den + ?r" by simp
  then have "real num = real ?q * real den + real ?r" by (metis of_nat_add of_nat_mult)
  then have n: "real num / real den = real ?q + real ?r / real den" using assms by (simp add: field_simps)
  have r: "real ?r / real den < 1" "0 \<le> real ?r / real den" using assms by simp_all
  have "real ?r / real den \<le> 1 / 2 \<longleftrightarrow> real (2 * ?r) \<le> real den" using assms by (simp add: field_simps)
  then have "real ?r / real den \<le> 1 / 2 \<longleftrightarrow> 2 * ?r \<le> den" unfolding of_nat_le_iff .
  moreover have "2 * ?r < den \<Longrightarrow> 2 * ?r \<le> den" by simp
  ultimately show ?thesis
    unfolding n using r assms by (cases "2 * ?r < den \<or> (2 * ?r = den \<and> even ?q)") (auto simp: round_half_even_def Let_def not_le)
qed

lemma f32_fraction_real:
  assumes "f32_val w = Fin x"
  shows "snd (f32_fraction w) > 0"
    and "x = (let y = real (fst (f32_fraction w)) / real (snd (f32_fraction w)) in if bit w 31 then - y else y)"
  using assms by (auto simp: f32_fraction_def f32_val_def Let_def split: if_splits)

lemma ten_thousandths_near:
  assumes w: "f32_val w = Fin x"
  shows "\<bar>(let y = real (ten_thousandths w) / 10000 in if bit w 31 then - y else y) - x\<bar> \<le> 1 / 20000"
proof -
  obtain num den where f: "f32_fraction w = (num, den)" by fastforce
  have d: "0 < den" using f32_fraction_real(1) [OF w] f by simp
  have "\<bar>real (ten_thousandths w) - real (num * 10000) / real den\<bar> \<le> 1 / 2"
    using round_half_even_near [OF d, of "num * 10000"] by (simp add: ten_thousandths_def f)
  then have "\<bar>real (ten_thousandths w) / 10000 - real num / real den\<bar> \<le> 1 / 20000"
    unfolding abs_le_iff of_nat_mult of_nat_numeral times_divide_eq_left [symmetric] by linarith
  with f32_fraction_real(2) [OF w] f show ?thesis by (auto simp: Let_def abs_minus_commute split: if_splits)
qed

text \<open>C32. A printed score is accurate: \<open>strtod\<close> reads the characters that \<open>%.4f\<close> printed for a finite score
  to their end, and the number they denote (before it is rounded to a \<open>double\<close>) differs from the score by at
  most half a unit of the fourth decimal.\<close>

theorem printed_score_is_near:
  assumes "f32_val w = Fin x"
  shows "\<exists>y. (\<forall>to_dbl. strtod to_dbl (fixed4 w) = (to_dbl y, length (fixed4 w))) \<and> \<bar>y - x\<bar> \<le> 1 / 20000"
  using strtod_fixed4 [OF assms, of "[]"] ten_thousandths_near [OF assms] by (auto simp: ends_number_def)

lemma printed_score_is_near_witness: "fixed4 0x3F4CCCCD = ''0.8000'' \<and>
    (\<exists>y. strtod Fin ''0.8000'' = (Fin y, 6) \<and> \<bar>y - f32_real 0x3F4CCCCD\<bar> \<le> 1 / 20000)"
proof -
  have v: "f32_val 0x3F4CCCCD = Fin (f32_real 0x3F4CCCCD)"
    by (simp add: f32_real_def f32_val_def Let_def take_bit_eq_mod drop_bit_eq_div bit_iff_odd_drop_bit)
  moreover have "ten_thousandths 0x3F4CCCCD = 8000"
    by (simp add: ten_thousandths_def f32_fraction_def round_half_even_def Let_def take_bit_eq_mod drop_bit_eq_div)
  ultimately have "fixed4 0x3F4CCCCD = ''0.8000''"
    by (simp add: fixed4_def sign_text_def nat_text.simps pad4_def digit_def bit_iff_odd_drop_bit drop_bit_eq_div char_of_def)
  with printed_score_is_near [OF v] show ?thesis by fastforce
qed

subsection \<open>A printed value is skipped as one value\<close>

lemma hex_digit_quiet: "n < 16 \<Longrightarrow> hex_digit n \<noteq> CHR 0x22 \<and> hex_digit n \<noteq> CHR 0x5C"
proof -
  assume "n < 16"
  then have "(of_char (hex_digit n) :: nat) = (if n < 10 then 48 + n else 87 + n)" by (simp add: hex_digit_def of_char_of)
  moreover have "(of_char (CHR 0x22) :: nat) = 34" "(of_char (CHR 0x5C) :: nat) = 92" by simp_all
  ultimately have "(of_char (hex_digit n) :: nat) \<noteq> of_char (CHR 0x22)" "(of_char (hex_digit n) :: nat) \<noteq> of_char (CHR 0x5C)"
    using \<open>n < 16\<close> by auto
  then show ?thesis by metis
qed

text \<open>Printed characters, control characters included, pass the string loop.\<close>

lemma string_loop_quiet:
  assumes "sees src pos (cs @ s)" "\<forall>c \<in> set cs. c \<noteq> CHR 0x22 \<and> c \<noteq> CHR 0x5C" "\<forall>n. alloc n"
  shows "\<exists>q buf' cap'. string_loop alloc src pos buf cap = string_loop alloc src q buf' cap' \<and> sees src q s"
  using assms(1,2)
proof (induction cs arbitrary: pos buf cap)
  case (Cons c cs)
  then have "sees src pos (c # (cs @ s))" by simp
  from string_loop_char [OF this _ _ assms(3)] sees_Cons [OF this] Cons show ?case by fastforce
qed auto

lemma string_loop_escaped_char:
  assumes s: "sees src pos (escape_char c @ s)" and mem: "\<forall>n. alloc n"
  shows "\<exists>q buf' cap'. string_loop alloc src pos buf cap = string_loop alloc src q buf' cap' \<and> sees src q s"
proof (cases "escape_char c = u_escape c")
  case True
  let ?h = "[CHR ''0'', CHR ''0'', hex_digit (of_char c div 16), hex_digit (of_char c mod 16)]"
  have se: "sees src pos (CHR 0x5C # CHR ''u'' # ?h @ s)" using s True by (simp add: u_escape_def)
  then have t: "sees src (Suc (Suc pos)) (?h @ s)" using sees_Cons [of src pos] sees_Cons [of src "Suc pos"] by fastforce
  have "(of_char c :: nat) < 16 * 16" using nat_of_char_less_256 [of c] by simp
  then have "(of_char c :: nat) div 16 < 16" "(of_char c :: nat) mod 16 < 16" by (rule less_mult_imp_div_less, simp)
  from this [THEN hex_digit_quiet] have "\<forall>d \<in> set ?h. d \<noteq> CHR 0x22 \<and> d \<noteq> CHR 0x5C" by simp
  from string_loop_quiet [OF t this mem] string_loop_escape [OF se mem] show ?thesis by metis
next
  case False
  then have "plain [c]" by (auto simp: escape_char_def plain_def split: if_splits)
  from string_loop_printed_char [OF s this mem] show ?thesis by blast
qed

lemma parse_any_printed_string:
  assumes "sees src pos (quoted t @ s)" "\<forall>n. alloc n"
  shows "\<exists>r q. kc_ipa_json_parse_string alloc src pos = Inr (r, q) \<and> sees src q s"
proof -
  have s: "sees src pos (CHR 0x22 # concat (map escape_char t) @ CHR 0x22 # s)"
    using assms(1) by (simp add: json_print_string_def)
  have "\<exists>r q. string_loop alloc src p buf cap = Inr (r, q) \<and> sees src q s"
    if "sees src p (concat (map escape_char t) @ CHR 0x22 # s)" for p buf cap
    using that
  proof (induction t arbitrary: p buf cap)
    case Nil
    then have "sees src p (CHR 0x22 # s)" by simp
    from sees_Cons [OF this] show ?case by (subst string_loop.simps) simp
  next
    case (Cons c t)
    then have "sees src p (escape_char c @ (concat (map escape_char t) @ CHR 0x22 # s))" by simp
    from string_loop_escaped_char [OF this assms(2)] Cons.IH show ?case by metis
  qed
  with sees_ws [OF s] sees_Cons [OF s] assms(2) show ?thesis by (auto simp: kc_ipa_json_parse_string_def)
qed

text \<open>\<open>json_value alloc fp v\<close>: wherever the text \<open>v\<close> stands in front of the end of a value, the reader skips
  exactly it.\<close>

definition json_value :: "allocator \<Rightarrow> fp_env \<Rightarrow> string \<Rightarrow> bool" where
  "json_value alloc fp v \<longleftrightarrow>
     (\<forall>n src pos s. sees src pos (v @ s) \<longrightarrow> ends_number s \<longrightarrow> length src - pos < n \<longrightarrow>
        (\<exists>q. kc_ipa_json_skip_value n alloc fp src pos = Inr q \<and> sees src q s))"

lemma json_valueD:
  "json_value alloc fp v \<Longrightarrow> sees src pos (v @ s) \<Longrightarrow> ends_number s \<Longrightarrow> length src - pos < n \<Longrightarrow>
    \<exists>q. kc_ipa_json_skip_value n alloc fp src pos = Inr q \<and> sees src q s"
  by (simp add: json_value_def)

text \<open>The first character decides what the reader does.\<close>

lemma skip_value_at:
  assumes "sees src pos (c # s)" "\<not> is_space c"
  shows "kc_ipa_json_skip_value (Suc n) alloc fp src pos =
     (if c = CHR 0x22 then sum_bind (kc_ipa_json_parse_string alloc src pos) (\<lambda>(_, q). Inr q)
      else if c = CHR ''{'' then kc_ipa_json_skip_object n (kc_ipa_json_skip_value n alloc fp src) alloc src pos
      else if c = CHR ''['' then kc_ipa_json_skip_array n (kc_ipa_json_skip_value n alloc fp src) src pos
      else if c = CHR ''t'' then skip_literal src pos ''true''
      else if c = CHR ''f'' then skip_literal src pos ''false''
      else if c = CHR ''n'' then skip_literal src pos ''null''
      else let (_, k) = strtod (fp_double fp) (c_str (drop pos src))
           in if k = 0 then Inl (JMsg ''invalid value'' pos) else Inr (pos + k))"
proof -
  have "\<not> length src \<le> pos" "src ! pos = c" using sees_Cons [OF assms(1)] by auto
  then show ?thesis
    unfolding kc_ipa_json_skip_value.simps sees_ws [OF assms] by (simp only: Let_def if_False)
qed

lemma sees_append: "sees src pos (v @ s) \<Longrightarrow> sees src (pos + length v) s"
proof -
  assume s: "sees src pos (v @ s)"
  then have "drop (length v) (drop pos src) = s" by (simp add: sees_def)
  with sees_length [OF s] show ?thesis by (auto simp: sees_def add.commute)
qed

lemma json_value_literal:
  assumes "v = ''true'' \<or> v = ''false'' \<or> v = ''null''" shows "json_value alloc fp v"
proof -
  have "\<exists>q. kc_ipa_json_skip_value n alloc fp src pos = Inr q \<and> sees src q s"
    if s: "sees src pos (v @ s)" and n: "length src - pos < n" for n src pos s
  proof -
    obtain m where m: "n = Suc m" using n by (cases n) auto
    have "skip_literal src pos v = Inr (pos + length v)"
      using s sees_length [OF s] by (auto simp: skip_literal_def sees_def)
    moreover obtain c t where v: "v = c # t" by (cases v) (use assms in auto)
    then have c: "c \<in> {CHR ''t'', CHR ''f'', CHR ''n''}" using assms by auto
    then have sp: "\<not> is_space c" by (auto simp: is_space_def)
    have h: "sees src pos (c # t @ s)" using s v by simp
    have "kc_ipa_json_skip_value n alloc fp src pos = skip_literal src pos v"
      using assms v unfolding m skip_value_at [OF h sp] by auto
    ultimately show ?thesis using sees_append [OF s] by simp
  qed
  then show ?thesis by (simp add: json_value_def)
qed

lemma json_value_string:
  assumes "\<forall>n. alloc n" shows "json_value alloc fp (json_print_string t)"
proof (cases t)
  case None
  then show ?thesis using json_value_literal [of "''null''"] by (simp add: json_print_string_def)
next
  case (Some u)
  have "\<exists>q. kc_ipa_json_skip_value n alloc fp src pos = Inr q \<and> sees src q s"
    if s: "sees src pos (quoted u @ s)" and n: "length src - pos < n" for n src pos s
  proof -
    obtain m where m: "n = Suc m" using n by (cases n) auto
    obtain x where "sees src pos (CHR 0x22 # x)" using s quoted_head [of u] by auto
    from skip_value_at [OF this] parse_any_printed_string [OF s assms] show ?thesis unfolding m by auto
  qed
  with Some show ?thesis by (simp add: json_value_def)
qed

lemma fixed4_head:
  assumes "f32_val w = Fin x"
  shows "\<exists>c t. fixed4 w = c # t \<and> \<not> is_space c \<and> c \<notin> {CHR 0x22, CHR ''{'', CHR ''['', CHR ''t'', CHR ''f'', CHR ''n''}"
    and "NUL \<notin> set (fixed4 w)"
proof -
  let ?d = "nat_text (ten_thousandths w div 10000)"
  have d: "?d \<noteq> []" "\<forall>c \<in> set ?d. is_digit c" using nat_text_digits by auto
  have q: "is_digit c \<Longrightarrow> c \<notin> {NUL, CHR 0x22, CHR ''{'', CHR ''['', CHR ''t'', CHR ''f'', CHR ''n''} \<and> \<not> is_space c" for c
    by (auto simp: is_digit_def is_space_def)
  obtain c t where c: "?d = c # t" using d(1) by (cases ?d) auto
  then have "is_digit c" using d(2) by simp
  from q [OF this] c show "\<exists>c t. fixed4 w = c # t \<and> \<not> is_space c \<and> c \<notin> {CHR 0x22, CHR ''{'', CHR ''['', CHR ''t'', CHR ''f'', CHR ''n''}"
    by (auto simp: fixed4_finite [OF assms] is_space_def)
  show "NUL \<notin> set (fixed4 w)" using q d(2) pad4_digits(2) [of "ten_thousandths w mod 10000"] by (auto simp: fixed4_finite [OF assms])
qed

lemma json_value_score:
  assumes w: "f32_val w = Fin x" shows "json_value alloc fp (fixed4 w)"
proof -
  have "\<exists>q. kc_ipa_json_skip_value n alloc fp src pos = Inr q \<and> sees src q s"
    if s: "sees src pos (fixed4 w @ s)" and e: "ends_number s" and n: "length src - pos < n" for n src pos s
  proof -
    obtain m where m: "n = Suc m" using n by (cases n) auto
    obtain c t where c: "fixed4 w = c # t" "\<not> is_space c" "c \<notin> {CHR 0x22, CHR ''{'', CHR ''['', CHR ''t'', CHR ''f'', CHR ''n''}"
      using fixed4_head(1) [OF w] by blast
    then have h: "sees src pos (c # t @ s)" using s by simp
    have "c_str (fixed4 w @ s) = fixed4 w @ c_str s"
      unfolding c_str_def using fixed4_head(2) [OF w] by (subst takeWhile_append2) auto
    moreover have "ends_number (c_str s)" using e by (cases s) (auto simp: ends_number_def c_str_def)
    ultimately have "snd (strtod (fp_double fp) (c_str (drop pos src))) = length (fixed4 w)"
      using s strtod_fixed4 [OF w] by (simp add: sees_def)
    with skip_value_at [OF h c(2)] c(1,3) have "kc_ipa_json_skip_value n alloc fp src pos = Inr (pos + length (fixed4 w))"
      unfolding m by (auto split: prod.splits)
    with sees_append [OF s] show ?thesis by blast
  qed
  then show ?thesis by (simp add: json_value_def)
qed

text \<open>The two loops over printed parts, over a function that skips each part.\<close>

lemma skip_elements_printed:
  assumes "sees src pos (commas (v # vs) @ CHR '']'' # s)" "length src - pos < n"
    and sv: "\<And>x p r. x \<in> set (v # vs) \<Longrightarrow> sees src p (x @ r) \<Longrightarrow> ends_number r \<Longrightarrow> pos \<le> p \<Longrightarrow> \<exists>q. sv p = Inr q \<and> sees src q r"
  shows "\<exists>q. skip_elements n sv src pos = Inr q \<and> sees src q s"
  using assms
proof (induction vs arbitrary: v pos n)
  case Nil
  then obtain m where n: "n = Suc m" by (cases n) auto
  have s0: "sees src pos (v @ CHR '']'' # s)" using Nil.prems(1) by simp
  obtain q where q: "sv pos = Inr q" "sees src q (CHR '']'' # s)" using Nil.prems(3) [OF _ s0] by (auto simp: ends_number_def)
  note cl = sees_close [OF q(2), simplified]
  show ?case unfolding n by (rule exI [of _ "Suc q"]) (simp add: q(1) cl)
next
  case (Cons w ws)
  then obtain m where n: "n = Suc m" by (cases n) auto
  have s0: "sees src pos (v @ CHR '','' # commas (w # ws) @ CHR '']'' # s)" using Cons.prems(1) by simp
  obtain q where q: "sv pos = Inr q" "sees src q (CHR '','' # commas (w # ws) @ CHR '']'' # s)"
    using Cons.prems(3) [OF _ s0] by (auto simp: ends_number_def)
  note cm = sees_comma [OF q(2)]
  have lt: "length src - Suc q < m" "pos \<le> q" using Cons.prems(2) n sees_length [OF s0] sees_length [OF q(2)] by auto
  have "\<exists>q'. skip_elements m sv src (Suc q) = Inr q' \<and> sees src q' s"
  proof (rule Cons.IH [OF cm(3) lt(1)])
    fix x p r assume "x \<in> set (w # ws)" "sees src p (x @ r)" "ends_number r" "Suc q \<le> p"
    then show "\<exists>q. sv p = Inr q \<and> sees src q r" using Cons.prems(3) [of x p r] lt(2) by simp
  qed
  then show ?case unfolding n by (simp add: q(1) cm(1,2))
qed

definition show_member :: "string \<times> string \<Rightarrow> string" where
  "show_member kv = quoted (fst kv) @ CHR '':'' # snd kv"

lemma skip_members_printed:
  assumes "sees src pos (commas (map show_member (kv # kvs)) @ CHR ''}'' # s)" "length src - pos < n" and mem: "\<forall>n. alloc n"
    and sv: "\<And>x p r. x \<in> snd ` set (kv # kvs) \<Longrightarrow> sees src p (x @ r) \<Longrightarrow> ends_number r \<Longrightarrow> pos \<le> p \<Longrightarrow>
      \<exists>q. sv p = Inr q \<and> sees src q r"
  shows "\<exists>q. skip_members n sv alloc src pos = Inr q \<and> sees src q s"
  using assms(1,2,4)
proof (induction kvs arbitrary: kv pos n)
  case Nil
  then obtain m where n: "n = Suc m" by (cases n) auto
  have s0: "sees src pos (quoted (fst kv) @ CHR '':'' # snd kv @ CHR ''}'' # s)" using Nil.prems(1) by (simp add: show_member_def)
  obtain k p where p: "kc_ipa_json_parse_string alloc src pos = Inr (k, p)" "sees src p (CHR '':'' # snd kv @ CHR ''}'' # s)"
    using parse_any_printed_string [OF s0 mem] by blast
  have p1: "kc_ipa_json_expect src p (CHR '':'') = Inr (Suc p)" "sees src (Suc p) (snd kv @ CHR ''}'' # s)" "pos \<le> Suc p"
    using sees_expect [OF p(2)] sees_Cons [OF p(2)] sees_length [OF s0] sees_length [OF p(2)] by auto
  obtain q where q: "sv (Suc p) = Inr q" "sees src q (CHR ''}'' # s)" using Nil.prems(3) [OF _ p1(2)] p1(3) by (auto simp: ends_number_def)
  note cl = sees_close [OF q(2), simplified]
  show ?case unfolding n by (rule exI [of _ "Suc q"]) (simp add: p(1) p1(1) q(1) cl)
next
  case (Cons kw kws)
  then obtain m where n: "n = Suc m" by (cases n) auto
  let ?r = "CHR '','' # commas (map show_member (kw # kws)) @ CHR ''}'' # s"
  have s0: "sees src pos (quoted (fst kv) @ CHR '':'' # snd kv @ ?r)" using Cons.prems(1) by (simp add: show_member_def [of kv])
  obtain k p where p: "kc_ipa_json_parse_string alloc src pos = Inr (k, p)" "sees src p (CHR '':'' # snd kv @ ?r)"
    using parse_any_printed_string [OF s0 mem] by blast
  have p1: "kc_ipa_json_expect src p (CHR '':'') = Inr (Suc p)" "sees src (Suc p) (snd kv @ ?r)" "pos \<le> Suc p"
    using sees_expect [OF p(2)] sees_Cons [OF p(2)] sees_length [OF s0] sees_length [OF p(2)] by auto
  obtain q where q: "sv (Suc p) = Inr q" "sees src q ?r" using Cons.prems(3) [OF _ p1(2)] p1(3) by (auto simp: ends_number_def)
  note cm = sees_comma [OF q(2)]
  have lt: "length src - Suc q < m" "pos \<le> q" using Cons.prems(2) n sees_length [OF s0] sees_length [OF q(2)] by auto
  have "\<exists>q'. skip_members m sv alloc src (Suc q) = Inr q' \<and> sees src q' s"
  proof (rule Cons.IH [OF cm(3) lt(1)])
    fix x p r assume "x \<in> snd ` set (kw # kws)" "sees src p (x @ r)" "ends_number r" "Suc q \<le> p"
    then show "\<exists>q. sv p = Inr q \<and> sees src q r" using Cons.prems(3) [of x p r] lt(2) by simp
  qed
  then show ?case unfolding n by (simp add: p(1) p1(1) q(1) cm(1,2))
qed

lemma skip_value_array:
  assumes s: "sees src pos (CHR ''['' # commas vs @ CHR '']'' # s)" and n: "length src - pos < n"
    and vs: "\<forall>v \<in> set vs. json_value alloc fp v" and hd: "\<forall>v \<in> set vs. \<exists>c t. v = c # t \<and> \<not> is_space c \<and> c \<noteq> CHR '']''"
  shows "\<exists>q. kc_ipa_json_skip_value n alloc fp src pos = Inr q \<and> sees src q s"
proof -
  obtain m where m: "n = Suc m" using n by (cases n) auto
  have e: "kc_ipa_json_expect src pos (CHR ''['') = Inr (Suc pos)" "sees src (Suc pos) (commas vs @ CHR '']'' # s)"
    using sees_expect [OF s] sees_Cons [OF s] by auto
  have "\<exists>q. kc_ipa_json_skip_array m (kc_ipa_json_skip_value m alloc fp src) src pos = Inr q \<and> sees src q s"
  proof (cases vs)
    case Nil
    then have "sees src (Suc pos) (CHR '']'' # s)" using e(2) by simp
    note cl = sees_close [OF this, simplified] sees_peek [OF this]
    from e cl show ?thesis by (simp add: kc_ipa_json_skip_array_def)
  next
    case (Cons v ws)
    then obtain c t where c: "v = c # t" "\<not> is_space c" "c \<noteq> CHR '']''" using hd by auto
    obtain u where u: "sees src (Suc pos) (c # u)" using e(2) Cons c by (auto simp: commas_Cons)
    have "length src - Suc pos < m" using n m sees_length [OF s] by auto
    moreover have "\<exists>q. kc_ipa_json_skip_value m alloc fp src p = Inr q \<and> sees src q r"
      if "x \<in> set (v # ws)" "sees src p (x @ r)" "ends_number r" "Suc pos \<le> p" for x p r
      using json_valueD [of alloc fp x src p r m] that vs Cons calculation by auto
    ultimately have "\<exists>q. skip_elements m (kc_ipa_json_skip_value m alloc fp src) src (Suc pos) = Inr q \<and> sees src q s"
      using e(2) Cons by (intro skip_elements_printed) auto
    with e sees_ws [OF u c(2)] sees_peek [OF u] c(3) show ?thesis by (simp add: kc_ipa_json_skip_array_def)
  qed
  then show ?thesis unfolding m skip_value_at [OF s spaces(6)] by simp
qed

lemma skip_value_object:
  assumes s: "sees src pos (CHR ''{'' # commas (map show_member kvs) @ CHR ''}'' # s)" and n: "length src - pos < n"
    and vs: "\<forall>v \<in> snd ` set kvs. json_value alloc fp v" and mem: "\<forall>n. alloc n"
  shows "\<exists>q. kc_ipa_json_skip_value n alloc fp src pos = Inr q \<and> sees src q s"
proof -
  obtain m where m: "n = Suc m" using n by (cases n) auto
  have e: "kc_ipa_json_expect src pos (CHR ''{'') = Inr (Suc pos)" "sees src (Suc pos) (commas (map show_member kvs) @ CHR ''}'' # s)"
    using sees_expect [OF s] sees_Cons [OF s] by auto
  have "\<exists>q. kc_ipa_json_skip_object m (kc_ipa_json_skip_value m alloc fp src) alloc src pos = Inr q \<and> sees src q s"
  proof (cases kvs)
    case Nil
    then have "sees src (Suc pos) (CHR ''}'' # s)" using e(2) by simp
    note cl = sees_close [OF this, simplified] sees_peek [OF this]
    from e cl show ?thesis by (simp add: kc_ipa_json_skip_object_def)
  next
    case (Cons kv kws)
    obtain u where u: "sees src (Suc pos) (CHR 0x22 # u)"
      using e(2) Cons quoted_head [of "fst kv"] by (auto simp: commas_Cons show_member_def)
    have "length src - Suc pos < m" using n m sees_length [OF s] by auto
    moreover have "\<exists>q. kc_ipa_json_skip_value m alloc fp src p = Inr q \<and> sees src q r"
      if "x \<in> snd ` set (kv # kws)" "sees src p (x @ r)" "ends_number r" "Suc pos \<le> p" for x p r
      using json_valueD [of alloc fp x src p r m] that vs Cons calculation by auto
    ultimately have "\<exists>q. skip_members m (kc_ipa_json_skip_value m alloc fp src) alloc src (Suc pos) = Inr q \<and> sees src q s"
      using e(2) Cons mem by (intro skip_members_printed [of src _ kv kws]) simp_all
    with e sees_ws [OF u] sees_peek [OF u] show ?thesis by (simp add: kc_ipa_json_skip_object_def)
  qed
  then show ?thesis unfolding m skip_value_at [OF s spaces(4)] by simp
qed

subsection \<open>Results\<close>

text \<open>A match that prints as JSON: finite scores and emits with keys, at every level.\<close>

fun printable_match :: "kc_ipa_match_t \<Rightarrow> bool" where
  "printable_match (Match i sp score emits children) \<longleftrightarrow>
     (\<exists>x. f32_val score = Fin x) \<and> (\<forall>e \<in> set emits. em_key e \<noteq> None) \<and> (\<forall>c \<in> set children. printable_match c)"

definition emit_members :: "kc_ipa_emit_t list \<Rightarrow> (string \<times> string) list" where
  "emit_members es = map (\<lambda>e. (the (em_key e), json_print_string (em_value e))) es"

definition match_members :: "kc_ipa_match_t \<Rightarrow> (string \<times> string) list" where
  "match_members m =
     [(''id'', quoted (ma_id m)), (''span'', quoted (ma_span m)), (''score'', fixed4 (ma_score m))] @
     (if ma_emits m \<noteq> [] then [(''emit'', CHR ''{'' # commas (map show_member (emit_members (ma_emits m))) @ ''}'')] else []) @
     (if ma_children m \<noteq> [] then [(''children'', CHR ''['' # commas (map (\<lambda>c. print_match c 0) (ma_children m)) @ '']'')] else [])"

lemma print_match_object:
  assumes "printable_match m"
  shows "print_match m 0 = CHR ''{'' # commas (map show_member (match_members m)) @ ''}''"
proof (cases m)
  case (Match i sp score emits children)
  have "map print_emit emits = map show_member (emit_members emits)"
    using assms Match by (auto simp: print_emit_def show_member_def emit_members_def)
  then show ?thesis by (simp add: Match match_members_def show_member_def [of "(_, _)"] print_emits_def pad_def)
qed

lemma json_value_object:
  assumes "\<forall>v \<in> snd ` set kvs. json_value alloc fp v" "\<forall>n. alloc n"
  shows "json_value alloc fp (CHR ''{'' # commas (map show_member kvs) @ ''}'')"
  using skip_value_object [OF _ _ assms] by (simp add: json_value_def)

lemma json_value_array:
  assumes "\<forall>v \<in> set vs. json_value alloc fp v" "\<forall>v \<in> set vs. \<exists>c t. v = c # t \<and> \<not> is_space c \<and> c \<noteq> CHR '']''"
  shows "json_value alloc fp (CHR ''['' # commas vs @ '']'')"
  using skip_value_array [OF _ _ assms] by (simp add: json_value_def)

lemma json_value_matches:
  assumes "\<forall>m \<in> set ms. printable_match m \<and> json_value alloc fp (print_match m 0)"
  shows "json_value alloc fp (CHR ''['' # commas (map (\<lambda>c. print_match c 0) ms) @ '']'')"
proof (rule json_value_array)
  show "\<forall>v \<in> set (map (\<lambda>c. print_match c 0) ms). \<exists>c t. v = c # t \<and> \<not> is_space c \<and> c \<noteq> CHR '']''"
    using assms print_match_object by auto
qed (use assms in auto)

lemma json_value_match:
  assumes "\<forall>n. alloc n" "printable_match m" shows "json_value alloc fp (print_match m 0)"
  using assms(2)
proof (induction m)
  case (Match i sp score emits children)
  have "json_value alloc fp (CHR ''{'' # commas (map show_member (emit_members emits)) @ ''}'')"
    by (rule json_value_object) (auto simp: emit_members_def json_value_string [OF assms(1)] assms(1))
  moreover have "json_value alloc fp (CHR ''['' # commas (map (\<lambda>c. print_match c 0) children) @ '']'')"
    by (rule json_value_matches) (use Match in auto)
  moreover have "json_value alloc fp (fixed4 score)" using Match.prems json_value_score by auto
  ultimately have "\<forall>v \<in> snd ` set (match_members (Match i sp score emits children)). json_value alloc fp v"
    using json_value_string [OF assms(1)] by (auto simp: match_members_def)
  then show ?case unfolding print_match_object [OF Match.prems] by (rule json_value_object [OF _ assms(1)])
qed

lemma result_skipped:
  assumes "\<forall>m \<in> set (rs_matches r). printable_match m" "never_fails alloc"
  shows "kc_ipa_json_skip_value (json_fuel (print_result r)) alloc fp (print_result r) 0 = Inr (length (print_result r) - 1)"
proof -
  let ?kvs = "[(''ok'', if rs_ok r then ''true'' else ''false''),
     (''matches'', CHR ''['' # commas (map (\<lambda>m. print_match m 0) (rs_matches r)) @ '']'')]"
  have "sees (print_result r) 0 (CHR ''{'' # commas (map show_member ?kvs) @ CHR ''}'' # [CHR 0x0A])"
    by (simp add: sees_def print_result_def show_member_def)
  moreover have "\<forall>v \<in> snd ` set ?kvs. json_value alloc fp v"
    using json_value_matches [of "rs_matches r" alloc fp] json_value_match [OF assms(2)] assms(1) json_value_literal by auto
  ultimately obtain q where q: "kc_ipa_json_skip_value (json_fuel (print_result r)) alloc fp (print_result r) 0 = Inr q"
      "sees (print_result r) q [CHR 0x0A]"
    using skip_value_object [of "print_result r" 0 ?kvs "[CHR 0x0A]" "json_fuel (print_result r)" alloc fp] assms(2)
    by (auto simp: json_fuel_def)
  from sees_length [OF q(2)] have "q = length (print_result r) - 1" by auto
  with q(1) show ?thesis by simp
qed

text \<open>C29. What the command line tool prints for a result is one JSON value followed by a newline: when every
  score is finite and every emit has its key, the library's own reader, given memory, skips the printed text as
  a single value, whatever bytes the spans and emitted values hold.\<close>

theorem printed_result_is_json:
  assumes "\<forall>m \<in> set (rs_matches r). printable_match m" "never_fails alloc"
  shows "kc_ipa_json_skip_value (json_fuel (print_result r)) alloc fp (print_result r) 0 = Inr (length (print_result r) - 1)"
  using assms by (rule result_skipped)

definition sample_result :: kc_ipa_result_t where
  "sample_result = \<lparr>rs_ok = True, rs_matches =
     [Match ''n'' ''turn on'' 0x3F800000 [\<lparr>em_key = Some ''k'', em_value = Some [CHR 0x01]\<rparr>]
        [Match ''c'' ''on'' 0x3F800000 [] []]]\<rparr>"

lemma printed_result_is_json_witness:
  "kc_ipa_json_skip_value (json_fuel (print_result sample_result)) granting sample_fp (print_result sample_result) 0 =
     Inr (length (print_result sample_result) - 1)"
proof -
  have "f32_val 0x3F800000 = Fin 1"
    by (simp add: f32_val_def Let_def take_bit_eq_mod drop_bit_eq_div bit_iff_odd_drop_bit)
  then have "\<forall>m \<in> set (rs_matches sample_result). printable_match m" by (simp add: sample_result_def)
  from printed_result_is_json [OF this] show ?thesis by simp
qed

end
