(* ===== verification/Cli.thy ===== *)
theory Cli
  imports Cli_Print Open_Safety Signals
begin

section \<open>The command line tool (src/ipa.c: read\_stdin, print\_help, print\_version, main)\<close>

text \<open>
  The rest of the command line tool. A run of the process starts from its arguments, environment and
  standard input, from what opening a file for reading or writing gives, and from the host of the
  library; it ends with an exit code, what was written to the two standard streams, the file that build
  mode wrote, and the states of the operating system and of the signal listener. A fault of the library
  (an access that C leaves undefined) is a fault of the run.
\<close>

subsection \<open>Standard input\<close>

text \<open>The read loop: \<open>fread\<close> delivers the remaining bytes in chunks of 4096. The state is the buffer's
  contents and its capacity; \<open>None\<close> is a refused \<open>realloc\<close>.\<close>

function read_chunks :: "allocator \<Rightarrow> string \<Rightarrow> string \<Rightarrow> nat \<Rightarrow> (string \<times> nat) option" where
  "read_chunks alloc rest data cap =
     (let chunk = take 4096 rest; n = length chunk
      in if n = 0 then Some (data, cap)
         else if length data + n + 1 > cap then
           (case double_until (if cap \<noteq> 0 then cap * 2 else 4096) (length data + n + 1) of
              Inl _ \<Rightarrow> None
            | Inr next \<Rightarrow> if alloc next then read_chunks alloc (drop 4096 rest) (data @ chunk) next else None)
         else read_chunks alloc (drop 4096 rest) (data @ chunk) cap)"
  by pat_completeness auto
termination
  by (relation "measure (\<lambda>(alloc, rest, data, cap). length rest)") (auto simp: min_def split: if_splits)

declare read_chunks.simps [simp del]

text \<open>\<open>while (len > 0 && (data[len - 1] == '\n' || data[len - 1] == '\r')) len--;\<close>\<close>

fun strip_len :: "string \<Rightarrow> nat \<Rightarrow> nat" where
  "strip_len data 0 = 0"
| "strip_len data (Suc n) =
     (if data ! n = CHR 0x0A \<or> data ! n = CHR 0x0D then strip_len data n else Suc n)"

text \<open>\<open>None\<close> is the return value -1, \<open>Some None\<close> a null text.\<close>

definition read_stdin :: "allocator \<Rightarrow> string \<Rightarrow> bool \<Rightarrow> string option option" where
  "read_stdin alloc input ferr =
     (case read_chunks alloc input [] 0 of
        None \<Rightarrow> None
      | Some (data, cap) \<Rightarrow>
          if ferr then None
          else if length data = 0 then Some None
          else Some (Some (c_str (take (strip_len data (length data)) data))))"

subsection \<open>Messages\<close>

definition KC_IPA_VERSION :: string where
  "KC_IPA_VERSION = ''1.1.0''"

definition line :: "string \<Rightarrow> string" where
  "line s = s @ [CHR 0x0A]"

definition print_help :: "string \<Rightarrow> string" where
  "print_help name =
     line (''Usage: '' @ name @ '' <schema.ipa> [text]          Parse mode'') @
     line (''       '' @ name @ '' <schema.json> -b              Build mode'') @
     line [] @
     line ''Options:'' @
     line ''    -b, --build         Compile schema.json into schema.ipa'' @
     line ''    -h, --help          Show this help'' @
     line ''    -v, --version       Show version''"

definition print_version :: string where
  "print_version = line (''ipa '' @ KC_IPA_VERSION)"

definition status_text :: "ipa_status \<Rightarrow> string" where
  "status_text rc = (case rc of KC_IPA_OK \<Rightarrow> ''0'' | KC_IPA_ERROR \<Rightarrow> ''-1'' | KC_IPA_EFORMAT \<Rightarrow> ''-2'')"

subsection \<open>Arguments\<close>

text \<open>How the argument loop ends: with a return, or with the options, the text and the mode.\<close>

datatype cli_args =
    Show_Help
  | Show_Version
  | Unknown_Option string
  | Run kc_ipa_options_t "string option" bool

primrec parse_args :: "allocator \<Rightarrow> string list \<Rightarrow> kc_ipa_options_t \<Rightarrow> string option \<Rightarrow> bool \<Rightarrow> nat \<Rightarrow> cli_args" where
  "parse_args alloc [] opts text_arg build_mode pos_count = Run opts text_arg build_mode"
| "parse_args alloc (arg # args) opts text_arg build_mode pos_count =
     (if arg = ''-h'' \<or> arg = ''--help'' then Show_Help
      else if arg = ''-v'' \<or> arg = ''--version'' then Show_Version
      else if arg = ''-b'' \<or> arg = ''--build'' then parse_args alloc args opts text_arg True pos_count
      else if arg = [] \<or> hd arg \<noteq> CHR ''-'' then
        (if pos_count = 0 then
           parse_args alloc args (opts\<lparr>schema_path := strdup alloc arg\<rparr>) text_arg build_mode (pos_count + 1)
         else if pos_count = 1 then parse_args alloc args opts (Some arg) build_mode (pos_count + 1)
         else parse_args alloc args opts text_arg build_mode pos_count)
      else Unknown_Option arg)"

definition out_path :: "allocator \<Rightarrow> string \<Rightarrow> string option" where
  "out_path alloc path =
     (let plen = length path
      in if plen > 5 \<and> drop (plen - 5) path = ''.json''
         then (if alloc (plen + 1) then Some (take (plen - 5) path @ ''.ipa'') else None)
         else (if alloc (plen + 5) then Some (path @ ''.ipa'') else None))"

subsection \<open>The process\<close>

record process =
  pr_host :: host
  pr_name :: string
  pr_args :: "string list"
  pr_env :: "string \<Rightarrow> string option"
  pr_stdin :: string
  pr_ferror :: bool
  pr_fin :: "string \<Rightarrow> input_file option"
  pr_fout :: "string \<Rightarrow> nat option"
  pr_addr1 :: u64
  pr_addr2 :: u64
  pr_handle :: nat

record outcome =
  oc_exit :: int
  oc_out :: string
  oc_err :: string
  oc_file :: "(string \<times> string) option"
  oc_os :: os_state
  oc_signals :: signal_world

datatype cli_fault = Build_Fault build_stop | Open_Fault fault | Parse_Fault scan_fault

definition exits :: "int \<Rightarrow> string \<Rightarrow> string \<Rightarrow> os_state \<Rightarrow> outcome" where
  "exits code out err os =
     \<lparr>oc_exit = code, oc_out = out, oc_err = err, oc_file = None, oc_os = os, oc_signals = no_signals\<rparr>"

text \<open>The branch of \<open>main\<close> for build mode.\<close>

definition build_run :: "process \<Rightarrow> string \<Rightarrow> os_state \<Rightarrow> cli_fault + outcome" where
  "build_run p path os =
     (case out_path (ho_alloc (pr_host p)) path of
        None \<Rightarrow> Inr (exits 1 [] (line ''ipa: out of memory'') os)
      | Some out \<Rightarrow>
          (case kc_ipa_build (ho_alloc (pr_host p)) (ho_fp (pr_host p)) (ho_emb (pr_host p)) (pr_fin p path) (pr_fout p out) of
             Inl f \<Rightarrow> Inl (Build_Fault f)
           | Inr (rc, data) \<Rightarrow>
               let oc = (if rc = KC_IPA_EFORMAT then exits 2 [] (line (''ipa: invalid schema: '' @ path)) os
                         else if rc \<noteq> KC_IPA_OK then exits 2 [] (line (''ipa: build failed: '' @ path)) os
                         else exits 0 [] [] os)
               in Inr (oc\<lparr>oc_file := map_option (\<lambda>d. (out, d)) data\<rparr>)))"

text \<open>The text to parse: the argument, or standard input; \<open>None\<close> when it cannot be read.\<close>

definition input_text :: "process \<Rightarrow> string option \<Rightarrow> string option option" where
  "input_text p text_arg =
     (case text_arg of
        None \<Rightarrow> read_stdin (ho_alloc (pr_host p)) (pr_stdin p) (pr_ferror p)
      | Some t \<Rightarrow> Some (Some t))"

text \<open>Opening the schema, parsing and printing.\<close>

definition parse_run :: "process \<Rightarrow> kc_ipa_options_t \<Rightarrow> string \<Rightarrow> os_state \<Rightarrow> cli_fault + outcome" where
  "parse_run p opts text os =
     (case kc_ipa_open (pr_host p) (pr_addr1 p) (pr_addr2 p) True (Some opts) os of
        Inl f \<Rightarrow> Inl (Open_Fault f)
      | Inr (rc, schema, os1) \<Rightarrow>
          if rc \<noteq> KC_IPA_OK then Inr (exits 1 [] (line (''ipa: failed to open schema: '' @ the (schema_path opts))) os1)
          else
            let sw = snd (kc_ipa_listen_signals (Some (pr_handle p)) (no_signals\<lparr>sw_heap := [pr_handle p \<mapsto> the schema]\<rparr>));
                (_, os2, sw') = kc_ipa_close_handle (Some (pr_handle p)) os1 sw
            in (case kc_ipa_parse (pr_host p) schema (Some text) True of
                  Inl f \<Rightarrow> Inl (Parse_Fault f)
                | Inr (rc2, result) \<Rightarrow>
                    if rc2 \<noteq> KC_IPA_OK then
                      Inr ((exits 1 [] (line (''ipa: parse failed (rc='' @ status_text rc2 @ '')'')) os2)\<lparr>oc_signals := sw'\<rparr>)
                    else Inr ((exits 0 (print_result (the result)) [] os2)\<lparr>oc_signals := sw'\<rparr>)))"

definition main :: "process \<Rightarrow> os_state \<Rightarrow> cli_fault + outcome" where
  "main p os =
     (let alloc = ho_alloc (pr_host p);
          opts0 = the (kc_ipa_options_load_env alloc (ho_fp (pr_host p)) (pr_env p) (Some kc_ipa_options_default))
      in case parse_args alloc (pr_args p) opts0 None False 0 of
           Show_Help \<Rightarrow> Inr (exits 0 (print_help (pr_name p)) [] os)
         | Show_Version \<Rightarrow> Inr (exits 0 print_version [] os)
         | Unknown_Option arg \<Rightarrow> Inr (exits 1 [] (line (''ipa: unknown option '' @ [CHR 0x27] @ arg @ [CHR 0x27])) os)
         | Run opts text_arg build_mode \<Rightarrow>
             (case schema_path opts of
                None \<Rightarrow> Inr (exits 1 (print_help (pr_name p)) [] os)
              | Some path \<Rightarrow>
                  if build_mode then build_run p path os
                  else (case input_text p text_arg of
                          None \<Rightarrow> Inr (exits 1 [] (line ''ipa: failed to read stdin'') os)
                        | Some None \<Rightarrow> Inr (exits 0 [] [] os)
                        | Some (Some text) \<Rightarrow>
                            if text = [] then Inr (exits 0 [] [] os) else parse_run p opts text os)))"

subsection \<open>Reading standard input\<close>

definition is_newline :: "char \<Rightarrow> bool" where
  "is_newline c \<longleftrightarrow> c = CHR 0x0A \<or> c = CHR 0x0D"

lemma read_chunks_step:
  assumes "rest \<noteq> []" "length data < cap \<or> (data = [] \<and> cap = 0)"
  shows "\<exists>next. length (data @ take 4096 rest) < next \<and> (next = cap \<or> cap < next) \<and>
    read_chunks alloc rest data cap =
      (if next = cap \<or> alloc next then read_chunks alloc (drop 4096 rest) (data @ take 4096 rest) next else None)"
proof (cases "length data + length (take 4096 rest) + 1 > cap")
  case True
  let ?start = "if cap \<noteq> 0 then cap * 2 else 4096" and ?need = "length data + length (take 4096 rest) + 1"
  have "0 < ?start" by simp
  from double_until_spec [OF this] obtain n where n: "double_until ?start ?need = Inr n" "?need \<le> n" "?start \<le> n" by blast
  then have "cap < n" by (auto split: if_splits)
  with n True assms(1) show ?thesis by (intro exI [of _ n]) (subst read_chunks.simps, auto simp: Let_def)
next
  case False
  with assms(1) show ?thesis by (intro exI [of _ cap]) (subst read_chunks.simps, auto simp: Let_def)
qed

lemma read_chunks_spec:
  assumes "length data < cap \<or> (data = [] \<and> cap = 0)"
  shows "(\<forall>d c. read_chunks alloc rest data cap = Some (d, c) \<longrightarrow> d = data @ rest \<and> (d \<noteq> [] \<longrightarrow> length d < c)) \<and>
    (never_fails alloc \<longrightarrow> read_chunks alloc rest data cap \<noteq> None)"
  using assms
proof (induction "length rest" arbitrary: rest data cap rule: less_induct)
  case less
  show ?case
  proof (cases "rest = []")
    case True
    with less.prems show ?thesis by (subst (1 2) read_chunks.simps) auto
  next
    case False
    from read_chunks_step [OF this less.prems, of alloc] obtain c where c: "length (data @ take 4096 rest) < c"
      "read_chunks alloc rest data cap =
        (if c = cap \<or> alloc c then read_chunks alloc (drop 4096 rest) (data @ take 4096 rest) c else None)" by blast
    have "length (drop 4096 rest) < length rest" using False by simp
    from less.hyps [OF this, of "data @ take 4096 rest" c] c show ?thesis by auto
  qed
qed

lemma strip_len_spec: "n \<le> length data \<Longrightarrow> take (strip_len data n) data = rev (dropWhile is_newline (rev (take n data)))"
  by (induction n) (auto simp: take_Suc_conv_app_nth is_newline_def)

text \<open>C31. Reading standard input keeps every byte in the buffer it grew: whatever requests are refused, a read
  that finishes holds exactly the input, with room for the terminator that is written behind it. With memory
  available the result is the input without its trailing line ends (up to the first NUL, as every C string),
  a null pointer for an empty input, and a failure exactly when the stream reports an error.\<close>

theorem stdin_is_read:
  "(\<forall>data cap. read_chunks alloc input [] 0 = Some (data, cap) \<longrightarrow> data = input \<and> (input \<noteq> [] \<longrightarrow> length data < cap)) \<and>
   (never_fails alloc \<longrightarrow> read_stdin alloc input ferr =
      (if ferr then None else if input = [] then Some None
       else Some (Some (c_str (rev (dropWhile is_newline (rev input)))))))"
  using read_chunks_spec [of "[]" 0 alloc input] strip_len_spec [of "length input" input]
  by (cases "read_chunks alloc input [] 0") (auto simp: read_stdin_def)

lemma stdin_is_read_witness: "read_stdin granting [CHR ''o'', CHR ''n'', CHR 0x0D, CHR 0x0A] False = Some (Some ''on'')"
  using stdin_is_read [of granting "[CHR ''o'', CHR ''n'', CHR 0x0D, CHR 0x0A]" False] by (simp add: is_newline_def c_str_def)

subsection \<open>What the arguments mean\<close>

definition positional :: "string \<Rightarrow> bool" where
  "positional arg \<longleftrightarrow> arg = [] \<or> hd arg \<noteq> CHR ''-''"

definition build_flag :: "string \<Rightarrow> bool" where
  "build_flag arg \<longleftrightarrow> arg = ''-b'' \<or> arg = ''--build''"

text \<open>Every other argument ends the loop.\<close>

definition stop_answer :: "string \<Rightarrow> cli_args" where
  "stop_answer arg =
     (if arg = ''-h'' \<or> arg = ''--help'' then Show_Help
      else if arg = ''-v'' \<or> arg = ''--version'' then Show_Version else Unknown_Option arg)"

lemma parse_args_spec:
  "parse_args alloc args opts ta b k =
     (case filter (\<lambda>a. \<not> positional a \<and> \<not> build_flag a) args of
        a # _ \<Rightarrow> stop_answer a
      | [] \<Rightarrow>
          let ps = filter positional args
          in Run (if k = 0 \<and> ps \<noteq> [] then opts\<lparr>schema_path := strdup alloc (hd ps)\<rparr> else opts)
                 (if k = 0 \<and> 2 \<le> length ps then Some (ps ! 1) else if k = 1 \<and> ps \<noteq> [] then Some (hd ps) else ta)
                 (b \<or> (\<exists>a \<in> set args. build_flag a)))"
proof (induction args arbitrary: opts ta b k)
  case (Cons a args)
  have flags: "\<not> positional ''-h''" "\<not> positional ''--help''" "\<not> positional ''-v''" "\<not> positional ''--version''"
    "\<not> positional ''-b''" "\<not> positional ''--build''" by (simp_all add: positional_def)
  consider (stop) "\<not> positional a" "\<not> build_flag a" | (flag) "build_flag a" | (pos) "positional a" "\<not> build_flag a" by blast
  then show ?case
  proof cases
    case stop
    then show ?thesis by (simp add: stop_answer_def positional_def build_flag_def)
  next
    case flag
    then have p: "\<not> positional a" using flags by (auto simp: build_flag_def)
    have "parse_args alloc (a # args) opts ta b k = parse_args alloc args opts ta True k"
      using flag by (auto simp: build_flag_def)
    then show ?thesis unfolding Cons.IH using flag p by (auto split: list.split)
  next
    case pos
    then have "a \<noteq> ''-h''" "a \<noteq> ''--help''" "a \<noteq> ''-v''" "a \<noteq> ''--version''" using flags by metis+
    then have "parse_args alloc (a # args) opts ta b k =
        (if k = 0 then parse_args alloc args (opts\<lparr>schema_path := strdup alloc a\<rparr>) ta b 1
         else if k = 1 then parse_args alloc args opts (Some a) b 2 else parse_args alloc args opts ta b k)"
      using pos by (simp add: positional_def build_flag_def numeral_2_eq_2)
    then show ?thesis unfolding Cons.IH using pos by (auto simp: hd_conv_nth Suc_le_eq Let_def split: list.split)
  qed
qed simp

text \<open>C34. What the command line means: the first argument that starts with a dash and is not the build flag
  decides the run (help, version, or an error for an unknown option) whatever stands around it. Without
  one, the first positional argument is the schema and replaces what the environment gave, the second is
  the text, further ones are ignored, and the build flag counts wherever it stands.\<close>

theorem arguments_mean:
  "parse_args alloc args opts None False 0 =
     (case filter (\<lambda>a. \<not> positional a \<and> \<not> build_flag a) args of
        a # _ \<Rightarrow> stop_answer a
      | [] \<Rightarrow>
          let ps = filter positional args
          in Run (if ps \<noteq> [] then opts\<lparr>schema_path := strdup alloc (hd ps)\<rparr> else opts)
                 (if 2 \<le> length ps then Some (ps ! 1) else None) (\<exists>a \<in> set args. build_flag a))"
  unfolding parse_args_spec by (simp add: Let_def split: list.split)

subsection \<open>How a run ends\<close>

lemma exits_simps [simp]:
  "oc_exit (exits c out err os) = c" "oc_out (exits c out err os) = out" "oc_err (exits c out err os) = err"
  "oc_os (exits c out err os) = os" "oc_signals (exits c out err os) = no_signals" "oc_file (exits c out err os) = None"
  by (simp_all add: exits_def)

definition silent_run :: "outcome \<Rightarrow> bool" where
  "silent_run oc \<longleftrightarrow> (oc_exit oc = 0 \<and> oc_err oc = []) \<or> (oc_exit oc \<noteq> 0 \<and> oc_err oc \<noteq> [] \<and> oc_out oc = [])"

lemma build_run_ends:
  assumes "build_run p path os = Inr oc"
  shows "silent_run oc \<and> oc_exit oc \<in> {0, 1, 2} \<and> oc_os oc = os \<and> oc_signals oc = no_signals \<and>
    (oc_exit oc = 2 \<longleftrightarrow> (\<exists>out rc data. out_path (ho_alloc (pr_host p)) path = Some out \<and> rc \<noteq> KC_IPA_OK \<and>
       kc_ipa_build (ho_alloc (pr_host p)) (ho_fp (pr_host p)) (ho_emb (pr_host p)) (pr_fin p path) (pr_fout p out) = Inr (rc, data)))"
proof (cases "out_path (ho_alloc (pr_host p)) path")
  case None
  with assms show ?thesis by (auto simp: build_run_def silent_run_def line_def)
next
  case (Some out)
  with assms show ?thesis
    by (cases "kc_ipa_build (ho_alloc (pr_host p)) (ho_fp (pr_host p)) (ho_emb (pr_host p)) (pr_fin p path) (pr_fout p out)")
      (auto simp: build_run_def silent_run_def line_def Let_def split: if_splits)
qed

lemma parse_run_ends:
  assumes "parse_run p opts t os = Inr oc"
  shows "silent_run oc \<and> oc_exit oc \<in> {0, 1} \<and> sw_wired (oc_signals oc) = {}"
  using assms
  by (auto simp: parse_run_def silent_run_def line_def Let_def kc_ipa_listen_signals_def close_handle_world no_signals_def
      split: if_splits sum.splits)

lemma parse_run_restores:
  assumes f: "fresh_calls (ho_sys (pr_host p)) path os" and o: "schema_path opts = Some path"
    and r: "parse_run p opts t os = Inr oc"
  shows "oc_os oc = os"
proof -
  have opts: "opts = \<lparr>schema_path = Some path\<rparr>" using o by simp
  obtain rc sc os1 where k: "kc_ipa_open (pr_host p) (pr_addr1 p) (pr_addr2 p) True (Some opts) os = Inr (rc, sc, os1)"
    using r by (auto simp: parse_run_def split: sum.splits)
  from open_restores [OF f k [unfolded opts]] r k show ?thesis
    by (auto simp: parse_run_def Let_def kc_ipa_listen_signals_def close_handle_world split: if_splits sum.splits)
qed

text \<open>The branches of \<open>main\<close>.\<close>

lemma main_cases:
  assumes "main p os = Inr oc"
  obtains (told) "oc_exit oc = 0" "oc_err oc = []" "oc_os oc = os" "oc_signals oc = no_signals"
  | (usage) "oc_exit oc = 1" "oc_out oc = print_help (pr_name p)" "oc_err oc = []" "oc_os oc = os" "oc_signals oc = no_signals"
  | (failed) "oc_exit oc = 1" "oc_out oc = []" "oc_err oc \<noteq> []" "oc_os oc = os" "oc_signals oc = no_signals"
  | (build) path where "build_run p path os = Inr oc"
  | (parse) opts path t where "schema_path opts = Some path" "parse_run p opts t os = Inr oc"
  using assms by (auto simp: main_def Let_def line_def split: cli_args.splits option.splits if_splits)

text \<open>C33. No failure of the command line tool is silent, and no success is noisy: a run that ends exits with 0, 1
  or 2; with 0 it has written nothing to standard error, with another code it has written a message there and
  nothing to standard output, or it has printed its usage because no schema was named.\<close>

theorem failures_are_reported:
  assumes "main p os = Inr oc"
  shows "oc_exit oc \<in> {0, 1, 2} \<and> (oc_exit oc = 0 \<longrightarrow> oc_err oc = []) \<and>
    (oc_exit oc \<noteq> 0 \<longrightarrow> (oc_err oc \<noteq> [] \<and> oc_out oc = []) \<or> (oc_exit oc = 1 \<and> oc_out oc = print_help (pr_name p)))"
  using assms
proof (cases rule: main_cases)
  case (build path)
  from build_run_ends [OF this] show ?thesis by (auto simp: silent_run_def)
next
  case (parse opts path t)
  from parse_run_ends [OF this(2)] show ?thesis by (auto simp: silent_run_def)
qed auto

definition sample_process :: "host \<Rightarrow> string list \<Rightarrow> process" where
  "sample_process ho args =
     \<lparr>pr_host = ho, pr_name = ''ipa'', pr_args = args, pr_env = (\<lambda>_. None), pr_stdin = [], pr_ferror = False,
      pr_fin = (\<lambda>_. sample_input), pr_fout = (\<lambda>_. Some (2 ^ 32)), pr_addr1 = 1, pr_addr2 = 2, pr_handle = 1\<rparr>"

lemma sample_process_simps [simp]:
  "pr_host (sample_process ho args) = ho" "pr_args (sample_process ho args) = args" "pr_env (sample_process ho args) = (\<lambda>_. None)"
  "pr_fin (sample_process ho args) = (\<lambda>_. sample_input)" "pr_fout (sample_process ho args) = (\<lambda>_. Some (2 ^ 32))"
  by (simp_all add: sample_process_def)

lemma main_unknown: "main (sample_process ho [''-x'']) os = Inr (exits 1 [] (line (''ipa: unknown option '' @ [CHR 0x27] @ ''-x'' @ [CHR 0x27])) os)"
  by (simp add: main_def Let_def)

lemma failures_are_reported_witness:
  "\<exists>oc. main (sample_process (sample_host []) [''-x'']) \<lparr>os_fds = {}, os_maps = Map.empty\<rparr> = Inr oc \<and> oc_exit oc = 1 \<and> oc_err oc \<noteq> []"
  using failures_are_reported [OF main_unknown, of "\<lparr>os_fds = {}, os_maps = Map.empty\<rparr>" "sample_host []"]
  by (simp add: main_unknown line_def)

text \<open>C30. A run leaves nothing behind: when the descriptors and addresses that the system hands out are fresh,
  every run that ends, on every path, has closed its descriptor and its mapping; and the listener that
  \<open>main\<close> installs is never called on the closed handle, since no signal is wired to it.\<close>

theorem run_leaves_nothing:
  assumes "\<forall>path. fresh_calls (ho_sys (pr_host p)) path os" "main p os = Inr oc"
  shows "oc_os oc = os \<and> \<not> signal_step alloc call (oc_signals oc) e None"
proof -
  have quiet: "sw_wired w = {} \<Longrightarrow> \<not> signal_step alloc call w e None" for w by (auto elim: signal_crashE)
  have none: "sw_wired no_signals = {}" by (simp add: no_signals_def)
  from assms(2) show ?thesis
  proof (cases rule: main_cases)
    case (build path)
    from build_run_ends [OF this] quiet none show ?thesis by auto
  next
    case (parse opts path t)
    from parse_run_restores [OF assms(1) [rule_format] parse] parse_run_ends [OF parse(2)] quiet show ?thesis by blast
  qed (use quiet none in auto)
qed

lemma run_leaves_nothing_witness:
  "\<exists>oc. main (sample_process (sample_host []) [''a.ipa'', ''on'']) \<lparr>os_fds = {}, os_maps = Map.empty\<rparr> = Inr oc \<and>
     oc_os oc = \<lparr>os_fds = {}, os_maps = Map.empty\<rparr>"
proof -
  let ?p = "sample_process (sample_host []) [''a.ipa'', ''on'']" and ?os = "\<lparr>os_fds = {}, os_maps = Map.empty\<rparr>"
  have "load_schema (sample_host []) 1 2 [] s = Inl Gives_Up" for s by (simp add: load_schema_def header_ok_def)
  then have "\<exists>oc. main ?p ?os = Inr oc"
    by (simp add: main_def Let_def load_env_schema kc_ipa_options_default_def strdup_def input_text_def parse_run_def kc_ipa_open_def
        kc_mmap_open_def mapped_def sample_host_def sample_process_def no_map_def)
  then obtain oc where r: "main ?p ?os = Inr oc" by blast
  have "\<forall>path. fresh_calls (ho_sys (pr_host ?p)) path ?os" by (simp add: fresh_calls_def sample_host_def)
  from run_leaves_nothing [OF this r] r show ?thesis by blast
qed

declare parse_args.simps [simp del]

end
