(* ===== verification/Manifest_Text.thy ===== *)
theory Manifest_Text
  imports Cli_Print
begin

section \<open>The text of a whole manifest\<close>

text \<open>
  A reference printer for manifests, with the \<open>defaults\<close> object (threshold with four decimals, n-gram
  bounds) and any nesting of nodes, written with the tool's own string printer; and the round trip
  through the parser of \<open>src/libipa.c\<close>. What is relied on of the machine is that a whole number below \<open>2\<^sup>3\<^sup>1\<close>
  survives the conversions to \<open>double\<close> and back to \<open>int\<close>.
\<close>

subsection \<open>The printer\<close>

definition four_decimals :: "nat \<Rightarrow> string" where
  "four_decimals k = nat_text (k div 10000) @ CHR ''.'' # pad4 (k mod 10000)"

definition show_defaults :: "nat \<Rightarrow> nat \<Rightarrow> nat \<Rightarrow> string" where
  "show_defaults k mn mx =
     CHR ''{'' # quoted ''node_threshold'' @ CHR '':'' # four_decimals k @
     CHR '','' # quoted ''min_ngram'' @ CHR '':'' # nat_text mn @
     CHR '','' # quoted ''max_ngram'' @ CHR '':'' # nat_text mx @ ''}''"

definition show_manifest :: "nat \<Rightarrow> kc_ipa_manifest_t \<Rightarrow> string" where
  "show_manifest k m =
     CHR ''{'' # quoted ''defaults'' @ CHR '':'' # show_defaults k (nat (m_min_ngram m)) (nat (m_max_ngram m)) @
     CHR '','' # tl (brief_manifest m)"

text \<open>The manifests that the text above writes: every string present and printable, n-gram bounds that are not
  negative, and a threshold that is the \<open>float\<close> of \<open>k\<close> ten-thousandths.\<close>

definition printable_manifest :: "fp_env \<Rightarrow> nat \<Rightarrow> kc_ipa_manifest_t \<Rightarrow> bool" where
  "printable_manifest fp k m \<longleftrightarrow>
     (\<exists>s i v w. m_schema m = Some s \<and> m_id m = Some i \<and> m_vendor m = Some v \<and> m_version m = Some w \<and>
        plain s \<and> plain i \<and> plain v \<and> plain w) \<and>
     m_node_threshold m = fp_float fp (fp_double fp (real k / 10000)) \<and>
     0 \<le> m_min_ngram m \<and> m_min_ngram m < 2 ^ 31 \<and> 0 \<le> m_max_ngram m \<and> m_max_ngram m < 2 ^ 31 \<and>
     (\<forall>nd \<in> set (m_nodes m). printable_node nd)"

text \<open>Whole numbers in the range of \<open>int\<close> are exact in a \<open>double\<close>.\<close>

definition keeps_ints :: "fp_env \<Rightarrow> bool" where
  "keeps_ints fp \<longleftrightarrow> (\<forall>n < 2 ^ 31. fp_int fp (fp_double fp (real n)) = int n)"

subsection \<open>Numbers\<close>

lemma strtod_four_decimals:
  assumes r: "ends_number r"
  shows "strtod to_dbl (four_decimals k @ r) = (to_dbl (real k / 10000), length (four_decimals k))"
proof -
  let ?ip = "nat_text (k div 10000)" and ?fp = "pad4 (k mod 10000)"
  have ip: "?ip \<noteq> []" "\<forall>c \<in> set ?ip. is_digit c" using nat_text_digits by auto
  have "decimal (?ip @ ?fp) = 10000 * decimal ?ip + k mod 10000" by (rule decimal_pad4) simp
  then have dec: "decimal (?ip @ ?fp) = k" by (simp add: decimal_nat_text)
  have "(10 :: real) powr 4 = 10 ^ 4" by (rule powr_numeral) simp
  also have "\<dots> = 10000" by simp
  finally have ten: "z * 10 powr (- 4 :: real) = z / 10000" for z unfolding powr_minus divide_inverse by (rule arg_cong)
  have b: "strtod_body to_dbl False (?ip @ CHR ''.'' # ?fp @ r) = (to_dbl (real k / 10000), length ?ip + 1 + 4)"
    using strtod_body_printed [OF ip(2) pad4_digits(2) ip(1) r, of to_dbl False "k mod 10000"]
    by (simp only: dec pad4_digits(1) of_nat_numeral ten Let_def if_False)
  have "is_digit (hd (?ip @ CHR ''.'' # ?fp @ r))" using ip by simp
  from strtod_signed [OF this _ b] show ?thesis by (simp add: four_decimals_def pad4_digits)
qed

lemma strtod_nat_text:
  assumes r: "ends_number r"
  shows "strtod to_dbl (nat_text n @ r) = (to_dbl (real n), length (nat_text n))"
proof -
  let ?d = "nat_text n"
  have d: "?d \<noteq> []" "\<forall>c \<in> set ?d. is_digit c" using nat_text_digits by auto
  obtain c t where c: "?d = c # t" using d(1) by (cases ?d) auto
  then have dc: "is_digit c" using d(2) by simp
  note l = digit_lower [OF dc] digit_letters [OF dc]
  have nx: "r = [] \<or> lower (hd r) \<noteq> CHR ''x'' \<and> hd r \<noteq> CHR ''.''"
    using r by (auto simp: ends_number_def lower_def split: list.splits)
  have p: "point_digits is_digit (?d @ r) = (?d, [], length ?d)"
  proof -
    have tw: "takeWhile is_digit (?d @ r) = ?d" by (rule takeWhile_digits [OF d(2) ends_digits [OF r]])
    have dr: "drop (length ?d) (?d @ r) = r" by simp
    show ?thesis unfolding point_digits_def tw Let_def dr using nx d(1) by (cases r) auto
  qed
  have "\<not> starts_ci ''infinity'' (?d @ r)" "\<not> starts_ci ''inf'' (?d @ r)" "\<not> starts_ci ''nan'' (?d @ r)"
    using c l by (simp_all add: starts_ci_def)
  moreover have "\<not> starts_ci ''0x'' (?d @ r)"
    using c d(2) digit_letters digit_lower nx by (cases t; cases r) (auto simp: starts_ci_def)
  ultimately have b: "strtod_body to_dbl False (?d @ r) = (to_dbl (real n), length ?d)"
    using p ends_exponent [OF r] d(1) by (simp add: strtod_body_def Let_def decimal_nat_text)
  have "is_digit (hd (?d @ r))" using d by simp
  from strtod_signed [OF this _ b] d(1) show ?thesis by simp
qed

lemma parse_number:
  assumes s: "sees src p (v @ r)" and v: "\<exists>c t. v = c # t \<and> is_digit c" "NUL \<notin> set v" and e: "ends_number r"
    and d: "\<And>r. ends_number r \<Longrightarrow> strtod (fp_double fp) (v @ r) = (x, length v)"
  shows "\<exists>q. kc_ipa_json_parse_double fp src p = Inr (x, q) \<and> sees src q r"
proof -
  obtain c t where c: "v = c # t" "is_digit c" using v(1) by blast
  then have "\<not> is_space c" using digit_letters by blast
  with s c(1) have w: "kc_ipa_json_skip_ws src p = p" using sees_ws by fastforce
  have "c_str (v @ r) = v @ c_str r" unfolding c_str_def using v(2) by (subst takeWhile_append2) auto
  moreover have "ends_number (c_str r)" using e by (cases r) (auto simp: ends_number_def c_str_def)
  ultimately have "strtod (fp_double fp) (c_str (drop p src)) = (x, length v)" using s d by (simp add: sees_def)
  with w c(1) sees_append [OF s] show ?thesis by (simp add: kc_ipa_json_parse_double_def)
qed

lemma digits_quiet: "\<forall>c \<in> set v. is_digit c \<or> c = CHR ''.'' \<Longrightarrow> NUL \<notin> set v"
  by (auto simp: is_digit_def)

lemma four_decimals_text: "\<exists>c t. four_decimals k = c # t \<and> is_digit c" "NUL \<notin> set (four_decimals k)"
  and nat_text_text: "\<exists>c t. nat_text n = c # t \<and> is_digit c" "NUL \<notin> set (nat_text n)"
proof -
  have d: "nat_text j \<noteq> []" "\<forall>c \<in> set (nat_text j). is_digit c" for j using nat_text_digits by auto
  show nt: "\<exists>c t. nat_text n = c # t \<and> is_digit c" for n using d [of n] by (cases "nat_text n") auto
  show "NUL \<notin> set (nat_text n)" using d by (intro digits_quiet) auto
  show "\<exists>c t. four_decimals k = c # t \<and> is_digit c" using nt [of "k div 10000"] by (auto simp: four_decimals_def)
  show "NUL \<notin> set (four_decimals k)" using d pad4_digits(2) by (intro digits_quiet) (auto simp: four_decimals_def)
qed

subsection \<open>The defaults\<close>

lemma defaults_member_comma:
  assumes "sees src pos (quoted key @ CHR '':'' # v @ CHR '','' # r)" "plain key" "\<forall>n. alloc n"
    and "\<exists>c t. v = c # t \<and> \<not> is_space c"
    and "\<And>p. sees src p (v @ CHR '','' # r) \<Longrightarrow> pos < p \<Longrightarrow>
      \<exists>q. defaults_member alloc fp src key p m = Inr (m', q) \<and> sees src q (CHR '','' # r)"
  shows "\<exists>q. sees src q r \<and> defaults_loop (Suc n) alloc fp src pos m = defaults_loop n alloc fp src q m'"
proof -
  obtain q where q: "sees src q (CHR '','' # r)"
    "defaults_loop (Suc n) alloc fp src pos m = (let q' = kc_ipa_json_skip_ws src q
       in if peek src q' (CHR '','') then defaults_loop n alloc fp src (q' + 1) m'
          else sum_bind (kc_ipa_json_expect src q' (CHR ''}'')) (\<lambda>r. Inr (m', r)))"
    unfolding defaults_loop.simps
    using printed_member [OF assms(1-4), of "\<lambda>key p. defaults_member alloc fp src key p m" m', OF assms(5)] by blast
  with sees_comma [OF q(1)] show ?thesis by auto
qed

lemma defaults_member_close:
  assumes "sees src pos (quoted key @ CHR '':'' # v @ CHR ''}'' # r)" "plain key" "\<forall>n. alloc n"
    and "\<exists>c t. v = c # t \<and> \<not> is_space c"
    and "\<And>p. sees src p (v @ CHR ''}'' # r) \<Longrightarrow> pos < p \<Longrightarrow>
      \<exists>q. defaults_member alloc fp src key p m = Inr (m', q) \<and> sees src q (CHR ''}'' # r)"
  shows "\<exists>q. sees src q r \<and> defaults_loop (Suc n) alloc fp src pos m = Inr (m', q)"
proof -
  obtain q where q: "sees src q (CHR ''}'' # r)"
    "defaults_loop (Suc n) alloc fp src pos m = (let q' = kc_ipa_json_skip_ws src q
       in if peek src q' (CHR '','') then defaults_loop n alloc fp src (q' + 1) m'
          else sum_bind (kc_ipa_json_expect src q' (CHR ''}'')) (\<lambda>r. Inr (m', r)))"
    unfolding defaults_loop.simps
    using printed_member [OF assms(1-4), of "\<lambda>key p. defaults_member alloc fp src key p m" m', OF assms(5)] by blast
  with sees_close [OF q(1)] show ?thesis by auto
qed

lemma default_keys [simp]: "plain ''node_threshold''" "plain ''min_ngram''" "plain ''max_ngram''" "plain ''defaults''"
  by (simp_all add: plain_def)

lemma ends_marks [simp]: "ends_number (CHR '','' # r)" "ends_number (CHR ''}'' # r)"
  by (simp_all add: ends_number_def)

lemma parse_printed_defaults:
  assumes s: "sees src pos (show_defaults k mn mx @ r)" and mem: "\<forall>n. alloc n" and fp: "keeps_ints fp" and b: "mn < 2 ^ 31" "mx < 2 ^ 31"
  shows "\<exists>q. parse_defaults alloc fp src pos m =
      Inr (m\<lparr>m_node_threshold := fp_float fp (fp_double fp (real k / 10000)), m_min_ngram := int mn, m_max_ngram := int mx\<rparr>, q) \<and> sees src q r"
proof -
  let ?r2 = "quoted ''max_ngram'' @ CHR '':'' # nat_text mx @ CHR ''}'' # r"
  let ?r1 = "quoted ''min_ngram'' @ CHR '':'' # nat_text mn @ CHR '','' # ?r2"
  let ?r0 = "quoted ''node_threshold'' @ CHR '':'' # four_decimals k @ CHR '','' # ?r1"
  let ?m1 = "m\<lparr>m_node_threshold := fp_float fp (fp_double fp (real k / 10000))\<rparr>"
  let ?m2 = "?m1\<lparr>m_min_ngram := int mn\<rparr>"
  let ?m3 = "?m2\<lparr>m_max_ngram := int mx\<rparr>"
  have s0: "sees src pos (CHR ''{'' # ?r0)" using s by (simp add: show_defaults_def)
  note e = sees_expect [OF s0] sees_Cons [OF s0]
  have s1: "sees src (Suc pos) ?r0" using e by blast
  obtain t where t: "sees src (Suc pos) (CHR 0x22 # t)" using s1 quoted_head [of "''node_threshold''"] by auto
  obtain n where n: "json_fuel src = Suc (Suc (Suc n))"
    using sees_length [OF s1] by (auto simp: json_fuel_def json_print_string_def intro: that [of "length src - 2"])
  have i: "fp_int fp (fp_double fp (real mn)) = int mn" "fp_int fp (fp_double fp (real mx)) = int mx"
    using fp b by (simp_all add: keeps_ints_def)
  have hd: "\<exists>c t. v = c # t \<and> \<not> is_space c" if "\<exists>c t. v = c # t \<and> is_digit c" for v using that digit_letters by blast
  note num = parse_number [where fp = fp, OF _ _ _ _ strtod_four_decimals] parse_number [where fp = fp, OF _ _ _ _ strtod_nat_text]
  have 1: "\<exists>q. defaults_member alloc fp src ''node_threshold'' p m = Inr (?m1, q) \<and> sees src q (CHR '','' # r')"
    if "sees src p (four_decimals k @ CHR '','' # r')" for p r'
    using num(1) [OF that four_decimals_text] by (auto simp: defaults_member_def)
  have 2: "\<exists>q. defaults_member alloc fp src ''min_ngram'' p ?m1 = Inr (?m2, q) \<and> sees src q (CHR '','' # r')"
    if "sees src p (nat_text mn @ CHR '','' # r')" for p r'
    using num(2) [OF that nat_text_text] i by (auto simp: defaults_member_def)
  have 3: "\<exists>q. defaults_member alloc fp src ''max_ngram'' p ?m2 = Inr (?m3, q) \<and> sees src q (CHR ''}'' # r')"
    if "sees src p (nat_text mx @ CHR ''}'' # r')" for p r'
    using num(2) [OF that nat_text_text] i by (auto simp: defaults_member_def)
  obtain q1 where q1: "sees src q1 ?r1" "defaults_loop (Suc (Suc (Suc n))) alloc fp src (Suc pos) m = defaults_loop (Suc (Suc n)) alloc fp src q1 ?m1"
    using defaults_member_comma [OF s1 _ mem hd [OF four_decimals_text(1)] 1, of "Suc (Suc n)"] by auto
  obtain q2 where q2: "sees src q2 ?r2" "defaults_loop (Suc (Suc n)) alloc fp src q1 ?m1 = defaults_loop (Suc n) alloc fp src q2 ?m2"
    using defaults_member_comma [OF q1(1) _ mem hd [OF nat_text_text(1)] 2, of "Suc n"] by auto
  obtain q3 where "sees src q3 r" "defaults_loop (Suc n) alloc fp src q2 ?m2 = Inr (?m3, q3)"
    using defaults_member_close [OF q2(1) _ mem hd [OF nat_text_text(1)] 3, of n] by auto
  with q1 q2 e sees_ws [OF t] sees_peek [OF t] n show ?thesis by (auto simp: parse_defaults_def)
qed

section \<open>Properties\<close>

text \<open>C13. Round trip of a whole manifest: the text of a manifest, with its \<open>defaults\<close> object (the threshold as a
  number with four decimals, both n-gram bounds) and its nodes nested to any depth, written with the tool's own
  string printer, is read back by the parser of the compiler as that manifest, to the end of the text. The
  manifest's strings are all present and printable (no control characters other than newline, return and tab), its
  threshold is the \<open>float\<close> that the printed number converts to, its bounds are numbers from 0 to \<open>2\<^sup>3\<^sup>1 - 1\<close>, whole
  numbers below \<open>2\<^sup>3\<^sup>1\<close> survive the conversion to \<open>double\<close> and back, and memory suffices.\<close>

theorem manifest_roundtrip:
  assumes "printable_manifest fp k m" "keeps_ints fp" "\<forall>n. alloc n"
  shows "kc_ipa_parse_manifest alloc fp (show_manifest k m) 0 = Inr (m, length (show_manifest k m))"
proof -
  obtain sc i v w where f: "m_schema m = Some sc" "m_id m = Some i" "m_vendor m = Some v" "m_version m = Some w"
      "plain sc" "plain i" "plain v" "plain w" "\<forall>nd \<in> set (m_nodes m). printable_node nd"
    and b: "nat (m_min_ngram m) < 2 ^ 31" "nat (m_max_ngram m) < 2 ^ 31" "0 \<le> m_min_ngram m" "0 \<le> m_max_ngram m"
    and th: "m_node_threshold m = fp_float fp (fp_double fp (real k / 10000))"
    using assms(1) unfolding printable_manifest_def by (auto simp: nat_less_iff)
  let ?src = "show_manifest k m"
  let ?d = "show_defaults k (nat (m_min_ngram m)) (nat (m_max_ngram m))"
  let ?mem = "quoted ''schema'' @ CHR '':'' # quoted sc @
     CHR '','' # quoted ''id'' @ CHR '':'' # quoted i @
     CHR '','' # quoted ''vendor'' @ CHR '':'' # quoted v @
     CHR '','' # quoted ''version'' @ CHR '':'' # quoted w @
     CHR '','' # quoted ''nodes'' @ CHR '':'' # show_nodes (m_nodes m) @ CHR ''}'' # []"
  have s0: "sees ?src 0 (CHR ''{'' # quoted ''defaults'' @ CHR '':'' # ?d @ CHR '','' # ?mem)"
    by (simp add: sees_def show_manifest_def brief_manifest_def f)
  note e = sees_expect [OF s0] sees_Cons [OF s0]
  have s1: "sees ?src (Suc 0) (quoted ''defaults'' @ CHR '':'' # ?d @ CHR '','' # ?mem)" using e by blast
  obtain t where t: "sees ?src (Suc 0) (CHR 0x22 # t)" using s1 quoted_head [of "''defaults''"] by auto
  obtain n where n: "json_fuel ?src = Suc (Suc (Suc (Suc (Suc (Suc n)))))"
    using sees_length [OF s1] by (auto simp: json_fuel_def json_print_string_def intro: that [of "length ?src - 5"])
  let ?m1 = "default_manifest\<lparr>m_node_threshold := m_node_threshold m, m_min_ngram := m_min_ngram m, m_max_ngram := m_max_ngram m\<rparr>"
  let ?m = "?m1\<lparr>m_schema := Some sc, m_id := Some i, m_vendor := Some v, m_version := Some w, m_nodes := m_nodes m\<rparr>"
  have 1: "\<exists>q. manifest_member alloc fp ?src ''defaults'' p default_manifest = Inr (?m1, q) \<and> sees ?src q r"
    if "sees ?src p (?d @ r)" for p r
    using parse_printed_defaults [OF that assms(3,2) b(1,2), of default_manifest] b th by (auto simp: manifest_member_def)
  have h: "\<exists>c t. ?d = c # t \<and> \<not> is_space c" by (simp add: show_defaults_def is_space_def)
  obtain q1 where q1: "sees ?src q1 ?mem" "manifest_loop (Suc (Suc (Suc (Suc (Suc (Suc n)))))) alloc fp ?src (Suc 0) default_manifest =
      manifest_loop (Suc (Suc (Suc (Suc (Suc n))))) alloc fp ?src q1 ?m1"
    using manifest_member_comma [OF s1 default_keys(4) assms(3) h 1, of "Suc (Suc (Suc (Suc (Suc n))))"] by blast
  obtain q where q: "manifest_loop (Suc (Suc (Suc (Suc (Suc n))))) alloc fp ?src q1 ?m1 = Inr (?m, q)" "sees ?src q []"
    using manifest_loop_printed [OF q1(1) f(5-9) assms(3), of n fp ?m1] by blast
  have "q = length ?src" using sees_length [OF q(2)] by simp
  moreover have "?m = m" using f by (cases m) (simp add: default_manifest_def)
  ultimately show ?thesis
    using e q(1) q1(2) n sees_ws [OF t] sees_peek [OF t] by (simp add: kc_ipa_parse_manifest_def)
qed

text \<open>A manifest whose defaults differ from the built-in ones, on a machine that truncates to \<open>int\<close> and has
  0.5 as a \<open>float\<close>.\<close>

definition tuned_manifest :: kc_ipa_manifest_t where
  "tuned_manifest = sample_manifest\<lparr>m_node_threshold := 0x3F000000, m_min_ngram := 2, m_max_ngram := 7\<rparr>"

definition half_fp :: fp_env where
  "half_fp = \<lparr>fp_double = Fin, fp_float = (\<lambda>d. if d = Fin (1 / 2) then 0x3F000000 else 0), fp_int = (\<lambda>d. case d of Fin x \<Rightarrow> \<lfloor>x\<rfloor> | _ \<Rightarrow> 0)\<rparr>"

lemma manifest_roundtrip_witness:
  "kc_ipa_parse_manifest (\<lambda>_. True) half_fp (show_manifest 5000 tuned_manifest) 0 =
     Inr (tuned_manifest, length (show_manifest 5000 tuned_manifest)) \<and> m_max_ngram tuned_manifest = 7"
proof -
  have "printable_manifest half_fp 5000 tuned_manifest"
    by (simp add: printable_manifest_def tuned_manifest_def half_fp_def sample_manifest_def default_manifest_def plain_def)
  moreover have "keeps_ints half_fp" by (simp add: keeps_ints_def half_fp_def)
  ultimately show ?thesis using manifest_roundtrip by (simp add: tuned_manifest_def)
qed

end
