(* ===== verification/Tensor.thy ===== *)
theory Tensor
  imports Floats "HOL-Library.Monad_Syntax"
begin

section \<open>Tensors and graphs (src/lib/ggml/src/ggml.c)\<close>

text \<open>
  What the embedding library uses of the vendored tensor library when it describes a computation: the
  memory pool of a context, the constructors of tensors with their shapes, strides and views, and the
  ordering of a graph. The library ends the process when one of its assertions fails, and so does a null
  result that it goes on to use: such an end is the value \<open>None\<close>. What is computed for the values of the
  tensors is not modelled here.

  \<^item> A tensor holds its address (in the model file's context or at an offset of the pool), type, the four
    extents \<open>ne\<close> and strides \<open>nb\<close>, its operation and operands, and for a view the bytes of the tensor
    underneath and its offset in it. Extents and strides are unbounded integers; only \<open>ggml_permute\<close> puts
    them through \<open>int\<close> variables. An extent that divides is not 0: the readers of model files reject it.
  \<^item> The pool's objects follow one another; \<open>cx_end\<close> is the end of the last. The tests for overflow of
    \<open>size_t\<close> in \<open>ggml_new_object\<close> give the same null result as the test against the pool's size.
  \<^item> The hash table of visited tensors is the list of their addresses; looking up an address that is not
    there fails when every cell is used. The counts of uses, names and the debug-only assertions have no counterpart.
\<close>

datatype ggml_type = GGML_TYPE_F32 | GGML_TYPE_F16 | GGML_TYPE_I32 | GGML_TYPE_Block nat nat

datatype ggml_op =
    OP_NONE
  | OP_GET_ROWS
  | OP_ADD
  | OP_SUB
  | OP_MUL
  | OP_MEAN
  | OP_NORM u32
  | OP_MUL_MAT
  | OP_SCALE u32
  | OP_SOFT_MAX
  | OP_CONT
  | OP_RESHAPE
  | OP_VIEW int
  | OP_PERMUTE "nat list"
  | OP_TRANSPOSE
  | OP_GELU

datatype ggml_addr = In_Model nat | In_Pool nat

datatype ggml_tensor =
  Tensor (tn_addr: ggml_addr) (tn_type: ggml_type) (tn_ne: "int list") (tn_nb: "int list") (tn_op: ggml_op)
    (tn_src: "ggml_tensor list") (tn_view: "(int \<times> int) option")

record ggml_context =
  cx_mem_size :: nat
  cx_no_alloc :: bool
  cx_n_objects :: nat
  cx_end :: nat

abbreviation (input) GGML_OBJECT_SIZE :: nat where "GGML_OBJECT_SIZE \<equiv> 32"
abbreviation (input) GGML_TENSOR_SIZE :: nat where "GGML_TENSOR_SIZE \<equiv> 336"
abbreviation (input) GGML_DEFAULT_GRAPH_SIZE :: nat where "GGML_DEFAULT_GRAPH_SIZE \<equiv> 2048"

definition GGML_PAD :: "nat \<Rightarrow> nat \<Rightarrow> nat" where
  "GGML_PAD x n = (x + n - 1) div n * n"

subsection \<open>Types and sizes\<close>

primrec ggml_blck_size :: "ggml_type \<Rightarrow> int" where
  "ggml_blck_size GGML_TYPE_F32 = 1"
| "ggml_blck_size GGML_TYPE_F16 = 1"
| "ggml_blck_size GGML_TYPE_I32 = 1"
| "ggml_blck_size (GGML_TYPE_Block b s) = int b"

primrec ggml_type_size :: "ggml_type \<Rightarrow> int" where
  "ggml_type_size GGML_TYPE_F32 = 4"
| "ggml_type_size GGML_TYPE_F16 = 2"
| "ggml_type_size GGML_TYPE_I32 = 4"
| "ggml_type_size (GGML_TYPE_Block b s) = int s"

definition ggml_row_size :: "ggml_type \<Rightarrow> int \<Rightarrow> int" where
  "ggml_row_size ty ne = ggml_type_size ty * ne div ggml_blck_size ty"

definition ggml_nelements :: "ggml_tensor \<Rightarrow> int" where
  "ggml_nelements t = tn_ne t ! 0 * tn_ne t ! 1 * tn_ne t ! 2 * tn_ne t ! 3"

definition ggml_nbytes :: "ggml_tensor \<Rightarrow> int" where
  "ggml_nbytes t =
     (if \<exists>n \<in> set (tn_ne t). n \<le> 0 then 0
      else let rest = (tn_ne t ! 1 - 1) * tn_nb t ! 1 + (tn_ne t ! 2 - 1) * tn_nb t ! 2 + (tn_ne t ! 3 - 1) * tn_nb t ! 3
           in if ggml_blck_size (tn_type t) = 1 then ggml_type_size (tn_type t) + (tn_ne t ! 0 - 1) * tn_nb t ! 0 + rest
              else tn_ne t ! 0 * tn_nb t ! 0 div ggml_blck_size (tn_type t) + rest)"

definition ggml_is_empty :: "ggml_tensor \<Rightarrow> bool" where
  "ggml_is_empty t \<longleftrightarrow> 0 \<in> set (tn_ne t)"

definition ggml_is_transposed :: "ggml_tensor \<Rightarrow> bool" where
  "ggml_is_transposed t \<longleftrightarrow> tn_nb t ! 0 > tn_nb t ! 1"

text \<open>\<open>ggml_is_contiguous_n\<close> with \<open>n = 0\<close>: the loop over the dimensions 1 to 3.\<close>

definition ggml_is_contiguous :: "ggml_tensor \<Rightarrow> bool" where
  "ggml_is_contiguous t \<longleftrightarrow>
     (let ne = tn_ne t; nb = tn_nb t; ts = ggml_type_size (tn_type t); bs = ggml_blck_size (tn_type t);
          n1 = ts * (ne ! 0 div bs); n2 = n1 * ne ! 1; n3 = n2 * ne ! 2
      in \<not> (ne ! 0 \<noteq> bs \<and> nb ! 0 \<noteq> ts) \<and> \<not> (ne ! 1 \<noteq> 1 \<and> nb ! 1 \<noteq> n1) \<and>
         \<not> (ne ! 2 \<noteq> 1 \<and> nb ! 2 \<noteq> n2) \<and> \<not> (ne ! 3 \<noteq> 1 \<and> nb ! 3 \<noteq> n3))"

definition ggml_is_contiguous_rows :: "ggml_tensor \<Rightarrow> bool" where
  "ggml_is_contiguous_rows t \<longleftrightarrow> tn_ne t ! 0 = ggml_blck_size (tn_type t) \<or> tn_nb t ! 0 = ggml_type_size (tn_type t)"

definition ggml_is_padded_1d :: "ggml_tensor \<Rightarrow> bool" where
  "ggml_is_padded_1d t \<longleftrightarrow> tn_nb t ! 0 = ggml_type_size (tn_type t) \<and> tn_nb t ! 2 = tn_nb t ! 1 * tn_ne t ! 1 \<and>
     tn_nb t ! 3 = tn_nb t ! 2 * tn_ne t ! 2"

definition ggml_can_repeat :: "ggml_tensor \<Rightarrow> ggml_tensor \<Rightarrow> bool" where
  "ggml_can_repeat t0 t1 \<longleftrightarrow>
     (if ggml_is_empty t0 then ggml_is_empty t1
      else tn_ne t1 ! 0 mod tn_ne t0 ! 0 = 0 \<and> tn_ne t1 ! 1 mod tn_ne t0 ! 1 = 0 \<and>
           tn_ne t1 ! 2 mod tn_ne t0 ! 2 = 0 \<and> tn_ne t1 ! 3 mod tn_ne t0 ! 3 = 0)"

definition ggml_can_mul_mat :: "ggml_tensor \<Rightarrow> ggml_tensor \<Rightarrow> bool" where
  "ggml_can_mul_mat t0 t1 \<longleftrightarrow> tn_ne t0 ! 0 = tn_ne t1 ! 0 \<and> tn_ne t1 ! 2 mod tn_ne t0 ! 2 = 0 \<and> tn_ne t1 ! 3 mod tn_ne t0 ! 3 = 0"

subsection \<open>The pool and new tensors\<close>

definition ggml_init :: "nat \<Rightarrow> bool \<Rightarrow> ggml_context" where
  "ggml_init mem_size no_alloc = \<lparr>cx_mem_size = (if mem_size = 0 then 16 else mem_size), cx_no_alloc = no_alloc, cx_n_objects = 0, cx_end = 0\<rparr>"

definition ggml_new_object :: "nat \<Rightarrow> ggml_context \<Rightarrow> (nat \<times> ggml_context) option" where
  "ggml_new_object n cx =
     (let size_needed = GGML_PAD n 16
      in if cx_end cx + size_needed + GGML_OBJECT_SIZE > cx_mem_size cx then None
         else Some (cx_end cx + GGML_OBJECT_SIZE, cx\<lparr>cx_end := cx_end cx + GGML_OBJECT_SIZE + size_needed\<rparr>))"

definition ggml_new_tensor_impl ::
    "ggml_type \<Rightarrow> int list \<Rightarrow> ggml_tensor option \<Rightarrow> int \<Rightarrow> ggml_context \<Rightarrow> (ggml_tensor \<times> ggml_context) option" where
  "ggml_new_tensor_impl ty ne view_src view_offs cx =
     (let view = map_option (\<lambda>v. case tn_view v of None \<Rightarrow> (ggml_nbytes v, view_offs) | Some (b, vo) \<Rightarrow> (b, view_offs + vo)) view_src;
          data_size = ggml_row_size ty (ne ! 0) * prod_list (tl ne);
          ne4 = ne @ replicate (4 - length ne) 1;
          nb0 = ggml_type_size ty; nb1 = nb0 * (ne4 ! 0 div ggml_blck_size ty); nb2 = nb1 * ne4 ! 1; nb3 = nb2 * ne4 ! 2
      in if \<not> (1 \<le> length ne \<and> length ne \<le> 4) then None
         else if \<not> (case view of None \<Rightarrow> True | Some (b, vo) \<Rightarrow> data_size = 0 \<or> data_size + vo \<le> b) then None
         else do {
           (offs, cx) \<leftarrow> ggml_new_object (GGML_TENSOR_SIZE + (if view_src = None \<and> \<not> cx_no_alloc cx then nat data_size else 0)) cx;
           Some (Tensor (In_Pool offs) ty ne4 [nb0, nb1, nb2, nb3] OP_NONE [] view, cx\<lparr>cx_n_objects := cx_n_objects cx + 1\<rparr>)
         })"

abbreviation (input) ggml_new_tensor :: "ggml_type \<Rightarrow> int list \<Rightarrow> ggml_context \<Rightarrow> (ggml_tensor \<times> ggml_context) option" where
  "ggml_new_tensor ty ne \<equiv> ggml_new_tensor_impl ty ne None 0"

definition ggml_dup_tensor :: "ggml_tensor \<Rightarrow> ggml_context \<Rightarrow> (ggml_tensor \<times> ggml_context) option" where
  "ggml_dup_tensor src = ggml_new_tensor (tn_type src) (tn_ne src)"

definition ggml_view_tensor :: "ggml_tensor \<Rightarrow> ggml_context \<Rightarrow> (ggml_tensor \<times> ggml_context) option" where
  "ggml_view_tensor src cx = do {
     (t, cx) \<leftarrow> ggml_new_tensor_impl (tn_type src) (tn_ne src) (Some src) 0 cx;
     Some (Tensor (tn_addr t) (tn_type t) (tn_ne t) (tn_nb src) (tn_op t) (tn_src t) (tn_view t), cx)
   }"

subsection \<open>Operations\<close>

text \<open>\<open>result->op = op; result->src[i] = \<dots>\<close>\<close>

definition set_op :: "ggml_op \<Rightarrow> ggml_tensor list \<Rightarrow> ggml_tensor \<Rightarrow> ggml_tensor" where
  "set_op op src t = Tensor (tn_addr t) (tn_type t) (tn_ne t) (tn_nb t) op src (tn_view t)"

definition set_shape :: "int list \<Rightarrow> int list \<Rightarrow> ggml_tensor \<Rightarrow> ggml_tensor" where
  "set_shape ne nb t = Tensor (tn_addr t) (tn_type t) ne nb (tn_op t) (tn_src t) (tn_view t)"

definition ggml_get_rows :: "ggml_tensor \<Rightarrow> ggml_tensor \<Rightarrow> ggml_context \<Rightarrow> (ggml_tensor \<times> ggml_context) option" where
  "ggml_get_rows a b cx =
     (if \<not> (tn_ne a ! 2 = tn_ne b ! 1 \<and> tn_ne a ! 3 = tn_ne b ! 2 \<and> tn_ne b ! 3 = 1 \<and> tn_type b = GGML_TYPE_I32) then None
      else do {
        (t, cx) \<leftarrow> ggml_new_tensor (if tn_type a = GGML_TYPE_I32 then GGML_TYPE_I32 else GGML_TYPE_F32)
                     [tn_ne a ! 0, tn_ne b ! 0, tn_ne b ! 1, tn_ne b ! 2] cx;
        Some (set_op OP_GET_ROWS [a, b] t, cx)
      })"

text \<open>\<open>ggml_add_impl\<close>, \<open>ggml_sub_impl\<close> and \<open>ggml_mul_impl\<close>, not in place.\<close>

definition ggml_binary :: "ggml_op \<Rightarrow> ggml_tensor \<Rightarrow> ggml_tensor \<Rightarrow> ggml_context \<Rightarrow> (ggml_tensor \<times> ggml_context) option" where
  "ggml_binary op a b cx =
     (if \<not> ggml_can_repeat b a then None
      else do { (t, cx) \<leftarrow> ggml_dup_tensor a cx; Some (set_op op [a, b] t, cx) })"

definition ggml_add :: "ggml_tensor \<Rightarrow> ggml_tensor \<Rightarrow> ggml_context \<Rightarrow> (ggml_tensor \<times> ggml_context) option" where
  "ggml_add = ggml_binary OP_ADD"

definition ggml_sub :: "ggml_tensor \<Rightarrow> ggml_tensor \<Rightarrow> ggml_context \<Rightarrow> (ggml_tensor \<times> ggml_context) option" where
  "ggml_sub = ggml_binary OP_SUB"

definition ggml_mul :: "ggml_tensor \<Rightarrow> ggml_tensor \<Rightarrow> ggml_context \<Rightarrow> (ggml_tensor \<times> ggml_context) option" where
  "ggml_mul = ggml_binary OP_MUL"

definition ggml_mean :: "ggml_tensor \<Rightarrow> ggml_context \<Rightarrow> (ggml_tensor \<times> ggml_context) option" where
  "ggml_mean a cx = do {
     (t, cx) \<leftarrow> ggml_new_tensor GGML_TYPE_F32 [1, tn_ne a ! 1, tn_ne a ! 2, tn_ne a ! 3] cx;
     Some (set_op OP_MEAN [a] t, cx)
   }"

definition ggml_norm :: "ggml_tensor \<Rightarrow> u32 \<Rightarrow> ggml_context \<Rightarrow> (ggml_tensor \<times> ggml_context) option" where
  "ggml_norm a eps cx = do { (t, cx) \<leftarrow> ggml_dup_tensor a cx; Some (set_op (OP_NORM eps) [a] t, cx) }"

definition ggml_mul_mat :: "ggml_tensor \<Rightarrow> ggml_tensor \<Rightarrow> ggml_context \<Rightarrow> (ggml_tensor \<times> ggml_context) option" where
  "ggml_mul_mat a b cx =
     (if \<not> ggml_can_mul_mat a b \<or> ggml_is_transposed a then None
      else do {
        (t, cx) \<leftarrow> ggml_new_tensor GGML_TYPE_F32 [tn_ne a ! 1, tn_ne b ! 1, tn_ne b ! 2, tn_ne b ! 3] cx;
        Some (set_op OP_MUL_MAT [a, b] t, cx)
      })"

definition ggml_scale_inplace :: "ggml_tensor \<Rightarrow> u32 \<Rightarrow> ggml_context \<Rightarrow> (ggml_tensor \<times> ggml_context) option" where
  "ggml_scale_inplace a s cx =
     (if \<not> ggml_is_padded_1d a then None
      else do { (t, cx) \<leftarrow> ggml_view_tensor a cx; Some (set_op (OP_SCALE s) [a] t, cx) })"

definition ggml_soft_max_inplace :: "ggml_tensor \<Rightarrow> ggml_context \<Rightarrow> (ggml_tensor \<times> ggml_context) option" where
  "ggml_soft_max_inplace a cx =
     (if \<not> ggml_is_contiguous a then None
      else do { (t, cx) \<leftarrow> ggml_view_tensor a cx; Some (set_op OP_SOFT_MAX [a] t, cx) })"

definition ggml_cont :: "ggml_tensor \<Rightarrow> ggml_context \<Rightarrow> (ggml_tensor \<times> ggml_context) option" where
  "ggml_cont a cx = do { (t, cx) \<leftarrow> ggml_dup_tensor a cx; Some (set_op OP_CONT [a] t, cx) }"

text \<open>\<open>ggml_reshape_2d\<close> and \<open>ggml_reshape_3d\<close>.\<close>

definition ggml_reshape :: "ggml_tensor \<Rightarrow> int list \<Rightarrow> ggml_context \<Rightarrow> (ggml_tensor \<times> ggml_context) option" where
  "ggml_reshape a ne cx =
     (if \<not> (ggml_is_contiguous a \<and> ggml_nelements a = prod_list ne) then None
      else do { (t, cx) \<leftarrow> ggml_new_tensor_impl (tn_type a) ne (Some a) 0 cx; Some (set_op OP_RESHAPE [a] t, cx) })"

definition ggml_view_2d :: "ggml_tensor \<Rightarrow> int \<Rightarrow> int \<Rightarrow> int \<Rightarrow> int \<Rightarrow> ggml_context \<Rightarrow> (ggml_tensor \<times> ggml_context) option" where
  "ggml_view_2d a ne0 ne1 nb1 offset cx = do {
     (t, cx) \<leftarrow> ggml_new_tensor_impl (tn_type a) [ne0, ne1] (Some a) offset cx;
     Some (set_op (OP_VIEW offset) [a] (set_shape (tn_ne t) [tn_nb t ! 0, nb1, nb1 * ne1, nb1 * ne1] t), cx)
   }"

text \<open>\<open>out[axis i] = (int)xs[i]\<close>\<close>

definition permuted :: "nat list \<Rightarrow> int list \<Rightarrow> int list" where
  "permuted axes xs = fold (\<lambda>i out. out[axes ! i := to_int (xs ! i)]) [0..<4] (replicate 4 0)"

definition ggml_permute :: "ggml_tensor \<Rightarrow> nat list \<Rightarrow> ggml_context \<Rightarrow> (ggml_tensor \<times> ggml_context) option" where
  "ggml_permute a axes cx =
     (if \<not> (length axes = 4 \<and> (\<forall>x \<in> set axes. x < 4) \<and> distinct axes) then None
      else do {
        (t, cx) \<leftarrow> ggml_view_tensor a cx;
        Some (set_op (OP_PERMUTE axes) [a]
                (set_shape (permuted axes (tn_ne a)) (map (\<lambda>n. n mod 2 ^ 64) (permuted axes (tn_nb a))) t), cx)
      })"

definition ggml_transpose :: "ggml_tensor \<Rightarrow> ggml_context \<Rightarrow> (ggml_tensor \<times> ggml_context) option" where
  "ggml_transpose a cx = do {
     (t, cx) \<leftarrow> ggml_view_tensor a cx;
     Some (set_op OP_TRANSPOSE [a]
             (set_shape ((tn_ne t)[0 := tn_ne a ! 1, 1 := tn_ne a ! 0]) ((tn_nb t)[0 := tn_nb a ! 1, 1 := tn_nb a ! 0]) t), cx)
   }"

definition ggml_gelu :: "ggml_tensor \<Rightarrow> ggml_context \<Rightarrow> (ggml_tensor \<times> ggml_context) option" where
  "ggml_gelu a cx =
     (if \<not> ggml_is_contiguous_rows a then None
      else do { (t, cx) \<leftarrow> ggml_dup_tensor a cx; Some (set_op OP_GELU [a] t, cx) })"

subsection \<open>Graphs\<close>

record ggml_cgraph =
  cg_size :: nat
  cg_nodes :: "ggml_tensor list"
  cg_leafs :: "ggml_tensor list"
  cg_hash_size :: nat
  cg_visited :: "ggml_addr list"
  cg_computed :: "ggml_addr list"

definition ggml_hash_primes :: "nat list" where
  "ggml_hash_primes =
     [2, 3, 5, 11, 17, 37, 67, 131, 257, 521, 1031, 2053, 4099, 8209, 16411, 32771, 65537, 131101, 262147, 524309, 1048583,
      2097169, 4194319, 8388617, 16777259, 33554467, 67108879, 134217757, 268435459, 536870923, 1073741827, 2147483659]"

definition ggml_hash_size :: "nat \<Rightarrow> nat" where
  "ggml_hash_size min_sz =
     (let l = bisect (\<lambda>p. p < min_sz) ggml_hash_primes 0 (length ggml_hash_primes)
      in if l < length ggml_hash_primes then ggml_hash_primes ! l else (if odd min_sz then min_sz else min_sz + 1))"

text \<open>The size of the graph object: \<open>incr_ptr_aligned\<close> for each of its arrays, without gradients.\<close>

definition ggml_graph_nbytes :: "nat \<Rightarrow> nat" where
  "ggml_graph_nbytes n =
     (let hash_size = ggml_hash_size (n * 2)
      in fold (\<lambda>(len, align) p. GGML_PAD p align + len)
           [(96, 1), (n * 8, 8), (n * 8, 8), (hash_size * 4, 4), (hash_size * 8, 8), ((hash_size + 31) div 32 * 4, 4)] 0)"

definition ggml_new_graph :: "ggml_context \<Rightarrow> (ggml_cgraph \<times> ggml_context) option" where
  "ggml_new_graph cx = do {
     (offs, cx) \<leftarrow> ggml_new_object (ggml_graph_nbytes GGML_DEFAULT_GRAPH_SIZE) cx;
     Some (\<lparr>cg_size = GGML_DEFAULT_GRAPH_SIZE, cg_nodes = [], cg_leafs = [],
            cg_hash_size = ggml_hash_size (GGML_DEFAULT_GRAPH_SIZE * 2), cg_visited = [], cg_computed = []\<rparr>, cx)
   }"

definition add_to_graph :: "ggml_tensor \<Rightarrow> ggml_cgraph \<Rightarrow> ggml_cgraph option" where
  "add_to_graph t g =
     (if tn_op t = OP_NONE then
        if length (cg_leafs g) < cg_size g then Some (g\<lparr>cg_leafs := cg_leafs g @ [t]\<rparr>) else None
      else
        if length (cg_nodes g) < cg_size g then Some (g\<lparr>cg_nodes := cg_nodes g @ [t]\<rparr>) else None)"

fun ggml_visit_parents_graph :: "ggml_tensor \<Rightarrow> ggml_cgraph \<Rightarrow> ggml_cgraph option"
  and visit_src :: "ggml_tensor list \<Rightarrow> ggml_cgraph \<Rightarrow> ggml_cgraph option"
  and revisit_src :: "ggml_tensor list \<Rightarrow> ggml_cgraph \<Rightarrow> ggml_cgraph option" where
  "ggml_visit_parents_graph (Tensor a ty ne nb op src vw) g =
     (let g1 = (if op \<noteq> OP_NONE then g\<lparr>cg_computed := a # cg_computed g\<rparr> else g)
      in if a \<notin> set (cg_visited g1) \<and> cg_hash_size g1 \<le> length (cg_visited g1) then None
         else if a \<in> set (cg_visited g1) then revisit_src src g1
         else Option.bind (visit_src src (g1\<lparr>cg_visited := a # cg_visited g1\<rparr>)) (add_to_graph (Tensor a ty ne nb op src vw)))"
| "visit_src [] g = Some g"
| "visit_src (s # ss) g = Option.bind (ggml_visit_parents_graph s g) (visit_src ss)"
| "revisit_src [] g = Some g"
| "revisit_src (s # ss) g =
     (if tn_addr s \<in> set (cg_computed g) then revisit_src ss g
      else Option.bind (ggml_visit_parents_graph s g) (revisit_src ss))"

definition ggml_build_forward_expand :: "ggml_cgraph \<Rightarrow> ggml_tensor \<Rightarrow> ggml_cgraph option" where
  "ggml_build_forward_expand g t = do {
     g1 \<leftarrow> ggml_visit_parents_graph t g;
     if length (cg_nodes g1) > length (cg_nodes g) \<and> tn_addr (last (cg_nodes g1)) \<noteq> tn_addr t then None else Some g1
   }"

end
