(* ===== verification/Vocab.thy ===== *)
theory Vocab
  imports Tensor
begin

section \<open>The tokenizer of the embedding library (src/lib/libemb.c)\<close>

text \<open>
  The record of an inference context, and the vocabulary table. The table is an open-addressing hash table with linear probing; its
  probing loops end at a free cell and otherwise run forever, so they are recursions on a number of
  rounds that answer \<open>None\<close> (\<open>Spins\<close>) when it is used up: after as many rounds as the table has cells a
  loop has seen every cell. A write outside the token array is the fault \<open>Overrun\<close>.
\<close>

datatype vocab_stop = No_Memory | Spins | Overrun

record hash_entry =
  he_str :: "string option"
  he_id :: int

record kc_emb_layer_t =
  ly_attn_q_w :: ggml_tensor
  ly_attn_q_b :: ggml_tensor
  ly_attn_k_w :: ggml_tensor
  ly_attn_k_b :: ggml_tensor
  ly_attn_v_w :: ggml_tensor
  ly_attn_v_b :: ggml_tensor
  ly_attn_out_w :: ggml_tensor
  ly_attn_out_b :: ggml_tensor
  ly_attn_norm_w :: ggml_tensor
  ly_attn_norm_b :: ggml_tensor
  ly_ffn_up_w :: ggml_tensor
  ly_ffn_up_b :: ggml_tensor
  ly_ffn_down_w :: ggml_tensor
  ly_ffn_down_b :: ggml_tensor
  ly_layer_norm_w :: ggml_tensor
  ly_layer_norm_b :: ggml_tensor

text \<open>Of a pointer that only owns something the record keeps whether it is set. A vocabulary that was
  loaded is not empty, so the empty list is the null pointer. \<open>norm_input\<close>, which nothing sets, and the
  number of threads are left out.\<close>

record kc_emb_ctx_t =
  ec_ctx :: bool
  ec_gguf :: bool
  ec_n_embd :: int
  ec_n_layer :: int
  ec_n_head :: int
  ec_n_ctx :: nat
  ec_eps :: u32
  ec_cls :: int
  ec_sep :: int
  ec_pad :: int
  ec_unk :: int
  ec_vocab :: "string list"
  ec_vocab_hash :: "hash_entry list option"
  ec_token_embd :: "ggml_tensor option"
  ec_pos_embd :: "ggml_tensor option"
  ec_type_embd :: "ggml_tensor option"
  ec_norm_w :: "ggml_tensor option"
  ec_norm_b :: "ggml_tensor option"
  ec_layers :: "kc_emb_layer_t list option"
  ec_compute_buf :: bool
  ec_backend :: bool
  ec_galloc :: bool
  ec_tokens :: bool
  ec_pos_data :: bool
  ec_type_data :: bool

text \<open>The record as \<open>calloc\<close> gives it.\<close>

definition zero_ctx :: kc_emb_ctx_t where
  "zero_ctx =
     \<lparr>ec_ctx = False, ec_gguf = False, ec_n_embd = 0, ec_n_layer = 0, ec_n_head = 0, ec_n_ctx = 0, ec_eps = 0,
      ec_cls = 0, ec_sep = 0, ec_pad = 0, ec_unk = 0, ec_vocab = [], ec_vocab_hash = None,
      ec_token_embd = None, ec_pos_embd = None, ec_type_embd = None, ec_norm_w = None, ec_norm_b = None, ec_layers = None,
      ec_compute_buf = False, ec_backend = False, ec_galloc = False, ec_tokens = False, ec_pos_data = False, ec_type_data = False\<rparr>"

subsection \<open>Characters and hashes\<close>

definition kc_isspace :: "char \<Rightarrow> bool" where
  "kc_isspace c \<longleftrightarrow> c = CHR '' '' \<or> c = CHR 0x09 \<or> c = CHR 0x0A \<or> c = CHR 0x0D \<or> c = CHR 0x0C \<or> c = CHR 0x0B"

definition kc_tolower :: "char \<Rightarrow> char" where
  "kc_tolower c = (if 65 \<le> (of_char c :: nat) \<and> (of_char c :: nat) \<le> 90 then char_of ((of_char c :: nat) + 32) else c)"

definition hash_str :: "string \<Rightarrow> u32" where
  "hash_str s = foldl (\<lambda>h c. (push_bit 5 h + h) + of_nat (of_char c)) 5381 s"

subsection \<open>The table\<close>

primrec probe :: "nat \<Rightarrow> (hash_entry \<Rightarrow> bool) \<Rightarrow> hash_entry list \<Rightarrow> nat \<Rightarrow> nat option" where
  "probe 0 stop table h = None"
| "probe (Suc n) stop table h = (if stop (table ! h) then Some h else probe n stop table ((h + 1) mod length table))"

definition home :: "hash_entry list \<Rightarrow> string \<Rightarrow> nat" where
  "home table s = unat (hash_str s) mod length table"

definition add_token :: "nat \<times> string \<Rightarrow> hash_entry list \<Rightarrow> vocab_stop + hash_entry list" where
  "add_token tok table =
     (case probe (length table) (\<lambda>e. he_str e = None) table (home table (snd tok)) of
        None \<Rightarrow> Inl Spins
      | Some h \<Rightarrow> Inr (table[h := \<lparr>he_str = Some (snd tok), he_id = int (fst tok)\<rparr>]))"

definition vocab_hash_size :: "kc_emb_ctx_t \<Rightarrow> nat" where
  "vocab_hash_size ectx = nat (to_int (int (length (ec_vocab ectx)) * 2 + 1))"

definition build_vocab_hash :: "allocator \<Rightarrow> kc_emb_ctx_t \<Rightarrow> vocab_stop + kc_emb_ctx_t" where
  "build_vocab_hash alloc ectx =
     (let n = vocab_hash_size ectx
      in if \<not> alloc (n * 16) then Inl No_Memory
         else sum_bind (fold_res add_token (enumerate 0 (ec_vocab ectx)) (replicate n \<lparr>he_str = None, he_id = 0\<rparr>))
                (\<lambda>table. Inr (ectx\<lparr>ec_vocab_hash := Some table\<rparr>)))"

definition find_token :: "kc_emb_ctx_t \<Rightarrow> string \<Rightarrow> vocab_stop + int" where
  "find_token ectx s =
     (case ec_vocab_hash ectx of
        None \<Rightarrow> Inr (-1)
      | Some table \<Rightarrow>
          if length table = 0 then Inr (-1)
          else (case probe (length table) (\<lambda>e. he_str e = None \<or> he_str e = Some s) table (home table s) of
                  None \<Rightarrow> Inl Spins
                | Some h \<Rightarrow> Inr (if he_str (table ! h) = None then -1 else he_id (table ! h))))"

subsection \<open>Probing\<close>

definition cell :: "hash_entry list \<Rightarrow> nat \<Rightarrow> nat \<Rightarrow> nat" where
  "cell table h d = (h + d) mod length table"

lemma cell_Suc: "cell table (cell table h (Suc 0)) d = cell table h (Suc d)"
  by (simp add: cell_def mod_simps add.commute add.left_commute)

lemma cell_lt: "table \<noteq> [] \<Longrightarrow> cell table h d < length table"
  by (simp add: cell_def)

text \<open>Probing answers the first cell of its walk where it stops.\<close>

lemma probe_first:
  assumes "h < length table" "d < n" "stop (table ! cell table h d)" "\<And>e. e < d \<Longrightarrow> \<not> stop (table ! cell table h e)"
  shows "probe n stop table h = Some (cell table h d)"
  using assms
proof (induction n arbitrary: h d)
  case (Suc n)
  have c0: "cell table h 0 = h" using Suc.prems(1) by (simp add: cell_def)
  show ?case
  proof (cases d)
    case 0
    with Suc.prems(3) c0 show ?thesis by simp
  next
    case (Suc d')
    let ?h = "cell table h (Suc 0)"
    have "\<not> stop (table ! h)" using Suc.prems(4) [of 0] Suc c0 by simp
    moreover have "?h < length table" using Suc.prems(1) by (auto intro: cell_lt)
    then have "probe n stop table ?h = Some (cell table ?h d')"
      using Suc.prems Suc by (intro Suc.IH) (auto simp: cell_Suc)
    ultimately show ?thesis unfolding cell_Suc using Suc by (simp add: cell_def)
  qed
qed simp

text \<open>A walk as long as the table meets every cell.\<close>

lemma cell_reached:
  assumes "p < length table" "h < length table" shows "\<exists>d < length table. cell table h d = p"
proof (cases "h \<le> p")
  case True
  then show ?thesis using assms by (intro exI [of _ "p - h"]) (auto simp: cell_def)
next
  case False
  then show ?thesis using assms by (intro exI [of _ "length table - h + p"]) (auto simp: cell_def)
qed

lemma probe_total:
  assumes "h < length table" "\<exists>p < length table. stop (table ! p)"
  obtains d where "d < length table" "stop (table ! cell table h d)" "\<And>e. e < d \<Longrightarrow> \<not> stop (table ! cell table h e)"
    "probe (length table) stop table h = Some (cell table h d)"
proof -
  obtain d0 where d0: "d0 < length table" "stop (table ! cell table h d0)" using assms cell_reached by metis
  define d where "d = (LEAST d. stop (table ! cell table h d))"
  have "stop (table ! cell table h d)" unfolding d_def by (rule LeastI [of _ d0]) (rule d0(2))
  moreover have "d \<le> d0" unfolding d_def by (rule Least_le) (rule d0(2))
  moreover have "\<not> stop (table ! cell table h e)" if "e < d" for e
    using that unfolding d_def by (rule not_less_Least)
  ultimately show ?thesis using that [of d] probe_first [OF assms(1), of d "length table" stop] d0(1) by simp
qed

subsection \<open>What the table holds\<close>

definition entry :: "string list \<Rightarrow> nat \<Rightarrow> hash_entry" where
  "entry vs j = \<lparr>he_str = Some (vs ! j), he_id = int j\<rparr>"

definition used :: "hash_entry list \<Rightarrow> nat set" where
  "used table = {p. p < length table \<and> he_str (table ! p) \<noteq> None}"

text \<open>Every token stands on the walk from its home cell, behind cells of earlier tokens only.\<close>

definition on_walk :: "hash_entry list \<Rightarrow> string list \<Rightarrow> nat \<Rightarrow> nat \<Rightarrow> bool" where
  "on_walk table vs j h \<longleftrightarrow> (\<exists>d < length table. table ! cell table h d = entry vs j \<and>
     (\<forall>e < d. \<exists>i < j. table ! cell table h e = entry vs i))"

definition placed :: "hash_entry list \<Rightarrow> string list \<Rightarrow> bool" where
  "placed table vs \<longleftrightarrow> (\<forall>j < length vs. on_walk table vs j (home table (vs ! j))) \<and>
     (\<forall>p \<in> used table. \<exists>j < length vs. table ! p = entry vs j) \<and> card (used table) \<le> length vs"

definition token_id :: "string list \<Rightarrow> string \<Rightarrow> int" where
  "token_id vs s = (if s \<in> set vs then int (length (takeWhile (\<lambda>v. v \<noteq> s) vs)) else -1)"

lemma first_index:
  "s \<in> set vs \<Longrightarrow> length (takeWhile (\<lambda>v. v \<noteq> s) vs) < length vs \<and> vs ! length (takeWhile (\<lambda>v. v \<noteq> s) vs) = s"
  by (induction vs) auto

lemma before_first: "i < length (takeWhile (\<lambda>v. v \<noteq> s) vs) \<Longrightarrow> vs ! i \<noteq> s"
  by (induction vs arbitrary: i) (auto simp: nth_Cons split: nat.splits if_splits)

lemma home_lt: "table \<noteq> [] \<Longrightarrow> home table s < length table"
  by (simp add: home_def)

lemma free_cell:
  assumes "placed table vs" "length vs < length table" shows "\<exists>p < length table. he_str (table ! p) = None"
proof (rule ccontr)
  assume "\<not> ?thesis"
  then have "used table = {..<length table}" by (auto simp: used_def)
  then have "card (used table) = length table" by simp
  with assms show False by (simp add: placed_def)
qed

text \<open>Filling a free cell leaves the others, and with them every walk, as they were.\<close>

lemma put_keeps:
  assumes "he_str (table ! q) = None" "p < length table" "table ! p = entry vs j" "j < length vs"
  shows "table[q := x] ! p = entry (vs @ ws) j"
  using assms by (cases "p = q") (auto simp: entry_def nth_append)

lemma put_frame [simp]: "cell (table[q := x]) = cell table" "home (table[q := x]) = home table"
  by (auto simp: cell_def home_def fun_eq_iff)

lemma walk_put:
  assumes q: "he_str (table ! q) = None" and j: "j < length vs" and w: "on_walk table vs j h"
  shows "on_walk (table[q := x]) (vs @ ws) j h"
proof -
  obtain d where d: "d < length table" "table ! cell table h d = entry vs j" "\<forall>e < d. \<exists>i < j. table ! cell table h e = entry vs i"
    using w unfolding on_walk_def by blast
  then have ne: "table \<noteq> []" by auto
  have "\<exists>i < j. table[q := x] ! cell table h e = entry (vs @ ws) i" if "e < d" for e
    using d(3) that put_keeps [OF q cell_lt [OF ne]] j by (meson less_trans)
  then show ?thesis unfolding on_walk_def put_frame using d(1) put_keeps [OF q cell_lt [OF ne] d(2) j] by auto
qed

lemma used_put:
  assumes "q < length table" "he_str x \<noteq> None" shows "used (table[q := x]) = insert q (used table)"
  using assms by (auto simp: used_def nth_list_update)

lemma card_used_put: "card (insert q (used table)) \<le> Suc (card (used table))"
  by (rule card_insert_le_m1) simp_all

lemma placed_put:
  assumes t: "placed table vs" and q: "q < length table" "he_str (table ! q) = None"
    and w: "on_walk (table[q := entry (vs @ [s]) (length vs)]) (vs @ [s]) (length vs) (home table s)"
  shows "placed (table[q := entry (vs @ [s]) (length vs)]) (vs @ [s])"
proof -
  let ?t = "table[q := entry (vs @ [s]) (length vs)]"
  have w: "on_walk ?t (vs @ [s]) j (home ?t ((vs @ [s]) ! j))" if "j < length (vs @ [s])" for j
  proof (cases "j = length vs")
    case True
    then show ?thesis using w by simp
  next
    case False
    then have "j < length vs" "(vs @ [s]) ! j = vs ! j" using that by (auto simp: nth_append)
    moreover have "on_walk table vs j (home table (vs ! j))" using t calculation(1) by (simp add: placed_def)
    ultimately show ?thesis using walk_put [OF q(2)] by simp
  qed
  have u: "used ?t = insert q (used table)" using q(1) by (rule used_put) (simp add: entry_def)
  have o: "\<exists>j < length (vs @ [s]). ?t ! p = entry (vs @ [s]) j" if "p \<in> used ?t" for p
  proof (cases "p = q")
    case True
    then show ?thesis using q by (intro exI [of _ "length vs"]) simp
  next
    case False
    then have p: "p \<in> used table" using that u by blast
    then obtain j where j: "j < length vs" "table ! p = entry vs j" using t unfolding placed_def by blast
    moreover have "p < length table" using p by (simp add: used_def)
    ultimately have "?t ! p = entry (vs @ [s]) j" using put_keeps [OF q(2)] by blast
    with j(1) show ?thesis by (intro exI [of _ j]) simp
  qed
  have "card (used table) \<le> length vs" using t by (simp add: placed_def)
  then have "card (used ?t) \<le> length (vs @ [s])" unfolding u using card_used_put [of q table] by simp
  then show ?thesis unfolding placed_def using w o by blast
qed

lemma placed_add:
  assumes t: "placed table vs" "length vs < length table"
  shows "\<exists>table'. add_token (length vs, s) table = Inr table' \<and> placed table' (vs @ [s]) \<and> length table' = length table"
proof -
  have ne: "table \<noteq> []" using t(2) by auto
  let ?c = "cell table (home table s)"
  obtain d where d: "d < length table" "he_str (table ! ?c d) = None" "\<And>e. e < d \<Longrightarrow> he_str (table ! ?c e) \<noteq> None"
    and pr: "probe (length table) (\<lambda>e. he_str e = None) table (home table s) = Some (?c d)"
    using probe_total [of "home table s" table "\<lambda>e. he_str e = None", OF home_lt [OF ne] free_cell [OF t]] by metis
  let ?t = "table[?c d := entry (vs @ [s]) (length vs)]"
  have lt: "?c e < length table" for e using ne by (rule cell_lt)
  have "\<exists>i < length vs. ?t ! ?c e = entry (vs @ [s]) i" if "e < d" for e
  proof -
    have "?c e \<in> used table" using d(3) [OF that] lt by (simp add: used_def)
    then obtain i where "i < length vs" "table ! ?c e = entry vs i" using t(1) unfolding placed_def by blast
    with put_keeps [OF d(2) lt] show ?thesis by blast
  qed
  moreover have "?t ! ?c d = entry (vs @ [s]) (length vs)" using lt by simp
  ultimately have "on_walk ?t (vs @ [s]) (length vs) (home table s)"
    unfolding on_walk_def put_frame length_list_update using d(1) by blast
  from placed_put [OF t(1) lt d(2) this] show ?thesis by (auto simp: add_token_def pr entry_def)
qed

lemma build_placed:
  assumes "length vs + length ws < length table" "placed table vs"
  shows "\<exists>table'. fold_res add_token (enumerate (length vs) ws) table = Inr table' \<and> placed table' (vs @ ws) \<and> length table' = length table"
  using assms
proof (induction ws arbitrary: vs table)
  case (Cons w ws)
  obtain t where t: "add_token (length vs, w) table = Inr t" "placed t (vs @ [w])" "length t = length table"
    using placed_add [OF Cons.prems(2)] Cons.prems(1) by fastforce
  from Cons.IH [of "vs @ [w]" t] t Cons.prems(1) show ?case by simp
qed simp

lemma placed_find:
  assumes t: "placed table vs" "length vs < length table" and e: "ec_vocab_hash ectx = Some table"
  shows "find_token ectx s = Inr (token_id vs s)"
proof -
  have ne: "table \<noteq> []" using t(2) by auto
  let ?stop = "\<lambda>e. he_str e = None \<or> he_str e = Some s" and ?c = "cell table (home table s)"
  have lt: "?c e < length table" for e using ne by (rule cell_lt)
  show ?thesis
  proof (cases "s \<in> set vs")
    case True
    let ?j = "length (takeWhile (\<lambda>v. v \<noteq> s) vs)"
    have j: "?j < length vs" "vs ! ?j = s" using first_index [OF True] by auto
    have first: "vs ! i \<noteq> s" if "i < ?j" for i using that by (rule before_first)
    have "on_walk table vs ?j (home table (vs ! ?j))" using t(1) j(1) unfolding placed_def by blast
    then obtain d where d: "d < length table" "table ! ?c d = entry vs ?j" "\<forall>e < d. \<exists>i < ?j. table ! ?c e = entry vs i"
      unfolding on_walk_def j(2) by blast
    have "probe (length table) ?stop table (home table s) = Some (?c d)"
      using d first j by (intro probe_first home_lt [OF ne]) (auto simp: entry_def)
    then show ?thesis using ne e d(2) True by (simp add: find_token_def entry_def token_id_def)
  next
    case False
    have "\<exists>p < length table. ?stop (table ! p)" using free_cell [OF t] by blast
    then obtain d where d: "?stop (table ! ?c d)" "probe (length table) ?stop table (home table s) = Some (?c d)"
      by (rule probe_total [OF home_lt [OF ne]])
    have "he_str (table ! ?c d) = None"
    proof (rule ccontr)
      assume n: "he_str (table ! ?c d) \<noteq> None"
      then have "?c d \<in> used table" using lt by (simp add: used_def)
      then obtain j where "j < length vs" "table ! ?c d = entry vs j" using t(1) unfolding placed_def by blast
      with d(1) n False show False by (auto simp: entry_def)
    qed
    then show ?thesis using ne e d(2) False by (simp add: find_token_def token_id_def)
  qed
qed

definition vocab_ready :: "kc_emb_ctx_t \<Rightarrow> bool" where
  "vocab_ready ectx \<longleftrightarrow> (\<forall>s. find_token ectx s = Inr (token_id (ec_vocab ectx) s))"

lemma build_vocab_ready:
  assumes n: "length (ec_vocab ectx) < 2 ^ 30" and mem: "alloc (vocab_hash_size ectx * 16)"
  shows "\<exists>ectx'. build_vocab_hash alloc ectx = Inr ectx' \<and> vocab_ready ectx' \<and> (\<exists>t. ectx' = ectx\<lparr>ec_vocab_hash := t\<rparr>)"
proof -
  let ?v = "ec_vocab ectx" and ?e = "\<lparr>he_str = None, he_id = 0\<rparr> :: hash_entry"
  have sz: "vocab_hash_size ectx = 2 * length ?v + 1" using n by (simp add: vocab_hash_size_def to_int_id nat_add_distrib nat_mult_distrib)
  have "placed (replicate (vocab_hash_size ectx) ?e) []" by (auto simp: placed_def used_def)
  from build_placed [OF _ this, of ?v] sz obtain t where t: "fold_res add_token (enumerate 0 ?v) (replicate (vocab_hash_size ectx) ?e) = Inr t"
    "placed t ?v" "length ?v < length t" by auto
  then have "vocab_ready (ectx\<lparr>ec_vocab_hash := Some t\<rparr>)" using placed_find by (simp add: vocab_ready_def)
  with t(1) mem show ?thesis by (auto simp: build_vocab_hash_def Let_def)
qed

text \<open>C22. The vocabulary table is a lookup table: for a vocabulary of fewer than 2^30 tokens and with memory for the
  table, building it ends, and so does every later lookup, which answers the first index of the token in the
  vocabulary (also when tokens repeat or collide), and -1 exactly for a string that is not a token.\<close>

theorem vocabulary_lookup:
  assumes "length (ec_vocab ectx) < 2 ^ 30" "alloc (vocab_hash_size ectx * 16)"
  shows "\<exists>ectx'. build_vocab_hash alloc ectx = Inr ectx' \<and>
    (\<forall>s. find_token ectx' s =
       Inr (if s \<in> set (ec_vocab ectx) then int (length (takeWhile (\<lambda>v. v \<noteq> s) (ec_vocab ectx))) else -1))"
proof -
  obtain ectx' t where "build_vocab_hash alloc ectx = Inr ectx'" "vocab_ready ectx'" "ectx' = ectx\<lparr>ec_vocab_hash := t\<rparr>"
    using build_vocab_ready [of ectx alloc, OF assms] by blast
  then show ?thesis by (auto simp: vocab_ready_def token_id_def)
qed

definition sample_ctx :: kc_emb_ctx_t where
  "sample_ctx = zero_ctx\<lparr>ec_vocab := [''turn'', ''on'', ''##n'', ''on''], ec_n_ctx := 8, ec_cls := 101, ec_sep := 102, ec_unk := 100\<rparr>"

lemma vocabulary_lookup_witness:
  "\<exists>ectx'. build_vocab_hash granting sample_ctx = Inr ectx' \<and> find_token ectx' ''on'' = Inr 1 \<and> find_token ectx' ''off'' = Inr (-1)"
  using vocabulary_lookup [of sample_ctx granting] by (auto simp: sample_ctx_def zero_ctx_def)

end
