(* ===== verification/Wordpiece.thy ===== *)
theory Wordpiece
  imports Vocab
begin

section \<open>Segmenting a text into tokens (src/lib/libemb.c: wordpiece\_tokenize)\<close>

text \<open>
  The greedy segmentation. The token array has \<open>n_ctx\<close> cells and \<open>n_tokens\<close> is the length of the list of
  tokens so far. A candidate piece is copied behind its prefix into a buffer of 128 bytes; a longer one is
  not looked up. The functions follow the loops of the source from the inside out: \<open>piece_step\<close> is one
  round of the loop over \<open>end\<close>, \<open>longest\<close> that loop, \<open>word_loop\<close> the loop over a word, \<open>input_loop\<close> the loop
  over the text. At the end stands what the segmentation is, without table, buffer and array.
\<close>

definition push_id :: "kc_emb_ctx_t \<Rightarrow> int list \<Rightarrow> int \<Rightarrow> vocab_stop + int list" where
  "push_id ectx toks t = (if length toks < ec_n_ctx ectx then Inr (toks @ [t]) else Inl Overrun)"

definition space_prefix :: string where
  "space_prefix = [CHR 0xE2, CHR 0x96, CHR 0x81]"

text \<open>One form of a candidate: the new \<open>best_id\<close> and \<open>found\<close>.\<close>

definition try_form :: "kc_emb_ctx_t \<Rightarrow> string \<Rightarrow> string \<Rightarrow> int \<Rightarrow> vocab_stop + int \<times> bool" where
  "try_form ectx pre ls best_id =
     (if length pre + length ls < 128
      then sum_bind (find_token ectx (pre @ map kc_tolower ls)) (\<lambda>t. Inr (t, t \<ge> 0))
      else Inr (best_id, False))"

definition piece_step :: "kc_emb_ctx_t \<Rightarrow> bool \<Rightarrow> string \<Rightarrow> int \<Rightarrow> vocab_stop + int \<times> bool" where
  "piece_step ectx first ls best_id =
     sum_bind (if first then try_form ectx space_prefix ls best_id else Inr (best_id, False)) (\<lambda>(b1, f1).
     sum_bind (if \<not> f1 \<and> \<not> first then try_form ectx ''##'' ls b1 else Inr (b1, f1)) (\<lambda>(b2, f2).
       if \<not> f2 then try_form ectx [] ls b2 else Inr (b2, f2)))"

primrec longest :: "nat \<Rightarrow> kc_emb_ctx_t \<Rightarrow> string \<Rightarrow> nat \<Rightarrow> int \<Rightarrow> vocab_stop + int \<times> nat" where
  "longest 0 ectx word start best_id = Inr (best_id, 0)"
| "longest (Suc e) ectx word start best_id =
     (if Suc e > start then
        sum_bind (piece_step ectx (start = 0) (take (Suc e - start) (drop start word)) best_id) (\<lambda>(b, found).
          if found then Inr (b, Suc e - start) else longest e ectx word start b)
      else Inr (best_id, 0))"

function word_loop :: "kc_emb_ctx_t \<Rightarrow> string \<Rightarrow> nat \<Rightarrow> int list \<Rightarrow> vocab_stop + int list" where
  "word_loop ectx word start toks =
     (if start < length word \<and> length toks + 1 < ec_n_ctx ectx then
        (case longest (length word) ectx word start (-1) of
           Inl f \<Rightarrow> Inl f
         | Inr (best_id, best_len) \<Rightarrow>
             if best_id \<noteq> -1 then
               (case push_id ectx toks best_id of Inl f \<Rightarrow> Inl f | Inr toks' \<Rightarrow> word_loop ectx word (start + best_len) toks')
             else
               (case push_id ectx toks (ec_unk ectx) of Inl f \<Rightarrow> Inl f | Inr toks' \<Rightarrow> word_loop ectx word (start + 1) toks'))
      else Inr toks)"
  by pat_completeness auto
termination
  by (relation "measure (\<lambda>(ectx, word, start, toks). ec_n_ctx ectx - length toks)") (auto simp: push_id_def split: if_splits)

declare word_loop.simps [simp del]

abbreviation (input) in_word :: "char \<Rightarrow> bool" where
  "in_word \<equiv> (\<lambda>c. \<not> kc_isspace c)"

lemma word_progress:
  assumes "i < length xs" "scan_while p xs i \<noteq> length xs"
  shows "i < scan_while (\<lambda>c. \<not> p c) xs (scan_while p xs i)" "scan_while p xs i < length xs"
proof -
  show lt: "scan_while p xs i < length xs" using assms scan_while_le [of i xs p] by simp
  have "scan_while p xs i < scan_while (\<lambda>c. \<not> p c) xs (scan_while p xs i)"
    using lt scan_while_stop [OF lt] by (rule scan_while_progress)
  then show "i < scan_while (\<lambda>c. \<not> p c) xs (scan_while p xs i)" using scan_while_ge [of i p xs] by (rule le_less_trans [rotated])
qed

function input_loop :: "kc_emb_ctx_t \<Rightarrow> string \<Rightarrow> nat \<Rightarrow> int list \<Rightarrow> vocab_stop + int list" where
  "input_loop ectx input i toks =
     (if i < length input \<and> length toks + 1 < ec_n_ctx ectx then
        let word_start = scan_while kc_isspace input i
        in if word_start = length input then Inr toks
           else let word_end = scan_while in_word input word_start
                in (case word_loop ectx (take (word_end - word_start) (drop word_start input)) 0 toks of
                      Inl f \<Rightarrow> Inl f
                    | Inr toks' \<Rightarrow> input_loop ectx input word_end toks')
      else Inr toks)"
  by pat_completeness auto
termination
proof (relation "measure (\<lambda>(ectx, input, i, toks). length input - i)", goal_cases)
  case (2 ectx input i toks x xa xb)
  then have "i < xa" "i < length input" using word_progress [of i input kc_isspace] by simp_all
  then show ?case by (simp add: diff_less_mono2)
qed simp

declare input_loop.simps [simp del]

definition wordpiece_tokenize :: "kc_emb_ctx_t \<Rightarrow> string \<Rightarrow> vocab_stop + int list" where
  "wordpiece_tokenize ectx input =
     sum_bind (if 0 < ec_n_ctx ectx then push_id ectx [] (ec_cls ectx) else Inr []) (\<lambda>toks.
     sum_bind (input_loop ectx input 0 toks) (\<lambda>toks'.
       if length toks' < ec_n_ctx ectx then push_id ectx toks' (ec_sep ectx) else Inr toks'))"

subsection \<open>What the segmentation is\<close>

text \<open>The id of a piece, in the form its place asks for or as it is; -1 when it has none.\<close>

definition form_id :: "string list \<Rightarrow> string \<Rightarrow> string \<Rightarrow> int" where
  "form_id vs pre ls = (if length pre + length ls < 128 then token_id vs (pre @ map kc_tolower ls) else -1)"

definition piece_id :: "string list \<Rightarrow> bool \<Rightarrow> string \<Rightarrow> int" where
  "piece_id vs first ls =
     (let t = form_id vs (if first then space_prefix else ''##'') ls in if 0 \<le> t then t else form_id vs [] ls)"

text \<open>The longest prefix of a word that is a piece, with its id.\<close>

definition best_piece :: "string list \<Rightarrow> bool \<Rightarrow> string \<Rightarrow> (int \<times> nat) option" where
  "best_piece vs first w =
     map_option (\<lambda>k. (piece_id vs first (take k w), k)) (find (\<lambda>k. 0 \<le> piece_id vs first (take k w)) (rev [1..<Suc (length w)]))"

lemma best_piece_pos: "best_piece vs first w = Some (t, k) \<Longrightarrow> 0 < k \<and> k \<le> length w \<and> 0 \<le> t"
  by (auto simp: best_piece_def find_Some_iff rev_nth simp del: upt_Suc)

function segment :: "string list \<Rightarrow> int \<Rightarrow> bool \<Rightarrow> string \<Rightarrow> int list" where
  "segment vs unk first w =
     (if w = [] then []
      else case best_piece vs first w of
             None \<Rightarrow> unk # segment vs unk False (drop 1 w)
           | Some (t, k) \<Rightarrow> t # segment vs unk False (drop k w))"
  by pat_completeness auto
termination
  by (relation "measure (\<lambda>(vs, unk, first, w). length w)") (auto dest: best_piece_pos)

declare segment.simps [simp del]

function split_words :: "string \<Rightarrow> string list" where
  "split_words s =
     (let s1 = dropWhile kc_isspace s
      in if s1 = [] then [] else takeWhile in_word s1 # split_words (dropWhile in_word s1))"
  by pat_completeness auto
termination
proof (relation "measure length", goal_cases)
  case (2 s s1)
  then have "s1 \<noteq> []" "\<not> kc_isspace (hd s1)" using hd_dropWhile [of kc_isspace s] by auto
  then have "length (dropWhile in_word s1) < length s1" by (cases s1) (auto simp: le_imp_less_Suc length_dropWhile_le)
  moreover have "length s1 \<le> length s" using 2 length_dropWhile_le by auto
  ultimately show ?case by simp
qed simp

declare split_words.simps [simp del]

subsection \<open>The loops compute it\<close>

lemma token_id_cases: "token_id vs s = -1 \<or> 0 \<le> token_id vs s"
  by (simp add: token_id_def)

lemma form_id_cases: "form_id vs pre ls = -1 \<or> 0 \<le> form_id vs pre ls"
  using token_id_cases by (simp add: form_id_def)

lemma piece_id_cases: "piece_id vs first ls = -1 \<or> 0 \<le> piece_id vs first ls"
  using form_id_cases [of vs _ ls] unfolding piece_id_def Let_def by presburger

lemma try_form_ready:
  "vocab_ready ectx \<Longrightarrow> try_form ectx pre ls (-1) = Inr (form_id (ec_vocab ectx) pre ls, 0 \<le> form_id (ec_vocab ectx) pre ls)"
  by (simp add: try_form_def vocab_ready_def form_id_def)

lemma piece_step_ready:
  assumes "vocab_ready ectx"
  shows "piece_step ectx first ls (-1) = Inr (piece_id (ec_vocab ectx) first ls, 0 \<le> piece_id (ec_vocab ectx) first ls)"
  using form_id_cases [of "ec_vocab ectx" space_prefix ls] form_id_cases [of "ec_vocab ectx" "''##''" ls]
  by (auto simp: piece_step_def try_form_ready [OF assms] piece_id_def Let_def)

lemma longest_ready:
  assumes "vocab_ready ectx"
  shows "longest e ectx word start (-1) =
    Inr (case find (\<lambda>k. 0 \<le> piece_id (ec_vocab ectx) (start = 0) (take k (drop start word))) (rev [1..<Suc (e - start)]) of
           None \<Rightarrow> (-1, 0) | Some k \<Rightarrow> (piece_id (ec_vocab ectx) (start = 0) (take k (drop start word)), k))"
proof (induction e)
  case (Suc e)
  let ?P = "\<lambda>k. piece_id (ec_vocab ectx) (start = 0) (take k (drop start word))"
  show ?case
  proof (cases "start < Suc e")
    case True
    then have k: "Suc e - start = Suc (e - start)" by simp
    then have "rev [1..<Suc (Suc e - start)] = (Suc e - start) # rev [1..<Suc (e - start)]" by simp
    then show ?thesis
      using True Suc.IH piece_id_cases [of "ec_vocab ectx" "start = 0" "take (Suc e - start) (drop start word)"]
      by (auto simp: piece_step_ready [OF assms])
  qed simp
qed simp

lemma longest_best:
  assumes "vocab_ready ectx"
  shows "longest (length word) ectx word start (-1) =
    Inr (case best_piece (ec_vocab ectx) (start = 0) (drop start word) of None \<Rightarrow> (-1, 0) | Some x \<Rightarrow> x)"
  unfolding longest_ready [OF assms] best_piece_def by (simp split: option.split)

lemma word_loop_round:
  assumes v: "vocab_ready ectx" and g: "start < length word" "length toks + 1 < ec_n_ctx ectx"
  shows "word_loop ectx word start toks =
    (case best_piece (ec_vocab ectx) (start = 0) (drop start word) of
       None \<Rightarrow> word_loop ectx word (start + 1) (toks @ [ec_unk ectx])
     | Some (t, k) \<Rightarrow> word_loop ectx word (start + k) (toks @ [t]))"
proof (cases "best_piece (ec_vocab ectx) (start = 0) (drop start word)")
  case None
  then show ?thesis using g longest_best [OF v, of word start] by (subst word_loop.simps) (simp add: push_id_def)
next
  case (Some x)
  obtain t k where x: "x = (t, k)" by (cases x)
  then have "0 \<le> t" using best_piece_pos [of "ec_vocab ectx" "start = 0" "drop start word" t k] Some by simp
  then show ?thesis using Some x g longest_best [OF v, of word start] by (subst word_loop.simps) (simp add: push_id_def)
qed

lemma segment_Nil [simp]: "segment vs unk first [] = []"
  by (simp add: segment.simps)

lemma take_full: "length xs < n \<Longrightarrow> ys = [] \<or> \<not> length xs + 1 < n \<Longrightarrow> take (n - 1) (xs @ ys) = xs"
  by auto

lemma word_loop_ready:
  assumes "vocab_ready ectx" "length toks < ec_n_ctx ectx"
  shows "word_loop ectx word start toks =
    Inr (take (ec_n_ctx ectx - 1) (toks @ segment (ec_vocab ectx) (ec_unk ectx) (start = 0) (drop start word)))"
  using assms(2)
proof (induction "ec_n_ctx ectx - length toks" arbitrary: start toks rule: less_induct)
  case less
  let ?w = "drop start word" and ?seg = "segment (ec_vocab ectx) (ec_unk ectx)"
  show ?case
  proof (cases "start < length word \<and> length toks + 1 < ec_n_ctx ectx")
    case False
    then have "word_loop ectx word start toks = Inr toks" by (subst word_loop.simps) auto
    moreover have "take (ec_n_ctx ectx - 1) (toks @ ?seg (start = 0) ?w) = toks"
      using False less.prems by (intro take_full) auto
    ultimately show ?thesis by simp
  next
    case True
    then have ne: "?w \<noteq> []" by simp
    have step: "word_loop ectx word s (toks @ [t]) = Inr (take (ec_n_ctx ectx - 1) (toks @ t # ?seg False (drop s word)))"
      if "start < s" for s t
    proof -
      have "ec_n_ctx ectx - length (toks @ [t]) < ec_n_ctx ectx - length toks" "length (toks @ [t]) < ec_n_ctx ectx" "(s = 0) = False"
        using True that by auto
      with less.hyps [of "toks @ [t]" s] show ?thesis by (simp only: append.assoc append_Cons append_Nil)
    qed
    note r = word_loop_round [OF assms(1) True [THEN conjunct1] True [THEN conjunct2]]
    show ?thesis
    proof (cases "best_piece (ec_vocab ectx) (start = 0) ?w")
      case None
      then have "?seg (start = 0) ?w = ec_unk ectx # ?seg False (drop (start + 1) word)"
        using ne by (subst segment.simps) (simp add: drop_Suc tl_drop)
      with None r step [of "start + 1" "ec_unk ectx"] show ?thesis by simp
    next
      case (Some x)
      obtain t k where x: "x = (t, k)" by (cases x)
      then have k: "0 < k" using best_piece_pos [of "ec_vocab ectx" "start = 0" ?w t k] Some by simp
      have "?seg (start = 0) ?w = t # ?seg False (drop (start + k) word)"
        using ne Some x by (subst segment.simps) (simp add: add.commute)
      with Some x r step [of "start + k" t] k show ?thesis by simp
    qed
  qed
qed

lemma take_take_append: "take n (take n xs @ ys) = take n (xs @ ys)"
  by (cases "length xs \<le> n") auto

lemma split_words_at:
  assumes "i \<le> length input"
  shows "split_words (drop i input) =
    (let ws = scan_while kc_isspace input i; we = scan_while in_word input ws
     in if ws = length input then [] else take (we - ws) (drop ws input) # split_words (drop we input))"
proof -
  let ?ws = "scan_while kc_isspace input i"
  have s1: "dropWhile kc_isspace (drop i input) = drop ?ws input"
    by (simp add: dropWhile_eq_drop scan_while_closed add.commute)
  have "?ws \<le> length input" using assms by (rule scan_while_le)
  then have e: "drop ?ws input = [] \<longleftrightarrow> ?ws = length input" by auto
  let ?we = "scan_while in_word input ?ws"
  have we: "?we = ?ws + length (takeWhile in_word (drop ?ws input))" by (rule scan_while_closed)
  have w1: "takeWhile in_word (drop ?ws input) = take (?we - ?ws) (drop ?ws input)"
    using takeWhile_eq_take [of in_word "drop ?ws input"] we by (metis add_diff_cancel_left')
  have w2: "dropWhile in_word (drop ?ws input) = drop ?we input"
    unfolding we by (subst dropWhile_eq_drop) (simp add: add.commute)
  have "split_words (drop i input) =
      (if drop ?ws input = [] then [] else takeWhile in_word (drop ?ws input) # split_words (dropWhile in_word (drop ?ws input)))"
    by (subst split_words.simps) (simp only: Let_def s1)
  then show ?thesis unfolding Let_def e w1 w2 .
qed

lemma input_loop_ready:
  assumes "vocab_ready ectx" "length toks < ec_n_ctx ectx" "i \<le> length input"
  shows "input_loop ectx input i toks = Inr (take (ec_n_ctx ectx - 1)
    (toks @ concat (map (segment (ec_vocab ectx) (ec_unk ectx) True) (split_words (drop i input)))))"
  using assms
proof (induction ectx input i toks rule: input_loop.induct)
  case (1 ectx input i toks)
  let ?ws = "scan_while kc_isspace input i" and ?seg = "segment (ec_vocab ectx) (ec_unk ectx) True" and ?n = "ec_n_ctx ectx - 1"
  let ?we = "scan_while in_word input ?ws"
  let ?w = "take (?we - ?ws) (drop ?ws input)"
  show ?case
  proof (cases "i < length input \<and> length toks + 1 < ec_n_ctx ectx \<and> ?ws \<noteq> length input")
    case False
    have t: "input_loop ectx input i toks = Inr toks" using False by (subst input_loop.simps) (auto simp: Let_def)
    have "split_words (drop i input) = [] \<or> \<not> length toks + 1 < ec_n_ctx ectx"
      using False split_words_at [OF "1.prems"(3)] by (cases "i < length input") (auto simp: Let_def split_words.simps [of "[]"])
    then have "concat (map ?seg (split_words (drop i input))) = [] \<or> \<not> length toks + 1 < ec_n_ctx ectx"
      by (elim disjE) simp_all
    note take_full [OF "1.prems"(2) this]
    with t show ?thesis by (simp only:)
  next
    case True
    have w: "word_loop ectx ?w 0 toks = Inr (take ?n (toks @ ?seg ?w))" using word_loop_ready [OF "1.prems"(1,2), of ?w 0] by simp
    have we: "?we \<le> length input" using word_progress(2) [of i input kc_isspace] True by (intro scan_while_le) simp
    have s1: "input_loop ectx input i toks = input_loop ectx input ?we (take ?n (toks @ ?seg ?w))"
      using True w by (subst input_loop.simps) (simp add: Let_def)
    have s2: "input_loop ectx input ?we (take ?n (toks @ ?seg ?w)) =
        Inr (take ?n (take ?n (toks @ ?seg ?w) @ concat (map ?seg (split_words (drop ?we input)))))"
      by (rule 1(1)) (use True "1.prems" w we in auto)
    have ws: "split_words (drop i input) = ?w # split_words (drop ?we input)"
      using True split_words_at [OF "1.prems"(3)] by (simp add: Let_def)
    show ?thesis unfolding s1 s2 ws take_take_append by (simp only: list.map concat.simps append.assoc)
  qed
qed

text \<open>C21. The tokenizer computes the greedy segmentation and stays inside its array: with the vocabulary table built and
  room for two tokens, it ends for every text, with the start token, then for every word the ids of its longest
  known pieces from left to right (the unknown token for a byte that starts none), cut off one cell before the
  end of the array, and the separator token.\<close>

theorem tokenizer_is_greedy:
  assumes "length (ec_vocab ectx) < 2 ^ 30" "build_vocab_hash alloc ectx = Inr ectx'" "2 \<le> ec_n_ctx ectx"
  shows "\<exists>toks. wordpiece_tokenize ectx' input = Inr toks \<and> length toks \<le> ec_n_ctx ectx \<and>
    toks = take (ec_n_ctx ectx - 1)
      (ec_cls ectx # concat (map (segment (ec_vocab ectx) (ec_unk ectx) True) (split_words input))) @ [ec_sep ectx]"
proof -
  have "alloc (vocab_hash_size ectx * 16)" using assms(2) by (auto simp: build_vocab_hash_def Let_def split: if_splits)
  from build_vocab_ready [of ectx alloc, OF assms(1) this] assms(2) obtain t where
    e: "vocab_ready ectx'" "ectx' = ectx\<lparr>ec_vocab_hash := t\<rparr>" by auto
  then have f: "ec_n_ctx ectx' = ec_n_ctx ectx" "ec_vocab ectx' = ec_vocab ectx" "ec_unk ectx' = ec_unk ectx"
    "ec_cls ectx' = ec_cls ectx" "ec_sep ectx' = ec_sep ectx" by simp_all
  let ?body = "concat (map (segment (ec_vocab ectx) (ec_unk ectx) True) (split_words input))"
  have "input_loop ectx' input 0 [ec_cls ectx] = Inr (take (ec_n_ctx ectx - 1) ([ec_cls ectx] @ ?body))"
    using input_loop_ready [OF e(1), of "[ec_cls ectx]" 0 input] assms(3) f by simp
  then have "wordpiece_tokenize ectx' input = Inr (take (ec_n_ctx ectx - 1) ([ec_cls ectx] @ ?body) @ [ec_sep ectx])"
    using assms(3) by (simp add: wordpiece_tokenize_def push_id_def f)
  then show ?thesis using assms(3) by auto
qed

lemma tokenizer_is_greedy_witness:
  "\<exists>ectx'. build_vocab_hash granting sample_ctx = Inr ectx' \<and> wordpiece_tokenize ectx' ''Turn  onn'' = Inr [101, 0, 1, 2, 102]"
proof -
  have v: "length (ec_vocab sample_ctx) < 2 ^ 30" "2 \<le> ec_n_ctx sample_ctx" by (simp_all add: sample_ctx_def zero_ctx_def)
  obtain ectx' where b: "build_vocab_hash granting sample_ctx = Inr ectx'" using build_vocab_ready [of sample_ctx granting] v(1) by auto
  have "concat (map (segment (ec_vocab sample_ctx) (ec_unk sample_ctx) True) (split_words ''Turn  onn'')) = [0, 1, 2]" by code_simp
  with tokenizer_is_greedy [OF v(1) b v(2), of "''Turn  onn''"] b show ?thesis by (simp add: sample_ctx_def zero_ctx_def)
qed

end
