(* ===== verification/Tensor_Shape.thy ===== *)
theory Tensor_Shape
  imports Tensor
begin

section \<open>Shapes of tensors and sizes of graphs\<close>

text \<open>
  A calculus for code that builds tensors one after the other: \<open>builds k m Q\<close> says that \<open>m\<close> passes every
  assertion, takes \<open>k\<close> objects of the pool and gives a tensor with \<open>Q\<close>. One rule per constructor and one for
  sequences carry the shapes through; the predicates keep how many nodes a tensor adds over given ones, and
  at the end stands that a tensor with few enough nodes and leafs can be put into a graph.
\<close>

subsection \<open>Shapes\<close>

definition dense :: "int \<Rightarrow> int \<Rightarrow> int \<Rightarrow> int \<Rightarrow> ggml_tensor \<Rightarrow> bool" where
  "dense n0 n1 n2 n3 t \<longleftrightarrow> 0 < n0 \<and> 0 < n1 \<and> 0 < n2 \<and> 0 < n3 \<and> tn_type t = GGML_TYPE_F32 \<and> tn_ne t = [n0, n1, n2, n3] \<and>
     tn_nb t = [4, 4 * n0, 4 * n0 * n1, 4 * n0 * n1 * n2] \<and>
     (case tn_view t of None \<Rightarrow> True | Some (b, vo) \<Rightarrow> vo = 0 \<and> 4 * n0 * n1 * n2 * n3 \<le> b)"

text \<open>A reordered view, of which only the shape counts.\<close>

definition strided :: "int \<Rightarrow> int \<Rightarrow> int \<Rightarrow> int \<Rightarrow> ggml_tensor \<Rightarrow> bool" where
  "strided n0 n1 n2 n3 t \<longleftrightarrow> 0 < n0 \<and> 0 < n1 \<and> 0 < n2 \<and> 0 < n3 \<and> tn_type t = GGML_TYPE_F32 \<and> tn_ne t = [n0, n1, n2, n3]"

lemma dense_strided: "dense n0 n1 n2 n3 t \<Longrightarrow> strided n0 n1 n2 n3 t"
  by (simp add: dense_def strided_def)

lemma nbytes_dense: "dense n0 n1 n2 n3 t \<Longrightarrow> ggml_nbytes t = 4 * n0 * n1 * n2 * n3"
  by (auto simp: dense_def ggml_nbytes_def algebra_simps)

subsection \<open>Nodes and leafs\<close>

primrec nodes_of :: "ggml_tensor \<Rightarrow> ggml_addr set" where
  "nodes_of (Tensor a ty ne nb op src vw) = (if op = OP_NONE then {} else {a}) \<union> \<Union> (set (map nodes_of src))"

primrec leafs_of :: "ggml_tensor \<Rightarrow> ggml_addr set" where
  "leafs_of (Tensor a ty ne nb op src vw) = (if op = OP_NONE then {a} else {}) \<union> \<Union> (set (map leafs_of src))"

definition over :: "ggml_addr set \<Rightarrow> ggml_addr set \<Rightarrow> nat \<Rightarrow> ggml_tensor \<Rightarrow> bool" where
  "over W S j t \<longleftrightarrow> leafs_of t \<subseteq> W \<and> (\<exists>N. finite N \<and> card N \<le> j \<and> nodes_of t \<subseteq> S \<union> N)"

lemma over_self: "over W S j a \<Longrightarrow> over W (nodes_of a) 0 a"
  by (auto simp: over_def intro!: exI [of _ "{}"])

lemma over_rel:
  assumes "over W S i a" "over W (nodes_of a) j t" shows "over W S (i + j) t"
proof -
  obtain M N where m: "finite M" "card M \<le> i" "nodes_of a \<subseteq> S \<union> M" and n: "finite N" "card N \<le> j" "nodes_of t \<subseteq> nodes_of a \<union> N"
    using assms by (auto simp: over_def)
  have "card (M \<union> N) \<le> i + j" using m(2) n(2) card_Un_le [of M N] by simp
  with m n assms(2) show ?thesis unfolding over_def by (intro conjI exI [of _ "M \<union> N"]) auto
qed

lemma over_op1:
  assumes "over W S i a" "tn_op t \<noteq> OP_NONE" "tn_src t = [a]" shows "over W S (i + 1) t"
proof -
  obtain N where n: "finite N" "card N \<le> i" "nodes_of a \<subseteq> S \<union> N" using assms by (auto simp: over_def)
  have "card (insert (tn_addr t) N) \<le> i + 1" using n(1,2) by (simp add: card_insert_if)
  with n assms show ?thesis unfolding over_def by (cases t) (intro conjI exI [of _ "insert (tn_addr t) N"]; auto)
qed

lemma over_op2:
  assumes "over W S i a" "over W S j b" "tn_op t \<noteq> OP_NONE" "tn_src t = [a, b]" shows "over W S (i + j + 1) t"
proof -
  obtain M N where m: "finite M" "card M \<le> i" "nodes_of a \<subseteq> S \<union> M" and n: "finite N" "card N \<le> j" "nodes_of b \<subseteq> S \<union> N"
    using assms by (auto simp: over_def)
  have "card (insert (tn_addr t) (M \<union> N)) \<le> i + j + 1"
    using m(1,2) n(1,2) card_Un_le [of M N] by (simp add: card_insert_if)
  with m n assms show ?thesis unfolding over_def by (cases t) (intro conjI exI [of _ "insert (tn_addr t) (M \<union> N)"]; auto)
qed

text \<open>A tensor that is given: a weight of the model or an input.\<close>

definition given :: "ggml_addr set \<Rightarrow> int \<Rightarrow> int \<Rightarrow> ggml_tensor \<Rightarrow> bool" where
  "given W n0 n1 t \<longleftrightarrow> 0 < n0 \<and> 0 < n1 \<and> tn_ne t = [n0, n1, 1, 1] \<and> \<not> ggml_is_transposed t \<and> tn_op t = OP_NONE \<and> tn_src t = [] \<and> tn_addr t \<in> W"

lemma given_over: "given W n0 n1 t \<Longrightarrow> over W S 0 t"
  by (cases t) (auto simp: given_def over_def intro!: exI [of _ "{}"])

subsection \<open>Building\<close>

definition room :: "nat \<Rightarrow> ggml_context \<Rightarrow> bool" where
  "room k cx \<longleftrightarrow> cx_no_alloc cx \<and> cx_end cx + k * 368 \<le> cx_mem_size cx"

definition taken :: "nat \<Rightarrow> ggml_context \<Rightarrow> ggml_context" where
  "taken k cx = cx\<lparr>cx_n_objects := cx_n_objects cx + k, cx_end := cx_end cx + k * 368\<rparr>"

lemma room_add: "room (k + l) cx \<longleftrightarrow> room k cx \<and> room l (taken k cx)"
  by (auto simp: room_def taken_def algebra_simps)

lemma taken_add: "taken l (taken k cx) = taken (k + l) cx"
  by (simp add: taken_def algebra_simps)

definition builds :: "nat \<Rightarrow> (ggml_context \<Rightarrow> (ggml_tensor \<times> ggml_context) option) \<Rightarrow> (ggml_tensor \<Rightarrow> bool) \<Rightarrow> bool" where
  "builds k m Q \<longleftrightarrow> (\<forall>cx. room k cx \<longrightarrow> (\<exists>t. m cx = Some (t, taken k cx) \<and> Q t))"

lemma buildsE: "builds k m Q \<Longrightarrow> room k cx \<Longrightarrow> (\<And>t. m cx = Some (t, taken k cx) \<Longrightarrow> Q t \<Longrightarrow> P) \<Longrightarrow> P"
  unfolding builds_def by blast

lemma builds_bind:
  assumes "builds k m Q" "\<And>t. Q t \<Longrightarrow> builds l (f t) R"
  shows "builds (k + l) (\<lambda>cx. Option.bind (m cx) (\<lambda>(t, cx). f t cx)) R"
  unfolding builds_def
proof (intro allI impI)
  fix cx assume "room (k + l) cx"
  then have c: "room k cx" "room l (taken k cx)" by (simp_all add: room_add)
  obtain t where t: "m cx = Some (t, taken k cx)" "Q t" using assms(1) c(1) by (rule buildsE)
  obtain u where "f t (taken k cx) = Some (u, taken l (taken k cx))" "R u" using assms(2) [OF t(2)] c(2) by (rule buildsE)
  with t(1) show "\<exists>u. Option.bind (m cx) (\<lambda>(t, cx). f t cx) = Some (u, taken (k + l) cx) \<and> R u" by (simp add: taken_add)
qed

lemma builds_weaken: "builds k m Q \<Longrightarrow> (\<And>t. Q t \<Longrightarrow> R t) \<Longrightarrow> k = k' \<Longrightarrow> builds k' m R"
  unfolding builds_def by blast

lemma builds_map: "builds k m (\<lambda>t. Q (f t)) \<Longrightarrow> builds k (\<lambda>cx. Option.bind (m cx) (\<lambda>(t, cx). Some (f t, cx))) Q"
  unfolding builds_def by fastforce

lemma new_tensor_builds:
  assumes "1 \<le> length ne" "length ne \<le> 4"
    and "case view_src of None \<Rightarrow> True | Some v \<Rightarrow>
      (case tn_view v of None \<Rightarrow> ggml_row_size ty (ne ! 0) * prod_list (tl ne) + vo \<le> ggml_nbytes v
       | Some (b, o1) \<Rightarrow> ggml_row_size ty (ne ! 0) * prod_list (tl ne) + (vo + o1) \<le> b)"
  shows "builds 1 (ggml_new_tensor_impl ty ne view_src vo) (\<lambda>t. tn_type t = ty \<and> tn_ne t = ne @ replicate (4 - length ne) 1 \<and>
    tn_nb t = (let n1 = ggml_type_size ty * (tn_ne t ! 0 div ggml_blck_size ty)
               in [ggml_type_size ty, n1, n1 * tn_ne t ! 1, n1 * tn_ne t ! 1 * tn_ne t ! 2]) \<and>
    tn_view t = map_option (\<lambda>v. case tn_view v of None \<Rightarrow> (ggml_nbytes v, vo) | Some (b, o1) \<Rightarrow> (b, vo + o1)) view_src)"
  using assms
  by (auto simp: builds_def room_def taken_def ggml_new_tensor_impl_def ggml_new_object_def GGML_PAD_def Let_def
      split: option.splits prod.splits)

lemma set_op_sels [simp]:
  "tn_op (set_op op src t) = op" "tn_src (set_op op src t) = src"
  "dense n0 n1 n2 n3 (set_op op src t) = dense n0 n1 n2 n3 t" "strided n0 n1 n2 n3 (set_op op src t) = strided n0 n1 n2 n3 t"
  "tn_op (set_shape ne nb t) = tn_op t" "tn_src (set_shape ne nb t) = tn_src t"
  by (auto simp: set_op_def set_shape_def dense_def strided_def)

lemma new_builds:
  assumes "0 < n0" "0 < n1" "0 < n2" "0 < n3"
  shows "builds 1 (ggml_new_tensor GGML_TYPE_F32 [n0, n1, n2, n3]) (dense n0 n1 n2 n3)"
  by (rule builds_weaken [OF new_tensor_builds]) (use assms in \<open>auto simp: dense_def Let_def\<close>)

lemma dup_builds: "strided n0 n1 n2 n3 a \<Longrightarrow> builds 1 (ggml_dup_tensor a) (dense n0 n1 n2 n3)"
  unfolding ggml_dup_tensor_def using new_builds [of n0 n1 n2 n3] by (simp add: strided_def)

lemma view_builds:
  assumes "dense n0 n1 n2 n3 a" shows "builds 1 (ggml_view_tensor a) (dense n0 n1 n2 n3)"
  unfolding ggml_view_tensor_def
  by (rule builds_map, rule builds_weaken [OF new_tensor_builds])
    (use assms nbytes_dense [OF assms] in \<open>auto simp: dense_def ggml_row_size_def mult.assoc split: option.splits\<close>)

lemma reshape_builds:
  assumes d: "dense n0 n1 n2 n3 a" and ne: "ne = [m0, m1] \<and> m2 = 1 \<or> ne = [m0, m1, m2]"
    and e: "m0 * m1 * m2 = n0 * n1 * n2 * n3" and p: "0 < m0" "0 < m1" "0 < m2"
  shows "builds 1 (ggml_new_tensor_impl (tn_type a) ne (Some a) 0) (dense m0 m1 m2 1)"
proof -
  have s: "ggml_row_size (tn_type a) (ne ! 0) * prod_list (tl ne) = 4 * n0 * n1 * n2 * n3"
    using ne d e by (auto simp: ggml_row_size_def dense_def mult.assoc)
  have v: "case Some a of None \<Rightarrow> True | Some v \<Rightarrow>
      (case tn_view v of None \<Rightarrow> ggml_row_size (tn_type a) (ne ! 0) * prod_list (tl ne) + 0 \<le> ggml_nbytes v
       | Some (b, o1) \<Rightarrow> ggml_row_size (tn_type a) (ne ! 0) * prod_list (tl ne) + (0 + o1) \<le> b)"
    using d s nbytes_dense [OF d] by (auto simp: dense_def split: option.splits)
  have l: "1 \<le> length ne" "length ne \<le> 4" using ne by auto
  have b: "4 * m0 * m1 * m2 = 4 * n0 * n1 * n2 * n3" using e by (simp add: mult.assoc)
  show ?thesis
    by (rule builds_weaken [OF new_tensor_builds [OF l v]])
      (use ne d p b nbytes_dense [OF d] in \<open>auto simp: dense_def Let_def numeral_2_eq_2 split: option.splits\<close>)
qed

subsection \<open>One rule per operation\<close>

definition node :: "ggml_addr set \<Rightarrow> ggml_addr set \<Rightarrow> nat \<Rightarrow> int \<Rightarrow> int \<Rightarrow> int \<Rightarrow> int \<Rightarrow> ggml_tensor \<Rightarrow> bool" where
  "node W S j n0 n1 n2 n3 t \<longleftrightarrow> dense n0 n1 n2 n3 t \<and> over W S j t"

definition turned :: "ggml_addr set \<Rightarrow> ggml_addr set \<Rightarrow> nat \<Rightarrow> int \<Rightarrow> int \<Rightarrow> int \<Rightarrow> int \<Rightarrow> ggml_tensor \<Rightarrow> bool" where
  "turned W S j n0 n1 n2 n3 t \<longleftrightarrow> strided n0 n1 n2 n3 t \<and> over W S j t"

lemma node_self: "node W S j n0 n1 n2 n3 a \<Longrightarrow> node W (nodes_of a) 0 n0 n1 n2 n3 a"
  unfolding node_def using over_self by blast

lemma node_rel:
  "node W S i n0 n1 n2 n3 a \<Longrightarrow> node W (nodes_of a) j m0 m1 m2 m3 t \<Longrightarrow> node W S (i + j) m0 m1 m2 m3 t"
  unfolding node_def using over_rel by blast

lemma builds_node: "builds k m (node W S i n0 n1 n2 n3) \<Longrightarrow> k = k' \<Longrightarrow> i = j \<Longrightarrow> builds k' m (node W S j n0 n1 n2 n3)"
  by simp

lemma op1_builds:
  assumes "builds 1 m (dense n0 n1 n2 n3)" "over W S i a" "op \<noteq> OP_NONE"
  shows "builds 1 (\<lambda>cx. Option.bind (m cx) (\<lambda>(t, cx). Some (set_op op [a] t, cx))) (node W S (i + 1) n0 n1 n2 n3)"
  by (rule builds_map, rule builds_weaken [OF assms(1)])
    (use over_op1 [OF assms(2)] assms(3) in \<open>simp_all add: node_def\<close>)

lemma op2_builds:
  assumes "builds 1 m (dense n0 n1 n2 n3)" "over W S i a" "over W S j b" "op \<noteq> OP_NONE"
  shows "builds 1 (\<lambda>cx. Option.bind (m cx) (\<lambda>(t, cx). Some (set_op op [a, b] t, cx))) (node W S (i + j + 1) n0 n1 n2 n3)"
  by (rule builds_map, rule builds_weaken [OF assms(1)])
    (use over_op2 [OF assms(2,3)] assms(4) in \<open>simp_all add: node_def\<close>)

lemma binary_builds:
  assumes "node W S i n0 n1 n2 n3 a" "over W S j b" "tn_ne b = [m0, m1, m2, m3]" "op \<noteq> OP_NONE"
    "m0 \<noteq> 0 \<and> m1 \<noteq> 0 \<and> m2 \<noteq> 0 \<and> m3 \<noteq> 0" "m0 dvd n0" "m1 dvd n1" "m2 dvd n2" "m3 dvd n3"
  shows "builds 1 (ggml_binary op a b) (node W S (i + j + 1) n0 n1 n2 n3)"
proof -
  have "ggml_can_repeat b a" using assms by (auto simp: ggml_can_repeat_def ggml_is_empty_def node_def dense_def)
  then have "ggml_binary op a b = (\<lambda>cx. Option.bind (ggml_dup_tensor a cx) (\<lambda>(t, cx). Some (set_op op [a, b] t, cx)))"
    by (auto simp: ggml_binary_def)
  then show ?thesis using op2_builds [OF dup_builds [OF dense_strided]] assms unfolding node_def by simp
qed

lemmas binary_defs = ggml_add_def ggml_sub_def ggml_mul_def

lemma add_node_builds:
  "node W S i n0 n1 n2 n3 a \<Longrightarrow> node W S j n0 n1 n2 n3 b \<Longrightarrow> builds 1 (ggml_add a b) (node W S (i + j + 1) n0 n1 n2 n3)"
  unfolding binary_defs by (rule binary_builds) (auto simp: node_def dense_def)

lemma add_given_builds:
  assumes "node W S i n0 n1 n2 n3 a" "given W n0 1 b" shows "builds 1 (ggml_add a b) (node W S (i + 1) n0 n1 n2 n3)"
  unfolding binary_defs using binary_builds [OF assms(1) given_over [OF assms(2)], of n0 1 1 1 OP_ADD] assms by (simp add: given_def)

lemma mul_given_builds:
  assumes "node W S i n0 n1 n2 n3 a" "given W n0 1 b" shows "builds 1 (ggml_mul a b) (node W S (i + 1) n0 n1 n2 n3)"
  unfolding binary_defs using binary_builds [OF assms(1) given_over [OF assms(2)], of n0 1 1 1 OP_MUL] assms by (simp add: given_def)

lemma sub_mean_builds:
  "node W S i n0 n1 n2 n3 a \<Longrightarrow> node W S j 1 n1 n2 n3 b \<Longrightarrow> builds 1 (ggml_sub a b) (node W S (i + j + 1) n0 n1 n2 n3)"
  unfolding binary_defs by (rule binary_builds) (auto simp: node_def dense_def)

lemma mean_builds:
  assumes "node W S i n0 n1 n2 n3 a" shows "builds 1 (ggml_mean a) (node W S (i + 1) 1 n1 n2 n3)"
  using assms op1_builds [OF new_builds, of 1 n1 n2 n3 W S i a OP_MEAN] unfolding ggml_mean_def by (simp add: node_def dense_def)

lemma norm_builds:
  assumes "node W S i n0 n1 n2 n3 a" shows "builds 1 (ggml_norm a eps) (node W S (i + 1) n0 n1 n2 n3)"
  using assms op1_builds [OF dup_builds [OF dense_strided], of n0 n1 n2 n3 a W S i a "OP_NORM eps"] unfolding ggml_norm_def by (simp add: node_def)

lemma cont_builds:
  assumes "turned W S i n0 n1 n2 n3 a" shows "builds 1 (ggml_cont a) (node W S (i + 1) n0 n1 n2 n3)"
  using assms op1_builds [OF dup_builds, of n0 n1 n2 n3 a W S i a OP_CONT] unfolding ggml_cont_def by (simp add: turned_def)

lemma gelu_builds:
  assumes "node W S i n0 n1 n2 n3 a" shows "builds 1 (ggml_gelu a) (node W S (i + 1) n0 n1 n2 n3)"
proof -
  have "ggml_is_contiguous_rows a" using assms by (simp add: ggml_is_contiguous_rows_def node_def dense_def)
  then show ?thesis
    using assms op1_builds [OF dup_builds [OF dense_strided], of n0 n1 n2 n3 a W S i a OP_GELU] unfolding ggml_gelu_def by (simp add: node_def)
qed

lemma mul_mat_builds:
  assumes "over W S i a" "tn_ne a = [n0, m1, m2, m3]" "\<not> ggml_is_transposed a" "0 < m1" "m2 dvd n2" "m3 dvd n3" "node W S j n0 n1 n2 n3 b"
  shows "builds 1 (ggml_mul_mat a b) (node W S (i + j + 1) m1 n1 n2 n3)"
proof -
  have "ggml_can_mul_mat a b" using assms by (auto simp: ggml_can_mul_mat_def node_def dense_def)
  then show ?thesis
    using assms op2_builds [OF new_builds, of m1 n1 n2 n3 W S i a j b OP_MUL_MAT] unfolding ggml_mul_mat_def by (simp add: node_def dense_def)
qed

lemma mul_given_mat_builds:
  assumes "given W n0 m1 a" "node W S j n0 n1 n2 n3 b" shows "builds 1 (ggml_mul_mat a b) (node W S (j + 1) m1 n1 n2 n3)"
  using mul_mat_builds [OF given_over [OF assms(1)] _ _ _ _ _ assms(2), of m1 1 1] assms by (simp add: given_def)

lemma mul_node_mat_builds:
  assumes "node W S i n0 m1 n2 n3 a" "node W S j n0 n1 n2 n3 b" shows "builds 1 (ggml_mul_mat a b) (node W S (i + j + 1) m1 n1 n2 n3)"
  by (rule mul_mat_builds [OF _ _ _ _ _ _ assms(2)]) (use assms in \<open>auto simp: node_def dense_def ggml_is_transposed_def\<close>)

lemma scale_builds:
  assumes "node W S i n0 n1 n2 n3 a" shows "builds 1 (ggml_scale_inplace a s) (node W S (i + 1) n0 n1 n2 n3)"
proof -
  have "ggml_is_padded_1d a" using assms by (simp add: ggml_is_padded_1d_def node_def dense_def)
  then show ?thesis
    using assms op1_builds [OF view_builds, of n0 n1 n2 n3 a W S i a "OP_SCALE s"] unfolding ggml_scale_inplace_def by (simp add: node_def)
qed

lemma dense_contiguous: "dense n0 n1 n2 n3 a \<Longrightarrow> ggml_is_contiguous a"
  by (simp add: ggml_is_contiguous_def dense_def Let_def)

lemma soft_max_builds:
  assumes "node W S i n0 n1 n2 n3 a" shows "builds 1 (ggml_soft_max_inplace a) (node W S (i + 1) n0 n1 n2 n3)"
  using assms op1_builds [OF view_builds, of n0 n1 n2 n3 a W S i a OP_SOFT_MAX] dense_contiguous [of n0 n1 n2 n3 a]
  unfolding ggml_soft_max_inplace_def by (simp add: node_def)

lemma reshape_node_builds:
  assumes "node W S i n0 n1 n2 n3 a" "ne = [m0, m1] \<and> m2 = 1 \<or> ne = [m0, m1, m2]"
    and "m0 * m1 * m2 = n0 * n1 * n2 * n3" "0 < m0" "0 < m1" "0 < m2"
  shows "builds 1 (ggml_reshape a ne) (node W S (i + 1) m0 m1 m2 1)"
proof -
  have d: "dense n0 n1 n2 n3 a" "over W S i a" using assms(1) by (simp_all add: node_def)
  then have "ggml_nelements a = prod_list ne" using assms(2,3) by (auto simp: ggml_nelements_def dense_def mult.assoc)
  then show ?thesis
    using op1_builds [OF reshape_builds [OF d(1) assms(2-)] d(2), of OP_RESHAPE] dense_contiguous [OF d(1)]
    unfolding ggml_reshape_def by simp
qed

lemma turn_builds:
  assumes "node W S i n0 n1 n2 n3 a" "op \<noteq> OP_NONE" "\<And>t. dense n0 n1 n2 n3 t \<Longrightarrow> strided m0 m1 m2 m3 (f t)"
  shows "builds 1 (\<lambda>cx. Option.bind (ggml_view_tensor a cx) (\<lambda>(t, cx). Some (set_op op [a] (f t), cx))) (turned W S (i + 1) m0 m1 m2 m3)"
  by (rule builds_map [of 1 "ggml_view_tensor a" "turned W S (i + 1) m0 m1 m2 m3" "\<lambda>t. set_op op [a] (f t)"],
      rule builds_weaken [OF view_builds [of n0 n1 n2 n3]])
    (use assms over_op1 [of W S i a] in \<open>auto simp: node_def turned_def\<close>)

lemma permute_builds:
  assumes "node W S i n0 n1 n2 n3 a" "n0 < 2 ^ 31" "n1 < 2 ^ 31" "n2 < 2 ^ 31" "n3 < 2 ^ 31"
  shows "builds 1 (ggml_permute a [0, 2, 1, 3]) (turned W S (i + 1) n0 n2 n1 n3)"
proof -
  have "permuted [0, 2, 1, 3] (tn_ne a) = [n0, n2, n1, n3]"
    using assms by (auto simp: permuted_def node_def dense_def upt_rec numeral_eq_Suc to_int_id)
  then show ?thesis
    using turn_builds [OF assms(1), of "OP_PERMUTE [0, 2, 1, 3]" n0 n2 n1 n3
        "set_shape (permuted [0, 2, 1, 3] (tn_ne a)) (map (\<lambda>n. n mod 2 ^ 64) (permuted [0, 2, 1, 3] (tn_nb a)))"]
    unfolding ggml_permute_def by (simp add: strided_def dense_def set_shape_def)
qed

lemma transpose_builds:
  assumes "node W S i n0 n1 n2 n3 a" shows "builds 1 (ggml_transpose a) (turned W S (i + 1) n1 n0 n2 n3)"
  unfolding ggml_transpose_def
  by (rule turn_builds [OF assms, where f = "\<lambda>t. set_shape ((tn_ne t)[0 := tn_ne a ! 1, 1 := tn_ne a ! 0]) ((tn_nb t)[0 := tn_nb a ! 1, 1 := tn_nb a ! 0]) t"])
    (use assms in \<open>auto simp: strided_def dense_def set_shape_def node_def\<close>)

lemma input_builds:
  "0 < n \<Longrightarrow> builds 1 (ggml_new_tensor GGML_TYPE_I32 [n]) (\<lambda>t. tn_type t = GGML_TYPE_I32 \<and> tn_ne t = [n, 1, 1, 1] \<and> tn_op t = OP_NONE \<and> tn_src t = [])"
  by (auto simp: builds_def room_def taken_def ggml_new_tensor_impl_def ggml_new_object_def GGML_PAD_def Let_def numeral_3_eq_3)

lemma get_rows_builds:
  assumes "given W n0 m1 a" "tn_type a \<noteq> GGML_TYPE_I32" "over W S 0 b" "tn_ne b = [n, 1, 1, 1]" "tn_type b = GGML_TYPE_I32" "0 < n"
  shows "builds 1 (ggml_get_rows a b) (node W S 1 n0 n 1 1)"
  using assms op2_builds [OF new_builds, of n0 n 1 1 W S 0 a 0 b OP_GET_ROWS] given_over [OF assms(1)]
  unfolding ggml_get_rows_def by (simp add: given_def)

lemma first_row_builds:
  assumes n: "node W S i n0 n1 1 1 a" shows "builds 1 (ggml_view_2d a n0 1 (tn_nb a ! 1) 0) (node W S (i + 1) n0 1 1 1)"
proof -
  have d: "dense n0 n1 1 1 a" "over W S i a" using n by (simp_all add: node_def)
  then have "4 * n0 \<le> 4 * n0 * n1" by (simp add: dense_def mult_le_cancel_left1)
  then have le: "4 * n0 \<le> x" if "4 * n0 * n1 \<le> x" for x using that by (rule order_trans)
  let ?f = "\<lambda>t. set_shape (tn_ne t) [tn_nb t ! 0, tn_nb a ! 1, tn_nb a ! 1 * 1, tn_nb a ! 1 * 1] t"
  have "builds 1 (ggml_new_tensor_impl (tn_type a) [n0, 1] (Some a) 0) (\<lambda>t. dense n0 1 1 1 (?f t))"
    by (rule builds_weaken [OF new_tensor_builds])
      (use d(1) le nbytes_dense [OF d(1)] in \<open>auto simp: dense_def Let_def numeral_2_eq_2 ggml_row_size_def set_shape_def split: option.splits\<close>)
  then have "builds 1 (ggml_new_tensor_impl (tn_type a) [n0, 1] (Some a) 0) (\<lambda>t. node W S (i + 1) n0 1 1 1 (set_op (OP_VIEW 0) [a] (?f t)))"
    by (rule builds_weaken) (use over_op1 [OF d(2)] in \<open>simp_all add: node_def\<close>)
  then show ?thesis unfolding ggml_view_2d_def by (rule builds_map)
qed

subsection \<open>Graphs\<close>

text \<open>What a graph under construction keeps: no address twice, everything in it visited, and only nodes and leafs
  out of \<open>U\<close> and \<open>V\<close>.\<close>

abbreviation (input) addrs :: "ggml_tensor list \<Rightarrow> ggml_addr list" where
  "addrs \<equiv> map tn_addr"

definition cgraph_ok :: "ggml_addr set \<Rightarrow> ggml_addr set \<Rightarrow> ggml_cgraph \<Rightarrow> bool" where
  "cgraph_ok U V g \<longleftrightarrow> finite U \<and> finite V \<and> card U \<le> cg_size g \<and> card V \<le> cg_size g \<and> card U + card V \<le> cg_hash_size g \<and>
     distinct (addrs (cg_nodes g)) \<and> set (addrs (cg_nodes g)) \<subseteq> U \<inter> set (cg_visited g) \<and>
     distinct (addrs (cg_leafs g)) \<and> set (addrs (cg_leafs g)) \<subseteq> V \<inter> set (cg_visited g) \<and>
     distinct (cg_visited g) \<and> set (cg_visited g) \<subseteq> U \<union> V"

text \<open>Visiting adds no tensor whose address was visited before.\<close>

definition enlarges :: "ggml_cgraph \<Rightarrow> ggml_cgraph \<Rightarrow> bool" where
  "enlarges g g' \<longleftrightarrow> set (cg_visited g) \<subseteq> set (cg_visited g') \<and>
     (\<forall>a \<in> set (cg_visited g). (a \<in> set (addrs (cg_nodes g')) \<longleftrightarrow> a \<in> set (addrs (cg_nodes g))) \<and>
        (a \<in> set (addrs (cg_leafs g')) \<longleftrightarrow> a \<in> set (addrs (cg_leafs g))))"

lemma enlarges_refl: "enlarges g g"
  by (simp add: enlarges_def)

lemma enlarges_trans: "enlarges g h \<Longrightarrow> enlarges h k \<Longrightarrow> enlarges g k"
  unfolding enlarges_def by blast

lemma add_ok:
  assumes g: "cgraph_ok U V g" and a: "tn_addr t \<in> set (cg_visited g)"
    and n: "tn_op t \<noteq> OP_NONE \<Longrightarrow> tn_addr t \<in> U - set (addrs (cg_nodes g))"
    and l: "tn_op t = OP_NONE \<Longrightarrow> tn_addr t \<in> V - set (addrs (cg_leafs g))"
  shows "\<exists>g'. add_to_graph t g = Some g' \<and> cgraph_ok U V g' \<and> cg_visited g' = cg_visited g \<and>
    (cg_nodes g' = cg_nodes g \<or> cg_nodes g' = cg_nodes g @ [t]) \<and> (cg_leafs g' = cg_leafs g \<or> cg_leafs g' = cg_leafs g @ [t])"
proof (cases "tn_op t = OP_NONE")
  case True
  have "length (addrs (cg_leafs g)) < cg_size g"
  proof -
    have "card (set (addrs (cg_leafs g @ [t]))) \<le> card V" using g l [OF True] by (intro card_mono) (auto simp: cgraph_ok_def)
    moreover have "distinct (addrs (cg_leafs g @ [t]))" using g l [OF True] by (auto simp: cgraph_ok_def)
    then have "card (set (addrs (cg_leafs g @ [t]))) = length (cg_leafs g) + 1" using distinct_card by fastforce
    ultimately show ?thesis using g by (simp add: cgraph_ok_def)
  qed
  with True g a l show ?thesis by (auto simp: add_to_graph_def cgraph_ok_def)
next
  case False
  have "length (addrs (cg_nodes g)) < cg_size g"
  proof -
    have "card (set (addrs (cg_nodes g @ [t]))) \<le> card U" using g n [OF False] by (intro card_mono) (auto simp: cgraph_ok_def)
    moreover have "distinct (addrs (cg_nodes g @ [t]))" using g n [OF False] by (auto simp: cgraph_ok_def)
    then have "card (set (addrs (cg_nodes g @ [t]))) = length (cg_nodes g) + 1" using distinct_card by fastforce
    ultimately show ?thesis using g by (simp add: cgraph_ok_def)
  qed
  with False g a n show ?thesis by (auto simp: add_to_graph_def cgraph_ok_def)
qed

lemma not_full:
  assumes "cgraph_ok U V g" "a \<in> U \<union> V" "a \<notin> set (cg_visited g)" shows "length (cg_visited g) < cg_hash_size g"
proof -
  have "card (insert a (set (cg_visited g))) \<le> card (U \<union> V)" using assms by (intro card_mono) (auto simp: cgraph_ok_def)
  also have "\<dots> \<le> cg_hash_size g" using assms(1) card_Un_le [of U V] by (simp add: cgraph_ok_def)
  finally show ?thesis using assms by (simp add: cgraph_ok_def distinct_card)
qed

lemma visit_ok:
  "cgraph_ok U V g \<Longrightarrow> nodes_of t \<subseteq> U \<Longrightarrow> leafs_of t \<subseteq> V \<Longrightarrow>
     \<exists>g'. ggml_visit_parents_graph t g = Some g' \<and> cgraph_ok U V g' \<and> enlarges g g' \<and>
       (tn_addr t \<notin> set (cg_visited g) \<longrightarrow> tn_op t \<noteq> OP_NONE \<longrightarrow> cg_nodes g' \<noteq> [] \<and> last (cg_nodes g') = t)"
  "cgraph_ok U V g \<Longrightarrow> (\<forall>t \<in> set ts. nodes_of t \<subseteq> U \<and> leafs_of t \<subseteq> V) \<Longrightarrow>
     \<exists>g'. visit_src ts g = Some g' \<and> cgraph_ok U V g' \<and> enlarges g g'"
  "cgraph_ok U V g \<Longrightarrow> (\<forall>t \<in> set ts. nodes_of t \<subseteq> U \<and> leafs_of t \<subseteq> V) \<Longrightarrow>
     \<exists>g'. revisit_src ts g = Some g' \<and> cgraph_ok U V g' \<and> enlarges g g'"
proof (induction t g and ts g and ts g rule: ggml_visit_parents_graph_visit_src_revisit_src.induct)
  case (1 a ty ne nb op src vw g)
  let ?t = "Tensor a ty ne nb op src vw" and ?g1 = "if op \<noteq> OP_NONE then g\<lparr>cg_computed := a # cg_computed g\<rparr> else g"
  have g1: "cgraph_ok U V ?g1" "cg_visited ?g1 = cg_visited g" "cg_nodes ?g1 = cg_nodes g" "cg_leafs ?g1 = cg_leafs g" "cg_hash_size ?g1 = cg_hash_size g"
    using "1.prems"(1) by (simp_all add: cgraph_ok_def)
  have src: "\<forall>s \<in> set src. nodes_of s \<subseteq> U \<and> leafs_of s \<subseteq> V" using "1.prems"(2,3) by auto
  have a: "a \<in> U \<union> V" using "1.prems"(2,3) by (auto split: if_splits)
  have gr: "enlarges g h" if "enlarges ?g1 h" for h using that g1 unfolding enlarges_def by simp
  show ?case
  proof (cases "a \<in> set (cg_visited g)")
    case True
    then obtain g' where "revisit_src src ?g1 = Some g'" "cgraph_ok U V g'" "enlarges ?g1 g'"
      using "1.IH"(1) [OF refl _ _ g1(1) src] g1(2) by auto
    with True g1 gr show ?thesis by (auto simp: Let_def simp del: if_image_distrib)
  next
    case False
    let ?g2 = "?g1\<lparr>cg_visited := a # cg_visited ?g1\<rparr>"
    have nf: "length (cg_visited g) < cg_hash_size g" using not_full [OF "1.prems"(1) a False] .
    have g2: "cgraph_ok U V ?g2" using g1 False a by (auto simp: cgraph_ok_def)
    obtain g3 where g3: "visit_src src ?g2 = Some g3" "cgraph_ok U V g3" "enlarges ?g2 g3"
      using "1.IH"(2) [OF refl _ _ g2 src] False nf g1 by auto
    have an: "a \<in> set (cg_visited g3)" "a \<notin> set (addrs (cg_nodes g3))" "a \<notin> set (addrs (cg_leafs g3))"
      using g3(3) False g1 "1.prems"(1) unfolding enlarges_def cgraph_ok_def by auto
    obtain g4 where g4: "add_to_graph ?t g3 = Some g4" "cgraph_ok U V g4" "cg_visited g4 = cg_visited g3"
      "cg_nodes g4 = cg_nodes g3 \<or> cg_nodes g4 = cg_nodes g3 @ [?t]" "cg_leafs g4 = cg_leafs g3 \<or> cg_leafs g4 = cg_leafs g3 @ [?t]"
      using add_ok [OF g3(2), of ?t] an "1.prems"(2,3) by (auto split: if_splits)
    have v: "ggml_visit_parents_graph ?t g = Some g4" using False nf g1 g3(1) g4(1) by (simp add: Let_def)
    have "set (cg_visited g) \<subseteq> set (cg_visited g4)" using g3(3) g4(3) g1(2) unfolding enlarges_def by auto
    moreover have "(x \<in> set (addrs (cg_nodes g4)) \<longleftrightarrow> x \<in> set (addrs (cg_nodes g))) \<and>
        (x \<in> set (addrs (cg_leafs g4)) \<longleftrightarrow> x \<in> set (addrs (cg_leafs g)))" if x: "x \<in> set (cg_visited g)" for x
    proof -
      have "x \<noteq> a" using x False by blast
      moreover have "(x \<in> set (addrs (cg_nodes g3)) \<longleftrightarrow> x \<in> set (addrs (cg_nodes g))) \<and>
        (x \<in> set (addrs (cg_leafs g3)) \<longleftrightarrow> x \<in> set (addrs (cg_leafs g)))" using g3(3) x g1(2-4) unfolding enlarges_def by simp
      ultimately show ?thesis using g4(4,5) by (elim disjE) simp_all
    qed
    ultimately have "enlarges g g4" unfolding enlarges_def by blast
    moreover have "op \<noteq> OP_NONE \<longrightarrow> cg_nodes g4 = cg_nodes g3 @ [?t]" using g4(1) by (auto simp: add_to_graph_def split: if_splits)
    ultimately show ?thesis using v g4(2) by auto
  qed
next
  case (3 s ss g)
  then obtain h where h: "ggml_visit_parents_graph s g = Some h" "cgraph_ok U V h" "enlarges g h" by auto
  then obtain k where "visit_src ss h = Some k" "cgraph_ok U V k" "enlarges h k" using 3 by auto
  with h enlarges_trans [OF h(3)] show ?case by auto
next
  case (5 s ss g)
  show ?case
  proof (cases "tn_addr s \<in> set (cg_computed g)")
    case True
    with 5 show ?thesis by auto
  next
    case False
    with 5 obtain h where h: "ggml_visit_parents_graph s g = Some h" "cgraph_ok U V h" "enlarges g h" by auto
    then obtain k where "revisit_src ss h = Some k" "cgraph_ok U V k" "enlarges h k" using 5 False by auto
    with h False enlarges_trans [OF h(3)] show ?thesis by auto
  qed
qed (auto simp: enlarges_refl)

lemma expand_ok:
  assumes t: "over V {} j t" "tn_op t \<noteq> OP_NONE" and b: "j \<le> cg_size g" "finite V" "card V \<le> cg_size g" "j + card V \<le> cg_hash_size g"
    and g: "cg_nodes g = []" "cg_leafs g = []" "cg_visited g = []"
  shows "\<exists>g'. ggml_build_forward_expand g t = Some g' \<and> last (cg_nodes g') = t \<and> length (cg_nodes g') \<le> j \<and>
    length (cg_leafs g') \<le> card V \<and> distinct (map tn_addr (cg_nodes g'))"
proof -
  obtain N where n: "finite N" "card N \<le> j" "nodes_of t \<subseteq> N" and l: "leafs_of t \<subseteq> V" using t by (auto simp: over_def)
  have ok: "cgraph_ok N V g" using g b n by (simp add: cgraph_ok_def)
  from visit_ok(1) [OF ok n(3) l] obtain g' where
    v: "ggml_visit_parents_graph t g = Some g'" "cgraph_ok N V g'" "last (cg_nodes g') = t" using t(2) g by auto
  have "card (set (addrs (cg_nodes g'))) \<le> card N" "card (set (addrs (cg_leafs g'))) \<le> card V"
    using v(2) by (auto intro!: card_mono simp: cgraph_ok_def)
  then have "length (cg_nodes g') \<le> j" "length (cg_leafs g') \<le> card V" "distinct (addrs (cg_nodes g'))"
    using v(2) n(2) by (auto simp: cgraph_ok_def distinct_card [of "addrs _", simplified])
  with v show ?thesis by (simp add: ggml_build_forward_expand_def)
qed

end
