(* ===== verification/Emb_Graph.thy ===== *)
theory Emb_Graph
  imports Wordpiece Tensor_Shape
begin

section \<open>The graph of one inference (src/lib/libemb.c: kc\_emb\_ctx\_exec)\<close>

text \<open>
  The part of \<open>kc_emb_ctx_exec\<close> that describes the computation to the tensor library: the inputs, the sum of
  the three embeddings, the layers with attention and feed-forward network, and the first row as the result.
  An assertion of the library that fails ends the process (\<open>None\<close>); a test of the code itself that fails
  leads to its label \<open>failure\<close> (\<open>Some None\<close>). At the end stands that neither happens for a model whose weights
  have the shapes of its parameters.
\<close>

definition kc_ggml_layer_norm ::
    "ggml_tensor \<Rightarrow> ggml_tensor \<Rightarrow> ggml_tensor \<Rightarrow> u32 \<Rightarrow> ggml_context \<Rightarrow> (ggml_tensor \<times> ggml_context) option" where
  "kc_ggml_layer_norm a w b eps cx = do {
     (mean, cx) \<leftarrow> ggml_mean a cx;
     (sub, cx) \<leftarrow> ggml_sub a mean cx;
     (norm, cx) \<leftarrow> ggml_norm sub eps cx;
     (prod, cx) \<leftarrow> ggml_mul norm w cx;
     ggml_add prod b cx
   }"

text \<open>The two compound expressions of the layer: \<open>ggml_add(ggml_mul_mat(w, x), b)\<close>, and the reordering of a
  projection into heads.\<close>

definition linear :: "ggml_tensor \<Rightarrow> ggml_tensor \<Rightarrow> ggml_tensor \<Rightarrow> ggml_context \<Rightarrow> (ggml_tensor \<times> ggml_context) option" where
  "linear w b x cx = do { (y, cx) \<leftarrow> ggml_mul_mat w x cx; ggml_add y b cx }"

definition split_heads :: "int \<Rightarrow> int \<Rightarrow> int \<Rightarrow> ggml_tensor \<Rightarrow> ggml_context \<Rightarrow> (ggml_tensor \<times> ggml_context) option" where
  "split_heads d_head n_head n_tokens x cx = do {
     (x, cx) \<leftarrow> ggml_reshape x [d_head, n_head, n_tokens] cx;
     (x, cx) \<leftarrow> ggml_permute x [0, 2, 1, 3] cx;
     ggml_cont x cx
   }"

text \<open>\<open>1.0f / sqrtf((float)d_head)\<close>\<close>

definition attn_scale :: "fp_env \<Rightarrow> int \<Rightarrow> u32" where
  "attn_scale fp d_head =
     (let root = fp_float fp (Fin (sqrt (f32_real (fp_float fp (Fin (real_of_int d_head))))))
      in fp_float fp (Fin (1 / f32_real root)))"

definition attention ::
    "fp_env \<Rightarrow> kc_emb_ctx_t \<Rightarrow> int \<Rightarrow> kc_emb_layer_t \<Rightarrow> ggml_tensor \<Rightarrow> ggml_context \<Rightarrow> (ggml_tensor \<times> ggml_context) option" where
  "attention fp ectx n_tokens ly cur cx =
     (let d_head = ec_n_embd ectx div ec_n_head ectx in do {
        (q, cx) \<leftarrow> linear (ly_attn_q_w ly) (ly_attn_q_b ly) cur cx;
        (k, cx) \<leftarrow> linear (ly_attn_k_w ly) (ly_attn_k_b ly) cur cx;
        (v, cx) \<leftarrow> linear (ly_attn_v_w ly) (ly_attn_v_b ly) cur cx;
        (q, cx) \<leftarrow> split_heads d_head (ec_n_head ectx) n_tokens q cx;
        (k, cx) \<leftarrow> split_heads d_head (ec_n_head ectx) n_tokens k cx;
        (kq, cx) \<leftarrow> ggml_mul_mat k q cx;
        (kq, cx) \<leftarrow> ggml_scale_inplace kq (attn_scale fp d_head) cx;
        (kq, cx) \<leftarrow> ggml_soft_max_inplace kq cx;
        (v, cx) \<leftarrow> split_heads d_head (ec_n_head ectx) n_tokens v cx;
        (vt, cx) \<leftarrow> ggml_transpose v cx;
        (vt, cx) \<leftarrow> ggml_cont vt cx;
        (kqv, cx) \<leftarrow> ggml_mul_mat vt kq cx;
        (kqv, cx) \<leftarrow> ggml_permute kqv [0, 2, 1, 3] cx;
        (kqv, cx) \<leftarrow> ggml_cont kqv cx;
        (kqv, cx) \<leftarrow> ggml_reshape kqv [ec_n_embd ectx, n_tokens] cx;
        linear (ly_attn_out_w ly) (ly_attn_out_b ly) kqv cx
      })"

definition feed_forward :: "kc_emb_layer_t \<Rightarrow> ggml_tensor \<Rightarrow> ggml_context \<Rightarrow> (ggml_tensor \<times> ggml_context) option" where
  "feed_forward ly cur cx = do {
     (ffn, cx) \<leftarrow> linear (ly_ffn_up_w ly) (ly_ffn_up_b ly) cur cx;
     (ffn, cx) \<leftarrow> ggml_gelu ffn cx;
     linear (ly_ffn_down_w ly) (ly_ffn_down_b ly) ffn cx
   }"

definition emb_layer ::
    "fp_env \<Rightarrow> kc_emb_ctx_t \<Rightarrow> int \<Rightarrow> kc_emb_layer_t \<Rightarrow> ggml_tensor \<Rightarrow> ggml_context \<Rightarrow> (ggml_tensor \<times> ggml_context) option" where
  "emb_layer fp ectx n_tokens ly inp_L cx = do {
     (attn_out, cx) \<leftarrow> attention fp ectx n_tokens ly inp_L cx;
     (cur, cx) \<leftarrow> ggml_add inp_L attn_out cx;
     (inp_F, cx) \<leftarrow> kc_ggml_layer_norm cur (ly_attn_norm_w ly) (ly_attn_norm_b ly) (ec_eps ectx) cx;
     (ffn, cx) \<leftarrow> feed_forward ly inp_F cx;
     (cur, cx) \<leftarrow> ggml_add inp_F ffn cx;
     kc_ggml_layer_norm cur (ly_layer_norm_w ly) (ly_layer_norm_b ly) (ec_eps ectx) cx
   }"

primrec emb_layers ::
    "fp_env \<Rightarrow> kc_emb_ctx_t \<Rightarrow> int \<Rightarrow> kc_emb_layer_t list \<Rightarrow> ggml_tensor \<Rightarrow> ggml_context \<Rightarrow> (ggml_tensor \<times> ggml_context) option" where
  "emb_layers fp ectx n_tokens [] cur cx = Some (cur, cx)"
| "emb_layers fp ectx n_tokens (ly # lys) cur cx = do {
     (cur, cx) \<leftarrow> emb_layer fp ectx n_tokens ly cur cx;
     emb_layers fp ectx n_tokens lys cur cx
   }"

text \<open>The sum of the token, position and type embeddings; the weights are dereferenced here.\<close>

definition emb_input ::
    "kc_emb_ctx_t \<Rightarrow> ggml_tensor \<Rightarrow> ggml_tensor \<Rightarrow> ggml_tensor \<Rightarrow> ggml_context \<Rightarrow> (ggml_tensor \<times> ggml_context) option" where
  "emb_input ectx inp_tokens inp_pos inp_type cx = do {
     token_embd \<leftarrow> ec_token_embd ectx;
     pos_embd \<leftarrow> ec_pos_embd ectx;
     type_embd \<leftarrow> ec_type_embd ectx;
     norm_w \<leftarrow> ec_norm_w ectx;
     norm_b \<leftarrow> ec_norm_b ectx;
     (cur, cx) \<leftarrow> ggml_get_rows token_embd inp_tokens cx;
     (pos, cx) \<leftarrow> ggml_get_rows pos_embd inp_pos cx;
     (typ, cx) \<leftarrow> ggml_get_rows type_embd inp_type cx;
     (cur, cx) \<leftarrow> ggml_add cur pos cx;
     (cur, cx) \<leftarrow> ggml_add cur typ cx;
     kc_ggml_layer_norm cur norm_w norm_b (ec_eps ectx) cx
   }"

abbreviation (input) compute_buf_size :: nat where
  "compute_buf_size \<equiv> 64 * 1024 * 1024"

definition emb_graph :: "fp_env \<Rightarrow> kc_emb_ctx_t \<Rightarrow> int \<Rightarrow> (ggml_cgraph \<times> ggml_tensor) option option" where
  "emb_graph fp ectx n_tokens = do {
     (inp_tokens, cx) \<leftarrow> ggml_new_tensor GGML_TYPE_I32 [n_tokens] (ggml_init compute_buf_size True);
     (inp_pos, cx) \<leftarrow> ggml_new_tensor GGML_TYPE_I32 [n_tokens] cx;
     (inp_type, cx) \<leftarrow> ggml_new_tensor GGML_TYPE_I32 [n_tokens] cx;
     (gf, cx) \<leftarrow> ggml_new_graph cx;
     (cur, cx) \<leftarrow> emb_input ectx inp_tokens inp_pos inp_type cx;
     layers \<leftarrow> ec_layers ectx;
     (cur, cx) \<leftarrow> (if length layers < nat (ec_n_layer ectx) then None
                    else emb_layers fp ectx n_tokens (take (nat (ec_n_layer ectx)) layers) cur cx);
     if tn_ne cur ! 0 \<noteq> ec_n_embd ectx then Some None
     else do {
       (res, cx) \<leftarrow> ggml_view_2d cur (ec_n_embd ectx) 1 (tn_nb cur ! 1) 0 cx;
       (res, cx) \<leftarrow> ggml_cont res cx;
       gf \<leftarrow> ggml_build_forward_expand gf res;
       Some (Some (gf, res))
     }
   }"

subsection \<open>Shapes through a layer\<close>

lemma layer_norm_builds:
  assumes "node W S j n0 n1 n2 n3 a" "given W n0 1 w" "given W n0 1 b"
  shows "builds 5 (kc_ggml_layer_norm a w b eps) (node W S (j + 5) n0 n1 n2 n3)"
proof -
  have s: "node W (nodes_of a) 0 n0 n1 n2 n3 a" using assms(1) by (rule node_self)
  have "builds 5 (kc_ggml_layer_norm a w b eps) (node W (nodes_of a) 5 n0 n1 n2 n3)"
    unfolding kc_ggml_layer_norm_def
    by (rule builds_node, rule builds_bind, rule mean_builds [OF s], rule builds_bind, erule sub_mean_builds [OF s],
        rule builds_bind, erule norm_builds, rule builds_bind, erule mul_given_builds, rule assms(2),
        erule add_given_builds, rule assms(3)) simp_all
  then show ?thesis by (rule builds_weaken) (use node_rel [OF assms(1)] in auto)
qed

lemma linear_builds:
  assumes "given W n0 m w" "given W m 1 b" "node W S j n0 n1 n2 n3 x"
  shows "builds 2 (linear w b x) (node W S (j + 2) m n1 n2 n3)"
  unfolding linear_def
  by (rule builds_node, rule builds_bind, rule mul_given_mat_builds [OF assms(1,3)], erule add_given_builds, rule assms(2)) simp_all

lemma heads_builds:
  assumes x: "node W S j n T 1 1 x" and n: "d * h = n" "0 < d" "0 < h" "n < 2 ^ 31" "T < 2 ^ 31"
  shows "builds 3 (split_heads d h T x) (node W S (j + 3) d T h 1)"
proof -
  have T: "0 < T" using x by (simp add: node_def dense_def)
  have "d \<le> n" "h \<le> n" using n(1-3) by auto
  then have b: "d < 2 ^ 31" "h < 2 ^ 31" using n(4) by simp_all
  show ?thesis unfolding split_heads_def
    by (rule builds_node, rule builds_bind, rule reshape_node_builds [OF x, of _ d h T], simp, simp add: n(1), rule n(2), rule n(3), rule T,
        rule builds_bind, erule permute_builds, rule b(1), rule b(2), rule n(5), simp, erule cont_builds) simp_all
qed

text \<open>What the weights of a layer are.\<close>

definition layer_given :: "ggml_addr set \<Rightarrow> int \<Rightarrow> kc_emb_layer_t \<Rightarrow> bool" where
  "layer_given W n ly \<longleftrightarrow>
     (\<forall>w \<in> {ly_attn_q_w ly, ly_attn_k_w ly, ly_attn_v_w ly, ly_attn_out_w ly}. given W n n w) \<and>
     (\<forall>b \<in> {ly_attn_q_b ly, ly_attn_k_b ly, ly_attn_v_b ly, ly_attn_out_b ly, ly_attn_norm_w ly, ly_attn_norm_b ly,
              ly_ffn_down_b ly, ly_layer_norm_w ly, ly_layer_norm_b ly}. given W n 1 b) \<and>
     (\<exists>f. given W n f (ly_ffn_up_w ly) \<and> given W f 1 (ly_ffn_up_b ly) \<and> given W f n (ly_ffn_down_w ly))"

lemma attention_builds:
  assumes x: "node W S 0 (ec_n_embd e) T 1 1 x" and ly: "layer_given W (ec_n_embd e) ly"
    and n: "ec_n_head e dvd ec_n_embd e" "0 < ec_n_head e" "ec_n_embd e < 2 ^ 31" "T < 2 ^ 31"
  shows "builds 26 (attention fp e T ly x) (node W S 26 (ec_n_embd e) T 1 1)"
proof -
  let ?n = "ec_n_embd e" and ?h = "ec_n_head e"
  let ?d = "?n div ?h"
  have p: "0 < ?n" "0 < T" using x by (simp_all add: node_def dense_def)
  have d: "?d * ?h = ?n" "0 < ?d" using n(1,2) p(1) by (auto simp: pos_imp_zdiv_pos_iff zdvd_imp_le)
  have "?d * 1 \<le> ?d * ?h" using n(2) d(2) by (intro mult_left_mono) auto
  then have b: "?d < 2 ^ 31" "?h < 2 ^ 31" using zdvd_imp_le [OF n(1) p(1)] d(1) n(3) by simp_all
  have w: "given W ?n ?n (ly_attn_q_w ly)" "given W ?n 1 (ly_attn_q_b ly)" "given W ?n ?n (ly_attn_k_w ly)" "given W ?n 1 (ly_attn_k_b ly)"
    "given W ?n ?n (ly_attn_v_w ly)" "given W ?n 1 (ly_attn_v_b ly)" "given W ?n ?n (ly_attn_out_w ly)" "given W ?n 1 (ly_attn_out_b ly)"
    using ly by (simp_all add: layer_given_def)
  note h = heads_builds [OF _ d n(2,3,4)]
  have e: "?n * T * 1 = ?d * ?h * T * 1" using d(1) by simp
  show ?thesis unfolding attention_def Let_def
    by (rule builds_node,
        rule builds_bind, rule linear_builds [OF w(1,2) x],
        rule builds_bind, rule linear_builds [OF w(3,4) x],
        rule builds_bind, rule linear_builds [OF w(5,6) x],
        rule builds_bind, erule h,
        rule builds_bind, rule h, assumption,
        rule builds_bind, rule mul_node_mat_builds, assumption, assumption,
        rule builds_bind, erule scale_builds,
        rule builds_bind, erule soft_max_builds,
        rule builds_bind, rule h, assumption,
        rule builds_bind, erule transpose_builds,
        rule builds_bind, erule cont_builds,
        rule builds_bind, rule mul_node_mat_builds, assumption, assumption,
        rule builds_bind, erule permute_builds, rule b(1), rule n(4), rule b(2), simp,
        rule builds_bind, erule cont_builds,
        rule builds_bind, erule reshape_node_builds, rule disjI1, rule conjI, rule refl, rule refl, rule e, rule p(1), rule p(2), simp,
        rule linear_builds [OF w(7,8)], assumption) simp_all
qed

lemma feed_forward_builds:
  assumes x: "node W S j n T 1 1 x" and ly: "layer_given W n ly"
  shows "builds 5 (feed_forward ly x) (node W S (j + 5) n T 1 1)"
proof -
  obtain f where w: "given W n f (ly_ffn_up_w ly)" "given W f 1 (ly_ffn_up_b ly)" "given W f n (ly_ffn_down_w ly)" "given W n 1 (ly_ffn_down_b ly)"
    using ly by (auto simp: layer_given_def)
  show ?thesis unfolding feed_forward_def
    by (rule builds_node, rule builds_bind, rule linear_builds [OF w(1,2) x], rule builds_bind, erule gelu_builds,
        erule linear_builds [OF w(3,4)]) simp_all
qed

text \<open>A layer keeps the shape and adds 43 nodes.\<close>

lemma layer_builds:
  assumes x: "node W S j (ec_n_embd e) T 1 1 x" and ly: "layer_given W (ec_n_embd e) ly"
    and n: "ec_n_head e dvd ec_n_embd e" "0 < ec_n_head e" "ec_n_embd e < 2 ^ 31" "T < 2 ^ 31"
  shows "builds 43 (emb_layer fp e T ly x) (node W S (j + 43) (ec_n_embd e) T 1 1)"
proof -
  let ?n = "ec_n_embd e"
  have w: "given W ?n 1 (ly_attn_norm_w ly)" "given W ?n 1 (ly_attn_norm_b ly)" "given W ?n 1 (ly_layer_norm_w ly)" "given W ?n 1 (ly_layer_norm_b ly)"
    using ly by (simp_all add: layer_given_def)
  note s = node_self [OF x]
  have ff: "builds 11 (\<lambda>cx. do { (ffn, cx) \<leftarrow> feed_forward ly y cx; (cur, cx) \<leftarrow> ggml_add y ffn cx;
      kc_ggml_layer_norm cur (ly_layer_norm_w ly) (ly_layer_norm_b ly) (ec_eps e) cx }) (node W (nodes_of x) 43 ?n T 1 1)"
    if y: "node W (nodes_of x) 32 ?n T 1 1 y" for y
  proof -
    note sy = node_self [OF y]
    have "builds 11 (\<lambda>cx. do { (ffn, cx) \<leftarrow> feed_forward ly y cx; (cur, cx) \<leftarrow> ggml_add y ffn cx;
      kc_ggml_layer_norm cur (ly_layer_norm_w ly) (ly_layer_norm_b ly) (ec_eps e) cx }) (node W (nodes_of y) 11 ?n T 1 1)"
      by (rule builds_node, rule builds_bind, rule feed_forward_builds [OF sy ly], rule builds_bind, erule add_node_builds [OF sy],
          erule layer_norm_builds, rule w(3), rule w(4)) simp_all
    then show ?thesis by (rule builds_weaken) (use node_rel [OF y, of 11] in auto)
  qed
  have "builds 43 (emb_layer fp e T ly x) (node W (nodes_of x) 43 ?n T 1 1)"
    unfolding emb_layer_def
    by (rule builds_node, rule builds_bind, rule attention_builds [OF s ly n], rule builds_bind, erule add_node_builds [OF s],
        rule builds_bind, erule layer_norm_builds, rule w(1), rule w(2), rule ff, simp) simp_all
  then show ?thesis by (rule builds_weaken) (use node_rel [OF x, of 43] in auto)
qed

lemma layers_builds:
  assumes "node W S j (ec_n_embd e) T 1 1 x" "\<forall>ly \<in> set lys. layer_given W (ec_n_embd e) ly"
    and n: "ec_n_head e dvd ec_n_embd e" "0 < ec_n_head e" "ec_n_embd e < 2 ^ 31" "T < 2 ^ 31"
  shows "builds (43 * length lys) (emb_layers fp e T lys x) (node W S (j + 43 * length lys) (ec_n_embd e) T 1 1)"
  using assms(1,2)
proof (induction lys arbitrary: j x)
  case Nil
  then show ?case by (simp add: builds_def taken_def)
next
  case (Cons ly lys)
  then have ly: "layer_given W (ec_n_embd e) ly" "\<forall>ly \<in> set lys. layer_given W (ec_n_embd e) ly" by simp_all
  have "builds (43 + 43 * length lys) (emb_layers fp e T (ly # lys) x) (node W S (j + 43 + 43 * length lys) (ec_n_embd e) T 1 1)"
    unfolding emb_layers.simps by (rule builds_bind, rule layer_builds [OF Cons.prems(1) ly(1) n], erule Cons.IH [OF _ ly(2)])
  then show ?case by (rule builds_node) simp_all
qed

subsection \<open>The whole graph\<close>

text \<open>A weight of the model file: shape, rows that lie in order, and no operation.\<close>

definition weight :: "int \<Rightarrow> int \<Rightarrow> ggml_tensor \<Rightarrow> bool" where
  "weight n0 n1 t \<longleftrightarrow> given {tn_addr t} n0 n1 t"

definition layer_weights :: "kc_emb_layer_t \<Rightarrow> ggml_tensor list" where
  "layer_weights ly =
     [ly_attn_q_w ly, ly_attn_q_b ly, ly_attn_k_w ly, ly_attn_k_b ly, ly_attn_v_w ly, ly_attn_v_b ly, ly_attn_out_w ly, ly_attn_out_b ly,
      ly_attn_norm_w ly, ly_attn_norm_b ly, ly_ffn_up_w ly, ly_ffn_up_b ly, ly_ffn_down_w ly, ly_ffn_down_b ly, ly_layer_norm_w ly, ly_layer_norm_b ly]"

text \<open>The shapes that a BERT model's file documents: square projections, biases and norms of the width of the
  embedding, a feed-forward network of any inner width, and tables of rows of that width.\<close>

definition layer_ok :: "int \<Rightarrow> kc_emb_layer_t \<Rightarrow> bool" where
  "layer_ok n ly \<longleftrightarrow> layer_given (tn_addr ` set (layer_weights ly)) n ly"

definition model_ok :: "kc_emb_ctx_t \<Rightarrow> bool" where
  "model_ok e \<longleftrightarrow> 0 < ec_n_embd e \<and> ec_n_embd e < 2 ^ 31 \<and> 0 < ec_n_head e \<and> ec_n_head e dvd ec_n_embd e \<and> int (ec_n_ctx e) < 2 ^ 31 \<and>
     (\<exists>tok pos tye w b. ec_token_embd e = Some tok \<and> ec_pos_embd e = Some pos \<and> ec_type_embd e = Some tye \<and>
        ec_norm_w e = Some w \<and> ec_norm_b e = Some b \<and>
        (\<forall>t \<in> {tok, pos, tye}. tn_type t \<noteq> GGML_TYPE_I32 \<and> (\<exists>rows. weight (ec_n_embd e) rows t)) \<and>
        weight (ec_n_embd e) 1 w \<and> weight (ec_n_embd e) 1 b) \<and>
     (\<exists>lys. ec_layers e = Some lys \<and> length lys = nat (ec_n_layer e) \<and> (\<forall>ly \<in> set lys. layer_ok (ec_n_embd e) ly))"

lemma given_mono: "given W n0 n1 t \<Longrightarrow> W \<subseteq> V \<Longrightarrow> given V n0 n1 t"
  by (auto simp: given_def)

lemma layer_given_mono: "layer_given W n ly \<Longrightarrow> W \<subseteq> V \<Longrightarrow> layer_given V n ly"
  unfolding layer_given_def by (meson given_mono)

lemma input_over: "tn_op t = OP_NONE \<Longrightarrow> tn_src t = [] \<Longrightarrow> tn_addr t \<in> W \<Longrightarrow> over W S 0 t"
  by (cases t) (auto simp: over_def intro!: exI [of _ "{}"])

definition row_input :: "int \<Rightarrow> ggml_tensor \<Rightarrow> bool" where
  "row_input n t \<longleftrightarrow> tn_type t = GGML_TYPE_I32 \<and> tn_ne t = [n, 1, 1, 1] \<and> tn_op t = OP_NONE \<and> tn_src t = []"

lemma emb_input_builds:
  assumes t: "ec_token_embd e = Some tok" "ec_pos_embd e = Some pos" "ec_type_embd e = Some tye" "ec_norm_w e = Some w" "ec_norm_b e = Some b"
    and g: "given W n r1 tok" "given W n r2 pos" "given W n r3 tye" "given W n 1 w" "given W n 1 b"
    and i: "tn_type tok \<noteq> GGML_TYPE_I32" "tn_type pos \<noteq> GGML_TYPE_I32" "tn_type tye \<noteq> GGML_TYPE_I32"
    and inp: "row_input T x" "row_input T y" "row_input T z" "tn_addr x \<in> W" "tn_addr y \<in> W" "tn_addr z \<in> W" "0 < T"
  shows "builds 10 (emb_input e x y z) (node W {} 10 n T 1 1)"
proof -
  have r: "builds 1 (ggml_get_rows a c) (node W {} 1 n T 1 1)"
    if "given W n r a" "tn_type a \<noteq> GGML_TYPE_I32" "row_input T c" "tn_addr c \<in> W" for a r c
    using get_rows_builds [OF that(1,2) input_over [of c W "{}"], of T] that inp(7) by (simp add: row_input_def)
  note rows = r [OF g(1) i(1) inp(1,4)] r [OF g(2) i(2) inp(2,5)] r [OF g(3) i(3) inp(3,6)]
  show ?thesis unfolding emb_input_def t Option.bind.simps
    by (rule builds_node, rule builds_bind, rule rows(1), rule builds_bind, rule rows(2), rule builds_bind, rule rows(3),
        rule builds_bind, rule add_node_builds, assumption, assumption, rule builds_bind, erule add_node_builds, assumption,
        erule layer_norm_builds, rule g(4), rule g(5)) simp_all
qed

lemma default_sizes: "ggml_hash_size 4096 = 4099" "ggml_graph_nbytes 2048 = 82572"
proof -
  show h: "ggml_hash_size 4096 = 4099" unfolding ggml_hash_size_def ggml_hash_primes_def Let_def by (simp add: bisect.simps)
  show "ggml_graph_nbytes 2048 = 82572" by (simp add: ggml_graph_nbytes_def h GGML_PAD_def)
qed

lemma new_graph:
  assumes "cx_end cx + 83000 \<le> cx_mem_size cx"
  obtains gf cx' where "ggml_new_graph cx = Some (gf, cx')" "cg_size gf = 2048" "cg_hash_size gf = 4099" "cg_nodes gf = []" "cg_leafs gf = []"
    "cg_visited gf = []" "cx_no_alloc cx' = cx_no_alloc cx" "cx_mem_size cx' = cx_mem_size cx" "cx_end cx' \<le> cx_end cx + 83000"
  using assms by (simp add: ggml_new_graph_def ggml_new_object_def GGML_PAD_def default_sizes)

lemma inputs_built:
  assumes "0 < n" "room 3 cx"
  obtains x y z where "ggml_new_tensor GGML_TYPE_I32 [n] cx = Some (x, taken 1 cx)" "ggml_new_tensor GGML_TYPE_I32 [n] (taken 1 cx) = Some (y, taken 2 cx)"
    "ggml_new_tensor GGML_TYPE_I32 [n] (taken 2 cx) = Some (z, taken 3 cx)" "row_input n x" "row_input n y" "row_input n z"
proof -
  have r: "room 1 cx" "room 1 (taken 1 cx)" "room 1 (taken 2 cx)" using assms(2) by (simp_all add: room_def taken_def)
  have t: "taken 1 (taken 1 cx) = taken 2 cx" "taken 1 (taken 2 cx) = taken 3 cx" by (simp_all add: taken_add numeral_2_eq_2 numeral_3_eq_3)
  note b = buildsE [OF input_builds [OF assms(1)]]
  obtain x where x: "ggml_new_tensor GGML_TYPE_I32 [n] cx = Some (x, taken 1 cx)" "row_input n x" using b [OF r(1)] unfolding row_input_def by metis
  obtain y where y: "ggml_new_tensor GGML_TYPE_I32 [n] (taken 1 cx) = Some (y, taken 2 cx)" "row_input n y"
    using b [OF r(2)] unfolding row_input_def t by metis
  obtain z where z: "ggml_new_tensor GGML_TYPE_I32 [n] (taken 2 cx) = Some (z, taken 3 cx)" "row_input n z"
    using b [OF r(3)] unfolding row_input_def t by metis
  from that [OF x(1) y(1) z(1) x(2) y(2) z(2)] show ?thesis .
qed

lemma layer_weights_length: "length (concat (map layer_weights lys)) = 16 * length lys"
  by (induction lys) (simp_all add: layer_weights_def)

lemma node_turned: "node W S j n0 n1 n2 n3 t \<Longrightarrow> turned W S j n0 n1 n2 n3 t"
  unfolding node_def turned_def using dense_strided by blast

text \<open>The leafs are the weights and the three inputs: 8 and 16 for each layer.\<close>

lemma model_given:
  assumes m: "model_ok e" and inp: "row_input T x" "row_input T y" "row_input T z" and T: "0 < T"
  obtains W lys where "finite W" "card W \<le> 8 + 16 * nat (ec_n_layer e)" "ec_layers e = Some lys" "length lys = nat (ec_n_layer e)"
    "\<forall>ly \<in> set lys. layer_given W (ec_n_embd e) ly" "builds 10 (emb_input e x y z) (node W {} 10 (ec_n_embd e) T 1 1)"
proof -
  let ?n = "ec_n_embd e"
  obtain tok pos tye w b lys where t: "ec_token_embd e = Some tok" "ec_pos_embd e = Some pos" "ec_type_embd e = Some tye"
      "ec_norm_w e = Some w" "ec_norm_b e = Some b"
    and ty: "tn_type tok \<noteq> GGML_TYPE_I32" "tn_type pos \<noteq> GGML_TYPE_I32" "tn_type tye \<noteq> GGML_TYPE_I32"
    and rows: "\<exists>r. weight ?n r tok" "\<exists>r. weight ?n r pos" "\<exists>r. weight ?n r tye" "weight ?n 1 w" "weight ?n 1 b"
    and ly: "ec_layers e = Some lys" "length lys = nat (ec_n_layer e)" "\<forall>ly \<in> set lys. layer_ok ?n ly"
    using m unfolding model_ok_def by (elim conjE exE) simp
  let ?ts = "[x, y, z, tok, pos, tye, w, b] @ concat (map layer_weights lys)"
  define W where "W = tn_addr ` set ?ts"
  have "card W \<le> length ?ts" unfolding W_def by (meson card_image_le card_length finite_set order_trans)
  then have W: "finite W" "card W \<le> 8 + 16 * nat (ec_n_layer e)" using ly(2) unfolding W_def layer_weights_length length_append by simp_all
  have g: "given W ?n r v" if "weight ?n r v" "v \<in> set ?ts" for v r
  proof -
    have "{tn_addr v} \<subseteq> W" using that(2) unfolding W_def by blast
    with that(1) show ?thesis unfolding weight_def by (rule given_mono)
  qed
  obtain r1 r2 r3 where "weight ?n r1 tok" "weight ?n r2 pos" "weight ?n r3 tye" using rows(1-3) by blast
  then have r: "given W ?n r1 tok" "given W ?n r2 pos" "given W ?n r3 tye" "given W ?n 1 w" "given W ?n 1 b"
    using rows(4,5) g [of r1 tok] g [of r2 pos] g [of r3 tye] g [of 1 w] g [of 1 b] by simp_all
  have lg: "\<forall>ly \<in> set lys. layer_given W ?n ly"
  proof
    fix l assume l: "l \<in> set lys"
    then have "tn_addr ` set (layer_weights l) \<subseteq> W" unfolding W_def by auto
    with l ly(3) show "layer_given W ?n l" unfolding layer_ok_def using layer_given_mono by blast
  qed
  have xyz: "tn_addr x \<in> W" "tn_addr y \<in> W" "tn_addr z \<in> W" by (auto simp: W_def)
  from that [OF W ly(1,2) lg emb_input_builds [OF t r ty inp xyz T]] show ?thesis .
qed

text \<open>The nodes are 10 before the layers, 43 in each, and 2 after them.\<close>

lemma result_built:
  assumes m: "model_ok e" and inp: "row_input T x" "row_input T y" "row_input T z" and T: "0 < T" "T < 2 ^ 31"
    and rm: "room (12 + 43 * nat (ec_n_layer e)) cx"
  obtains W lys cur cx1 c cx2 v cx3 res cx4 where "finite W" "card W \<le> 8 + 16 * nat (ec_n_layer e)" "ec_layers e = Some lys" "length lys = nat (ec_n_layer e)"
    "emb_input e x y z cx = Some (cur, cx1)" "emb_layers fp e T lys cur cx1 = Some (c, cx2)" "tn_ne c ! 0 = ec_n_embd e"
    "ggml_view_2d c (ec_n_embd e) 1 (tn_nb c ! 1) 0 cx2 = Some (v, cx3)" "ggml_cont v cx3 = Some (res, cx4)"
    "node W {} (12 + 43 * nat (ec_n_layer e)) (ec_n_embd e) 1 1 1 res"
proof -
  let ?n = "ec_n_embd e" and ?L = "nat (ec_n_layer e)"
  obtain W lys where W: "finite W" "card W \<le> 8 + 16 * ?L" and ly: "ec_layers e = Some lys" "length lys = ?L"
    "\<forall>ly \<in> set lys. layer_given W ?n ly" and i: "builds 10 (emb_input e x y z) (node W {} 10 ?n T 1 1)"
    using model_given [OF m inp T(1)] by blast
  have n: "ec_n_head e dvd ?n" "0 < ec_n_head e" "?n < 2 ^ 31" "T < 2 ^ 31" using m T by (simp_all add: model_ok_def)
  have r: "room 10 cx" "room (43 * ?L) (taken 10 cx)" "room 1 (taken (10 + 43 * ?L) cx)" "room 1 (taken 1 (taken (10 + 43 * ?L) cx))"
    using rm by (simp_all add: room_def taken_def)
  obtain cur where cur: "emb_input e x y z cx = Some (cur, taken 10 cx)" "node W {} 10 ?n T 1 1 cur" using i r(1) by (rule buildsE)
  have "builds (43 * ?L) (emb_layers fp e T lys cur) (node W {} (10 + 43 * ?L) ?n T 1 1)" using layers_builds [OF cur(2) ly(3) n] ly(2) by simp
  then obtain c where c: "emb_layers fp e T lys cur (taken 10 cx) = Some (c, taken (43 * ?L) (taken 10 cx))" "node W {} (10 + 43 * ?L) ?n T 1 1 c"
    using r(2) by (rule buildsE)
  obtain v where v: "ggml_view_2d c ?n 1 (tn_nb c ! 1) 0 (taken (10 + 43 * ?L) cx) = Some (v, taken 1 (taken (10 + 43 * ?L) cx))"
    "node W {} (10 + 43 * ?L + 1) ?n 1 1 1 v" using first_row_builds [OF c(2)] r(3) by (rule buildsE)
  obtain res cx4 where res: "ggml_cont v (taken 1 (taken (10 + 43 * ?L) cx)) = Some (res, cx4)" "node W {} (10 + 43 * ?L + 1 + 1) ?n 1 1 1 res"
    using cont_builds [OF node_turned [OF v(2)]] r(4) by (rule buildsE)
  have "tn_ne c ! 0 = ?n" using c(2) by (simp add: node_def dense_def)
  then show ?thesis using that [OF W ly(1,2) cur(1) c(1) _ _ res(1)] v(1) res(2) by (simp add: taken_add)
qed

lemma graph_built:
  assumes m: "model_ok e" and T: "0 < T" "T < 2 ^ 31" and L: "ec_n_layer e \<le> 47"
  obtains gf res where "emb_graph fp e T = Some (Some (gf, res))" "dense (ec_n_embd e) 1 1 1 res" "last (cg_nodes gf) = res"
    "length (cg_nodes gf) \<le> 12 + 43 * nat (ec_n_layer e)" "distinct (map tn_addr (cg_nodes gf))"
proof -
  let ?n = "ec_n_embd e" and ?cx = "ggml_init compute_buf_size True" and ?L = "nat (ec_n_layer e)"
  have L: "?L \<le> 47" using L by simp
  have "room 3 ?cx" by (simp add: room_def ggml_init_def)
  then obtain x y z where i: "ggml_new_tensor GGML_TYPE_I32 [T] ?cx = Some (x, taken 1 ?cx)"
      "ggml_new_tensor GGML_TYPE_I32 [T] (taken 1 ?cx) = Some (y, taken 2 ?cx)"
      "ggml_new_tensor GGML_TYPE_I32 [T] (taken 2 ?cx) = Some (z, taken 3 ?cx)" "row_input T x" "row_input T y" "row_input T z"
    by (rule inputs_built [OF T(1)])
  have "cx_end (taken 3 ?cx) + 83000 \<le> cx_mem_size (taken 3 ?cx)" by (simp add: taken_def ggml_init_def)
  then obtain gf cx0 where gf: "ggml_new_graph (taken 3 ?cx) = Some (gf, cx0)" "cg_size gf = 2048" "cg_hash_size gf = 4099" "cg_nodes gf = []"
      "cg_leafs gf = []" "cg_visited gf = []" "cx_no_alloc cx0 = cx_no_alloc (taken 3 ?cx)" "cx_mem_size cx0 = cx_mem_size (taken 3 ?cx)"
      "cx_end cx0 \<le> cx_end (taken 3 ?cx) + 83000"
    by (rule new_graph)
  have "room (12 + 43 * ?L) cx0" using gf(7-9) L by (simp add: room_def taken_def ggml_init_def)
  then obtain W lys cur cx1 c cx2 v cx3 res cx4 where k: "finite W" "card W \<le> 8 + 16 * ?L" "ec_layers e = Some lys" "length lys = ?L"
    "emb_input e x y z cx0 = Some (cur, cx1)" "emb_layers fp e T lys cur cx1 = Some (c, cx2)" "tn_ne c ! 0 = ?n"
    "ggml_view_2d c ?n 1 (tn_nb c ! 1) 0 cx2 = Some (v, cx3)" "ggml_cont v cx3 = Some (res, cx4)" "node W {} (12 + 43 * ?L) ?n 1 1 1 res"
    by (rule result_built [OF m i(4-6) T, where fp = fp])
  have "tn_op res = OP_CONT" using k(9) by (auto simp: ggml_cont_def split: bind_splits)
  then obtain gf' where gf': "ggml_build_forward_expand gf res = Some gf'" "last (cg_nodes gf') = res" "length (cg_nodes gf') \<le> 12 + 43 * ?L"
    "distinct (map tn_addr (cg_nodes gf'))"
    using expand_ok [of W "12 + 43 * ?L" res gf] k(1,2,10) gf(2-6) L unfolding node_def by auto
  have "emb_graph fp e T = Some (Some (gf', res))" unfolding emb_graph_def using i(1-3) gf(1) k gf'(1) by simp
  then show ?thesis using that k(10) gf' by (simp add: node_def)
qed

text \<open>C23. The graph of an inference is well typed: for a model with the documented shapes, at most 47 layers and any
  number of tokens that the context admits, building it fails no assertion of the tensor library and no test
  of the code, fits the pool and the graph object, and the result, its last node, is a contiguous row of
  \<open>n_embd\<close> floats.\<close>

theorem inference_graph_is_well_typed:
  assumes "model_ok e" "0 < T" "T \<le> int (ec_n_ctx e)" "ec_n_layer e \<le> 47"
  shows "\<exists>gf res. emb_graph fp e T = Some (Some (gf, res)) \<and> tn_type res = GGML_TYPE_F32 \<and> tn_ne res = [ec_n_embd e, 1, 1, 1] \<and>
    ggml_is_contiguous res \<and> last (cg_nodes gf) = res \<and> length (cg_nodes gf) \<le> 12 + 43 * nat (ec_n_layer e) \<and>
    distinct (map tn_addr (cg_nodes gf))"
proof -
  have "T < 2 ^ 31" using assms by (simp add: model_ok_def)
  from graph_built [OF assms(1,2) this assms(4), of fp] obtain gf res where
    g: "emb_graph fp e T = Some (Some (gf, res))" "last (cg_nodes gf) = res" "length (cg_nodes gf) \<le> 12 + 43 * nat (ec_n_layer e)"
      "distinct (map tn_addr (cg_nodes gf))" and d: "dense (ec_n_embd e) 1 1 1 res" by blast
  have "tn_type res = GGML_TYPE_F32" "tn_ne res = [ec_n_embd e, 1, 1, 1]" using d by (simp_all add: dense_def)
  with g dense_contiguous [OF d] show ?thesis by blast
qed

subsection \<open>A small model\<close>

definition sample_weight :: "int \<Rightarrow> int \<Rightarrow> nat \<Rightarrow> ggml_tensor" where
  "sample_weight n0 n1 i = Tensor (In_Model i) GGML_TYPE_F32 [n0, n1, 1, 1] [4, 4 * n0, 4 * n0 * n1, 4 * n0 * n1] OP_NONE [] None"

definition sample_layer :: kc_emb_layer_t where
  "sample_layer =
     \<lparr>ly_attn_q_w = sample_weight 2 2 10, ly_attn_q_b = sample_weight 2 1 11, ly_attn_k_w = sample_weight 2 2 12, ly_attn_k_b = sample_weight 2 1 13,
      ly_attn_v_w = sample_weight 2 2 14, ly_attn_v_b = sample_weight 2 1 15, ly_attn_out_w = sample_weight 2 2 16, ly_attn_out_b = sample_weight 2 1 17,
      ly_attn_norm_w = sample_weight 2 1 18, ly_attn_norm_b = sample_weight 2 1 19, ly_ffn_up_w = sample_weight 2 3 20, ly_ffn_up_b = sample_weight 3 1 21,
      ly_ffn_down_w = sample_weight 3 2 22, ly_ffn_down_b = sample_weight 2 1 23, ly_layer_norm_w = sample_weight 2 1 24, ly_layer_norm_b = sample_weight 2 1 25\<rparr>"

definition sample_model :: kc_emb_ctx_t where
  "sample_model = sample_ctx\<lparr>ec_n_embd := 2, ec_n_layer := 1, ec_n_head := 1, ec_token_embd := Some (sample_weight 2 4 1),
     ec_pos_embd := Some (sample_weight 2 8 2), ec_type_embd := Some (sample_weight 2 1 3), ec_norm_w := Some (sample_weight 2 1 4),
     ec_norm_b := Some (sample_weight 2 1 5), ec_layers := Some [sample_layer]\<rparr>"

lemmas sample_defs = sample_model_def sample_ctx_def zero_ctx_def sample_layer_def sample_weight_def layer_weights_def

lemma sample_model_ok: "model_ok sample_model"
  by (simp add: model_ok_def weight_def layer_ok_def layer_given_def given_def ggml_is_transposed_def sample_defs)

lemma inference_graph_is_well_typed_witness:
  "\<exists>gf res. emb_graph \<lparr>fp_double = Fin, fp_float = (\<lambda>_. 0), fp_int = (\<lambda>_. 0)\<rparr> sample_model 8 = Some (Some (gf, res)) \<and> tn_ne res = [2, 1, 1, 1]"
  using inference_graph_is_well_typed [OF sample_model_ok, of 8] by (force simp: sample_defs)

end
