(* ===== verification/Emb_Ctx.thy ===== *)
theory Emb_Ctx
  imports Emb_Graph
begin

section \<open>One inference (src/lib/libemb.c: kc\_emb\_ctx\_exec)\<close>

text \<open>
  From a text to its vector: the tokens, the graph, the run of the graph and the normalisation of the result.
  Running a graph is the parameter \<open>emb_backend\<close>: whether \<open>ggml_gallocr_alloc_graph\<close> succeeds, and the floats
  that \<open>ggml_backend_graph_compute\<close> leaves in the data of the result for the arrays of tokens, positions and
  types (\<open>None\<close>: no data). Reading past those floats is the fault \<open>Out_Of_Bounds\<close>. Of the assertions that the kernels
  make while the graph runs, those on the indices of the three table lookups depend on the text and are modelled;
  the others concern the shapes and types that the graph fixes and belong to the backend.
\<close>

datatype emb_stop = Aborts | Tokenizer vocab_stop | Out_Of_Bounds | Not_Held

record emb_backend =
  bk_alloc :: "ggml_cgraph \<Rightarrow> bool"
  bk_compute :: "ggml_cgraph \<Rightarrow> ggml_tensor \<Rightarrow> int list \<Rightarrow> int list \<Rightarrow> int list \<Rightarrow> u32 list option"

subsection \<open>Arithmetic of the normalisation\<close>

text \<open>Addition, multiplication and square root of \<open>double\<close> with the rounding \<open>rnd\<close> of a finite result, and the
  division of \<open>float\<close>.\<close>

definition fl_add :: "(real \<Rightarrow> dbl) \<Rightarrow> dbl \<Rightarrow> dbl \<Rightarrow> dbl" where
  "fl_add rnd a b =
     (case (a, b) of
        (Fin x, Fin y) \<Rightarrow> rnd (x + y)
      | (NaN, _) \<Rightarrow> NaN
      | (_, NaN) \<Rightarrow> NaN
      | (Inf s, Inf t) \<Rightarrow> if s = t then Inf s else NaN
      | (Inf s, Fin _) \<Rightarrow> Inf s
      | (Fin _, Inf t) \<Rightarrow> Inf t)"

definition fl_square :: "(real \<Rightarrow> dbl) \<Rightarrow> dbl \<Rightarrow> dbl" where
  "fl_square rnd a = (case a of Fin x \<Rightarrow> rnd (x * x) | Inf _ \<Rightarrow> Inf False | NaN \<Rightarrow> NaN)"

definition fl_sqrt :: "(real \<Rightarrow> dbl) \<Rightarrow> dbl \<Rightarrow> dbl" where
  "fl_sqrt rnd a = (case a of Fin x \<Rightarrow> if x < 0 then NaN else rnd (sqrt x) | Inf s \<Rightarrow> if s then NaN else Inf False | NaN \<Rightarrow> NaN)"

definition f32_div :: "fp_env \<Rightarrow> u32 \<Rightarrow> u32 \<Rightarrow> u32" where
  "f32_div fp a b = fp_float fp
     (case (f32_val a, f32_val b) of
        (Fin x, Fin y) \<Rightarrow> if y \<noteq> 0 then Fin (x / y) else if x = 0 then NaN else Inf (x < 0)
      | (Fin _, Inf _) \<Rightarrow> Fin 0
      | (Inf s, Fin y) \<Rightarrow> Inf (s \<noteq> (y < 0))
      | _ \<Rightarrow> NaN)"

definition vector_norm :: "fp_env \<Rightarrow> u32 list \<Rightarrow> u32" where
  "vector_norm fp p =
     fp_float fp (fl_sqrt (fp_double fp) (foldl (\<lambda>acc x. fl_add (fp_double fp) acc (fl_square (fp_double fp) (f32_val x))) (Fin 0) p))"

text \<open>\<open>1e-12f\<close>\<close>

abbreviation (input) norm_floor :: u32 where
  "norm_floor \<equiv> 0x2B8CBCCC"

definition normalise :: "fp_env \<Rightarrow> u32 list \<Rightarrow> u32 list" where
  "normalise fp p =
     (let norm = vector_norm fp p
      in if fl_lt (f32_val norm_floor) (f32_val norm) then map (\<lambda>x. f32_div fp x norm) p else p)"

text \<open>The assertion with which the kernels of \<open>ggml_get_rows\<close> check, when the graph runs, each index against the
  number of rows of the table.\<close>

definition get_rows_ok :: "ggml_tensor \<Rightarrow> int list \<Rightarrow> bool" where
  "get_rows_ok src0 ids \<longleftrightarrow> (\<forall>i01 \<in> set ids. 0 \<le> i01 \<and> i01 < tn_ne src0 ! 1)"

definition lookups_ok :: "kc_emb_ctx_t \<Rightarrow> int list \<Rightarrow> bool" where
  "lookups_ok ectx tokens \<longleftrightarrow> get_rows_ok (the (ec_token_embd ectx)) tokens \<and>
     get_rows_ok (the (ec_pos_embd ectx)) (map int [0..<length tokens]) \<and>
     get_rows_ok (the (ec_type_embd ectx)) (replicate (length tokens) 0)"

definition kc_emb_ctx_exec :: "fp_env \<Rightarrow> emb_backend \<Rightarrow> kc_emb_ctx_t \<Rightarrow> string \<Rightarrow> emb_stop + u32 list option" where
  "kc_emb_ctx_exec fp bk ectx input =
     (case wordpiece_tokenize ectx input of
        Inl s \<Rightarrow> Inl (Tokenizer s)
      | Inr tokens \<Rightarrow>
          let n_tokens = length tokens
          in if n_tokens < 2 \<or> ec_n_ctx ectx < n_tokens then Inr None
             else (case emb_graph fp ectx (int n_tokens) of
                     None \<Rightarrow> Inl Aborts
                   | Some None \<Rightarrow> Inr None
                   | Some (Some (gf, res)) \<Rightarrow>
                       if \<not> bk_alloc bk gf then Inr None
                       else if \<not> lookups_ok ectx tokens then Inl Aborts
                       else (case bk_compute bk gf res tokens (map int [0..<n_tokens]) (replicate n_tokens 0) of
                               None \<Rightarrow> Inr None
                             | Some p \<Rightarrow>
                                 if tn_ne res ! 0 \<noteq> ec_n_embd ectx then Inr None
                                 else if length p < nat (ec_n_embd ectx) then Inl Out_Of_Bounds
                                 else Inr (Some (normalise fp (take (nat (ec_n_embd ectx)) p))))))"

subsection \<open>Every call returns\<close>

lemma normalise_length [simp]: "length (normalise fp p) = length p"
  by (simp add: normalise_def Let_def)

lemma exec_dim: "kc_emb_ctx_exec fp bk ectx t = Inr (Some v) \<Longrightarrow> length v = nat (ec_n_embd ectx)"
  by (auto simp: kc_emb_ctx_exec_def Let_def split: sum.splits option.splits if_splits prod.splits)

text \<open>What the tensor library documents of a run: a result that has data has all its elements.\<close>

definition backend_ok :: "emb_backend \<Rightarrow> bool" where
  "backend_ok bk \<longleftrightarrow> (\<forall>gf res ts ps ys p. bk_compute bk gf res ts ps ys = Some p \<longrightarrow> int (length p) = ggml_nelements res)"

text \<open>The tokens of a text: never fewer than two and never more than the context holds.\<close>

definition text_tokens :: "kc_emb_ctx_t \<Rightarrow> string \<Rightarrow> int list" where
  "text_tokens e t = take (ec_n_ctx e - 1) (ec_cls e # concat (map (segment (ec_vocab e) (ec_unk e) True) (split_words t))) @ [ec_sep e]"

lemma ready_tokens:
  assumes "vocab_ready e" "2 \<le> ec_n_ctx e"
  shows "wordpiece_tokenize e t = Inr (text_tokens e t)" "2 \<le> length (text_tokens e t)" "length (text_tokens e t) \<le> ec_n_ctx e"
proof -
  have "input_loop e t 0 [ec_cls e] = Inr (take (ec_n_ctx e - 1) ([ec_cls e] @ concat (map (segment (ec_vocab e) (ec_unk e) True) (split_words t))))"
    using input_loop_ready [OF assms(1), of "[ec_cls e]" 0 t] assms(2) by simp
  then show "wordpiece_tokenize e t = Inr (text_tokens e t)" using assms(2) by (auto simp: wordpiece_tokenize_def push_id_def text_tokens_def)
qed (use assms(2) in \<open>simp_all add: text_tokens_def\<close>)

text \<open>The tables have a row for every vocabulary entry and special token and for every position of the context.\<close>

definition tables_cover :: "kc_emb_ctx_t \<Rightarrow> bool" where
  "tables_cover e \<longleftrightarrow> (\<forall>t \<in> set_option (ec_token_embd e). int (length (ec_vocab e)) \<le> tn_ne t ! 1 \<and>
       (\<forall>i \<in> {ec_cls e, ec_sep e, ec_unk e}. 0 \<le> i \<and> i < tn_ne t ! 1)) \<and>
     (\<forall>t \<in> set_option (ec_pos_embd e). int (ec_n_ctx e) \<le> tn_ne t ! 1)"

lemma token_id_range: "token_id vs s < int (length vs)"
  using first_index [of s vs] by (auto simp: token_id_def)

lemma segment_ids: "i \<in> set (segment vs unk first w) \<Longrightarrow> i = unk \<or> (0 \<le> i \<and> i < int (length vs))"
proof (induction vs unk first w rule: segment.induct)
  case (1 vs unk first w)
  have "piece_id vs first ls < int (length vs) \<or> piece_id vs first ls < 0" for ls
    using token_id_range [of vs] by (auto simp: piece_id_def form_id_def Let_def)
  then have "0 \<le> t \<and> t < int (length vs)" if "best_piece vs first w = Some (t, k)" for t k
    using best_piece_pos [OF that] that by (auto simp: best_piece_def) (metis not_less)
  with 1 show ?case by (subst (asm) (3) segment.simps) (auto split: if_splits option.splits)
qed

lemma covered_lookups:
  assumes m: "model_ok e" and c: "tables_cover e" and n: "2 \<le> ec_n_ctx e"
  shows "lookups_ok e (text_tokens e t)"
proof -
  obtain tok pos tye where t: "ec_token_embd e = Some tok" "ec_pos_embd e = Some pos" "ec_type_embd e = Some tye"
    and rows: "\<exists>rows. weight (ec_n_embd e) rows tye" using m by (auto simp: model_ok_def)
  have ids: "0 \<le> i \<and> i < tn_ne tok ! 1" if "i \<in> set (text_tokens e t)" for i
  proof -
    from that have "i = ec_cls e \<or> i = ec_sep e \<or> (\<exists>w. i \<in> set (segment (ec_vocab e) (ec_unk e) True w))"
      by (auto simp: text_tokens_def dest!: in_set_takeD)
    with segment_ids [of i "ec_vocab e" "ec_unk e" True] c t(1) show ?thesis by (fastforce simp: tables_cover_def)
  qed
  have "length (text_tokens e t) \<le> ec_n_ctx e" using n by (simp add: text_tokens_def)
  with ids c t rows show ?thesis
    by (auto simp: lookups_ok_def get_rows_ok_def tables_cover_def weight_def given_def)
qed

lemma exec_returns:
  assumes m: "model_ok e" "ec_n_layer e \<le> 47" and v: "vocab_ready e" "2 \<le> ec_n_ctx e" and bk: "backend_ok bk" and c: "tables_cover e"
  obtains gf res where "emb_graph fp e (int (length (text_tokens e t))) = Some (Some (gf, res))" "tn_ne res = [ec_n_embd e, 1, 1, 1]"
    "kc_emb_ctx_exec fp bk e t = Inr (if \<not> bk_alloc bk gf then None else
       map_option (normalise fp) (bk_compute bk gf res (text_tokens e t) (map int [0..<length (text_tokens e t)]) (replicate (length (text_tokens e t)) 0)))"
proof -
  let ?n = "length (text_tokens e t)"
  note tk = ready_tokens [OF v, of t]
  have "0 < int ?n" "int ?n < 2 ^ 31" using tk(2,3) m(1) by (auto simp: model_ok_def)
  from graph_built [OF m(1) this m(2), of fp] obtain gf res where g: "emb_graph fp e (int ?n) = Some (Some (gf, res))" "dense (ec_n_embd e) 1 1 1 res"
    by blast
  then have ne: "tn_ne res = [ec_n_embd e, 1, 1, 1]" "ggml_nelements res = ec_n_embd e" by (simp_all add: dense_def ggml_nelements_def)
  have "length p = nat (ec_n_embd e)" if "bk_compute bk gf res ts ps ys = Some p" for p ts ps ys
    using bk that ne(2) unfolding backend_ok_def by fastforce
  with that [OF g(1) ne(1)] tk g(1) ne(1) covered_lookups [OF m(1) c v(2), of t] show ?thesis by (auto simp: kc_emb_ctx_exec_def Let_def split: option.splits)
qed

text \<open>Nothing else stands between a token outside the table and the assertion: the program has no check of its own.\<close>

lemma short_table_aborts:
  assumes m: "model_ok e" "ec_n_layer e \<le> 47" and v: "vocab_ready e" "2 \<le> ec_n_ctx e" and bk: "\<forall>gf. bk_alloc bk gf"
    and out: "i \<in> set (text_tokens e t)" "tn_ne (the (ec_token_embd e)) ! 1 \<le> i"
  shows "kc_emb_ctx_exec fp bk e t = Inl Aborts"
proof -
  let ?n = "length (text_tokens e t)"
  note tk = ready_tokens [OF v, of t]
  have "0 < int ?n" "int ?n < 2 ^ 31" using tk(2,3) m(1) by (auto simp: model_ok_def)
  from graph_built [OF m(1) this m(2), of fp] obtain gf res where g: "emb_graph fp e (int ?n) = Some (Some (gf, res))" by blast
  have "\<not> lookups_ok e (text_tokens e t)" using out unfolding lookups_ok_def get_rows_ok_def by (meson not_less)
  with tk g bk show ?thesis by (simp add: kc_emb_ctx_exec_def Let_def)
qed

text \<open>A machine for small examples.\<close>

definition near_fp :: fp_env where
  "near_fp = \<lparr>fp_double = Fin, fp_float = (\<lambda>v. if v = Fin 5 then 0x40A00000 else if v = Fin (3 / 5) then 0x3F19999A else 0x3F4CCCCD), fp_int = (\<lambda>_. 0)\<rparr>"

end
