(* ===== verification/Emb_Norm.thy ===== *)
theory Emb_Norm
  imports Emb_Ctx
begin

section \<open>The length of an embedding (src/lib/libemb.c: the end of kc\_emb\_ctx\_exec)\<close>

text \<open>
  The vector that an inference returns is divided by its length. The sum of squares and its root are computed in
  \<open>double\<close>, the quotients in \<open>float\<close>, each operation rounded; what is assumed of the rounding is what IEEE 754 arithmetic
  has in its normal range: a relative error of at most \<open>e\<close> (\<open>2\<^sup>-\<^sup>5\<^sup>3\<close> to nearest) of a \<open>double\<close> and \<open>d\<close> (\<open>2\<^sup>-\<^sup>2\<^sup>4\<close>) of a \<open>float\<close>.
\<close>

definition vec_len :: "u32 list \<Rightarrow> real" where
  "vec_len p = sqrt (\<Sum>x\<leftarrow>p. (f32_real x)\<^sup>2)"

definition rounded :: "fp_env \<Rightarrow> real \<Rightarrow> real \<Rightarrow> bool" where
  "rounded fp d y \<longleftrightarrow> (\<exists>z. f32_val (fp_float fp (Fin y)) = Fin z \<and> \<bar>z - y\<bar> \<le> d * \<bar>y\<bar>)"

definition float_rounds :: "fp_env \<Rightarrow> real \<Rightarrow> bool" where
  "float_rounds fp d \<longleftrightarrow> (\<forall>y. y = 0 \<or> 1 / 2 ^ 126 \<le> \<bar>y\<bar> \<and> \<bar>y\<bar> \<le> 2 ^ 127 \<longrightarrow> rounded fp d y)"

definition double_rounds :: "fp_env \<Rightarrow> real \<Rightarrow> bool" where
  "double_rounds fp e \<longleftrightarrow> (\<forall>y. y = 0 \<or> 1 / 2 ^ 1000 \<le> \<bar>y\<bar> \<and> \<bar>y\<bar> \<le> 2 ^ 1000 \<longrightarrow> (\<exists>z. fp_double fp y = Fin z \<and> \<bar>z - y\<bar> \<le> e * \<bar>y\<bar>))"

subsection \<open>Bounds\<close>

lemma f32_real_Fin: "f32_val x = Fin z \<Longrightarrow> f32_real x = z"
  by (simp add: f32_real_def)

lemma rounded_real: "rounded fp d y \<Longrightarrow> \<bar>f32_real (fp_float fp (Fin y)) - y\<bar> \<le> d * \<bar>y\<bar>"
  by (auto simp: rounded_def f32_real_Fin)

lemma vec_len_nonneg: "0 \<le> vec_len p"
  by (simp add: vec_len_def) (rule sum_list_nonneg, auto)

lemma f32_range:
  assumes "f32_val x = Fin z"
  shows "\<bar>z\<bar> \<le> 2 ^ 128" "z = 0 \<or> 1 / 2 ^ 149 \<le> \<bar>z\<bar>"
proof -
  define e m where "e = unat (take_bit 8 (drop_bit 23 x))" and "m = unat (take_bit 23 x)"
  have b: "e < 2 ^ 8" "m < 2 ^ 23" unfolding e_def m_def unsigned_take_bit_eq by (rule take_bit_nat_less_exp)+
  define mag where "mag = (if e = 0 then real m / 2 ^ 149 else real (2 ^ 23 + m) * 2 ^ e / 2 ^ 150)"
  have "e \<noteq> 255 \<and> (z = mag \<or> z = - mag)"
    using assms unfolding f32_val_def Let_def e_def [symmetric] m_def [symmetric] mag_def [symmetric] by (auto split: if_splits)
  moreover have "0 \<le> mag" by (simp add: mag_def)
  ultimately have e: "e \<noteq> 255" and z: "\<bar>z\<bar> = (if e = 0 then real m / 2 ^ 149 else real (2 ^ 23 + m) * 2 ^ e / 2 ^ 150)"
    unfolding mag_def [symmetric] by auto
  have m: "real m \<le> 2 ^ 23" using b(2) by simp
  show "\<bar>z\<bar> \<le> 2 ^ 128"
  proof (cases "e = 0")
    case True
    with z m show ?thesis by (simp add: divide_le_eq)
  next
    case False
    have "(2 :: real) ^ e \<le> 2 ^ 254" using b(1) e by (intro power_increasing) auto
    then have "real (2 ^ 23 + m) * 2 ^ e \<le> 2 ^ 24 * 2 ^ 254" using m by (intro mult_mono) auto
    with z False show ?thesis by simp
  qed
  show "z = 0 \<or> 1 / 2 ^ 149 \<le> \<bar>z\<bar>"
  proof (cases "e = 0")
    case True
    with z show ?thesis by (cases m) auto
  next
    case False
    have "(2 :: real) ^ 1 \<le> 2 ^ e" using False by (intro power_increasing) auto
    then have "1 * 2 \<le> real (2 ^ 23 + m) * 2 ^ e" by (intro mult_mono) auto
    with z False show ?thesis by (simp add: field_simps)
  qed
qed

lemma power_bounds:
  fixes e :: real assumes "0 \<le> e" "e \<le> 1 / 2 ^ 52" "j \<le> 2 ^ 33"
  shows "1 / 2 \<le> (1 - e) ^ j" "(1 + e) ^ j \<le> 2"
proof -
  have "real j * e \<le> 2 ^ 33 * (1 / 2 ^ 52)" using assms by (intro mult_mono) auto
  then have "real j * e \<le> 1 / 2" by simp
  moreover have "1 + real j * (- e) \<le> (1 + (- e)) ^ j" using assms(1,2) by (intro Bernoulli_inequality) simp
  ultimately show lo: "1 / 2 \<le> (1 - e) ^ j" by simp
  have "((1 + e) * (1 - e)) ^ j \<le> 1" using assms(1,2) by (intro power_le_one) (auto simp: algebra_simps mult_le_one power2_eq_square)
  then have "(1 + e) ^ j * (1 - e) ^ j \<le> 1" by (simp add: power_mult_distrib)
  moreover have "(1 + e) ^ j * (1 / 2) \<le> (1 + e) ^ j * (1 - e) ^ j" using lo assms(1) by (intro mult_left_mono) auto
  ultimately show "(1 + e) ^ j \<le> 2" by linarith
qed

text \<open>A number \<open>a\<close> that stands for \<open>s\<close> after at most \<open>j\<close> roundings.\<close>

definition near :: "real \<Rightarrow> nat \<Rightarrow> real \<Rightarrow> real \<Rightarrow> bool" where
  "near e j s a \<longleftrightarrow> (1 - e) ^ j * s \<le> a \<and> a \<le> (1 + e) ^ j * s"

lemma near_mono:
  assumes "0 \<le> e" "e \<le> 1" "near e i s a" "i \<le> j" "0 \<le> s" shows "near e j s a"
proof -
  have "(1 - e) ^ j * s \<le> (1 - e) ^ i * s" "(1 + e) ^ i * s \<le> (1 + e) ^ j * s"
    using assms by (intro mult_right_mono power_decreasing power_increasing; simp)+
  with assms(3) show ?thesis by (auto simp: near_def)
qed

lemma near_add: "near e j s a \<Longrightarrow> near e j t b \<Longrightarrow> near e j (s + t) (a + b)"
  by (auto simp: near_def algebra_simps)

lemma near_round:
  assumes "0 \<le> e" "e \<le> 1" "near e j s a" "\<bar>b - a\<bar> \<le> e * \<bar>a\<bar>" "0 \<le> a"
  shows "near e (Suc j) s b"
proof -
  have "(1 - e) * a \<le> b" "b \<le> (1 + e) * a" using assms(4,5) by (auto simp: algebra_simps abs_le_iff)
  moreover have "(1 - e) * ((1 - e) ^ j * s) \<le> (1 - e) * a" "(1 + e) * a \<le> (1 + e) * ((1 + e) ^ j * s)"
    using assms(1-3) by (auto simp: near_def intro!: mult_left_mono)
  ultimately show ?thesis by (simp add: near_def mult.assoc)
qed

lemma near_range:
  assumes "0 \<le> e" "e \<le> 1 / 2 ^ 52" "j \<le> 2 ^ 33" "near e j s a" "0 \<le> s"
  shows "1 / 2 * s \<le> a" "a \<le> 2 * s" "0 \<le> a"
proof -
  note b = power_bounds [OF assms(1-3)]
  have "1 / 2 * s \<le> (1 - e) ^ j * s" "(1 + e) ^ j * s \<le> 2 * s" using b assms(5) by (intro mult_right_mono; simp)+
  with assms(4,5) show "1 / 2 * s \<le> a" "a \<le> 2 * s" by (auto simp: near_def)
  with assms(5) show "0 \<le> a" by linarith
qed

subsection \<open>The sum of squares and its root\<close>

lemma ranges:
  "(2 :: real) ^ 256 \<le> 2 ^ 400" "(2 :: real) ^ 301 \<le> 2 ^ 400" "(2 :: real) ^ 400 \<le> 2 ^ 1000" "(1 / 2 ^ 1000 :: real) \<le> 1 / 2 ^ 400"
  "(1 / 2 ^ 400 :: real) \<le> 1 / 2 ^ 299" "(1 / 2 ^ 400 :: real) \<le> 1 / 2 ^ 298" "0 < (1 / 2 ^ 400 :: real)"
  by (rule power_increasing; simp | rule divide_left_mono; (rule power_increasing)?; simp | simp)+

lemma double_value:
  assumes "double_rounds fp e" "y = 0 \<or> 1 / 2 ^ 400 \<le> y \<and> y \<le> 2 ^ 400"
  obtains z where "fp_double fp y = Fin z" "\<bar>z - y\<bar> \<le> e * \<bar>y\<bar>"
proof -
  have "y = 0 \<or> 1 / 2 ^ 1000 \<le> \<bar>y\<bar> \<and> \<bar>y\<bar> \<le> 2 ^ 1000"
  proof (cases "y = 0")
    case False
    with assms(2) have y: "1 / 2 ^ 400 \<le> y" "y \<le> 2 ^ 400" by blast+
    then have "\<bar>y\<bar> = y" using ranges(7) by linarith
    moreover have "1 / 2 ^ 1000 \<le> y" using ranges(4) y(1) by (rule order_trans)
    moreover have "y \<le> 2 ^ 1000" using y(2) ranges(3) by (rule order_trans)
    ultimately show ?thesis by simp
  qed simp
  with assms(1) that show ?thesis unfolding double_rounds_def by blast
qed

lemma square_rounds:
  assumes dr: "double_rounds fp e" "0 \<le> e" "e \<le> 1" and x: "f32_val x = Fin z"
  obtains t where "fl_square (fp_double fp) (f32_val x) = Fin t" "near e 1 (z\<^sup>2) t" "z\<^sup>2 = 0 \<or> 1 / 2 ^ 298 \<le> z\<^sup>2" "z\<^sup>2 \<le> 2 ^ 256"
proof -
  have sq: "z\<^sup>2 = \<bar>z\<bar>\<^sup>2" by simp
  have hi: "z\<^sup>2 \<le> 2 ^ 256" using power_mono [OF f32_range(1) [OF x], of 2] unfolding sq power_mult [symmetric] by simp
  have lo: "z\<^sup>2 = 0 \<or> 1 / 2 ^ 298 \<le> z\<^sup>2"
  proof (cases "z = 0")
    case False
    then have "1 / 2 ^ 149 \<le> \<bar>z\<bar>" using f32_range(2) [OF x] by simp
    from power_mono [OF this, of 2] show ?thesis unfolding sq power_divide power_mult [symmetric] by simp
  qed simp
  have "z\<^sup>2 = 0 \<or> 1 / 2 ^ 400 \<le> z\<^sup>2 \<and> z\<^sup>2 \<le> 2 ^ 400"
    using lo order_trans [OF hi ranges(1)] order_trans [OF ranges(6), of "z\<^sup>2"] by blast
  from double_value [OF dr(1) this] obtain t where t: "fp_double fp (z\<^sup>2) = Fin t" "\<bar>t - z\<^sup>2\<bar> \<le> e * \<bar>z\<^sup>2\<bar>" .
  have "near e (Suc 0) (z\<^sup>2) t" by (rule near_round [OF dr(2,3) _ t(2)]) (simp_all add: near_def)
  with t(1) lo hi that [of t] show ?thesis by (simp add: fl_square_def x power2_eq_square)
qed

lemma sum_rounds:
  assumes dr: "double_rounds fp e" and e: "0 \<le> e" "e \<le> 1 / 2 ^ 52"
    and "\<forall>x \<in> set p. \<exists>z. f32_val x = Fin z" "near e j s a" "1 \<le> j" "j + length p \<le> 2 ^ 33"
    and "0 \<le> s" "s = 0 \<or> 1 / 2 ^ 298 \<le> s" "s + real (length p) * 2 ^ 256 \<le> 2 ^ 300"
  shows "\<exists>b. foldl (\<lambda>acc x. fl_add (fp_double fp) acc (fl_square (fp_double fp) (f32_val x))) (Fin a) p = Fin b \<and>
    near e (j + length p) (s + (\<Sum>x\<leftarrow>p. (f32_real x)\<^sup>2)) b"
  using assms(4-)
proof (induction p arbitrary: j s a)
  case (Cons x p)
  from Cons.prems(1) obtain z where z: "f32_val x = Fin z" by auto
  have e1: "e \<le> 1" using e(2) by simp
  obtain t where t: "fl_square (fp_double fp) (f32_val x) = Fin t" "near e 1 (z\<^sup>2) t" "z\<^sup>2 = 0 \<or> 1 / 2 ^ 298 \<le> z\<^sup>2" "z\<^sup>2 \<le> 2 ^ 256"
    using square_rounds [OF dr e(1) e1 z] .
  let ?s = "s + z\<^sup>2"
  have s: "0 \<le> ?s" "?s = 0 \<or> 1 / 2 ^ 298 \<le> ?s" "?s + real (length p) * 2 ^ 256 \<le> 2 ^ 300"
    using Cons.prems(5,6,7) t(3,4) by (auto simp: algebra_simps)
  have n: "near e j ?s (a + t)"
    using near_add [OF Cons.prems(2) near_mono [OF e(1) e1 t(2) Cons.prems(3)]] by simp
  have j: "j \<le> 2 ^ 33" using Cons.prems(4) by simp
  note r = near_range [OF e j n s(1)]
  have up: "?s \<le> 2 ^ 300" using s(3) by (rule order_trans [rotated]) simp
  have "a + t = 0 \<or> 1 / 2 ^ 400 \<le> a + t \<and> a + t \<le> 2 ^ 400"
  proof (cases "?s = 0")
    case True
    with r show ?thesis by simp
  next
    case False
    then have "1 / 2 ^ 298 \<le> ?s" using s(2) by blast
    then have "1 / 2 * (1 / 2 ^ 298) \<le> 1 / 2 * ?s" by (rule mult_left_mono) simp
    then have "1 / 2 ^ 299 \<le> a + t" using r(1) by simp
    moreover have "2 * ?s \<le> 2 * 2 ^ 300" using up by (rule mult_left_mono) simp
    then have "a + t \<le> 2 ^ 301" using r(2) by simp
    ultimately show ?thesis using ranges(2,5) by (meson order_trans)
  qed
  from double_value [OF dr this] obtain b where b: "fp_double fp (a + t) = Fin b" "\<bar>b - (a + t)\<bar> \<le> e * \<bar>a + t\<bar>" .
  have "near e (Suc j) ?s b" by (rule near_round [OF e(1) e1 n b(2) r(3)])
  from Cons.IH [OF _ this _ _ s] Cons.prems(1,4) obtain c where
    "foldl (\<lambda>acc x. fl_add (fp_double fp) acc (fl_square (fp_double fp) (f32_val x))) (Fin b) p = Fin c"
    "near e (Suc j + length p) (?s + (\<Sum>x\<leftarrow>p. (f32_real x)\<^sup>2)) c" by auto
  with t(1) b(1) show ?case by (simp add: fl_add_def f32_real_Fin [OF z] add.assoc)
qed simp

lemma sqrt_near:
  assumes "0 \<le> e" "e \<le> 1" "near e j s b" "0 \<le> s"
  shows "near e j (sqrt s) (sqrt b)"
proof -
  let ?l = "(1 - e) ^ j" and ?u = "(1 + e) ^ j"
  have l: "0 \<le> ?l" "?l \<le> 1" and u: "1 \<le> ?u" using assms(1,2) by (simp_all add: power_le_one)
  have "?l \<le> sqrt ?l" using l by (intro real_le_rsqrt) (simp add: power2_eq_square mult_left_le)
  then have "?l * sqrt s \<le> sqrt (?l * s)" using assms(4) by (simp add: real_sqrt_mult mult_right_mono)
  also have "\<dots> \<le> sqrt b" using assms(3) by (simp add: near_def)
  finally have lo: "?l * sqrt s \<le> sqrt b" .
  have "sqrt b \<le> sqrt (?u * s)" using assms(3) by (simp add: near_def)
  also have "\<dots> = sqrt ?u * sqrt s" by (simp add: real_sqrt_mult)
  also have "\<dots> \<le> ?u * sqrt s" using u assms(4) by (intro mult_right_mono real_le_lsqrt) (auto simp: power2_eq_square)
  finally show ?thesis using lo by (simp add: near_def)
qed

lemma norm_rounds:
  assumes dr: "double_rounds fp e" and e: "0 \<le> e" "e \<le> 1 / 2 ^ 52" and p: "\<forall>x \<in> set p. \<exists>z. f32_val x = Fin z" "length p < 2 ^ 31"
    and l: "1 / 2 ^ 38 \<le> vec_len p" "vec_len p \<le> 2 ^ 126"
  obtains D where "vector_norm fp p = fp_float fp (Fin D)" "near e (length p + 2) (vec_len p) D"
proof -
  let ?S = "\<Sum>x\<leftarrow>p. (f32_real x)\<^sup>2"
  have e1: "e \<le> 1" using e(2) by simp
  have S: "0 \<le> ?S" by (rule sum_list_nonneg) auto
  have "real (length p) \<le> 2 ^ 31" using p(2) by simp
  then have "real (length p) * 2 ^ 256 \<le> 2 ^ 31 * 2 ^ 256" by (rule mult_right_mono) simp
  then have "0 + real (length p) * 2 ^ 256 \<le> 2 ^ 300" by simp
  then obtain b where b: "foldl (\<lambda>acc x. fl_add (fp_double fp) acc (fl_square (fp_double fp) (f32_val x))) (Fin 0) p = Fin b"
    "near e (1 + length p) ?S b"
    using sum_rounds [OF dr e p(1), of 1 0 0] p(2) by (auto simp: near_def)
  have j: "1 + length p \<le> 2 ^ 33" using p(2) by simp
  have b0: "0 \<le> b" by (rule near_range(3) [OF e j b(2) S])
  have n: "near e (1 + length p) (vec_len p) (sqrt b)" unfolding vec_len_def by (rule sqrt_near [OF e(1) e1 b(2) S])
  note r = near_range [OF e j n vec_len_nonneg]
  have "1 / 2 ^ 400 \<le> sqrt b"
  proof -
    have "(1 / 2 ^ 400 :: real) \<le> 1 / 2 * (1 / 2 ^ 38)" by simp
    also have "\<dots> \<le> 1 / 2 * vec_len p" using l(1) by (rule mult_left_mono) simp
    finally show ?thesis using r(1) by linarith
  qed
  moreover have "sqrt b \<le> 2 ^ 400"
  proof -
    have "2 * vec_len p \<le> 2 * 2 ^ 126" using l(2) by (rule mult_left_mono) simp
    also have "\<dots> \<le> (2 ^ 400 :: real)" by simp
    finally show ?thesis using r(2) by linarith
  qed
  ultimately have "sqrt b = 0 \<or> 1 / 2 ^ 400 \<le> sqrt b \<and> sqrt b \<le> 2 ^ 400" by blast
  from double_value [OF dr this] obtain D where D: "fp_double fp (sqrt b) = Fin D" "\<bar>D - sqrt b\<bar> \<le> e * \<bar>sqrt b\<bar>" .
  have "near e (Suc (1 + length p)) (vec_len p) D" by (rule near_round [OF e(1) e1 n D(2) r(3)])
  moreover have "vector_norm fp p = fp_float fp (Fin D)" unfolding vector_norm_def b(1) using b0 D(1) by (simp add: fl_sqrt_def)
  ultimately show ?thesis using that [of D] by simp
qed

subsection \<open>The quotients\<close>

lemma square_between:
  fixes z y d :: real assumes "\<bar>z - y\<bar> \<le> d * \<bar>y\<bar>" "0 \<le> d" "d < 1"
  shows "((1 - d) * \<bar>y\<bar>)\<^sup>2 \<le> z\<^sup>2" "z\<^sup>2 \<le> ((1 + d) * \<bar>y\<bar>)\<^sup>2"
proof -
  have "(1 - d) * \<bar>y\<bar> \<le> \<bar>z\<bar>" "\<bar>z\<bar> \<le> (1 + d) * \<bar>y\<bar>" using assms(1) by (auto simp: algebra_simps)
  moreover have "0 \<le> (1 - d) * \<bar>y\<bar>" using assms by simp
  ultimately show "((1 - d) * \<bar>y\<bar>)\<^sup>2 \<le> z\<^sup>2" "z\<^sup>2 \<le> ((1 + d) * \<bar>y\<bar>)\<^sup>2"
    by (metis power2_abs power_mono, metis abs_ge_zero power2_abs power_mono)
qed

lemma scaled_squares: "(\<Sum>x\<leftarrow>p. (c * \<bar>f32_real x / n\<bar>)\<^sup>2) = (c / n)\<^sup>2 * (\<Sum>x\<leftarrow>p. (f32_real x)\<^sup>2)"
  by (induction p) (simp_all add: power_mult_distrib power_divide algebra_simps)

lemma scaled_len: "0 \<le> c \<Longrightarrow> 0 < n \<Longrightarrow> sqrt (\<Sum>x\<leftarrow>p. (c * \<bar>f32_real x / n\<bar>)\<^sup>2) = c / n * vec_len p"
  unfolding scaled_squares vec_len_def by (simp add: real_sqrt_mult)

lemma quotient_len:
  fixes q :: "u32 \<Rightarrow> u32"
  assumes "\<forall>x \<in> set p. \<bar>f32_real (q x) - f32_real x / n\<bar> \<le> d * \<bar>f32_real x / n\<bar>" "0 \<le> d" "d < 1" "0 < n"
  shows "(1 - d) / n * vec_len p \<le> vec_len (map q p)" "vec_len (map q p) \<le> (1 + d) / n * vec_len p"
proof -
  have "(\<Sum>x\<leftarrow>p. ((1 - d) * \<bar>f32_real x / n\<bar>)\<^sup>2) \<le> (\<Sum>x\<leftarrow>map q p. (f32_real x)\<^sup>2)"
    "(\<Sum>x\<leftarrow>map q p. (f32_real x)\<^sup>2) \<le> (\<Sum>x\<leftarrow>p. ((1 + d) * \<bar>f32_real x / n\<bar>)\<^sup>2)"
    unfolding map_map o_def by (rule sum_list_mono, rule square_between [OF bspec [OF assms(1)] assms(2,3)], assumption)+
  then have b: "sqrt (\<Sum>x\<leftarrow>p. ((1 - d) * \<bar>f32_real x / n\<bar>)\<^sup>2) \<le> vec_len (map q p)" "vec_len (map q p) \<le> sqrt (\<Sum>x\<leftarrow>p. ((1 + d) * \<bar>f32_real x / n\<bar>)\<^sup>2)"
    by (simp_all add: vec_len_def)
  have c: "0 \<le> 1 - d" "0 \<le> 1 + d" using assms(2,3) by simp_all
  show "(1 - d) / n * vec_len p \<le> vec_len (map q p)" using b(1) unfolding scaled_len [OF c(1) assms(4)] .
  show "vec_len (map q p) \<le> (1 + d) / n * vec_len p" using b(2) unfolding scaled_len [OF c(2) assms(4)] .
qed

lemma member_le_len: "x \<in> set p \<Longrightarrow> \<bar>f32_real x\<bar> \<le> vec_len p"
proof -
  assume x: "x \<in> set p"
  have "(f32_real x)\<^sup>2 \<le> (\<Sum>y\<leftarrow>p. (f32_real y)\<^sup>2)"
    using x
  proof (induction p)
    case (Cons y p)
    have "0 \<le> (\<Sum>y\<leftarrow>p. (f32_real y)\<^sup>2)" by (rule sum_list_nonneg) auto
    with Cons show ?case by (auto intro: order_trans add_increasing)
  qed simp
  then have "sqrt ((f32_real x)\<^sup>2) \<le> vec_len p" unfolding vec_len_def by (rule real_sqrt_le_mono)
  then show ?thesis by simp
qed

lemma above_floor: "1 / 2 ^ 38 * (3 / 8) \<le> z \<Longrightarrow> fl_lt (f32_val norm_floor) (Fin z)"
  by (simp add: f32_val_def Let_def fl_lt_def take_bit_eq_mod drop_bit_eq_div bit_iff_odd_drop_bit)

subsection \<open>A machine that truncates\<close>

text \<open>Rounding towards zero to \<open>b + 1\<close> significant bits, as a number and as the bits of a \<open>float\<close>.\<close>

definition ilog :: "real \<Rightarrow> int" where
  "ilog y = \<lfloor>log 2 \<bar>y\<bar>\<rfloor>"

definition significand :: "nat \<Rightarrow> real \<Rightarrow> nat" where
  "significand b y = nat \<lfloor>\<bar>y\<bar> * 2 powr (real b - ilog y)\<rfloor>"

definition chop :: "nat \<Rightarrow> real \<Rightarrow> real" where
  "chop b y = (if y = 0 then 0 else sgn y * (real (significand b y) * 2 powr (ilog y - real b)))"

definition chop_bits :: "real \<Rightarrow> nat" where
  "chop_bits y = (if y = 0 then 0 else (if y < 0 then 1 else 0) * 2 ^ 31 + nat (ilog y + 127) * 2 ^ 23 + (significand 23 y - 2 ^ 23))"

definition chop_fp :: fp_env where
  "chop_fp = \<lparr>fp_double = (\<lambda>y. Fin (chop 52 y)), fp_float = (\<lambda>v. case v of Fin y \<Rightarrow> word_of_nat (chop_bits y) | _ \<Rightarrow> 0x7FC00000), fp_int = (\<lambda>_. 0)\<rparr>"

lemma ilog_bounds: "y \<noteq> 0 \<Longrightarrow> 2 powr ilog y \<le> \<bar>y\<bar> \<and> \<bar>y\<bar> < 2 powr (ilog y + 1)"
  using floor_log_eq_powr_iff [of "\<bar>y\<bar>" 2 "ilog y"] by (simp add: ilog_def)

lemma significand_bounds:
  assumes "y \<noteq> 0"
  shows "2 ^ b \<le> significand b y" "significand b y < 2 ^ Suc b"
    "\<bar>\<bar>y\<bar> - real (significand b y) * 2 powr (ilog y - real b)\<bar> \<le> 1 / 2 ^ b * \<bar>y\<bar>"
proof -
  let ?k = "real_of_int (ilog y)" and ?r = "\<bar>y\<bar> * 2 powr (real b - ilog y)"
  have k: "2 powr ?k \<le> \<bar>y\<bar>" "\<bar>y\<bar> < 2 powr (?k + 1)" using ilog_bounds [OF assms] by simp_all
  have "2 powr ?k * 2 powr (b - ?k) \<le> ?r" using k(1) by (intro mult_right_mono) auto
  then have lo: "2 ^ b \<le> ?r" by (simp add: powr_add [symmetric] powr_realpow)
  have "?r < 2 powr (?k + 1) * 2 powr (b - ?k)" using k(2) by (intro mult_strict_right_mono) auto
  also have "\<dots> = 2 powr (real b + 1)" by (simp add: powr_add [symmetric] algebra_simps)
  also have "\<dots> = 2 ^ Suc b" by (simp add: powr_add powr_realpow)
  finally have hi: "?r < 2 ^ Suc b" .
  have f: "real (significand b y) \<le> ?r" "?r < real (significand b y) + 1" unfolding significand_def by (simp_all add: of_nat_nat)
  show "2 ^ b \<le> significand b y" using lo by (simp add: significand_def le_nat_iff le_floor_iff)
  have "real (significand b y) < real (2 ^ Suc b)" using f(1) hi by simp
  then show "significand b y < 2 ^ Suc b" by (simp only: of_nat_less_iff)
  let ?u = "2 powr (ilog y - real b)"
  have y: "\<bar>y\<bar> = ?r * ?u" by (simp add: mult.assoc powr_add [symmetric])
  have "\<bar>?r - real (significand b y)\<bar> * ?u \<le> 1 * ?u" using f by (intro mult_right_mono) auto
  also have "\<dots> = 2 powr ?k / 2 ^ b" by (simp add: powr_diff powr_realpow)
  also have "\<dots> \<le> 1 / 2 ^ b * \<bar>y\<bar>" using k(1) by (simp add: divide_right_mono)
  finally have "\<bar>?r - real (significand b y)\<bar> * ?u \<le> 1 / 2 ^ b * \<bar>y\<bar>" .
  moreover have "\<bar>y\<bar> - real (significand b y) * ?u = (?r - real (significand b y)) * ?u"
    using y by (simp add: left_diff_distrib)
  ultimately show "\<bar>\<bar>y\<bar> - real (significand b y) * ?u\<bar> \<le> 1 / 2 ^ b * \<bar>y\<bar>" by (simp add: abs_mult)
qed

lemma chop_close: "\<bar>chop b y - y\<bar> \<le> 1 / 2 ^ b * \<bar>y\<bar>"
proof (cases "y = 0")
  case False
  then show ?thesis using significand_bounds(3) [OF False, of b] by (cases "0 < y") (auto simp: chop_def sgn_if)
qed (simp add: chop_def)

lemma f32_bits:
  assumes "E < 255" "0 < E" "f < 2 ^ 23" "s = 0 \<or> s = 1"
  shows "f32_val (word_of_nat (s * 2 ^ 31 + E * 2 ^ 23 + f)) = Fin ((if s = 1 then - 1 else 1) * (real (2 ^ 23 + f) * 2 ^ E / 2 ^ 150))"
proof -
  let ?n = "s * 2 ^ 31 + E * 2 ^ 23 + f"
  let ?w = "word_of_nat ?n :: u32"
  have n: "?n < 2 ^ 32" using assms by auto
  have g: "unat (word_of_nat k :: u32) = k" if "k < 2 ^ 32" for k using that by (simp add: unsigned_of_nat take_bit_nat_eq_self)
  have u: "unat ?w = ?n" by (rule g [OF n])
  have d: "?n div 2 ^ 23 = s * 2 ^ 8 + E" using assms(3) by simp
  have "unat (drop_bit 23 ?w) = s * 2 ^ 8 + E"
    unfolding unsigned_drop_bit_eq u using n d by (simp add: take_bit_nat_eq_self drop_bit_eq_div)
  then have e: "unat (take_bit 8 (drop_bit 23 ?w)) = E" unfolding unsigned_take_bit_eq using assms(1,4) by (auto simp: take_bit_eq_mod)
  have "?n = (s * 2 ^ 8 + E) * 2 ^ 23 + f" by simp
  then have "?n mod 2 ^ 23 = f" using assms(3) by (simp only: mod_mult_self3) simp
  then have m: "unat (take_bit 23 ?w) = f" unfolding unsigned_take_bit_eq u unfolding take_bit_eq_mod .
  have "bit ?w 31 = bit (unat ?w) 31" by (simp add: bit_unsigned_iff)
  also have "\<dots> = odd (?n div 2 ^ 31)" unfolding u by (simp add: bit_iff_odd)
  also have "?n div 2 ^ 31 = s" using assms by auto
  finally have b: "bit ?w 31 \<longleftrightarrow> s = 1" using assms(4) by auto
  show ?thesis unfolding f32_val_def Let_def e m b using assms(1,2) by simp
qed

lemma chop_float:
  assumes "1 / 2 ^ 126 \<le> \<bar>y\<bar>" "\<bar>y\<bar> \<le> 2 ^ 127"
  shows "f32_val (word_of_nat (chop_bits y)) = Fin (chop 23 y)"
proof -
  have y0: "y \<noteq> 0" using assms(1) by auto
  have "(2 :: real) powr (-126) \<le> \<bar>y\<bar>" using assms(1) by (simp add: powr_minus_divide powr_realpow [of 2 126, simplified])
  then have "- 126 \<le> ilog y" using y0 by (simp add: ilog_def le_floor_iff le_log_iff)
  moreover have "ilog y \<le> 127"
  proof -
    have "\<bar>y\<bar> < 2 powr 128" using assms(2) by (simp add: powr_realpow [of 2 128, simplified])
    then have "log 2 \<bar>y\<bar> < 128" using y0 by (simp add: log_less_iff)
    then show ?thesis by (simp add: ilog_def)
  qed
  ultimately have k: "- 126 \<le> ilog y" "ilog y \<le> 127" .
  note s = significand_bounds(1,2) [OF y0, of 23]
  let ?E = "nat (ilog y + 127)"
  have E: "?E < 255" "0 < ?E" using k by simp_all
  have p: "2 ^ ?E / (2 :: real) ^ 150 = 2 powr (ilog y - 23)"
  proof -
    have "(2 :: real) ^ ?E = 2 powr (ilog y + 127)" using k(1) by (simp add: powr_realpow [symmetric])
    moreover have "(2 :: real) ^ 150 = 2 powr 150" by (simp add: powr_realpow [of 2 150, simplified])
    ultimately show ?thesis by (simp only: powr_diff [symmetric]) simp
  qed
  have f: "significand 23 y - 2 ^ 23 < 2 ^ 23" using s by simp
  have "2 ^ 23 + (significand 23 y - 2 ^ 23) = significand 23 y" using s(1) by simp
  then have "real (2 ^ 23 + (significand 23 y - 2 ^ 23)) * 2 ^ ?E / 2 ^ 150 = real (significand 23 y) * 2 powr (ilog y - 23)"
    using p by (metis times_divide_eq_right)
  then show ?thesis
    using f32_bits [OF E f, of "if y < 0 then 1 else 0"] y0 by (simp add: chop_bits_def chop_def sgn_if split: if_splits)
qed

lemma chop_machine: "double_rounds chop_fp (1 / 2 ^ 52)" "float_rounds chop_fp (1 / 2 ^ 23)"
proof -
  show "double_rounds chop_fp (1 / 2 ^ 52)" using chop_close [of 52] by (simp add: double_rounds_def chop_fp_def)
  have "f32_val (word_of_nat (chop_bits 0)) = Fin 0" by (simp add: chop_bits_def f32_val_def Let_def)
  moreover have "rounded chop_fp (1 / 2 ^ 23) y" if "1 / 2 ^ 126 \<le> \<bar>y\<bar>" "\<bar>y\<bar> \<le> 2 ^ 127" for y
    using chop_float [OF that] chop_close [of 23 y] by (simp add: rounded_def chop_fp_def)
  ultimately show "float_rounds chop_fp (1 / 2 ^ 23)" by (auto simp: float_rounds_def rounded_def chop_fp_def)
qed

text \<open>C27. The result has length 1 up to rounding: take a vector of fewer than \<open>2\<^sup>3\<^sup>1\<close> finite floats whose length lies
  between \<open>2\<^sup>-\<^sup>3\<^sup>8\<close> and \<open>2\<^sup>1\<^sup>2\<^sup>6\<close> and whose components are zero or at least \<open>2\<^sup>-\<^sup>1\<^sup>2\<^sup>4\<close> times its length, and a machine
  whose operations on \<open>double\<close> round with a relative error of at most \<open>e \<le> 2\<^sup>-\<^sup>5\<^sup>2\<close> and those on \<open>float\<close> of at most
  \<open>d \<le> 1/4\<close> in their normal ranges. Then the vector that is returned has a length between
  \<open>(1-d) / ((1+d) (1+e)\<^sup>n\<^sup>+\<^sup>2)\<close> and \<open>(1+d) / ((1-d) (1-e)\<^sup>n\<^sup>+\<^sup>2)\<close> for a vector of \<open>n\<close> components.\<close>

theorem normalised_to_unit_length:
  assumes "double_rounds fp e" "0 \<le> e" "e \<le> 1 / 2 ^ 52" "float_rounds fp d" "0 \<le> d" "d \<le> 1 / 4"
    and "length p < 2 ^ 31" "1 / 2 ^ 38 \<le> vec_len p" "vec_len p \<le> 2 ^ 126"
    and "\<forall>x \<in> set p. \<exists>z. f32_val x = Fin z \<and> (z = 0 \<or> vec_len p \<le> 2 ^ 124 * \<bar>z\<bar>)"
  shows "(1 - d) / ((1 + d) * (1 + e) ^ (length p + 2)) \<le> vec_len (normalise fp p) \<and>
    vec_len (normalise fp p) \<le> (1 + d) / ((1 - d) * (1 - e) ^ (length p + 2))"
proof -
  let ?v = "vector_norm fp p" and ?l = "vec_len p" and ?k = "length p + 2"
  let ?n = "f32_real ?v"
  have fin: "\<forall>x \<in> set p. \<exists>z. f32_val x = Fin z" using assms(10) by blast
  obtain D where D: "?v = fp_float fp (Fin D)" "near e ?k ?l D" using norm_rounds [OF assms(1-3) fin assms(7-9)] .
  have k: "?k \<le> 2 ^ 33" using assms(7) by simp
  note r = near_range [OF assms(2,3) k D(2) vec_len_nonneg] and pw = power_bounds [OF assms(2,3) k]
  have l0: "0 < ?l" using assms(8) by (rule less_le_trans [rotated]) simp
  have "1 / 2 ^ 126 \<le> D" using assms(8) r(1) by simp
  moreover have "D \<le> 2 ^ 127" using assms(9) r(2) by simp
  ultimately have rd: "rounded fp d D" using assms(4) r(3) unfolding float_rounds_def by auto
  then obtain z where z: "f32_val ?v = Fin z" unfolding D(1) rounded_def by blast
  have "\<bar>?n - D\<bar> \<le> d * \<bar>D\<bar>" using rounded_real [OF rd] unfolding D(1) .
  then have nD: "(1 - d) * D \<le> ?n" "?n \<le> (1 + d) * D" using r(3) by (auto simp: algebra_simps abs_le_iff)
  have "(1 - d) * ((1 - e) ^ ?k * ?l) \<le> (1 - d) * D" "(1 + d) * D \<le> (1 + d) * ((1 + e) ^ ?k * ?l)"
    using D(2) assms(5,6) by (auto simp: near_def intro!: mult_left_mono)
  then have nl: "(1 - d) * (1 - e) ^ ?k * ?l \<le> ?n" "?n \<le> (1 + d) * (1 + e) ^ ?k * ?l" using nD by (simp_all add: mult.assoc)
  have "3 / 4 * (1 / 2 * ?l) \<le> (1 - d) * D" using assms(6) r l0 by (intro mult_mono) auto
  then have n1: "3 / 8 * ?l \<le> ?n" using nD(1) by simp
  have "(1 + d) * D \<le> 5 / 4 * (2 * ?l)" using assms(6) r l0 by (intro mult_mono) auto
  then have n2: "?n \<le> 5 / 2 * ?l" using nD(2) by simp
  have n0: "0 < ?n" using n1 l0 by linarith
  have q: "rounded fp d (f32_real x / ?n)" if x: "x \<in> set p" for x
  proof -
    from assms(10) x obtain y where y: "f32_val x = Fin y" "y = 0 \<or> ?l \<le> 2 ^ 124 * \<bar>y\<bar>" by blast
    have "f32_real x / ?n = 0 \<or> 1 / 2 ^ 126 \<le> \<bar>f32_real x / ?n\<bar>"
    proof (cases "y = 0")
      case False
      then have "?n \<le> 5 / 2 * (2 ^ 124 * \<bar>y\<bar>)" using n2 y(2) by auto
      then show ?thesis using n0 by (simp add: f32_real_Fin [OF y(1)] field_simps)
    qed (simp add: f32_real_Fin [OF y(1)])
    moreover have "\<bar>f32_real x\<bar> \<le> 8 / 3 * ?n" using member_le_len [OF x] n1 by linarith
    then have "\<bar>f32_real x / ?n\<bar> \<le> 2 ^ 127" using n0 by (simp add: field_simps)
    ultimately show ?thesis using assms(4) unfolding float_rounds_def by blast
  qed
  have "f32_div fp x ?v = fp_float fp (Fin (f32_real x / ?n))" if "x \<in> set p" for x
    using fin n0 that z f32_real_Fin [OF z] by (auto simp: f32_div_def f32_real_Fin)
  then have "\<forall>x \<in> set p. \<bar>f32_real (f32_div fp x ?v) - f32_real x / ?n\<bar> \<le> d * \<bar>f32_real x / ?n\<bar>"
    using q rounded_real by (metis (no_types, lifting))
  from quotient_len [OF this assms(5) _ n0] assms(6)
  have b: "(1 - d) / ?n * ?l \<le> vec_len (map (\<lambda>x. f32_div fp x ?v) p)" "vec_len (map (\<lambda>x. f32_div fp x ?v) p) \<le> (1 + d) / ?n * ?l" by simp_all
  have "1 / 2 ^ 38 * (3 / 8) \<le> z" using mult_left_mono [OF assms(8), of "3 / 8"] n1 f32_real_Fin [OF z] by simp
  then have "normalise fp p = map (\<lambda>x. f32_div fp x ?v) p" using above_floor z by (simp add: normalise_def)
  moreover have "(1 - d) / ((1 + d) * (1 + e) ^ ?k) \<le> (1 - d) / ?n * ?l"
  proof -
    have "0 < (1 + d) * (1 + e) ^ ?k" using assms(2,5) by simp
    then have "1 / ((1 + d) * (1 + e) ^ ?k) \<le> ?l / ?n" using nl(2) n0 by (simp add: field_simps)
    then have "(1 - d) * (1 / ((1 + d) * (1 + e) ^ ?k)) \<le> (1 - d) * (?l / ?n)" using assms(6) by (intro mult_left_mono) auto
    then show ?thesis by simp
  qed
  moreover have "(1 + d) / ?n * ?l \<le> (1 + d) / ((1 - d) * (1 - e) ^ ?k)"
  proof -
    have "0 < (1 - d) * (1 - e) ^ ?k" using pw(1) assms(6) by (intro mult_pos_pos) auto
    then have "?l / ?n \<le> 1 / ((1 - d) * (1 - e) ^ ?k)" using nl(1) n0 by (simp add: field_simps)
    then have "(1 + d) * (?l / ?n) \<le> (1 + d) * (1 / ((1 - d) * (1 - e) ^ ?k))" using assms(5) by (intro mult_left_mono) auto
    then show ?thesis by simp
  qed
  ultimately show ?thesis using b by simp
qed

text \<open>The vector (3, 4) on a machine that truncates.\<close>

lemma normalised_to_unit_length_witness:
  "double_rounds chop_fp (1 / 2 ^ 52) \<and> float_rounds chop_fp (1 / 2 ^ 23) \<and> vec_len [0x40400000, 0x40800000] = 5 \<and>
     \<bar>vec_len (normalise chop_fp [0x40400000, 0x40800000]) - 1\<bar> \<le> 1 / 2 ^ 20"
proof -
  let ?p = "[0x40400000, 0x40800000] :: u32 list"
  have v: "f32_val 0x40400000 = Fin 3" "f32_val 0x40800000 = Fin 4"
    by (simp_all add: f32_val_def Let_def take_bit_eq_mod drop_bit_eq_div bit_iff_odd_drop_bit)
  then have l: "vec_len ?p = 5" by (simp add: vec_len_def f32_real_def)
  have "\<forall>x \<in> set ?p. \<exists>z. f32_val x = Fin z \<and> (z = 0 \<or> vec_len ?p \<le> 2 ^ 124 * \<bar>z\<bar>)" using v l by simp
  note r = normalised_to_unit_length [OF chop_machine(1) _ _ chop_machine(2) _ _ _ _ _ this]
  have k: "length ?p + 2 = 4" by simp
  have b: "(1 - 1 / 2 ^ 23) / ((1 + 1 / 2 ^ 23) * (1 + 1 / 2 ^ 52) ^ 4) \<le> vec_len (normalise chop_fp ?p)"
    "vec_len (normalise chop_fp ?p) \<le> (1 + 1 / 2 ^ 23) / ((1 - 1 / 2 ^ 23) * (1 - 1 / 2 ^ 52) ^ 4)"
    by (rule conjunct1 [OF r, unfolded k] conjunct2 [OF r, unfolded k]; simp add: l)+
  have "(1 - 1 / 2 ^ 20 :: real) \<le> (1 - 1 / 2 ^ 23) / ((1 + 1 / 2 ^ 23) * (1 + 1 / 2 ^ 52) ^ 4)" by (simp add: field_simps)
  moreover have "(1 + 1 / 2 ^ 23 :: real) / ((1 - 1 / 2 ^ 23) * (1 - 1 / 2 ^ 52) ^ 4) \<le> 1 + 1 / 2 ^ 20" by (simp add: field_simps)
  ultimately have "\<bar>vec_len (normalise chop_fp ?p) - 1\<bar> \<le> 1 / 2 ^ 20" unfolding abs_le_iff using b by linarith
  with chop_machine l show ?thesis by blast
qed

end
