(* ===== verification/Emb_Open.thy ===== *)
theory Emb_Open
  imports Emb_Ctx Json
begin

section \<open>Opening and closing the embedding pool (src/lib/libemb.c: kc\_emb\_ctx\_open to kc\_emb\_close)\<close>

text \<open>
  Reading the model's parameters and weights into an inference context, starting the worker that owns it,
  and the pool around the worker, each with its way back when a request fails.

  \<^item> The model file is a parameter, \<open>gguf_file\<close>: the metadata by key and the tensors by name, as the reader
    of the tensor library delivers them (\<open>en_model\<close>, \<open>None\<close> when it rejects the file). A value that is
    asked for under a type it does not have fails an assertion of that library (\<open>Aborts\<close>).
  \<^item> What is held is a ledger: a set of pairs of the pool's number (it stands for its address) and the kind
    of the block, file, lock or thread. Giving back what is not held is the fault \<open>Not_Held\<close>.
    \<open>en_grants\<close> says which requests succeed. A pool has one worker.
  \<^item> The pointers of the tensors into the file's data, the number of the backend's threads and the log callback have no
    counterpart.
\<close>

subsection \<open>The model file\<close>

datatype gguf_value =
    Val_U32 u32
  | Val_I32 u32
  | Val_U64 u64
  | Val_I64 u64
  | Val_F32 u32
  | Val_Str string
  | Arr_Str "string list"
  | Val_Other nat

record gguf_file =
  gg_kv :: "string \<rightharpoonup> gguf_value"
  gg_tensors :: "string \<rightharpoonup> ggml_tensor"

definition gguf_get_val_f32 :: "gguf_value \<Rightarrow> u32 option" where
  "gguf_get_val_f32 v = (case v of Val_F32 x \<Rightarrow> Some x | _ \<Rightarrow> None)"

definition gguf_get_arr_n :: "gguf_value \<Rightarrow> nat" where
  "gguf_get_arr_n v = (case v of Arr_Str ss \<Rightarrow> length ss | Val_Other n \<Rightarrow> n | _ \<Rightarrow> 1)"

text \<open>\<open>gguf_get_arr_str\<close> for every index.\<close>

definition gguf_get_arr_strs :: "gguf_value \<Rightarrow> string list option" where
  "gguf_get_arr_strs v = (case v of Arr_Str ss \<Rightarrow> Some (map c_str ss) | Val_Str s \<Rightarrow> Some [c_str s] | _ \<Rightarrow> None)"

definition get_kv_u32 :: "gguf_file \<Rightarrow> string \<Rightarrow> u32 \<Rightarrow> u32" where
  "get_kv_u32 gg key def_val =
     (case gg_kv gg key of
        None \<Rightarrow> def_val
      | Some (Val_U32 x) \<Rightarrow> x
      | Some (Val_I32 x) \<Rightarrow> x
      | Some (Val_U64 x) \<Rightarrow> ucast x
      | Some (Val_I64 x) \<Rightarrow> ucast x
      | Some _ \<Rightarrow> def_val)"

subsection \<open>The ledger\<close>

datatype emb_res =
    R_Ctx | R_File | R_Gguf | R_Tensors | R_Vocab | R_Hash | R_Layers | R_Compute | R_Tokens | R_Pos | R_Type | R_Backend | R_Galloc
  | R_Mutex | R_Cond_Req | R_Cond_Res | R_Thread | R_Pool | R_Workers | R_Pool_Mutex | R_Pool_Cond

type_synonym ledger = "(nat \<times> emb_res) set"

record emb_env =
  en_grants :: "emb_res \<Rightarrow> bool"
  en_model :: "gguf_file option"

definition hold :: "nat \<Rightarrow> emb_res \<Rightarrow> ledger \<Rightarrow> ledger" where
  "hold p r l = insert (p, r) l"

definition give_back :: "nat \<Rightarrow> emb_res \<Rightarrow> ledger \<Rightarrow> emb_stop + ledger" where
  "give_back p r l = (if (p, r) \<in> l then Inr (l - {(p, r)}) else Inl Not_Held)"

text \<open>The pointers of a context that are set, in the order in which they are freed.\<close>

definition ctx_pointers :: "kc_emb_ctx_t \<Rightarrow> emb_res list" where
  "ctx_pointers e =
     (if ec_vocab e \<noteq> [] then [R_Vocab] else []) @ (if ec_vocab_hash e \<noteq> None then [R_Hash] else []) @
     (if ec_layers e \<noteq> None then [R_Layers] else []) @ (if ec_compute_buf e then [R_Compute] else []) @
     (if ec_tokens e then [R_Tokens] else []) @ (if ec_pos_data e then [R_Pos] else []) @ (if ec_type_data e then [R_Type] else []) @
     (if ec_galloc e then [R_Galloc] else []) @ (if ec_backend e then [R_Backend] else []) @
     (if ec_gguf e then [R_Gguf] else []) @ (if ec_ctx e then [R_Tensors] else [])"

definition kc_emb_ctx_free :: "nat \<Rightarrow> kc_emb_ctx_t option \<Rightarrow> ledger \<Rightarrow> emb_stop + ledger" where
  "kc_emb_ctx_free p e l = (case e of None \<Rightarrow> Inr l | Some x \<Rightarrow> fold_res (give_back p) (ctx_pointers x @ [R_Ctx]) l)"

subsection \<open>Opening a context\<close>

text \<open>The body of \<open>kc_emb_ctx_open\<close> in its blocks. A block answers whether it came to its end (otherwise it jumped
  to \<open>failure\<close>), with the context and the ledger.\<close>

type_synonym emb_block = "kc_emb_ctx_t \<Rightarrow> ledger \<Rightarrow> emb_stop + bool \<times> kc_emb_ctx_t \<times> ledger"

definition blocks :: "emb_block \<Rightarrow> emb_block \<Rightarrow> emb_block" where
  "blocks f g e l = sum_bind (f e l) (\<lambda>(ok, e1, l1). if ok then g e1 l1 else Inr (False, e1, l1))"

definition read_params :: "gguf_file \<Rightarrow> emb_block" where
  "read_params gg e l =
     (let n_embd = sint (get_kv_u32 gg ''bert.embedding_length'' 0);
          n_layer = sint (get_kv_u32 gg ''bert.block_count'' 0);
          n_head = sint (get_kv_u32 gg ''bert.attention.head_count'' 0);
          n_ctx = sint (get_kv_u32 gg ''bert.context_length'' 512)
      in Inr (\<not> (n_embd \<le> 0 \<or> n_layer \<le> 0 \<or> n_head \<le> 0 \<or> n_ctx \<le> 0 \<or> n_embd mod n_head \<noteq> 0),
              e\<lparr>ec_n_embd := n_embd, ec_n_layer := n_layer, ec_n_head := n_head, ec_n_ctx := nat n_ctx\<rparr>, l))"

definition read_ids :: "gguf_file \<Rightarrow> kc_emb_ctx_t \<Rightarrow> kc_emb_ctx_t" where
  "read_ids gg e = e\<lparr>ec_cls := sint (get_kv_u32 gg ''tokenizer.ggml.cls_token_id'' 101),
     ec_sep := sint (get_kv_u32 gg ''tokenizer.ggml.sep_token_id'' 102),
     ec_pad := sint (get_kv_u32 gg ''tokenizer.ggml.pad_token_id'' 0),
     ec_unk := sint (get_kv_u32 gg ''tokenizer.ggml.unknown_token_id'' 100)\<rparr>"

definition fill_vocab :: "emb_env \<Rightarrow> nat \<Rightarrow> gguf_file \<Rightarrow> string list \<Rightarrow> emb_block" where
  "fill_vocab env p gg vs e l =
     (let e1 = e\<lparr>ec_vocab := vs\<rparr>
      in (case build_vocab_hash (\<lambda>_. en_grants env R_Hash) e1 of
            Inl No_Memory \<Rightarrow> sum_bind (give_back p R_Vocab l) (\<lambda>l1. Inr (False, e1\<lparr>ec_vocab := []\<rparr>, l1))
          | Inl s \<Rightarrow> Inl (Tokenizer s)
          | Inr e2 \<Rightarrow> Inr (True, read_ids gg e2, hold p R_Hash l)))"

definition load_vocab :: "emb_env \<Rightarrow> nat \<Rightarrow> gguf_file \<Rightarrow> emb_block" where
  "load_vocab env p gg e l =
     (case (case gg_kv gg ''bert.attention.layer_norm_epsilon'' of None \<Rightarrow> Some 0x2B8CBCCC | Some v \<Rightarrow> gguf_get_val_f32 v) of
        None \<Rightarrow> Inl Aborts
      | Some eps \<Rightarrow>
          let e1 = e\<lparr>ec_eps := eps\<rparr>
          in (case gg_kv gg ''tokenizer.ggml.tokens'' of
                None \<Rightarrow> Inr (False, e1, l)
              | Some v \<Rightarrow>
                  let n_vocab = to_int (int (gguf_get_arr_n v))
                  in if n_vocab \<le> 0 then Inr (False, e1, l)
                     else if \<not> en_grants env R_Vocab then Inr (False, e1, l)
                     else (case gguf_get_arr_strs v of
                             None \<Rightarrow> Inl Aborts
                           | Some ss \<Rightarrow> fill_vocab env p gg (take (nat n_vocab) ss) e1 (hold p R_Vocab l))))"

definition load_tensors :: "gguf_file \<Rightarrow> emb_block" where
  "load_tensors gg e l =
     (let e1 = e\<lparr>ec_token_embd := gg_tensors gg ''token_embd.weight'', ec_pos_embd := gg_tensors gg ''position_embd.weight'',
                 ec_type_embd := gg_tensors gg ''token_types.weight'', ec_norm_w := gg_tensors gg ''token_embd_norm.weight'',
                 ec_norm_b := gg_tensors gg ''token_embd_norm.bias''\<rparr>
      in Inr (\<not> (ec_token_embd e1 = None \<or> ec_pos_embd e1 = None \<or> ec_type_embd e1 = None \<or> ec_norm_w e1 = None \<or> ec_norm_b e1 = None), e1, l))"

text \<open>\<open>snprintf(name, sizeof(name), "blk.%d.\<dots>", i)\<close>, which fits its 64 bytes, and the lookup of that name.\<close>

definition layer_tensor :: "gguf_file \<Rightarrow> nat \<Rightarrow> string \<Rightarrow> ggml_tensor option" where
  "layer_tensor gg i s = gg_tensors gg (''blk.'' @ nat_text i @ ''.'' @ s)"

definition load_layer :: "gguf_file \<Rightarrow> nat \<Rightarrow> kc_emb_layer_t option" where
  "load_layer gg i = do {
     attn_q_w \<leftarrow> layer_tensor gg i ''attn_q.weight'';
     attn_q_b \<leftarrow> layer_tensor gg i ''attn_q.bias'';
     attn_k_w \<leftarrow> layer_tensor gg i ''attn_k.weight'';
     attn_k_b \<leftarrow> layer_tensor gg i ''attn_k.bias'';
     attn_v_w \<leftarrow> layer_tensor gg i ''attn_v.weight'';
     attn_v_b \<leftarrow> layer_tensor gg i ''attn_v.bias'';
     attn_out_w \<leftarrow> layer_tensor gg i ''attn_output.weight'';
     attn_out_b \<leftarrow> layer_tensor gg i ''attn_output.bias'';
     attn_norm_w \<leftarrow> layer_tensor gg i ''attn_output_norm.weight'';
     attn_norm_b \<leftarrow> layer_tensor gg i ''attn_output_norm.bias'';
     ffn_up_w \<leftarrow> layer_tensor gg i ''ffn_up.weight'';
     ffn_up_b \<leftarrow> layer_tensor gg i ''ffn_up.bias'';
     ffn_down_w \<leftarrow> layer_tensor gg i ''ffn_down.weight'';
     ffn_down_b \<leftarrow> layer_tensor gg i ''ffn_down.bias'';
     layer_norm_w \<leftarrow> layer_tensor gg i ''layer_output_norm.weight'';
     layer_norm_b \<leftarrow> layer_tensor gg i ''layer_output_norm.bias'';
     Some \<lparr>ly_attn_q_w = attn_q_w, ly_attn_q_b = attn_q_b, ly_attn_k_w = attn_k_w, ly_attn_k_b = attn_k_b,
           ly_attn_v_w = attn_v_w, ly_attn_v_b = attn_v_b, ly_attn_out_w = attn_out_w, ly_attn_out_b = attn_out_b,
           ly_attn_norm_w = attn_norm_w, ly_attn_norm_b = attn_norm_b, ly_ffn_up_w = ffn_up_w, ly_ffn_up_b = ffn_up_b,
           ly_ffn_down_w = ffn_down_w, ly_ffn_down_b = ffn_down_b, ly_layer_norm_w = layer_norm_w, ly_layer_norm_b = layer_norm_b\<rparr>
   }"

definition load_layers :: "emb_env \<Rightarrow> nat \<Rightarrow> gguf_file \<Rightarrow> emb_block" where
  "load_layers env p gg e l =
     (if \<not> en_grants env R_Layers then Inr (False, e, l)
      else (case those (map (load_layer gg) [0..<nat (ec_n_layer e)]) of
              None \<Rightarrow> Inr (False, e\<lparr>ec_layers := Some []\<rparr>, hold p R_Layers l)
            | Some lys \<Rightarrow> Inr (True, e\<lparr>ec_layers := Some lys\<rparr>, hold p R_Layers l)))"

text \<open>The three arrays are all requested before they are tested.\<close>

definition alloc_buffers :: "emb_env \<Rightarrow> nat \<Rightarrow> emb_block" where
  "alloc_buffers env p e l =
     (if \<not> en_grants env R_Compute then Inr (False, e, l)
      else let rs = filter (en_grants env) [R_Tokens, R_Pos, R_Type]
           in Inr (length rs = 3,
                   e\<lparr>ec_compute_buf := True, ec_tokens := R_Tokens \<in> set rs, ec_pos_data := R_Pos \<in> set rs, ec_type_data := R_Type \<in> set rs\<rparr>,
                   fold (hold p) rs (hold p R_Compute l)))"

definition init_backend :: "emb_env \<Rightarrow> nat \<Rightarrow> emb_block" where
  "init_backend env p e l =
     (if \<not> en_grants env R_Backend then Inr (False, e, l)
      else if \<not> en_grants env R_Galloc then Inr (False, e\<lparr>ec_backend := True\<rparr>, hold p R_Backend l)
      else Inr (True, e\<lparr>ec_backend := True, ec_galloc := True\<rparr>, hold p R_Galloc (hold p R_Backend l)))"

definition load_context :: "emb_env \<Rightarrow> nat \<Rightarrow> gguf_file \<Rightarrow> emb_block" where
  "load_context env p gg =
     blocks (read_params gg) (blocks (load_vocab env p gg) (blocks (load_tensors gg) (blocks (load_layers env p gg)
       (blocks (alloc_buffers env p) (init_backend env p)))))"

definition kc_emb_ctx_open :: "emb_env \<Rightarrow> nat \<Rightarrow> ledger \<Rightarrow> emb_stop + kc_emb_ctx_t option \<times> ledger" where
  "kc_emb_ctx_open env p l =
     (if \<not> en_grants env R_Ctx then Inr (None, l)
      else if \<not> en_grants env R_File then sum_bind (give_back p R_Ctx (hold p R_Ctx l)) (\<lambda>l1. Inr (None, l1))
      else (case en_model env of
              None \<Rightarrow>
                sum_bind (give_back p R_File (hold p R_File (hold p R_Ctx l))) (\<lambda>l1.
                sum_bind (kc_emb_ctx_free p (Some zero_ctx) l1) (\<lambda>l2. Inr (None, l2)))
            | Some gg \<Rightarrow>
                sum_bind (give_back p R_File (hold p R_Tensors (hold p R_Gguf (hold p R_File (hold p R_Ctx l))))) (\<lambda>l1.
                sum_bind (load_context env p gg (zero_ctx\<lparr>ec_gguf := True, ec_ctx := True\<rparr>) l1) (\<lambda>(ok, e, l2).
                  if ok then Inr (Some e, l2) else sum_bind (kc_emb_ctx_free p (Some e) l2) (\<lambda>l3. Inr (None, l3))))))"

subsection \<open>The worker and the pool\<close>

text \<open>\<open>kc_emb_worker_init\<close> and \<open>kc_emb_worker_destroy\<close>: what they request and give back.\<close>

definition kc_emb_worker_start :: "emb_env \<Rightarrow> nat \<Rightarrow> ledger \<Rightarrow> emb_stop + kc_emb_ctx_t option \<times> ledger" where
  "kc_emb_worker_start env p l =
     sum_bind (kc_emb_ctx_open env p l) (\<lambda>(e, l1).
       let undo = (\<lambda>rs l. sum_bind (sum_bind (fold_res (give_back p) rs l) (kc_emb_ctx_free p e)) (\<lambda>l. Inr (None, l)))
       in if e = None then Inr (None, l1)
          else if \<not> en_grants env R_Mutex then undo [] l1
          else if \<not> en_grants env R_Cond_Req then undo [R_Mutex] (hold p R_Mutex l1)
          else if \<not> en_grants env R_Cond_Res then undo [R_Cond_Req, R_Mutex] (hold p R_Cond_Req (hold p R_Mutex l1))
          else if \<not> en_grants env R_Thread then
            undo [R_Cond_Res, R_Cond_Req, R_Mutex] (hold p R_Cond_Res (hold p R_Cond_Req (hold p R_Mutex l1)))
          else Inr (e, hold p R_Thread (hold p R_Cond_Res (hold p R_Cond_Req (hold p R_Mutex l1)))))"

definition kc_emb_worker_stop :: "nat \<Rightarrow> kc_emb_ctx_t \<Rightarrow> ledger \<Rightarrow> emb_stop + ledger" where
  "kc_emb_worker_stop p e l = sum_bind (fold_res (give_back p) [R_Thread, R_Cond_Res, R_Cond_Req, R_Mutex] l) (kc_emb_ctx_free p (Some e))"

record kc_emb =
  emb_workers :: "kc_emb_ctx_t list"
  emb_n_embd :: int

definition kc_emb_open :: "emb_env \<Rightarrow> nat \<Rightarrow> ledger \<Rightarrow> emb_stop + kc_emb option \<times> ledger" where
  "kc_emb_open env p l =
     (let undo = (\<lambda>rs l. sum_bind (fold_res (give_back p) rs l) (\<lambda>l. Inr (None, l)))
      in if \<not> en_grants env R_Pool then Inr (None, l)
         else if \<not> en_grants env R_Workers then undo [R_Pool] (hold p R_Pool l)
         else if \<not> en_grants env R_Pool_Mutex then undo [R_Workers, R_Pool] (hold p R_Workers (hold p R_Pool l))
         else if \<not> en_grants env R_Pool_Cond then
           undo [R_Pool_Mutex, R_Workers, R_Pool] (hold p R_Pool_Mutex (hold p R_Workers (hold p R_Pool l)))
         else sum_bind (kc_emb_worker_start env p (hold p R_Pool_Cond (hold p R_Pool_Mutex (hold p R_Workers (hold p R_Pool l))))) (\<lambda>(e, l1).
           case e of
             None \<Rightarrow> undo [R_Pool_Cond, R_Pool_Mutex, R_Workers, R_Pool] l1
           | Some w \<Rightarrow> Inr (Some \<lparr>emb_workers = [w], emb_n_embd = ec_n_embd w\<rparr>, l1)))"

definition kc_emb_close :: "nat \<Rightarrow> kc_emb option \<Rightarrow> ledger \<Rightarrow> emb_stop + ledger" where
  "kc_emb_close p ctx l =
     (case ctx of
        None \<Rightarrow> Inr l
      | Some c \<Rightarrow> sum_bind (fold_res (kc_emb_worker_stop p) (emb_workers c) l)
                    (fold_res (give_back p) [R_Pool_Cond, R_Pool_Mutex, R_Workers, R_Pool]))"

definition kc_emb_dim :: "kc_emb option \<Rightarrow> int" where
  "kc_emb_dim ctx = (case ctx of None \<Rightarrow> 0 | Some c \<Rightarrow> emb_n_embd c)"

subsection \<open>The interface\<close>

definition free_of :: "nat \<Rightarrow> emb_res set \<Rightarrow> ledger \<Rightarrow> bool" where
  "free_of p rs l \<longleftrightarrow> l \<inter> Pair p ` rs = {}"

lemma free_of_iff: "free_of p rs l \<longleftrightarrow> (\<forall>r \<in> rs. (p, r) \<notin> l)"
  by (auto simp: free_of_def)

lemma give_back_all:
  "distinct rs \<Longrightarrow> free_of p (set rs) l \<Longrightarrow> fold_res (give_back p) rs (l \<union> Pair p ` set rs) = Inr l"
proof (induction rs arbitrary: l)
  case (Cons r rs)
  have "(l \<union> Pair p ` set (r # rs)) - {(p, r)} = l \<union> Pair p ` set rs" using Cons.prems by (auto simp: free_of_iff)
  then have "give_back p r (l \<union> Pair p ` set (r # rs)) = Inr (l \<union> Pair p ` set rs)" by (simp add: give_back_def)
  moreover have "fold_res (give_back p) rs (l \<union> Pair p ` set rs) = Inr l" using Cons by (simp add: free_of_iff)
  ultimately show ?case by (simp only: fold_res.simps sum.case)
qed simp

text \<open>What a caller relies on of a part of the pool that is opened and closed: an open that fails leaves the
  ledger as it was, a close after one that succeeds restores it, what is added is of the part's own kinds, and
  nothing is given back that is not held.\<close>

locale pool_part =
  fixes acquire :: "ledger \<Rightarrow> emb_stop + 'h option \<times> ledger" and release :: "'h \<Rightarrow> ledger \<Rightarrow> emb_stop + ledger"
    and p :: nat and kinds :: "emb_res set"
  assumes failed: "free_of p kinds l \<Longrightarrow> acquire l = Inr (None, l') \<Longrightarrow> l' = l"
    and undone: "free_of p kinds l \<Longrightarrow> acquire l = Inr (Some h, l') \<Longrightarrow> release h l' = Inr l"
    and adds: "free_of p kinds l \<Longrightarrow> acquire l = Inr (Some h, l') \<Longrightarrow> l \<subseteq> l' \<and> l' \<subseteq> l \<union> Pair p ` kinds"
    and held: "free_of p kinds l \<Longrightarrow> acquire l \<noteq> Inl Not_Held"
begin

text \<open>Undoing what was requested after the part, and then the part.\<close>

lemma undo_after:
  assumes "free_of p kinds l" "acquire l = Inr (Some h, l')" "distinct rs" "set rs \<inter> kinds = {}" "free_of p (set rs) l"
  shows "sum_bind (fold_res (give_back p) rs (l' \<union> Pair p ` set rs)) (release h) = Inr l"
proof -
  have "free_of p (set rs) l'" using adds [OF assms(1,2)] assms(4,5) unfolding free_of_iff by blast
  with give_back_all [OF assms(3)] undone [OF assms(1,2)] show ?thesis by simp
qed

text \<open>Opening and closing any number of times.\<close>

lemma rounds:
  assumes "free_of p kinds l" "\<forall>s. acquire l \<noteq> Inl s"
  shows "((\<lambda>l. case acquire l of Inr (Some h, l') \<Rightarrow> (case release h l' of Inr l2 \<Rightarrow> l2 | Inl s \<Rightarrow> l') | Inr (None, l') \<Rightarrow> l' | Inl s \<Rightarrow> l) ^^ n) l = l"
proof (induction n)
  case (Suc n)
  obtain h l' where a: "acquire l = Inr (h, l')" using assms(2) by (cases "acquire l") auto
  show ?case using Suc a failed [OF assms(1)] undone [OF assms(1)] by (cases h) auto
qed simp

end

subsection \<open>The context\<close>

abbreviation ctx_kinds :: "emb_res set" where
  "ctx_kinds \<equiv> {R_Ctx, R_File, R_Gguf, R_Tensors, R_Vocab, R_Hash, R_Layers, R_Compute, R_Tokens, R_Pos, R_Type, R_Backend, R_Galloc}"

text \<open>While a context is opened, the ledger holds its pointers.\<close>

definition ctx_holds :: "nat \<Rightarrow> ledger \<Rightarrow> kc_emb_ctx_t \<Rightarrow> ledger \<Rightarrow> bool" where
  "ctx_holds p l0 e l \<longleftrightarrow> l = l0 \<union> Pair p ` set (ctx_pointers e @ [R_Ctx])"

definition no_buffers :: "kc_emb_ctx_t \<Rightarrow> bool" where
  "no_buffers e \<longleftrightarrow> \<not> ec_tokens e \<and> \<not> ec_pos_data e \<and> \<not> ec_type_data e"

lemma pointer_kinds: "set (ctx_pointers e @ [R_Ctx]) \<subseteq> ctx_kinds" "distinct (ctx_pointers e @ [R_Ctx])"
  by (auto simp: ctx_pointers_def)

lemma free_restores:
  assumes "free_of p ctx_kinds l0" "ctx_holds p l0 e l" shows "kc_emb_ctx_free p (Some e) l = Inr l0"
proof -
  have "free_of p (set (ctx_pointers e @ [R_Ctx])) l0" using assms(1) pointer_kinds(1) [of e] unfolding free_of_iff by blast
  from give_back_all [OF pointer_kinds(2) this] assms(2) show ?thesis by (simp add: kc_emb_ctx_free_def ctx_holds_def)
qed

primrec ends_in :: "(kc_emb_ctx_t \<Rightarrow> ledger \<Rightarrow> bool) \<Rightarrow> (kc_emb_ctx_t \<Rightarrow> ledger \<Rightarrow> bool) \<Rightarrow> bool \<times> kc_emb_ctx_t \<times> ledger \<Rightarrow> bool" where
  "ends_in J K (ok, r) = (case r of (e, l) \<Rightarrow> if ok then J e l else K e l)"

definition block_ok :: "(kc_emb_ctx_t \<Rightarrow> ledger \<Rightarrow> bool) \<Rightarrow> emb_block \<Rightarrow> (kc_emb_ctx_t \<Rightarrow> ledger \<Rightarrow> bool) \<Rightarrow> (kc_emb_ctx_t \<Rightarrow> ledger \<Rightarrow> bool) \<Rightarrow> bool" where
  "block_ok I f J K \<longleftrightarrow> (\<forall>e l. I e l \<longrightarrow> yields (- {Not_Held}) (ends_in J K) (f e l))"

lemma blocks_ok:
  assumes "block_ok I f J K" "block_ok J g M K" shows "block_ok I (blocks f g) M K"
  unfolding block_ok_def blocks_def
proof (intro allI impI)
  fix e l assume "I e l"
  then have f: "yields (- {Not_Held}) (ends_in J K) (f e l)" using assms(1) unfolding block_ok_def by blast
  show "yields (- {Not_Held}) (ends_in M K) (sum_bind (f e l) (\<lambda>(ok, e1, l1). if ok then g e1 l1 else Inr (False, e1, l1)))"
  proof (rule yields_bind [OF f])
    fix x assume x: "ends_in J K x"
    obtain ok e1 l1 where "x = (ok, e1, l1)" by (cases x)
    with x assms(2) show "yields (- {Not_Held}) (ends_in M K) (case x of (ok, e1, l1) \<Rightarrow> if ok then g e1 l1 else Inr (False, e1, l1))"
      unfolding block_ok_def by (cases ok) auto
  qed
qed

text \<open>Each block, with what it leaves behind when it is done.\<close>

lemma ctx_holds_insert: "ctx_holds p l0 e l \<Longrightarrow> set (ctx_pointers e') = insert r (set (ctx_pointers e)) \<Longrightarrow> ctx_holds p l0 e' (hold p r l)"
  by (auto simp: ctx_holds_def hold_def)

lemma ctx_holds_same: "ctx_holds p l0 e l \<Longrightarrow> set (ctx_pointers e') = set (ctx_pointers e) \<Longrightarrow> ctx_holds p l0 e' l"
  by (auto simp: ctx_holds_def)

lemmas pointer_simps = ctx_pointers_def no_buffers_def

definition dims_ok :: "kc_emb_ctx_t \<Rightarrow> bool" where
  "dims_ok e \<longleftrightarrow> 0 < ec_n_embd e \<and> ec_n_embd e < 2 ^ 31 \<and> 0 < ec_n_layer e \<and> 0 < ec_n_head e \<and> ec_n_head e dvd ec_n_embd e \<and>
     0 < ec_n_ctx e \<and> int (ec_n_ctx e) < 2 ^ 31"

lemma sint_u32_lt: "sint (x :: u32) < 2147483648" "nat (sint (x :: u32)) < 2147483648"
  using sint_lt [of x] by simp_all

lemma read_params_ok:
  "block_ok (\<lambda>e l. ctx_holds p l0 e l \<and> no_buffers e) (read_params gg) (\<lambda>e l. ctx_holds p l0 e l \<and> no_buffers e \<and> dims_ok e) (ctx_holds p l0)"
  unfolding block_ok_def
proof (intro allI impI)
  fix e l assume h: "ctx_holds p l0 e l \<and> no_buffers e"
  show "yields (- {Not_Held}) (ends_in (\<lambda>e l. ctx_holds p l0 e l \<and> no_buffers e \<and> dims_ok e) (ctx_holds p l0)) (read_params gg e l)"
    using h by (auto simp: read_params_def Let_def dims_ok_def sint_u32_lt no_buffers_def mod_eq_0_iff_dvd elim!: ctx_holds_same)
      (auto simp: ctx_pointers_def)
qed

definition indexed :: "kc_emb_ctx_t \<Rightarrow> bool" where
  "indexed e \<longleftrightarrow> (length (ec_vocab e) < 2 ^ 30 \<longrightarrow> vocab_ready e)"

lemma ready_frame: "ec_vocab_hash e' = ec_vocab_hash e \<Longrightarrow> ec_vocab e' = ec_vocab e \<Longrightarrow> indexed e' = indexed e"
  by (simp add: indexed_def vocab_ready_def find_token_def)

lemma indexed_updates [simp]:
  "indexed (e\<lparr>ec_token_embd := a1, ec_pos_embd := a2, ec_type_embd := a3, ec_norm_w := a4, ec_norm_b := a5\<rparr>) = indexed e"
  "indexed (e\<lparr>ec_layers := lys\<rparr>) = indexed e"
  "indexed (e\<lparr>ec_compute_buf := b1, ec_tokens := b2, ec_pos_data := b3, ec_type_data := b4\<rparr>) = indexed e"
  "indexed (e\<lparr>ec_backend := b5\<rparr>) = indexed e" "indexed (e\<lparr>ec_backend := b5, ec_galloc := b6\<rparr>) = indexed e"
  by (rule ready_frame; simp)+

lemma arr_strs_length: "gguf_get_arr_strs v = Some ss \<Longrightarrow> length ss = gguf_get_arr_n v"
  by (auto simp: gguf_get_arr_strs_def gguf_get_arr_n_def split: gguf_value.splits)

lemma build_hash_cases:
  "build_vocab_hash alloc e = Inr e2 \<Longrightarrow> \<exists>t. e2 = e\<lparr>ec_vocab_hash := Some t\<rparr>"
  "build_vocab_hash (\<lambda>_. True) e = Inr e2 \<Longrightarrow> indexed e2"
proof -
  assume b: "build_vocab_hash alloc e = Inr e2"
  then show "\<exists>t. e2 = e\<lparr>ec_vocab_hash := Some t\<rparr>"
    by (cases "fold_res add_token (enumerate 0 (ec_vocab e)) (replicate (vocab_hash_size e) \<lparr>he_str = None, he_id = 0\<rparr>)")
      (auto simp: build_vocab_hash_def Let_def split: if_splits)
next
  assume b: "build_vocab_hash (\<lambda>_. True) e = Inr e2"
  show "indexed e2" unfolding indexed_def
  proof
    assume v: "length (ec_vocab e2) < 2 ^ 30"
    have "ec_vocab e2 = ec_vocab e" using b
      by (cases "fold_res add_token (enumerate 0 (ec_vocab e)) (replicate (vocab_hash_size e) \<lparr>he_str = None, he_id = 0\<rparr>)")
        (auto simp: build_vocab_hash_def Let_def split: if_splits)
    with build_vocab_ready [of e "\<lambda>_. True"] v b show "vocab_ready e2" by auto
  qed
qed

lemma fill_vocab_ok:
  assumes f: "free_of p ctx_kinds l0" and vs: "vs \<noteq> []" and h: "ctx_holds p l0 e l" "no_buffers e" "dims_ok e"
  shows "yields (- {Not_Held}) (ends_in (\<lambda>e l. ctx_holds p l0 e l \<and> no_buffers e \<and> dims_ok e \<and> indexed e) (ctx_holds p l0)) (fill_vocab env p gg vs e (hold p R_Vocab l))"
proof (cases "build_vocab_hash (\<lambda>_. en_grants env R_Hash) (e\<lparr>ec_vocab := vs\<rparr>)")
  case (Inr e2)
  then have g: "en_grants env R_Hash" by (cases "en_grants env R_Hash") (auto simp: build_vocab_hash_def Let_def)
  obtain t where t: "e2 = e\<lparr>ec_vocab := vs, ec_vocab_hash := Some t\<rparr>" using build_hash_cases(1) [OF Inr] by auto
  have i: "indexed e2" using build_hash_cases(2) [of "e\<lparr>ec_vocab := vs\<rparr>" e2] Inr g by simp
  have "ctx_holds p l0 (read_ids gg e2) (hold p R_Hash (hold p R_Vocab l))"
    using h(1) vs unfolding t by (auto simp: ctx_holds_def hold_def ctx_pointers_def read_ids_def)
  moreover have "indexed (read_ids gg e2)" using i ready_frame [of "read_ids gg e2" e2] by (simp add: read_ids_def)
  ultimately show ?thesis using Inr t h(2,3) by (simp add: fill_vocab_def read_ids_def no_buffers_def dims_ok_def)
next
  case (Inl s)
  have "ctx_holds p l0 (e\<lparr>ec_vocab := []\<rparr>) (hold p R_Vocab l - {(p, R_Vocab)})"
    using h(1) f by (auto simp: ctx_holds_def hold_def ctx_pointers_def free_of_iff)
  with Inl show ?thesis by (cases s) (auto simp: fill_vocab_def give_back_def hold_def)
qed

lemma load_vocab_ok:
  assumes "free_of p ctx_kinds l0"
  shows "block_ok (\<lambda>e l. ctx_holds p l0 e l \<and> no_buffers e \<and> dims_ok e) (load_vocab env p gg)
    (\<lambda>e l. ctx_holds p l0 e l \<and> no_buffers e \<and> dims_ok e \<and> indexed e) (ctx_holds p l0)"
  unfolding block_ok_def
proof (intro allI impI)
  fix e l assume h: "ctx_holds p l0 e l \<and> no_buffers e \<and> dims_ok e"
  have e: "ctx_holds p l0 (e\<lparr>ec_eps := x\<rparr>) l" "no_buffers (e\<lparr>ec_eps := x\<rparr>)" "dims_ok (e\<lparr>ec_eps := x\<rparr>)" for x
    using h by (auto simp: no_buffers_def dims_ok_def ctx_pointers_def elim!: ctx_holds_same)
  have n: "take (nat (to_int (int (gguf_get_arr_n v)))) ss \<noteq> []" if "gguf_get_arr_strs v = Some ss" "0 < to_int (int (gguf_get_arr_n v))" for v ss
    using arr_strs_length [OF that(1)] that(2) by (cases ss) (auto simp: to_int_def)
  show "yields (- {Not_Held}) (ends_in (\<lambda>e l. ctx_holds p l0 e l \<and> no_buffers e \<and> dims_ok e \<and> indexed e) (ctx_holds p l0)) (load_vocab env p gg e l)"
    using e fill_vocab_ok [OF assms n e] by (auto simp: load_vocab_def Let_def not_le split: option.splits)
qed

definition weights_found :: "kc_emb_ctx_t \<Rightarrow> bool" where
  "weights_found e \<longleftrightarrow> ec_token_embd e \<noteq> None \<and> ec_pos_embd e \<noteq> None \<and> ec_type_embd e \<noteq> None \<and> ec_norm_w e \<noteq> None \<and> ec_norm_b e \<noteq> None"

lemma load_tensors_ok:
  "block_ok (\<lambda>e l. ctx_holds p l0 e l \<and> no_buffers e \<and> dims_ok e \<and> indexed e) (load_tensors gg)
     (\<lambda>e l. ctx_holds p l0 e l \<and> no_buffers e \<and> dims_ok e \<and> indexed e \<and> weights_found e) (ctx_holds p l0)"
  by (auto simp: block_ok_def load_tensors_def Let_def no_buffers_def dims_ok_def weights_found_def
      ctx_pointers_def elim!: ctx_holds_same)

definition layers_found :: "kc_emb_ctx_t \<Rightarrow> bool" where
  "layers_found e \<longleftrightarrow> (\<exists>lys. ec_layers e = Some lys \<and> length lys = nat (ec_n_layer e))"

definition opened :: "kc_emb_ctx_t \<Rightarrow> bool" where
  "opened e \<longleftrightarrow> dims_ok e \<and> indexed e \<and> weights_found e \<and> layers_found e"

lemma those_length: "those xs = Some ys \<Longrightarrow> length ys = length xs"
  by (induction xs arbitrary: ys) (auto split: option.splits)

lemma load_layers_ok:
  "block_ok (\<lambda>e l. ctx_holds p l0 e l \<and> no_buffers e \<and> dims_ok e \<and> indexed e \<and> weights_found e) (load_layers env p gg)
     (\<lambda>e l. ctx_holds p l0 e l \<and> no_buffers e \<and> opened e) (ctx_holds p l0)"
  by (auto simp: block_ok_def load_layers_def opened_def layers_found_def no_buffers_def dims_ok_def weights_found_def
      ctx_pointers_def those_length split: option.splits elim!: ctx_holds_insert)

lemma alloc_buffers_ok:
  "block_ok (\<lambda>e l. ctx_holds p l0 e l \<and> no_buffers e \<and> opened e) (alloc_buffers env p) (\<lambda>e l. ctx_holds p l0 e l \<and> opened e) (ctx_holds p l0)"
  by (auto simp: block_ok_def alloc_buffers_def Let_def opened_def layers_found_def no_buffers_def dims_ok_def weights_found_def
      ctx_pointers_def ctx_holds_def hold_def)

lemma init_backend_ok:
  "block_ok (\<lambda>e l. ctx_holds p l0 e l \<and> opened e) (init_backend env p) (\<lambda>e l. ctx_holds p l0 e l \<and> opened e) (ctx_holds p l0)"
  by (auto simp: block_ok_def init_backend_def opened_def layers_found_def dims_ok_def weights_found_def
      ctx_pointers_def ctx_holds_def hold_def)

lemma load_context_ok:
  assumes "free_of p ctx_kinds l0"
  shows "block_ok (\<lambda>e l. ctx_holds p l0 e l \<and> no_buffers e) (load_context env p gg) (\<lambda>e l. ctx_holds p l0 e l \<and> opened e) (ctx_holds p l0)"
  unfolding load_context_def
  by (rule blocks_ok [OF read_params_ok blocks_ok [OF load_vocab_ok [OF assms] blocks_ok [OF load_tensors_ok
        blocks_ok [OF load_layers_ok blocks_ok [OF alloc_buffers_ok init_backend_ok]]]]])

lemma start_holds:
  assumes "free_of p ctx_kinds l0"
  shows "give_back p R_File (hold p R_Tensors (hold p R_Gguf (hold p R_File (hold p R_Ctx l0)))) = Inr (l0 \<union> Pair p ` {R_Ctx, R_Gguf, R_Tensors})"
    "give_back p R_File (hold p R_File (hold p R_Ctx l0)) = Inr (l0 \<union> Pair p ` {R_Ctx})"
    "give_back p R_Ctx (hold p R_Ctx l0) = Inr l0"
    "ctx_holds p l0 (zero_ctx\<lparr>ec_gguf := True, ec_ctx := True\<rparr>) (l0 \<union> Pair p ` {R_Ctx, R_Gguf, R_Tensors})"
    "ctx_holds p l0 zero_ctx (l0 \<union> Pair p ` {R_Ctx})" "no_buffers (zero_ctx\<lparr>ec_gguf := True, ec_ctx := True\<rparr>)"
  using assms by (auto simp: give_back_def hold_def free_of_iff ctx_holds_def ctx_pointers_def zero_ctx_def no_buffers_def)

lemma ctx_open_yields:
  assumes f: "free_of p ctx_kinds l"
  shows "yields (- {Not_Held}) (\<lambda>(e, l'). case e of None \<Rightarrow> l' = l | Some x \<Rightarrow> ctx_holds p l x l' \<and> opened x) (kc_emb_ctx_open env p l)"
proof (cases "en_model env")
  case None
  then show ?thesis using start_holds [OF f] free_restores [OF f] by (auto simp: kc_emb_ctx_open_def)
next
  case (Some gg)
  let ?e = "zero_ctx\<lparr>ec_gguf := True, ec_ctx := True\<rparr>" and ?l = "l \<union> Pair p ` {R_Ctx, R_Gguf, R_Tensors}"
  have "yields (- {Not_Held}) (ends_in (\<lambda>e l'. ctx_holds p l e l' \<and> opened e) (ctx_holds p l)) (load_context env p gg ?e ?l)"
    using load_context_ok [OF f, of env gg] start_holds(4,6) [OF f] unfolding block_ok_def by blast
  then have "yields (- {Not_Held}) (\<lambda>(e, l'). case e of None \<Rightarrow> l' = l | Some x \<Rightarrow> ctx_holds p l x l' \<and> opened x)
      (sum_bind (load_context env p gg ?e ?l) (\<lambda>(ok, e, l2). if ok then Inr (Some e, l2) else sum_bind (kc_emb_ctx_free p (Some e) l2) (\<lambda>l3. Inr (None, l3))))"
    by (rule yields_bind) (auto simp: free_restores [OF f] split: if_splits)
  with Some start_holds [OF f] show ?thesis by (simp add: kc_emb_ctx_open_def)
qed

interpretation inference: pool_part "kc_emb_ctx_open env p" "\<lambda>e. kc_emb_ctx_free p (Some e)" p ctx_kinds
proof (unfold_locales, goal_cases)
  case (1 l l')
  then show ?case using ctx_open_yields [of p l env] by simp
next
  case (2 l h l')
  then show ?case using ctx_open_yields [of p l env] free_restores by simp
next
  case (3 l h l')
  then show ?case using ctx_open_yields [of p l env] pointer_kinds(1) [of h] unfolding ctx_holds_def by auto
next
  case (4 l)
  then show ?case using ctx_open_yields [of p l env] by auto
qed

subsection \<open>The worker\<close>

abbreviation worker_kinds :: "emb_res set" where
  "worker_kinds \<equiv> ctx_kinds \<union> {R_Mutex, R_Cond_Req, R_Cond_Res, R_Thread}"

lemma hold_list: "hold p r l = l \<union> Pair p ` set [r]"
  "(l \<union> Pair p ` set rs) \<union> Pair p ` set ss = l \<union> Pair p ` set (ss @ rs)"
  by (auto simp: hold_def)

lemma free_of_mono: "free_of p A l \<Longrightarrow> B \<subseteq> A \<Longrightarrow> free_of p B l"
  by (auto simp: free_of_iff)

lemma worker_yields:
  assumes f: "free_of p worker_kinds l"
  shows "yields (- {Not_Held}) (\<lambda>(e, l'). case e of None \<Rightarrow> l' = l | Some x \<Rightarrow> \<exists>l1. kc_emb_ctx_open env p l = Inr (Some x, l1) \<and>
      l' = l1 \<union> Pair p ` set [R_Thread, R_Cond_Res, R_Cond_Req, R_Mutex]) (kc_emb_worker_start env p l)"
proof (cases "kc_emb_ctx_open env p l")
  case (Inl s)
  have "free_of p ctx_kinds l" using f by (rule free_of_mono) auto
  from inference.held [OF this, of env] Inl show ?thesis by (auto simp: kc_emb_worker_start_def)
next
  case (Inr r)
  obtain e l1 where r: "r = (e, l1)" by (cases r)
  have fc: "free_of p ctx_kinds l" using f by (rule free_of_mono) auto
  show ?thesis
  proof (cases e)
    case None
    then show ?thesis using Inr r inference.failed [OF fc] by (simp add: kc_emb_worker_start_def)
  next
    case (Some x)
    have "sum_bind (fold_res (give_back p) rs (l1 \<union> Pair p ` set rs)) (kc_emb_ctx_free p (Some x)) = Inr l"
      if "rs \<in> {[], [R_Mutex], [R_Cond_Req, R_Mutex], [R_Cond_Res, R_Cond_Req, R_Mutex]}" for rs
      using that f by (intro inference.undo_after [OF fc Inr [unfolded r Some]]) (auto simp: free_of_iff)
    note this [of "[]"] this [of "[R_Mutex]"] this [of "[R_Cond_Req, R_Mutex]"] this [of "[R_Cond_Res, R_Cond_Req, R_Mutex]"]
    then show ?thesis using Inr r Some
      by (simp add: kc_emb_worker_start_def Let_def hold_list del: fold_res.simps list.set) (simp add: hold_list)
  qed
qed

lemma adds_more:
  "l \<subseteq> l1 \<and> l1 \<subseteq> l \<union> Pair p ` A \<Longrightarrow> set rs \<subseteq> B \<Longrightarrow> A \<subseteq> B \<Longrightarrow> l \<subseteq> l1 \<union> Pair p ` set rs \<and> l1 \<union> Pair p ` set rs \<subseteq> l \<union> Pair p ` B"
  by blast

interpretation worker: pool_part "kc_emb_worker_start env p" "kc_emb_worker_stop p" p worker_kinds
proof (unfold_locales, goal_cases)
  case (1 l l')
  then show ?case using worker_yields [of p l env] by simp
next
  case (2 l h l')
  have fc: "free_of p ctx_kinds l" using 2(1) by (rule free_of_mono) auto
  obtain l1 where l1: "kc_emb_ctx_open env p l = Inr (Some h, l1)" "l' = l1 \<union> Pair p ` set [R_Thread, R_Cond_Res, R_Cond_Req, R_Mutex]"
    using worker_yields [OF 2(1), of env] 2(2) by auto
  show ?case unfolding kc_emb_worker_stop_def l1(2)
    by (rule inference.undo_after [OF fc l1(1)]) (use 2(1) in \<open>auto simp: free_of_iff\<close>)
next
  case (3 l h l')
  have fc: "free_of p ctx_kinds l" using 3(1) by (rule free_of_mono) auto
  obtain l1 where l1: "kc_emb_ctx_open env p l = Inr (Some h, l1)" "l' = l1 \<union> Pair p ` set [R_Thread, R_Cond_Res, R_Cond_Req, R_Mutex]"
    using worker_yields [OF 3(1), of env] 3(2) by auto
  show ?case unfolding l1(2) by (rule adds_more [OF inference.adds [OF fc l1(1)]]) auto
next
  case (4 l)
  then show ?case using worker_yields [of p l env] by auto
qed

lemma worker_opened:
  assumes f: "free_of p worker_kinds l" and w: "kc_emb_worker_start env p l = Inr (Some e, l')" shows "opened e"
proof -
  obtain l1 where "kc_emb_ctx_open env p l = Inr (Some e, l1)" using worker_yields [OF f, of env] w by auto
  moreover have "free_of p ctx_kinds l" using f by (rule free_of_mono) auto
  ultimately show ?thesis using ctx_open_yields [of p l env] by simp
qed

subsection \<open>The pool\<close>

abbreviation pool_list :: "emb_res list" where
  "pool_list \<equiv> [R_Pool_Cond, R_Pool_Mutex, R_Workers, R_Pool]"

lemma undo_list:
  assumes "free_of p UNIV l" "distinct rs"
  shows "fold_res (give_back p) rs (l \<union> Pair p ` set rs) = Inr l"
  using give_back_all [OF assms(2) free_of_mono [OF assms(1)]] by simp

lemma pool_yields:
  assumes f: "free_of p UNIV l"
  shows "yields (- {Not_Held}) (\<lambda>(c, l'). case c of None \<Rightarrow> l' = l | Some x \<Rightarrow> \<exists>w.
      kc_emb_worker_start env p (l \<union> Pair p ` set pool_list) = Inr (Some w, l') \<and> x = \<lparr>emb_workers = [w], emb_n_embd = ec_n_embd w\<rparr>) (kc_emb_open env p l)"
proof -
  let ?l = "l \<union> Pair p ` set pool_list"
  have fw: "free_of p worker_kinds ?l" using f by (auto simp: free_of_iff)
  have u: "fold_res (give_back p) rs (l \<union> Pair p ` set rs) = Inr l"
    if "rs \<in> {[R_Pool], [R_Workers, R_Pool], [R_Pool_Mutex, R_Workers, R_Pool], pool_list}" for rs
    by (rule undo_list [OF f]) (use that in auto)
  have u: "fold_res (give_back p) [R_Pool] (l \<union> Pair p ` set [R_Pool]) = Inr l"
    "fold_res (give_back p) [R_Workers, R_Pool] (l \<union> Pair p ` set [R_Workers, R_Pool]) = Inr l"
    "fold_res (give_back p) [R_Pool_Mutex, R_Workers, R_Pool] (l \<union> Pair p ` set [R_Pool_Mutex, R_Workers, R_Pool]) = Inr l"
    "fold_res (give_back p) pool_list ?l = Inr l" by (rule u, blast)+
  have "yields (- {Not_Held}) (\<lambda>(c, l'). case c of None \<Rightarrow> l' = l | Some x \<Rightarrow> \<exists>w.
      kc_emb_worker_start env p ?l = Inr (Some w, l') \<and> x = \<lparr>emb_workers = [w], emb_n_embd = ec_n_embd w\<rparr>)
    (sum_bind (kc_emb_worker_start env p ?l) (\<lambda>(e, l1). case e of
       None \<Rightarrow> sum_bind (fold_res (give_back p) pool_list l1) (\<lambda>l. Inr (None, l))
     | Some w \<Rightarrow> Inr (Some \<lparr>emb_workers = [w], emb_n_embd = ec_n_embd w\<rparr>, l1)))"
    using worker.held [OF fw, of env] worker.failed [OF fw, of env] u(4)
    by (cases "kc_emb_worker_start env p ?l") (auto simp del: fold_res.simps list.set split: option.split)
  with u show ?thesis by (simp add: kc_emb_open_def Let_def hold_list del: fold_res.simps list.set)
qed

interpretation pool: pool_part "kc_emb_open env p" "\<lambda>c. kc_emb_close p (Some c)" p UNIV
proof (unfold_locales, goal_cases)
  case (1 l l')
  then show ?case using pool_yields [of p l env] by simp
next
  case (2 l h l')
  let ?l = "l \<union> Pair p ` set pool_list"
  have fw: "free_of p worker_kinds ?l" using 2(1) by (auto simp: free_of_iff)
  obtain w where w: "kc_emb_worker_start env p ?l = Inr (Some w, l')" "h = \<lparr>emb_workers = [w], emb_n_embd = ec_n_embd w\<rparr>"
    using pool_yields [OF 2(1), of env] 2(2) by auto
  have "fold_res (kc_emb_worker_stop p) [w] l' = Inr ?l" using worker.undone [OF fw w(1)] by simp
  moreover have "fold_res (give_back p) pool_list ?l = Inr l" by (rule undo_list [OF 2(1)]) simp
  ultimately show ?case unfolding w(2) by (simp add: kc_emb_close_def del: fold_res.simps list.set)
next
  case (3 l h l')
  let ?l = "l \<union> Pair p ` set pool_list"
  have fw: "free_of p worker_kinds ?l" using 3(1) by (auto simp: free_of_iff)
  obtain w where w: "kc_emb_worker_start env p ?l = Inr (Some w, l')" using pool_yields [OF 3(1), of env] 3(2) by auto
  show ?case using worker.adds [OF fw w] by blast
next
  case (4 l)
  then show ?case using pool_yields [of p l env] by auto
qed

text \<open>C25. Opening and closing the pool leaks nothing: on a ledger without entries of this pool, whatever request fails at
  whatever point (memory, the file, the model's contents, locks, conditions, the thread), \<open>kc_emb_open\<close> gives
  back only what it holds; when it fails, the ledger is what it was, and when it succeeds, \<open>kc_emb_close\<close>
  makes it what it was.\<close>

theorem pool_open_close_balanced:
  assumes "free_of p UNIV l"
  shows "kc_emb_open env p l \<noteq> Inl Not_Held \<and> (\<forall>l'. kc_emb_open env p l = Inr (None, l') \<longrightarrow> l' = l) \<and>
    (\<forall>c l'. kc_emb_open env p l = Inr (Some c, l') \<longrightarrow> kc_emb_close p (Some c) l' = Inr l)"
  using pool.held [OF assms] pool.failed [OF assms] pool.undone [OF assms] by blast

subsection \<open>What an opened pool computes\<close>

text \<open>The shapes of the weights that were found, as the format of BERT models documents them.\<close>

definition shapes_ok :: "kc_emb_ctx_t \<Rightarrow> bool" where
  "shapes_ok e \<longleftrightarrow>
     (\<forall>t \<in> set_option (ec_token_embd e) \<union> set_option (ec_pos_embd e) \<union> set_option (ec_type_embd e).
        tn_type t \<noteq> GGML_TYPE_I32 \<and> (\<exists>rows. weight (ec_n_embd e) rows t)) \<and>
     (\<forall>t \<in> set_option (ec_norm_w e) \<union> set_option (ec_norm_b e). weight (ec_n_embd e) 1 t) \<and>
     (\<forall>lys \<in> set_option (ec_layers e). \<forall>ly \<in> set lys. layer_ok (ec_n_embd e) ly)"

text \<open>The limits of a model file under which an inference always returns.\<close>

definition model_limits :: "kc_emb \<Rightarrow> bool" where
  "model_limits c \<longleftrightarrow> (\<forall>w \<in> set (emb_workers c). shapes_ok w \<and> ec_n_layer w \<le> 47 \<and> 2 \<le> ec_n_ctx w \<and>
     length (ec_vocab w) < 2 ^ 30 \<and> tables_cover w)"

lemma opened_model_ok:
  assumes o: "opened e" and s: "shapes_ok e" shows "model_ok e"
proof -
  obtain tok pos tye w b lys where t: "ec_token_embd e = Some tok" "ec_pos_embd e = Some pos" "ec_type_embd e = Some tye"
    "ec_norm_w e = Some w" "ec_norm_b e = Some b" "ec_layers e = Some lys" "length lys = nat (ec_n_layer e)"
    using o by (auto simp: opened_def weights_found_def layers_found_def)
  then show ?thesis using s o unfolding model_ok_def shapes_ok_def opened_def dims_ok_def by simp
qed

lemma pool_worker:
  assumes "free_of p UNIV l" "kc_emb_open env p l = Inr (Some c, l')"
  obtains w where "emb_workers c = [w]" "kc_emb_dim (Some c) = ec_n_embd w" "opened w"
proof -
  have fw: "free_of p worker_kinds (l \<union> Pair p ` set pool_list)" using assms(1) by (auto simp: free_of_iff)
  obtain w where w: "kc_emb_worker_start env p (l \<union> Pair p ` set pool_list) = Inr (Some w, l')"
    "c = \<lparr>emb_workers = [w], emb_n_embd = ec_n_embd w\<rparr>" using pool_yields [OF assms(1), of env] assms(2) by auto
  show ?thesis using that worker_opened [OF fw w(1)] w(2) by (simp add: kc_emb_dim_def)
qed


subsection \<open>A small model file\<close>

definition sample_gguf :: gguf_file where
  "sample_gguf =
     \<lparr>gg_kv = map_of [(''bert.embedding_length'', Val_U32 2), (''bert.block_count'', Val_I32 1), (''bert.attention.head_count'', Val_U64 1),
        (''bert.context_length'', Val_U32 8), (''tokenizer.ggml.cls_token_id'', Val_U32 4), (''tokenizer.ggml.sep_token_id'', Val_U32 5),
        (''tokenizer.ggml.unknown_token_id'', Val_U32 6), (''tokenizer.ggml.tokens'', Arr_Str [''turn'', ''on'', ''##n'', ''on''])],
      gg_tensors = map_of [(''token_embd.weight'', sample_weight 2 8 1), (''position_embd.weight'', sample_weight 2 8 2),
        (''token_types.weight'', sample_weight 2 1 3), (''token_embd_norm.weight'', sample_weight 2 1 4), (''token_embd_norm.bias'', sample_weight 2 1 5),
        (''blk.0.attn_q.weight'', sample_weight 2 2 10), (''blk.0.attn_q.bias'', sample_weight 2 1 11), (''blk.0.attn_k.weight'', sample_weight 2 2 12),
        (''blk.0.attn_k.bias'', sample_weight 2 1 13), (''blk.0.attn_v.weight'', sample_weight 2 2 14), (''blk.0.attn_v.bias'', sample_weight 2 1 15),
        (''blk.0.attn_output.weight'', sample_weight 2 2 16), (''blk.0.attn_output.bias'', sample_weight 2 1 17),
        (''blk.0.attn_output_norm.weight'', sample_weight 2 1 18), (''blk.0.attn_output_norm.bias'', sample_weight 2 1 19),
        (''blk.0.ffn_up.weight'', sample_weight 2 3 20), (''blk.0.ffn_up.bias'', sample_weight 3 1 21), (''blk.0.ffn_down.weight'', sample_weight 3 2 22),
        (''blk.0.ffn_down.bias'', sample_weight 2 1 23), (''blk.0.layer_output_norm.weight'', sample_weight 2 1 24),
        (''blk.0.layer_output_norm.bias'', sample_weight 2 1 25)]\<rparr>"

definition sample_env :: emb_env where
  "sample_env = \<lparr>en_grants = (\<lambda>_. True), en_model = Some sample_gguf\<rparr>"

lemma nat_text_0: "nat_text 0 = ''0''"
  by code_simp

lemma sample_load_layer: "load_layer sample_gguf 0 = Some sample_layer"
  by (simp add: load_layer_def layer_tensor_def sample_gguf_def sample_layer_def nat_text_0)

lemma sample_kv:
  "sint (get_kv_u32 sample_gguf ''bert.embedding_length'' 0) = 2" "sint (get_kv_u32 sample_gguf ''bert.block_count'' 0) = 1"
  "sint (get_kv_u32 sample_gguf ''bert.attention.head_count'' 0) = 1" "sint (get_kv_u32 sample_gguf ''bert.context_length'' 512) = 8"
  by (simp_all add: get_kv_u32_def sample_gguf_def)

lemma sample_params:
  "read_params sample_gguf e l = Inr (True, e\<lparr>ec_n_embd := 2, ec_n_layer := 1, ec_n_head := 1, ec_n_ctx := 8\<rparr>, l)"
  by (simp add: read_params_def Let_def sample_kv)
lemma sample_vocab:
  "\<exists>e' l'. load_vocab sample_env p sample_gguf (e\<lparr>ec_n_embd := 2, ec_n_layer := 1, ec_n_head := 1, ec_n_ctx := 8\<rparr>) l = Inr (True, e', l') \<and>
    ec_vocab e' = [''turn'', ''on'', ''##n'', ''on''] \<and> ec_n_embd e' = 2 \<and> ec_n_layer e' = 1 \<and> ec_n_ctx e' = 8 \<and>
    ec_cls e' = 4 \<and> ec_sep e' = 5 \<and> ec_unk e' = 6"
proof -
  let ?e = "e\<lparr>ec_n_embd := 2, ec_n_layer := 1, ec_n_head := 1, ec_n_ctx := 8, ec_eps := 0x2B8CBCCC, ec_vocab := [''turn'', ''on'', ''##n'', ''on'']\<rparr>"
  obtain e2 t where "build_vocab_hash (\<lambda>_. True) ?e = Inr e2" "e2 = ?e\<lparr>ec_vocab_hash := t\<rparr>"
    using build_vocab_ready [of ?e "\<lambda>_. True"] by auto
  then show ?thesis
    by (simp add: load_vocab_def fill_vocab_def sample_gguf_def sample_env_def gguf_get_arr_n_def gguf_get_arr_strs_def to_int_def c_str_def read_ids_def get_kv_u32_def)
qed

lemma blocks_step: "f e l = Inr (True, e1, l1) \<Longrightarrow> blocks f g e l = g e1 l1"
  by (simp add: blocks_def)

lemma sample_context:
  "\<exists>e' l'. load_context sample_env p sample_gguf e l = Inr (True, e', l') \<and> shapes_ok e' \<and> tables_cover e' \<and> ec_n_layer e' = 1 \<and> ec_n_ctx e' = 8 \<and>
    ec_vocab e' = [''turn'', ''on'', ''##n'', ''on''] \<and> ec_n_embd e' = 2"
proof -
  obtain e1 l1 where v: "load_vocab sample_env p sample_gguf (e\<lparr>ec_n_embd := 2, ec_n_layer := 1, ec_n_head := 1, ec_n_ctx := 8\<rparr>) l = Inr (True, e1, l1)"
    "ec_vocab e1 = [''turn'', ''on'', ''##n'', ''on'']" "ec_n_embd e1 = 2" "ec_n_layer e1 = 1" "ec_n_ctx e1 = 8"
    "ec_cls e1 = 4" "ec_sep e1 = 5" "ec_unk e1 = 6" using sample_vocab by blast
  let ?e2 = "e1\<lparr>ec_token_embd := Some (sample_weight 2 8 1), ec_pos_embd := Some (sample_weight 2 8 2), ec_type_embd := Some (sample_weight 2 1 3),
     ec_norm_w := Some (sample_weight 2 1 4), ec_norm_b := Some (sample_weight 2 1 5)\<rparr>"
  have t: "load_tensors sample_gguf e1 l1 = Inr (True, ?e2, l1)" by (simp add: load_tensors_def sample_gguf_def)
  have y: "load_layers sample_env p sample_gguf ?e2 l1 = Inr (True, ?e2\<lparr>ec_layers := Some [sample_layer]\<rparr>, hold p R_Layers l1)"
    using v(4) by (simp add: load_layers_def sample_env_def sample_load_layer)
  have "\<exists>l'. load_context sample_env p sample_gguf e l =
      Inr (True, ?e2\<lparr>ec_layers := Some [sample_layer], ec_compute_buf := True, ec_tokens := True, ec_pos_data := True, ec_type_data := True,
        ec_backend := True, ec_galloc := True\<rparr>, l')"
    unfolding load_context_def blocks_step [of "read_params sample_gguf", OF sample_params] 
      blocks_step [of "load_vocab sample_env p sample_gguf", OF v(1)] blocks_step [of "load_tensors sample_gguf", OF t]
      blocks_step [of "load_layers sample_env p sample_gguf", OF y]
    by (simp add: blocks_def alloc_buffers_def init_backend_def sample_env_def)
  moreover have "shapes_ok (?e2\<lparr>ec_layers := Some [sample_layer], ec_compute_buf := True, ec_tokens := True, ec_pos_data := True, ec_type_data := True,
        ec_backend := True, ec_galloc := True\<rparr>)"
    using v(3) sample_model_ok by (auto simp: shapes_ok_def model_ok_def sample_model_def sample_ctx_def zero_ctx_def sample_weight_def weight_def given_def
        ggml_is_transposed_def)
  moreover have "tables_cover (?e2\<lparr>ec_layers := Some [sample_layer], ec_compute_buf := True, ec_tokens := True, ec_pos_data := True, ec_type_data := True,
        ec_backend := True, ec_galloc := True\<rparr>)"
    using v by (simp add: tables_cover_def sample_weight_def)
  ultimately show ?thesis using v by fastforce
qed

lemma sample_pool_opens:
  "\<exists>c l'. kc_emb_open sample_env 0 {} = Inr (Some c, l') \<and> model_limits c \<and> kc_emb_dim (Some c) = 2"
proof -
  have g: "en_grants sample_env r" "en_model sample_env = Some sample_gguf" for r by (simp_all add: sample_env_def)
  let ?l = "hold 0 R_Pool_Cond (hold 0 R_Pool_Mutex (hold 0 R_Workers (hold 0 R_Pool {})))"
  have "free_of 0 ctx_kinds ?l" by (auto simp: free_of_iff hold_def)
  note st = start_holds(1) [OF this]
  obtain e l1 where e: "load_context sample_env 0 sample_gguf (zero_ctx\<lparr>ec_gguf := True, ec_ctx := True\<rparr>) (?l \<union> Pair 0 ` {R_Ctx, R_Gguf, R_Tensors}) = Inr (True, e, l1)"
    "shapes_ok e" "ec_n_layer e = 1" "ec_n_ctx e = 8" "ec_vocab e = [''turn'', ''on'', ''##n'', ''on'']" "ec_n_embd e = 2" "tables_cover e" using sample_context by blast
  have "kc_emb_ctx_open sample_env 0 ?l = Inr (Some e, l1)" using e(1) unfolding kc_emb_ctx_open_def by (simp only: g st option.case) simp
  then have "\<exists>l2. kc_emb_worker_start sample_env 0 ?l = Inr (Some e, l2)" by (simp add: kc_emb_worker_start_def g)
  then have "\<exists>l2. kc_emb_open sample_env 0 {} = Inr (Some \<lparr>emb_workers = [e], emb_n_embd = ec_n_embd e\<rparr>, l2)" by (auto simp: kc_emb_open_def g)
  then show ?thesis using e(2-7) by (auto simp: model_limits_def kc_emb_dim_def)
qed

lemma pool_open_close_balanced_witness:
  "\<exists>c l'. kc_emb_open sample_env 0 {} = Inr (Some c, l') \<and> kc_emb_close 0 (Some c) l' = Inr {}"
  using sample_pool_opens pool_open_close_balanced [of 0 "{}" sample_env] by (auto simp: free_of_iff)

definition sample_backend :: emb_backend where
  "sample_backend = \<lparr>bk_alloc = (\<lambda>_. True), bk_compute = (\<lambda>gf res ts ps ys. if 0 \<le> ggml_nelements res then Some (replicate (nat (ggml_nelements res)) 0) else None)\<rparr>"


end
