(* ===== verification/Emb_Pool.thy ===== *)
theory Emb_Pool
  imports Prelude
begin

section \<open>Calling the embedding worker (src/lib/libemb.c: kc\_emb\_exec, kc\_emb\_worker\_thread)\<close>

text \<open>
  Callers hand their text to a worker thread through a shared record under a mutex and two condition
  variables. The model is a step relation: a step is what one thread does from taking the worker's mutex
  until it waits or leaves (every access to the record is inside such a stretch, and the pool mutex is
  held only around it). A thread is in front of the mutex, asleep on a condition variable, or past its
  call. \<open>pthread_cond_signal\<close> wakes one sleeper, any of them. The inference is the parameter \<open>exec\<close>,
  \<open>None\<close> for \<open>KC_EMB_ERROR\<close>, which writes the caller's buffer only on success; \<open>inp c\<close> is the text that
  caller \<open>c\<close> passes. The pool has the one worker that \<open>kc_emb_open\<close> starts.
\<close>

datatype worker_pc = W_Ready | W_Asleep | W_Ended

datatype caller_pc =
    C_Idle
  | C_Start
  | C_Pool
  | C_Asleep
  | C_Awake
  | C_Result bool
  | C_Done bool

record kc_emb_worker =
  w_input :: string
  w_out :: nat
  w_result :: bool
  w_has_req :: bool
  w_done :: bool
  w_shutdown :: bool
  w_pc :: worker_pc
  w_callers :: "nat \<Rightarrow> caller_pc"
  w_bufs :: "nat \<rightharpoonup> u32 list"

definition kc_emb_worker_init :: "(nat \<Rightarrow> caller_pc) \<Rightarrow> kc_emb_worker" where
  "kc_emb_worker_init cs =
     \<lparr>w_input = [], w_out = 0, w_result = False, w_has_req = False, w_done = False, w_shutdown = False,
      w_pc = W_Ready, w_callers = cs, w_bufs = Map.empty\<rparr>"

abbreviation (input) at :: "nat \<Rightarrow> caller_pc \<Rightarrow> kc_emb_worker \<Rightarrow> kc_emb_worker" where
  "at c pc s \<equiv> s\<lparr>w_callers := (w_callers s)(c := pc)\<rparr>"

subsection \<open>The caller\<close>

text \<open>A free worker was found: the request, the signal to the worker, and the wait for the result.\<close>

definition send_request :: "(nat \<Rightarrow> string) \<Rightarrow> nat \<Rightarrow> kc_emb_worker \<Rightarrow> kc_emb_worker" where
  "send_request inp c s =
     at c C_Asleep (s\<lparr>w_input := inp c, w_out := c, w_done := False, w_has_req := True,
                      w_pc := (if w_pc s = W_Asleep then W_Ready else w_pc s)\<rparr>)"

text \<open>After waking up: the loop condition, and the result.\<close>

definition read_result :: "nat \<Rightarrow> kc_emb_worker \<Rightarrow> kc_emb_worker" where
  "read_result c s = (if w_done s then at c (C_Result (w_result s)) s else at c C_Asleep s)"

subsection \<open>The worker\<close>

definition serve :: "(string \<Rightarrow> u32 list option) \<Rightarrow> kc_emb_worker \<Rightarrow> kc_emb_worker" where
  "serve exec s =
     (let r = exec (w_input s)
      in s\<lparr>w_result := (r \<noteq> None), w_bufs := (case r of None \<Rightarrow> w_bufs s | Some v \<Rightarrow> (w_bufs s)(w_out s \<mapsto> v)),
           w_has_req := False, w_done := True, w_pc := W_Asleep\<rparr>)"

subsection \<open>Steps\<close>

inductive emb_step :: "(string \<Rightarrow> u32 list option) \<Rightarrow> (nat \<Rightarrow> string) \<Rightarrow> kc_emb_worker \<Rightarrow> kc_emb_worker \<Rightarrow> bool"
  for exec inp where
  request: "w_callers s c = C_Start \<Longrightarrow> \<not> w_has_req s \<Longrightarrow> emb_step exec inp s (send_request inp c s)"
| queue: "w_callers s c = C_Start \<Longrightarrow> w_has_req s \<Longrightarrow> emb_step exec inp s (at c C_Pool s)"
| resume: "w_callers s c = C_Awake \<Longrightarrow> emb_step exec inp s (read_result c s)"
| leave_waking: "w_callers s c = C_Result r \<Longrightarrow> w_callers s d = C_Pool \<Longrightarrow>
    emb_step exec inp s (at d C_Start (at c (C_Done r) s))"
| leave: "w_callers s c = C_Result r \<Longrightarrow> \<forall>d. w_callers s d \<noteq> C_Pool \<Longrightarrow> emb_step exec inp s (at c (C_Done r) s)"
| serve_waking: "w_pc s = W_Ready \<Longrightarrow> \<not> w_shutdown s \<Longrightarrow> w_has_req s \<Longrightarrow> w_callers s d = C_Asleep \<Longrightarrow>
    emb_step exec inp s (at d C_Awake (serve exec s))"
| serve_alone: "w_pc s = W_Ready \<Longrightarrow> \<not> w_shutdown s \<Longrightarrow> w_has_req s \<Longrightarrow> \<forall>d. w_callers s d \<noteq> C_Asleep \<Longrightarrow>
    emb_step exec inp s (serve exec s)"
| wait_request: "w_pc s = W_Ready \<Longrightarrow> \<not> w_shutdown s \<Longrightarrow> \<not> w_has_req s \<Longrightarrow> emb_step exec inp s (s\<lparr>w_pc := W_Asleep\<rparr>)"
| stop: "w_pc s = W_Ready \<Longrightarrow> w_shutdown s \<Longrightarrow> emb_step exec inp s (s\<lparr>w_pc := W_Ended\<rparr>)"

inductive_cases emb_stepE: "emb_step exec inp s s'"

text \<open>\<open>kc_emb_worker_destroy\<close> up to the join.\<close>

definition kc_emb_worker_destroy :: "kc_emb_worker \<Rightarrow> kc_emb_worker" where
  "kc_emb_worker_destroy s = s\<lparr>w_shutdown := True, w_pc := (if w_pc s = W_Asleep then W_Ready else w_pc s)\<rparr>"

subsection \<open>One caller at a time\<close>

text \<open>The other callers have not started or are past their calls.\<close>

definition alone :: "nat \<Rightarrow> kc_emb_worker \<Rightarrow> bool" where
  "alone c s \<longleftrightarrow> \<not> w_shutdown s \<and> w_pc s \<noteq> W_Ended \<and> (\<forall>d. d \<noteq> c \<longrightarrow> w_callers s d = C_Idle \<or> (\<exists>r. w_callers s d = C_Done r))"

definition answered :: "(string \<Rightarrow> u32 list option) \<Rightarrow> string \<Rightarrow> nat \<Rightarrow> kc_emb_worker \<Rightarrow> bool" where
  "answered exec t c s \<longleftrightarrow> (\<forall>v. exec t = Some v \<longrightarrow> w_bufs s c = Some v) \<and> \<not> w_has_req s \<and> w_pc s = W_Asleep"

text \<open>What holds while a lone caller is in its call with text \<open>t\<close>, and how many steps can remain.\<close>

definition lone_call :: "(string \<Rightarrow> u32 list option) \<Rightarrow> string \<Rightarrow> nat \<Rightarrow> kc_emb_worker \<Rightarrow> bool" where
  "lone_call exec t c s \<longleftrightarrow> alone c s \<and>
     (case w_callers s c of
        C_Start \<Rightarrow> \<not> w_has_req s
      | C_Asleep \<Rightarrow> w_input s = t \<and> w_out s = c \<and> w_has_req s \<and> w_pc s = W_Ready
      | C_Awake \<Rightarrow> w_done s \<and> w_result s = (exec t \<noteq> None) \<and> answered exec t c s
      | C_Result r \<Rightarrow> r = (exec t \<noteq> None) \<and> answered exec t c s
      | C_Done r \<Rightarrow> r = (exec t \<noteq> None) \<and> answered exec t c s
      | _ \<Rightarrow> False)"

definition steps_left :: "nat \<Rightarrow> kc_emb_worker \<Rightarrow> nat" where
  "steps_left c s =
     (case w_callers s c of
        C_Start \<Rightarrow> if w_pc s = W_Ready then 5 else 4
      | C_Asleep \<Rightarrow> 3
      | C_Awake \<Rightarrow> 2
      | C_Result _ \<Rightarrow> 1
      | _ \<Rightarrow> 0)"

lemma alone_other: "alone c s \<Longrightarrow> w_callers s d = pc \<Longrightarrow> pc \<in> {C_Start, C_Pool, C_Asleep, C_Awake} \<or> (\<exists>r. pc = C_Result r) \<Longrightarrow> d = c"
  by (auto simp: alone_def)

lemma alone_update:
  "alone c s \<Longrightarrow> w_shutdown s' = w_shutdown s \<Longrightarrow> w_pc s' \<noteq> W_Ended \<Longrightarrow> \<forall>d. d \<noteq> c \<longrightarrow> w_callers s' d = w_callers s d \<Longrightarrow> alone c s'"
  by (auto simp: alone_def)

lemmas step_defs = send_request_def read_result_def serve_def Let_def steps_left_def answered_def

text \<open>Every step of a lone call brings it closer to its end.\<close>

lemma lone_step:
  assumes l: "lone_call exec (inp c) c s" and st: "emb_step exec inp s s'"
  shows "lone_call exec (inp c) c s' \<and> steps_left c s' < steps_left c s"
proof -
  have a: "alone c s" and sd: "\<not> w_shutdown s" "w_pc s \<noteq> W_Ended" using l by (auto simp: lone_call_def alone_def)
  then have pc: "w_pc s = W_Ready \<or> w_pc s = W_Asleep" by (cases "w_pc s") auto
  note only = alone_other [OF a]
  from st show ?thesis
  proof cases
    case (request d)
    moreover have "d = c" using only request(2) by blast
    ultimately show ?thesis
      using pc sd alone_update [OF a, of s'] by (auto simp: lone_call_def step_defs)
  next
    case (queue d)
    moreover have "d = c" using only queue(2) by blast
    ultimately show ?thesis using l by (auto simp: lone_call_def)
  next
    case (resume d)
    moreover have "d = c" using only resume(2) by blast
    ultimately show ?thesis
      using l alone_update [OF a, of s'] sd by (auto simp: lone_call_def step_defs)
  next
    case (leave_waking d r e)
    moreover have "d = c" "e = c" using only leave_waking(2,3) by blast+
    ultimately show ?thesis by simp
  next
    case (leave d r)
    moreover have "d = c" using only leave(2) by blast
    ultimately show ?thesis using l alone_update [OF a, of s'] sd by (auto simp: lone_call_def step_defs)
  next
    case (serve_waking d)
    moreover have "d = c" using only serve_waking(5) by blast
    ultimately show ?thesis
      using l alone_update [OF a, of s'] sd by (auto simp: lone_call_def step_defs split: option.splits)
  next
    case serve_alone
    then show ?thesis using l by (auto simp: lone_call_def answered_def split: caller_pc.splits)
  next
    case wait_request
    then show ?thesis
      using l alone_update [OF a, of s'] by (auto simp: lone_call_def step_defs split: caller_pc.splits)
  next
    case stop
    with sd show ?thesis by simp
  qed
qed

lemma lone_progress:
  assumes l: "lone_call exec (inp c) c s" and n: "\<forall>r. w_callers s c \<noteq> C_Done r"
  shows "\<exists>s'. emb_step exec inp s s'"
proof (cases "w_callers s c")
  case C_Start
  moreover have "\<not> w_has_req s" using l C_Start by (simp add: lone_call_def)
  ultimately show ?thesis using emb_step.request by blast
next
  case C_Asleep
  moreover have "w_pc s = W_Ready" "\<not> w_shutdown s" "w_has_req s" using l C_Asleep by (simp_all add: lone_call_def alone_def)
  ultimately show ?thesis using emb_step.serve_waking by blast
next
  case C_Awake
  then show ?thesis using emb_step.resume by blast
next
  case (C_Result r)
  moreover have "\<forall>d. w_callers s d \<noteq> C_Pool"
  proof (intro allI notI)
    fix d assume "w_callers s d = C_Pool"
    then show False using l C_Result by (cases "d = c") (auto simp: lone_call_def alone_def)
  qed
  ultimately show ?thesis using emb_step.leave by blast
qed (use l n in \<open>auto simp: lone_call_def\<close>)

lemma lone_run:
  assumes "lone_call exec (inp c) c s" "(emb_step exec inp ^^ n) s s'"
  shows "lone_call exec (inp c) c s' \<and> n + steps_left c s' \<le> steps_left c s"
  using assms(2)
proof (induction n arbitrary: s')
  case (Suc n)
  then obtain m where "(emb_step exec inp ^^ n) s m" "emb_step exec inp m s'" by auto
  with Suc.IH [of m] lone_step [of exec inp c m s'] show ?case by auto
qed (use assms(1) in auto)

text \<open>A caller that has the worker to itself is served: in a state without a pending request, where every other
  caller has not started or has returned, no run has more than five steps, no run stops before the call has
  returned, and what it returns is what the inference says of the caller's own text, with the vector in the
  caller's buffer; the worker is then free for the next caller.\<close>

lemma lone_caller_is_served:
  assumes "alone c s" "w_callers s c = C_Start" "\<not> w_has_req s" "(emb_step exec inp ^^ n) s s'"
  shows "n \<le> 5 \<and> ((\<forall>r. w_callers s' c \<noteq> C_Done r) \<longrightarrow> (\<exists>s''. emb_step exec inp s' s'')) \<and>
    (\<forall>r. w_callers s' c = C_Done r \<longrightarrow> (r \<longleftrightarrow> exec (inp c) \<noteq> None) \<and> (\<forall>v. exec (inp c) = Some v \<longrightarrow> w_bufs s' c = Some v) \<and>
       \<not> w_has_req s' \<and> \<not> w_shutdown s' \<and> w_pc s' = W_Asleep)"
proof -
  have "lone_call exec (inp c) c s" using assms by (simp add: lone_call_def)
  from lone_run [OF this assms(4)] have l: "lone_call exec (inp c) c s'" and n: "n + steps_left c s' \<le> steps_left c s" by auto
  have "steps_left c s \<le> 5" by (simp add: steps_left_def split: caller_pc.split)
  with n lone_progress [of exec inp c s', OF l] l show ?thesis by (auto simp: lone_call_def alone_def answered_def)
qed

subsection \<open>Two callers\<close>

text \<open>The interleaving: caller 1 takes the worker after caller 0 was signalled and before caller 0 runs again.\<close>

definition both_calling :: kc_emb_worker where
  "both_calling = kc_emb_worker_init (\<lambda>c. if c < 2 then C_Start else C_Idle)"

definition overtaken :: "(string \<Rightarrow> u32 list option) \<Rightarrow> (nat \<Rightarrow> string) \<Rightarrow> kc_emb_worker" where
  "overtaken exec inp = send_request inp 1 (at 0 C_Awake (serve exec (send_request inp 0 both_calling)))"

definition hung :: "(string \<Rightarrow> u32 list option) \<Rightarrow> (nat \<Rightarrow> string) \<Rightarrow> kc_emb_worker" where
  "hung exec inp = at 0 (C_Done (exec (inp 1) \<noteq> None)) (serve exec (read_result 0 (overtaken exec inp)))"

lemmas run_defs = both_calling_def kc_emb_worker_init_def send_request_def serve_def read_result_def Let_def

lemma overtaken_reached: "(emb_step exec inp)\<^sup>*\<^sup>* both_calling (overtaken exec inp)"
proof -
  let ?s1 = "send_request inp 0 both_calling"
  let ?s2 = "at 0 C_Awake (serve exec ?s1)"
  have "emb_step exec inp both_calling ?s1" by (rule emb_step.request) (simp_all add: run_defs)
  moreover have "emb_step exec inp ?s1 ?s2" by (rule emb_step.serve_waking) (simp_all add: run_defs)
  moreover have "emb_step exec inp ?s2 (overtaken exec inp)"
    unfolding overtaken_def by (rule emb_step.request) (simp_all add: run_defs)
  ultimately show ?thesis by (meson converse_rtranclp_into_rtranclp rtranclp.rtrancl_refl)
qed

lemma hung_reached: "(emb_step exec inp)\<^sup>*\<^sup>* (overtaken exec inp) (hung exec inp)"
proof -
  let ?s4 = "read_result 0 (overtaken exec inp)"
  let ?s5 = "at 0 C_Awake (serve exec ?s4)"
  have "emb_step exec inp (overtaken exec inp) ?s4" by (rule emb_step.resume) (simp add: overtaken_def run_defs)
  moreover have "emb_step exec inp ?s4 ?s5" by (rule emb_step.serve_waking) (simp_all add: overtaken_def run_defs)
  moreover have "emb_step exec inp ?s5 (read_result 0 ?s5)" by (rule emb_step.resume) simp
  moreover have "emb_step exec inp (read_result 0 ?s5) (at 0 (C_Done (exec (inp 1) \<noteq> None)) (read_result 0 ?s5))"
    by (rule emb_step.leave) (simp_all add: overtaken_def run_defs)
  moreover have "at 0 (C_Done (exec (inp 1) \<noteq> None)) (read_result 0 ?s5) = hung exec inp"
    by (simp add: hung_def overtaken_def run_defs)
  ultimately show ?thesis by (metis (no_types, lifting) converse_rtranclp_into_rtranclp rtranclp.rtrancl_refl)
qed

text \<open>C28. Two concurrent callers can leave one of them asleep forever: the second can take the worker between the
  signal to the first and the first's return to the mutex and reset the shared \<open>done\<close> flag. Both then wait for
  one signal. There is a run in which the first returns with the status of the second's text while the second
  sleeps on, with nothing left that could wake it.\<close>

theorem two_callers_can_hang:
  "\<exists>s. (emb_step exec inp)\<^sup>*\<^sup>* (kc_emb_worker_init (\<lambda>c. if c < 2 then C_Start else C_Idle)) s \<and>
     w_callers s 0 = C_Done (exec (inp 1) \<noteq> None) \<and> w_callers s 1 = C_Asleep \<and> w_done s \<and> (\<nexists>s'. emb_step exec inp s s')"
proof (intro exI conjI)
  show "(emb_step exec inp)\<^sup>*\<^sup>* (kc_emb_worker_init (\<lambda>c. if c < 2 then C_Start else C_Idle)) (hung exec inp)"
    using overtaken_reached hung_reached unfolding both_calling_def by (rule rtranclp_trans)
  show "\<nexists>s'. emb_step exec inp (hung exec inp) s'"
    by (auto elim!: emb_stepE simp: hung_def overtaken_def run_defs split: if_splits)
qed (simp_all add: hung_def overtaken_def run_defs)

end
