(* ===== verification/Emb_Locked.thy ===== *)
theory Emb_Locked
  imports Emb_Pool
begin

section \<open>Parses on one schema (src/libipa.c: kc\_ipa\_parse over kc\_emb\_exec)\<close>

text \<open>
  Any number of threads parse with one schema handle. \<open>kc_ipa_parse\<close> takes the schema's lock, embeds one text
  after the other with \<open>kc_emb_exec\<close>, and releases the lock. A call of \<open>kc_emb_exec\<close> is a caller of the worker's
  protocol, so a thread is here the list of the calls that it still has to make, and the steps of the worker
  and its callers are those of \<open>emb_step\<close>. The lock is what the protocol alone does not give: with it every call
  is served, and with the answer to its own text.
\<close>

datatype parse_pc = P_Wait "nat list" | P_In "nat list" | P_Call nat "nat list" | P_Done

record parse_pool =
  pp_lock :: "nat option"
  pp_pc :: "nat \<Rightarrow> parse_pc"
  pp_worker :: kc_emb_worker

inductive parse_step :: "(string \<Rightarrow> u32 list option) \<Rightarrow> (nat \<Rightarrow> string) \<Rightarrow> parse_pool \<Rightarrow> parse_pool \<Rightarrow> bool" for exec inp where
  take_lock: "pp_pc s t = P_Wait cs \<Longrightarrow> pp_lock s = None \<Longrightarrow>
    parse_step exec inp s (s\<lparr>pp_lock := Some t, pp_pc := (pp_pc s)(t := P_In cs)\<rparr>)"
| start_call: "pp_pc s t = P_In (c # cs) \<Longrightarrow>
    parse_step exec inp s (s\<lparr>pp_pc := (pp_pc s)(t := P_Call c cs), pp_worker := at c C_Start (pp_worker s)\<rparr>)"
| inside: "emb_step exec inp (pp_worker s) w \<Longrightarrow> parse_step exec inp s (s\<lparr>pp_worker := w\<rparr>)"
| end_call: "pp_pc s t = P_Call c cs \<Longrightarrow> w_callers (pp_worker s) c = C_Done r \<Longrightarrow>
    parse_step exec inp s (s\<lparr>pp_pc := (pp_pc s)(t := P_In cs)\<rparr>)"
| unlock: "pp_pc s t = P_In [] \<Longrightarrow> pp_lock s = Some t \<Longrightarrow>
    parse_step exec inp s (s\<lparr>pp_lock := None, pp_pc := (pp_pc s)(t := P_Done)\<rparr>)"

inductive_cases parse_stepE: "parse_step exec inp s s'"

text \<open>The worker has just been started, and thread \<open>t\<close> of \<open>n\<close> is about to parse with the calls \<open>calls t\<close>.\<close>

definition parse_start :: "nat \<Rightarrow> (nat \<Rightarrow> nat list) \<Rightarrow> parse_pool" where
  "parse_start n calls = \<lparr>pp_lock = None, pp_pc = (\<lambda>t. if t < n then P_Wait (calls t) else P_Done),
     pp_worker = kc_emb_worker_init (\<lambda>_. C_Idle)\<rparr>"

subsection \<open>The worker between calls\<close>

definition quiet :: "kc_emb_worker \<Rightarrow> bool" where
  "quiet w \<longleftrightarrow> \<not> w_shutdown w \<and> w_pc w \<noteq> W_Ended \<and> \<not> w_has_req w \<and> (\<forall>d. w_callers w d = C_Idle \<or> (\<exists>r. w_callers w d = C_Done r))"

lemma quietD: "quiet w \<Longrightarrow> w_callers w d \<noteq> C_Idle \<Longrightarrow> \<exists>r. w_callers w d = C_Done r"
  by (auto simp: quiet_def)

lemma quiet_step:
  assumes q: "quiet w" and st: "emb_step exec inp w w'" shows "w' = w\<lparr>w_pc := W_Asleep\<rparr> \<and> w_pc w = W_Ready"
proof -
  have n: "w_callers w d \<noteq> C_Start" "w_callers w d \<noteq> C_Pool" "w_callers w d \<noteq> C_Asleep" "w_callers w d \<noteq> C_Awake" "w_callers w d \<noteq> C_Result r" for d r
    using q unfolding quiet_def by (metis caller_pc.distinct)+
  from st show ?thesis by cases (use q n in \<open>auto simp: quiet_def\<close>)
qed

lemma quiet_start: "quiet w \<Longrightarrow> lone_call exec t c (at c C_Start w)"
  by (auto simp: quiet_def lone_call_def alone_def)

lemma lone_quiet: "lone_call exec t c w \<Longrightarrow> w_callers w c = C_Done r \<Longrightarrow> quiet w"
  by (auto simp: lone_call_def alone_def answered_def quiet_def)

text \<open>A lone call touches neither the state nor the buffer of another caller.\<close>

lemma lone_frame:
  assumes l: "lone_call exec (inp c) c s" and st: "emb_step exec inp s s'" and d: "d \<noteq> c"
  shows "w_callers s' d = w_callers s d \<and> w_bufs s' d = w_bufs s d"
proof -
  have a: "alone c s" using l by (simp add: lone_call_def)
  note only = alone_other [OF a]
  have out: "w_has_req s \<Longrightarrow> w_out s = c" using l by (auto simp: lone_call_def answered_def split: caller_pc.splits)
  from st show ?thesis
  proof cases
    case (request e)
    then show ?thesis using only [of e] d by (auto simp: send_request_def)
  next
    case (queue e)
    then show ?thesis using only [of e] d by auto
  next
    case (resume e)
    then show ?thesis using only [of e] d by (auto simp: read_result_def)
  next
    case (leave_waking e r f)
    then show ?thesis using only [of e] only [of f] d by auto
  next
    case (leave e r)
    then show ?thesis using only [of e] d by auto
  next
    case (serve_waking e)
    then show ?thesis using only [of e] d out by (auto simp: serve_def Let_def split: option.splits)
  next
    case serve_alone
    then show ?thesis using d out by (auto simp: serve_def Let_def split: option.splits)
  qed simp_all
qed

subsection \<open>The invariant\<close>

primrec pending :: "parse_pc \<Rightarrow> nat list" where
  "pending (P_Wait cs) = cs"
| "pending (P_In cs) = cs"
| "pending (P_Call c cs) = cs"
| "pending P_Done = []"

primrec current :: "parse_pc \<Rightarrow> nat option" where
  "current (P_Wait cs) = None"
| "current (P_In cs) = None"
| "current (P_Call c cs) = Some c"
| "current P_Done = None"

definition waits :: "parse_pc \<Rightarrow> bool" where
  "waits pc \<longleftrightarrow> pc = P_Done \<or> (\<exists>cs. pc = P_Wait cs)"

definition right_answers :: "(string \<Rightarrow> u32 list option) \<Rightarrow> (nat \<Rightarrow> string) \<Rightarrow> kc_emb_worker \<Rightarrow> bool" where
  "right_answers exec inp w \<longleftrightarrow> (\<forall>d r. w_callers w d = C_Done r \<longrightarrow>
     (r \<longleftrightarrow> exec (inp d) \<noteq> None) \<and> (\<forall>v. exec (inp d) = Some v \<longrightarrow> w_bufs w d = Some v))"

definition turns :: "(string \<Rightarrow> u32 list option) \<Rightarrow> (nat \<Rightarrow> string) \<Rightarrow> parse_pool \<Rightarrow> bool" where
  "turns exec inp s \<longleftrightarrow>
     (case pp_lock s of
        None \<Rightarrow> quiet (pp_worker s) \<and> (\<forall>t. waits (pp_pc s t))
      | Some t \<Rightarrow> (\<forall>u. u \<noteq> t \<longrightarrow> waits (pp_pc s u)) \<and>
          (case pp_pc s t of
             P_In cs \<Rightarrow> quiet (pp_worker s)
           | P_Call c cs \<Rightarrow> lone_call exec (inp c) c (pp_worker s)
           | _ \<Rightarrow> False))"

definition untouched :: "parse_pool \<Rightarrow> bool" where
  "untouched s \<longleftrightarrow> (\<forall>t. distinct (pending (pp_pc s t)) \<and> (\<forall>d \<in> set (pending (pp_pc s t)). w_callers (pp_worker s) d = C_Idle \<and>
     (\<forall>u. u \<noteq> t \<longrightarrow> d \<notin> set (pending (pp_pc s u)))))"

definition accounted :: "(nat \<Rightarrow> nat list) \<Rightarrow> nat \<Rightarrow> parse_pool \<Rightarrow> bool" where
  "accounted calls n s \<longleftrightarrow> (\<forall>t < n. \<forall>c \<in> set (calls t). c \<in> set (pending (pp_pc s t)) \<or> current (pp_pc s t) = Some c \<or>
     (\<exists>r. w_callers (pp_worker s) c = C_Done r)) \<and> (\<forall>t \<ge> n. pp_pc s t = P_Done)"

definition parse_inv :: "(string \<Rightarrow> u32 list option) \<Rightarrow> (nat \<Rightarrow> string) \<Rightarrow> (nat \<Rightarrow> nat list) \<Rightarrow> nat \<Rightarrow> parse_pool \<Rightarrow> bool" where
  "parse_inv exec inp calls n s \<longleftrightarrow> turns exec inp s \<and> untouched s \<and> right_answers exec inp (pp_worker s) \<and> accounted calls n s"

lemma start_inv:
  assumes "distinct (concat (map calls [0..<n]))" shows "parse_inv exec inp calls n (parse_start n calls)"
proof -
  have d: "distinct (calls t)" if "t < n" for t using assms that by (induction n) (auto simp: less_Suc_eq)
  have x: "c \<notin> set (calls u)" if "t < n" "u < n" "u \<noteq> t" "c \<in> set (calls t)" for t u c
    using assms that by (induction n) (auto simp: less_Suc_eq disjoint_iff atLeast0LessThan)
  show ?thesis using d x
    by (auto simp: parse_inv_def turns_def untouched_def right_answers_def accounted_def parse_start_def quiet_def waits_def kc_emb_worker_init_def)
qed

subsection \<open>Every step keeps it\<close>

definition weight_of :: "kc_emb_worker \<Rightarrow> parse_pc \<Rightarrow> nat" where
  "weight_of w pc =
     (case pc of P_Wait cs \<Rightarrow> 2 + 8 * length cs | P_In cs \<Rightarrow> 1 + 8 * length cs | P_Call c cs \<Rightarrow> 2 + 8 * length cs + steps_left c w | P_Done \<Rightarrow> 0)"

text \<open>How many steps can remain.\<close>

definition parse_steps_left :: "nat \<Rightarrow> parse_pool \<Rightarrow> nat" where
  "parse_steps_left n s = 2 * (\<Sum>t<n. weight_of (pp_worker s) (pp_pc s t)) + (if w_pc (pp_worker s) = W_Ready then 1 else 0)"

lemma sum_one: "(t :: nat) < n \<Longrightarrow> (\<And>u. u \<noteq> t \<Longrightarrow> f u = g u) \<Longrightarrow> (\<Sum>u<n. f u) + g t = (\<Sum>u<n. g u) + (f t :: nat)"
proof -
  assume t: "t < n" and e: "\<And>u. u \<noteq> t \<Longrightarrow> f u = g u"
  have "(\<Sum>u \<in> {..<n} - {t}. f u) = (\<Sum>u \<in> {..<n} - {t}. g u)" using e by (intro sum.cong) auto
  moreover have "(\<Sum>u<n. h u) = h t + (\<Sum>u \<in> {..<n} - {t}. h u)" for h :: "nat \<Rightarrow> nat" using t by (intro sum.remove) auto
  ultimately show ?thesis by simp
qed

lemma waits_weight: "waits pc \<Longrightarrow> weight_of w pc = weight_of w' pc"
  by (auto simp: waits_def weight_of_def)

text \<open>Only the thread that moves counts.\<close>

lemma fewer_steps:
  assumes "t < n" "\<And>u. u \<noteq> t \<Longrightarrow> pp_pc s' u = pp_pc s u \<and> waits (pp_pc s u)"
    and "2 * weight_of (pp_worker s') (pp_pc s' t) + (if w_pc (pp_worker s') = W_Ready then 1 else 0)
       < 2 * weight_of (pp_worker s) (pp_pc s t) + (if w_pc (pp_worker s) = W_Ready then 1 else 0)"
  shows "parse_steps_left n s' < parse_steps_left n s"
proof -
  have "(\<Sum>u<n. weight_of (pp_worker s') (pp_pc s' u)) + weight_of (pp_worker s) (pp_pc s t) =
      (\<Sum>u<n. weight_of (pp_worker s) (pp_pc s u)) + weight_of (pp_worker s') (pp_pc s' t)"
    using assms(1) by (rule sum_one) (use assms(2) waits_weight in metis)
  with assms(3) show ?thesis unfolding parse_steps_left_def by linarith
qed

lemma lone_steps_idle:
  assumes "lone_call exec (inp c) c w" "emb_step exec inp w w'"
  shows "2 * steps_left c w' + (if w_pc w' = W_Ready then 1 else 0) < 2 * steps_left c w + (if w_pc w = W_Ready then 1 else (0 :: nat))"
  using lone_step [OF assms] by (auto simp: lone_call_def steps_left_def answered_def split: caller_pc.splits if_splits)

lemma steps_left_le: "steps_left c w \<le> 5"
  by (simp add: steps_left_def split: caller_pc.split)

lemma lock_holder:
  assumes "turns exec inp s" "\<not> waits (pp_pc s t)"
  shows "pp_lock s = Some t" "\<And>u. u \<noteq> t \<Longrightarrow> waits (pp_pc s u)" "pp_pc s t = P_In cs \<Longrightarrow> quiet (pp_worker s)"
    "pp_pc s t = P_Call c cs \<Longrightarrow> lone_call exec (inp c) c (pp_worker s)"
proof -
  show l: "pp_lock s = Some t"
  proof (cases "pp_lock s")
    case None
    with assms show ?thesis by (simp add: turns_def)
  next
    case (Some a)
    then have "t = a" using assms by (auto simp: turns_def)
    with Some show ?thesis by simp
  qed
  show "\<And>u. u \<noteq> t \<Longrightarrow> waits (pp_pc s u)" "pp_pc s t = P_In cs \<Longrightarrow> quiet (pp_worker s)"
    "pp_pc s t = P_Call c cs \<Longrightarrow> lone_call exec (inp c) c (pp_worker s)" using assms(1) l by (auto simp: turns_def)
qed

lemma not_waits [simp]: "\<not> waits (P_In cs)" "\<not> waits (P_Call c cs)" "waits (P_Wait cs)" "waits P_Done"
  by (simp_all add: waits_def)

lemma active_lt: "accounted calls n s \<Longrightarrow> pp_pc s t \<noteq> P_Done \<Longrightarrow> t < n"
  by (metis accounted_def not_le)

lemma untouched_same:
  assumes "untouched s" "pp_worker s' = pp_worker s" "\<And>u. pending (pp_pc s' u) = pending (pp_pc s u)" shows "untouched s'"
  using assms unfolding untouched_def by simp

lemma accounted_move:
  assumes a: "accounted calls n s" and t: "t < n" and o: "\<And>u. u \<noteq> t \<Longrightarrow> pp_pc s' u = pp_pc s u"
    and d: "\<And>c r. w_callers (pp_worker s) c = C_Done r \<Longrightarrow> \<exists>r. w_callers (pp_worker s') c = C_Done r"
    and m: "\<And>c. c \<in> set (pending (pp_pc s t)) \<or> current (pp_pc s t) = Some c \<Longrightarrow>
      c \<in> set (pending (pp_pc s' t)) \<or> current (pp_pc s' t) = Some c \<or> (\<exists>r. w_callers (pp_worker s') c = C_Done r)"
  shows "accounted calls n s'"
  unfolding accounted_def
proof (intro conjI allI impI ballI)
  fix u c assume u: "u < n" "c \<in> set (calls u)"
  then have "c \<in> set (pending (pp_pc s u)) \<or> current (pp_pc s u) = Some c \<or> (\<exists>r. w_callers (pp_worker s) c = C_Done r)" using a by (simp add: accounted_def)
  then show "c \<in> set (pending (pp_pc s' u)) \<or> current (pp_pc s' u) = Some c \<or> (\<exists>r. w_callers (pp_worker s') c = C_Done r)"
    using o [of u] m [of c] d [of c] by (cases "u = t") auto
next
  fix u assume u: "n \<le> u"
  then have "u \<noteq> t" using t by simp
  with o [OF this] a u show "pp_pc s' u = P_Done" by (simp add: accounted_def)
qed

lemma take_lock_inv:
  assumes i: "parse_inv exec inp calls n s" and p: "pp_pc s t = P_Wait cs" "pp_lock s = None"
    and s': "s' = s\<lparr>pp_lock := Some t, pp_pc := (pp_pc s)(t := P_In cs)\<rparr>"
  shows "parse_inv exec inp calls n s' \<and> parse_steps_left n s' < parse_steps_left n s"
proof
  have t: "t < n" using i p active_lt [of calls n s t] by (simp add: parse_inv_def)
  have q: "quiet (pp_worker s)" "\<And>u. waits (pp_pc s u)" using i p by (auto simp: parse_inv_def turns_def)
  have "turns exec inp s'" using q by (auto simp: turns_def s')
  moreover have "untouched s'" by (rule untouched_same [of s]) (use i p in \<open>auto simp: parse_inv_def s'\<close>)
  moreover have "accounted calls n s'" by (rule accounted_move [of calls n s t]) (use i p t in \<open>auto simp: parse_inv_def s'\<close>)
  ultimately show "parse_inv exec inp calls n s'" using i by (simp add: parse_inv_def s')
  show "parse_steps_left n s' < parse_steps_left n s" by (rule fewer_steps [OF t]) (use q p in \<open>auto simp: s' weight_of_def\<close>)
qed

lemma start_call_inv:
  assumes i: "parse_inv exec inp calls n s" and p: "pp_pc s t = P_In (c # cs)"
    and s': "s' = s\<lparr>pp_pc := (pp_pc s)(t := P_Call c cs), pp_worker := at c C_Start (pp_worker s)\<rparr>"
  shows "parse_inv exec inp calls n s' \<and> parse_steps_left n s' < parse_steps_left n s"
proof
  have t: "t < n" using i p active_lt [of calls n s t] by (simp add: parse_inv_def)
  have tu: "turns exec inp s" and un: "untouched s" and ra: "right_answers exec inp (pp_worker s)" and ac: "accounted calls n s"
    using i by (simp_all add: parse_inv_def)
  note h = lock_holder [OF tu, of t, unfolded p]
  have q: "quiet (pp_worker s)" using h(3) by simp
  have c: "w_callers (pp_worker s) c = C_Idle" "c \<notin> set cs" "\<And>u. u \<noteq> t \<Longrightarrow> c \<notin> set (pending (pp_pc s u))"
    using un p unfolding untouched_def by (metis list.set_intros(1) pending.simps(2), metis distinct.simps(2) pending.simps(2), metis list.set_intros(1) pending.simps(2))
  have "turns exec inp s'" using h(1,2) quiet_start [OF q] by (auto simp: turns_def s')
  moreover have "untouched s'" unfolding untouched_def
  proof (intro allI conjI ballI impI)
    fix u
    have "distinct (pending (pp_pc s v))" for v using un by (simp add: untouched_def)
    from this [of u] this [of t] have "distinct (pending (pp_pc s u))" "distinct (c # cs)" using p by simp_all
    then show "distinct (pending (pp_pc s' u))" by (auto simp: s')
    fix d assume d: "d \<in> set (pending (pp_pc s' u))"
    then have du: "d \<in> set (pending (pp_pc s u))" "d \<noteq> c" using p c by (auto simp: s' split: if_splits)
    then show "w_callers (pp_worker s') d = C_Idle" using un by (auto simp: s' untouched_def)
    fix v assume v: "v \<noteq> u"
    then have "d \<notin> set (pending (pp_pc s v))" using un du(1) by (simp add: untouched_def)
    then show "d \<notin> set (pending (pp_pc s' v))" using p by (auto simp: s')
  qed
  moreover have "right_answers exec inp (pp_worker s')" using ra by (auto simp: right_answers_def s')
  moreover have "accounted calls n s'" by (rule accounted_move [OF ac t]) (use p c(1) in \<open>auto simp: s'\<close>)
  ultimately show "parse_inv exec inp calls n s'" by (simp add: parse_inv_def)
  show "parse_steps_left n s' < parse_steps_left n s"
    by (rule fewer_steps [OF t]) (use h(2) p steps_left_le [of c "at c C_Start (pp_worker s)"] in \<open>auto simp: s' weight_of_def\<close>)
qed

lemma end_call_inv:
  assumes i: "parse_inv exec inp calls n s" and p: "pp_pc s t = P_Call c cs" "w_callers (pp_worker s) c = C_Done r"
    and s': "s' = s\<lparr>pp_pc := (pp_pc s)(t := P_In cs)\<rparr>"
  shows "parse_inv exec inp calls n s' \<and> parse_steps_left n s' < parse_steps_left n s"
proof
  have t: "t < n" using i p active_lt [of calls n s t] by (simp add: parse_inv_def)
  have tu: "turns exec inp s" using i by (simp add: parse_inv_def)
  note h = lock_holder [OF tu, of t, unfolded p(1)]
  have q: "quiet (pp_worker s)" using lone_quiet [OF h(4) p(2)] by simp
  have "turns exec inp s'" using q h(1,2) by (auto simp: turns_def s')
  moreover have "untouched s'" by (rule untouched_same [of s]) (use i p in \<open>auto simp: parse_inv_def s'\<close>)
  moreover have "accounted calls n s'" by (rule accounted_move [of calls n s t]) (use i p t in \<open>auto simp: parse_inv_def s'\<close>)
  ultimately show "parse_inv exec inp calls n s'" using i by (simp add: parse_inv_def s')
  show "parse_steps_left n s' < parse_steps_left n s"
    by (rule fewer_steps [OF t]) (use h(2) p in \<open>auto simp: s' weight_of_def steps_left_def\<close>)
qed

lemma unlock_inv:
  assumes i: "parse_inv exec inp calls n s" and p: "pp_pc s t = P_In []" "pp_lock s = Some t"
    and s': "s' = s\<lparr>pp_lock := None, pp_pc := (pp_pc s)(t := P_Done)\<rparr>"
  shows "parse_inv exec inp calls n s' \<and> parse_steps_left n s' < parse_steps_left n s"
proof
  have t: "t < n" using i p active_lt [of calls n s t] by (simp add: parse_inv_def)
  have tu: "turns exec inp s" using i by (simp add: parse_inv_def)
  note h = lock_holder [OF tu, of t, unfolded p(1)]
  have "turns exec inp s'" using h(2,3) by (auto simp: turns_def s')
  moreover have "untouched s'" by (rule untouched_same [of s]) (use i p in \<open>auto simp: parse_inv_def s'\<close>)
  moreover have "accounted calls n s'" by (rule accounted_move [of calls n s t]) (use i p t in \<open>auto simp: parse_inv_def s'\<close>)
  ultimately show "parse_inv exec inp calls n s'" using i by (simp add: parse_inv_def s')
  show "parse_steps_left n s' < parse_steps_left n s"
    by (rule fewer_steps [OF t]) (use h(2) p in \<open>auto simp: s' weight_of_def\<close>)
qed

lemma inside_inv:
  assumes i: "parse_inv exec inp calls n s" and st: "emb_step exec inp (pp_worker s) w" and s': "s' = s\<lparr>pp_worker := w\<rparr>"
  shows "parse_inv exec inp calls n s' \<and> parse_steps_left n s' < parse_steps_left n s"
proof (cases "\<exists>t c cs. pp_pc s t = P_Call c cs")
  case True
  then obtain t c cs where p: "pp_pc s t = P_Call c cs" by blast
  have tu: "turns exec inp s" and un: "untouched s" and ra: "right_answers exec inp (pp_worker s)" and ac: "accounted calls n s"
    using i by (simp_all add: parse_inv_def)
  have t: "t < n" using p active_lt [OF ac, of t] by simp
  note h = lock_holder [OF tu, of t, unfolded p]
  have l: "lone_call exec (inp c) c (pp_worker s)" using h(4) by simp
  note ls = lone_step [OF l st] and fr = lone_frame [OF l st]
  have nd: "w_callers (pp_worker s) c \<noteq> C_Done r" for r using ls by (auto simp: steps_left_def)
  have "turns exec inp s'" using h(1,2) ls p by (auto simp: turns_def s')
  moreover have ci: "w_callers (pp_worker s) c \<noteq> C_Idle" using l by (auto simp: lone_call_def)
  have "w_callers w d = C_Idle" if "w_callers (pp_worker s) d = C_Idle" for d using fr [of d] that ci by (cases "d = c") auto
  then have "untouched s'" using un by (auto simp: untouched_def s')
  moreover have "right_answers exec inp (pp_worker s')" unfolding right_answers_def s'
  proof (intro allI impI)
    fix d r assume d: "w_callers (pp_worker (s\<lparr>pp_worker := w\<rparr>)) d = C_Done r"
    show "(r \<longleftrightarrow> exec (inp d) \<noteq> None) \<and> (\<forall>v. exec (inp d) = Some v \<longrightarrow> w_bufs (pp_worker (s\<lparr>pp_worker := w\<rparr>)) d = Some v)"
      using d ls ra fr [of d] by (cases "d = c") (auto simp: lone_call_def answered_def right_answers_def)
  qed
  moreover have "accounted calls n s'"
    by (rule accounted_move [OF ac t]) (use fr nd in \<open>auto simp: s', metis\<close>)
  ultimately have "parse_inv exec inp calls n s'" by (simp add: parse_inv_def)
  moreover have "parse_steps_left n s' < parse_steps_left n s"
    by (rule fewer_steps [OF t]) (use h(2) p lone_steps_idle [OF l st] in \<open>auto simp: s' weight_of_def\<close>)
  ultimately show ?thesis ..
next
  case False
  then have q: "quiet (pp_worker s)" using i unfolding parse_inv_def turns_def by (auto split: option.splits parse_pc.splits)
  note w = quiet_step [OF q st]
  have "quiet w" using q w by (simp add: quiet_def)
  then have "turns exec inp s'" using i False unfolding parse_inv_def turns_def s' by (auto split: option.splits parse_pc.splits)
  moreover have "weight_of w (pp_pc s t) = weight_of (pp_worker s) (pp_pc s t)" for t using False by (auto simp: weight_of_def split: parse_pc.splits)
  then have "parse_steps_left n s' < parse_steps_left n s" using w by (simp add: parse_steps_left_def s')
  ultimately show ?thesis using i w by (simp add: parse_inv_def untouched_def right_answers_def accounted_def s')
qed

lemma parse_step_inv:
  assumes "parse_inv exec inp calls n s" "parse_step exec inp s s'"
  shows "parse_inv exec inp calls n s' \<and> parse_steps_left n s' < parse_steps_left n s"
  using assms(2)
proof cases
  case (take_lock t cs)
  show ?thesis using take_lock(2,3,1) by (rule take_lock_inv [OF assms(1)])
next
  case (start_call t c cs)
  show ?thesis using start_call(2,1) by (rule start_call_inv [OF assms(1)])
next
  case (inside w)
  show ?thesis using inside(2,1) by (rule inside_inv [OF assms(1)])
next
  case (end_call t c cs r)
  show ?thesis using end_call(2,3,1) by (rule end_call_inv [OF assms(1)])
next
  case (unlock t)
  show ?thesis using unlock(2,3,1) by (rule unlock_inv [OF assms(1)])
qed

lemma parse_progress:
  assumes i: "parse_inv exec inp calls n s" and t: "pp_pc s t \<noteq> P_Done" shows "\<exists>s'. parse_step exec inp s s'"
proof (cases "pp_lock s")
  case None
  then obtain cs where "pp_pc s t = P_Wait cs" using i t by (auto simp: parse_inv_def turns_def waits_def)
  then show ?thesis using parse_step.take_lock None by blast
next
  case (Some u)
  have tu: "turns exec inp s" using i by (simp add: parse_inv_def)
  show ?thesis
  proof (cases "pp_pc s u")
    case (P_In cs)
    then show ?thesis using parse_step.unlock [of s u] parse_step.start_call [of s u] Some by (cases cs) blast+
  next
    case (P_Call c cs)
    then have l: "lone_call exec (inp c) c (pp_worker s)" using tu Some by (simp add: turns_def)
    show ?thesis
    proof (cases "\<exists>r. w_callers (pp_worker s) c = C_Done r")
      case True
      then show ?thesis using parse_step.end_call [OF P_Call] by blast
    next
      case False
      then show ?thesis using lone_progress [of exec inp c, OF l] parse_step.inside by blast
    qed
  qed (use tu Some in \<open>auto simp: turns_def\<close>)
qed

lemma parse_run:
  assumes "parse_inv exec inp calls n s" "(parse_step exec inp ^^ k) s s'"
  shows "parse_inv exec inp calls n s' \<and> k + parse_steps_left n s' \<le> parse_steps_left n s"
  using assms(2)
proof (induction k arbitrary: s')
  case (Suc k)
  then obtain m where "(parse_step exec inp ^^ k) s m" "parse_step exec inp m s'" by auto
  with Suc.IH [of m] parse_step_inv [of exec inp calls n m s'] show ?case by auto
qed (use assms(1) in auto)

text \<open>C26. Under the schema's lock every caller of the embedding worker is served: when any number of threads parse on
  one schema, with any calls each, every interleaving ends after a bounded number of steps; no run stops before
  all threads are done; and then every call of every thread has returned the status of the inference on its
  own text, with its vector in its own buffer. (Without the lock this fails for two callers.)\<close>

theorem locked_parses_are_served:
  assumes "distinct (concat (map calls [0..<n]))" "(parse_step exec inp ^^ k) (parse_start n calls) s"
  shows "k \<le> 2 * (\<Sum>t<n. 2 + 8 * length (calls t)) + 1 \<and>
    ((\<nexists>s'. parse_step exec inp s s') \<longrightarrow> (\<forall>t < n. pp_pc s t = P_Done \<and> (\<forall>c \<in> set (calls t).
       w_callers (pp_worker s) c = C_Done (exec (inp c) \<noteq> None) \<and> (\<forall>v. exec (inp c) = Some v \<longrightarrow> w_bufs (pp_worker s) c = Some v))))"
proof -
  from parse_run [OF start_inv [OF assms(1)] assms(2)] have i: "parse_inv exec inp calls n s"
    and k: "k + parse_steps_left n s \<le> parse_steps_left n (parse_start n calls)" by auto
  have "parse_steps_left n (parse_start n calls) = 2 * (\<Sum>t<n. 2 + 8 * length (calls t)) + 1"
    by (simp add: parse_steps_left_def parse_start_def kc_emb_worker_init_def weight_of_def)
  moreover have "pp_pc s t = P_Done \<and> (\<forall>c \<in> set (calls t). w_callers (pp_worker s) c = C_Done (exec (inp c) \<noteq> None) \<and>
      (\<forall>v. exec (inp c) = Some v \<longrightarrow> w_bufs (pp_worker s) c = Some v))" if no: "\<nexists>s'. parse_step exec inp s s'" and tn: "t < n" for t
  proof
    show d: "pp_pc s t = P_Done" using parse_progress [OF i] no by blast
    show "\<forall>c \<in> set (calls t). w_callers (pp_worker s) c = C_Done (exec (inp c) \<noteq> None) \<and> (\<forall>v. exec (inp c) = Some v \<longrightarrow> w_bufs (pp_worker s) c = Some v)"
    proof
      fix c assume c: "c \<in> set (calls t)"
      have "accounted calls n s" using i by (simp add: parse_inv_def)
      then have "c \<in> set (pending (pp_pc s t)) \<or> current (pp_pc s t) = Some c \<or> (\<exists>r. w_callers (pp_worker s) c = C_Done r)"
        using c tn by (simp add: accounted_def)
      then obtain r where "w_callers (pp_worker s) c = C_Done r" using d by auto
      then show "w_callers (pp_worker s) c = C_Done (exec (inp c) \<noteq> None) \<and> (\<forall>v. exec (inp c) = Some v \<longrightarrow> w_bufs (pp_worker s) c = Some v)"
        using i by (auto simp: parse_inv_def right_answers_def)
    qed
  qed
  ultimately show ?thesis using k by auto
qed

lemma locked_parses_are_served_witness:
  "\<exists>s. parse_step (\<lambda>_. Some [1]) (\<lambda>_. ''on'') (parse_start 2 (\<lambda>t. [t])) s \<and> (\<exists>s'. parse_step (\<lambda>_. Some [1]) (\<lambda>_. ''on'') s s')"
proof -
  let ?e = "\<lambda>_ :: string. Some [1 :: u32]" and ?i = "\<lambda>_ :: nat. ''on''" and ?s = "parse_start 2 (\<lambda>t. [t])"
  let ?s1 = "?s\<lparr>pp_lock := Some 0, pp_pc := (pp_pc ?s)(0 := P_In [0])\<rparr>"
  have r: "parse_step ?e ?i ?s ?s1" by (rule parse_step.take_lock) (simp_all add: parse_start_def)
  then have "(parse_step ?e ?i ^^ Suc 0) ?s ?s1" by auto
  moreover have "distinct (concat (map (\<lambda>t. [t]) [0..<2]))" by (simp add: upt_rec)
  moreover have "pp_pc ?s1 0 \<noteq> P_Done" by simp
  ultimately have "\<exists>s'. parse_step ?e ?i ?s1 s'" using locked_parses_are_served [of "\<lambda>t. [t]" 2 "Suc 0" ?e ?i ?s1] by (meson zero_less_numeral)
  with r show ?thesis by blast
qed

end
