(* ===== verification/Spec2Isabelle.thy ===== *)
theory Spec2Isabelle
  imports Build_Total Open_Safety Signals Islands Cli Manifest_Text Emb_Norm Emb_Open Emb_Locked
begin

text \<open>
  \<^bold>\<open>ipa.c: an island parser.\<close> The program compiles a schema (a JSON manifest of nodes with example
  descriptions, emitted key-value pairs and child nodes) into a binary file, and parses free text against
  it: windows of the text are embedded by a neural model, compared with the embedded descriptions, and the
  windows that are near enough become matches.

  \<^bold>\<open>Parts and theories\<close> (sources under \<open>src/\<close>):
    \<^item> \<open>Prelude\<close>: C types, the allocator, cursor loops, bisection, results with errors.
    \<^item> \<open>Ngram\<close>: \<open>lib/libngram.c\<close>, tokens, the closed-span array with its bisection, the descending
      traversal \<open>kc_ngram_execute\<close> with its visitor. The locale \<open>closed_windows\<close> is what the traversal relies
      on of the span array; \<open>span_array\<close> interprets it on the model's array.
    \<^item> \<open>Hnsw_Rank\<close>, \<open>Hnsw\<close>, \<open>Hnsw_Graph\<close>, \<open>Hnsw_Build\<close>, \<open>Hnsw_Search\<close>: \<open>lib/libhnsw.c\<close>, scores and
      heaps, the item array, the layered graph and its edges, the build, the search.
    \<^item> \<open>Floats\<close>, \<open>Json\<close>, \<open>Manifest\<close>, \<open>Clean\<close>: the JSON tokenizer, the manifest parser and its
      validation in \<open>src/libipa.c\<close>, with \<open>strtod\<close> and the stored form of a \<open>float\<close>.
    \<^item> \<open>Json_Print\<close>, \<open>Manifest_Text\<close>: \<open>json_print_string\<close> of \<open>src/ipa.c\<close> and the round trips of strings, nodes and whole
      manifests with their \<open>defaults\<close>.
    \<^item> \<open>Buffers\<close>, \<open>Compiler\<close>, \<open>Image\<close>, \<open>Build_Total\<close>: the growing buffers and \<open>kc_ipa_build\<close>, the layout
      of the file it writes, and that it succeeds.
    \<^item> \<open>Mmap\<close>, \<open>Options\<close>, \<open>Runtime\<close>, \<open>Loader\<close>, \<open>Open_Safety\<close>: the mapping of \<open>lib/libmmap.c\<close>, the
      options, \<open>kc_ipa_open\<close> and \<open>kc_ipa_close\<close>; what a compiled file opens to, and what any file can do.
    \<^item> \<open>Signals\<close>: the handler registry and the process-wide listener, with the histories of library calls that lead to a
      state of the process.
    \<^item> \<open>Scan\<close>, \<open>Parse\<close>, \<open>Islands\<close>: the visitor, the scan of children and \<open>kc_ipa_parse\<close>; its invariant over
      the traversal; its contract in the manifest's terms (\<open>islands_of\<close>: what the matches are, each and together, and which
      windows have none).
    \<^item> \<open>Cli_Print\<close>, \<open>Cli\<close>: \<open>src/ipa.c\<close>, the printed result (scores in \<open>%.4f\<close>, JSON) and the run of \<open>main\<close> from
      arguments, environment and standard input to exit code, output streams and written file.
    \<^item> \<open>Vocab\<close>, \<open>Wordpiece\<close>: of \<open>lib/libemb.c\<close> the vocabulary table and the tokenizer.
    \<^item> \<open>Tensor\<close>, \<open>Tensor_Shape\<close>: of \<open>lib/ggml/src/ggml.c\<close> the memory pool, the constructors of tensors that the
      inference uses with their assertions, and the building of a graph; rules that carry shapes, strides and
      the room in the pool through a composition of constructors.
    \<^item> \<open>Emb_Graph\<close>, \<open>Emb_Ctx\<close>, \<open>Emb_Norm\<close>: \<open>kc_emb_ctx_exec\<close>, the graph of an inference and that it is well typed; the run,
      with the assertions of the row lookups that its token ids and positions must pass, and the normalisation; the length of
      the normalised vector under rounding.
    \<^item> \<open>Emb_Open\<close>: \<open>kc_emb_ctx_open\<close>, \<open>kc_emb_open\<close>, \<open>kc_emb_close\<close> and what they call, over a ledger of what is held.
      The locale \<open>pool_part\<close> is the contract of a part that is opened and closed; \<open>inference\<close>, \<open>worker\<close> and
      \<open>pool\<close> interpret it, each resting on the one before.
    \<^item> \<open>Emb_Pool\<close>, \<open>Emb_Locked\<close>: the protocol between callers and the worker thread as a step relation, and
      threads that parse under the lock of one schema on top of it.

  This theory joins the parts: from the text of a schema to the matches in a text, for any embedding model with a
  dimension (\<open>compiled_schema_parses\<close>), for the model that an opened pool is (\<open>schema_served_by_pool\<close>), and from the
  command line (\<open>tool_builds_and_parses\<close>).

  \<^bold>\<open>How the model is written.\<close> A pointer with a count is a list, with its capacity where the code keeps
  one; a mapped file is the list of its bytes and a pointer into it an offset; every early return and error
  code is a value of a sum or option type, and an access the C language leaves undefined (outside an array or
  the mapping, of a freed handle, of an uninitialised variable) is a value of its own, so that safety is
  provable. The fields of the file format, offsets into it and hashes are machine words of their width, and so is the
  arithmetic of bounds checks; sizes of buffers, capacities and \<open>int\<close> counters are unbounded numbers, so that the wrap-around
  of a size beyond \<open>2\<^sup>6\<^sup>4\<close> or of a counter beyond \<open>2\<^sup>3\<^sup>1\<close> is outside the model. Allocation is a parameter that says which request
  sizes are granted (equal requests are answered equally); rounding of floating-point operations, locks, system calls, the clock and the embedding model are
  parameters too. Loops are recursive functions with their termination proofs; the JSON parser recurses on a
  fuel that its length bounds (\<open>parse_manifest_terminates\<close> shows that it is enough), the graph searches
  on a fuel derived from the number of nodes, and the probing of the vocabulary table on its number of cells.

  Floating point: a stored \<open>float\<close> is decoded from its bits, and thresholds and printed or normalised values are compared with NaN and infinities as C
  does. Inside the index, scores are real numbers with rounding as a parameter, and a component of a vector that is NaN or
  infinite is read as 0; what the program does with such vectors is not covered. The search compares all entries of an index
  of at most 1024 items and walks the graph beyond that, so statements about the best description, and that nothing is
  missed, have that bound as a condition.

  A thread that waits in the protocol of the worker wakes up only when it is signalled; POSIX allows more, against which the
  code tests its conditions in loops.

  The memory pool of 64 MiB and the graph of 2048 nodes hold a model of up to 47 layers (12 + 43 nodes per layer);
  \<open>inference_graph_is_well_typed\<close> shows that this is enough, and the theorems about inference have it as a hypothesis.

  \<^bold>\<open>Not modelled.\<close> The numbers that the kernels of the vendored library \<open>lib/ggml\<close> compute for a graph, and its
  backends (the parameter \<open>emb_backend\<close>; the theories of the parser and of the command line take the whole model
  as the parameter \<open>embedder\<close>, which \<open>pool_embedder\<close> below instantiates); the reading of the bytes of a model file (the parameter \<open>gguf_file\<close>);
  the constructors of that library that the program does not call; Windows branches; messages that the library
  itself writes to \<open>stderr\<close>; the \<open>FILE\<close> handles of \<open>kc_ipa_build\<close>; freeing of memory outside \<open>Emb_Open\<close>.
\<close>

section \<open>From the source text of a schema to the matches in a text\<close>

lemma valid_opts: "kc_ipa_validate_manifest m = None \<Longrightarrow> options_valid (node_opts m)"
  by (auto simp: kc_ipa_validate_manifest_def options_valid_def node_opts_def scan_opts_def kc_ngram_options_default_def split: if_splits)

lemma compiled_parses:
  assumes b: "kc_ipa_build alloc fp (Some em) fin fout = Inr (KC_IPA_OK, Some data)"
    and small: "length data < 2 ^ 32" and em: "embedder_ok em" and fp: "int_conversions fp"
    and f: "file_at (ho_sys ho) path data" and ho: "never_fails (ho_alloc ho)" "locks_ok ho" "ho_emb ho = Some em"
  shows "\<exists>src m q. read_schema alloc fin = Inr src \<and> kc_ipa_parse_manifest alloc fp src 0 = Inr (m, q) \<and>
    (children_named m \<longrightarrow> (\<exists>s os'.
       kc_ipa_open ho addr1 addr2 True (Some \<lparr>schema_path = Some path\<rparr>) os = Inr (KC_IPA_OK, Some s, os') \<and>
       (\<forall>inp. \<exists>ms. kc_ipa_parse ho (Some s) (Some inp) True = Inr (KC_IPA_OK, Some \<lparr>rs_ok = (ms \<noteq> []), rs_matches = ms\<rparr>) \<and>
          islands_of ho em m inp ms))) \<and>
    (\<not> children_named m \<longrightarrow> (\<exists>os'. kc_ipa_open ho addr1 addr2 True (Some \<lparr>schema_path = Some path\<rparr>) os = Inr (KC_IPA_ERROR, None, os')))"
proof -
  from compiled_opens [OF assms, of addr1 addr2 os] obtain src m q where
    m: "read_schema alloc fin = Inr src" "kc_ipa_parse_manifest alloc fp src 0 = Inr (m, q)" "kc_ipa_validate_manifest m = None"
    and o: "children_named m \<longrightarrow> (\<exists>s os'. schema_for ho em m s \<and>
       kc_ipa_open ho addr1 addr2 True (Some \<lparr>schema_path = Some path\<rparr>) os = Inr (KC_IPA_OK, Some s, os'))"
      "\<not> children_named m \<longrightarrow> (\<exists>os'. kc_ipa_open ho addr1 addr2 True (Some \<lparr>schema_path = Some path\<rparr>) os = Inr (KC_IPA_ERROR, None, os'))" by blast
  have "\<forall>inp. \<exists>ms. kc_ipa_parse ho (Some s) (Some inp) True = Inr (KC_IPA_OK, Some \<lparr>rs_ok = (ms \<noteq> []), rs_matches = ms\<rparr>) \<and> islands_of ho em m inp ms"
    if s: "schema_for ho em m s" for s
  proof -
    have "ready ho em m s" using s em ho(2) by (simp add: ready_def locks_ok_def)
    then show ?thesis using parse_islands [OF _ ho(1) valid_opts [OF m(3)]] by blast
  qed
  with m(1,2) o show ?thesis by blast
qed

text \<open>C1. The whole program. Let \<open>kc_ipa_build\<close> have compiled a schema text into a file of less than 4 GiB with a model whose
  vectors have its dimension, on a machine whose conversions to \<open>int\<close> fit; and let the file be served to a machine that
  grants memory and locks, with the same model. Then the text was parsed into a manifest, and:
  when every description of a child stands under a name that is not empty, \<open>kc_ipa_open\<close> on the file succeeds and every
  \<open>kc_ipa_parse\<close> on the handle succeeds, and its matches are the islands of the input. Each match covers a window of the
  tokens of the input, of an admissible size and not inside the window of an earlier match; its name is that of a
  description in the manifest, whose similarity to the span is the score, which is not below the threshold; its emits
  are those of the manifest, and its children are as in C8, none missing (with at most 1024 descriptions of children). With
  at most 1024 descriptions of nodes, the match's description is the most similar one, and every admissible window
  lies inside a match, or cannot be embedded, or has every description at a negative similarity, or has a most similar
  description that scores below the threshold; with more descriptions the search is approximate and only the first part is said.
  When a description of a child has an empty name, \<open>kc_ipa_open\<close> on the file fails.\<close>

theorem compiled_schema_parses:
  assumes "kc_ipa_build alloc fp (Some em) fin fout = Inr (KC_IPA_OK, Some data)"
    and "length data < 2 ^ 32" "embedder_ok em" "int_conversions fp"
    and "file_at (ho_sys ho) path data" "never_fails (ho_alloc ho)" "locks_ok ho" "ho_emb ho = Some em"
  shows "\<exists>src m q. read_schema alloc fin = Inr src \<and> kc_ipa_parse_manifest alloc fp src 0 = Inr (m, q) \<and>
    (children_named m \<longrightarrow> (\<exists>s os'.
       kc_ipa_open ho addr1 addr2 True (Some \<lparr>schema_path = Some path\<rparr>) os = Inr (KC_IPA_OK, Some s, os') \<and>
       (\<forall>inp. \<exists>ms. kc_ipa_parse ho (Some s) (Some inp) True = Inr (KC_IPA_OK, Some \<lparr>rs_ok = (ms \<noteq> []), rs_matches = ms\<rparr>) \<and>
          islands_of ho em m inp ms))) \<and>
    (\<not> children_named m \<longrightarrow> (\<exists>os'. kc_ipa_open ho addr1 addr2 True (Some \<lparr>schema_path = Some path\<rparr>) os = Inr (KC_IPA_ERROR, None, os')))"
  using assms by (rule compiled_parses)

lemma compiled_schema_parses_witness:
  "\<exists>data s os' ms. kc_ipa_build granting sample_fp (Some sample_embedder) sample_input (Some (2 ^ 32)) = Inr (KC_IPA_OK, Some data) \<and>
     kc_ipa_open (parse_host data) 1 2 True (Some \<lparr>schema_path = Some ''a.ipa''\<rparr>) \<lparr>os_fds = {}, os_maps = Map.empty\<rparr> =
       Inr (KC_IPA_OK, Some s, os') \<and>
     kc_ipa_parse (parse_host data) (Some s) (Some ''on'') True = Inr (KC_IPA_OK, Some \<lparr>rs_ok = (ms \<noteq> []), rs_matches = ms\<rparr>) \<and>
     islands_of (parse_host data) sample_embedder sample_manifest ''on'' ms \<and>
     (\<exists>x \<in> set ms. ma_id x = ''n'' \<and> ma_span x = ''on'' \<and> map ma_id (ma_children x) = [''c''])"
proof -
  obtain data where d: "kc_ipa_build granting sample_fp (Some sample_embedder) sample_input (Some (2 ^ 32)) = Inr (KC_IPA_OK, Some data)"
    "length data < 2 ^ 32" using sample_build by blast
  have f: "file_at (ho_sys (parse_host data)) ''a.ipa'' data" using sample_hyps(3) [of data] by simp
  have h: "never_fails (ho_alloc (parse_host data))" "locks_ok (parse_host data)" "ho_emb (parse_host data) = Some sample_embedder" by simp_all
  from compiled_schema_parses [OF d sample_hyps(1,2) f h, of 1 2 "\<lparr>os_fds = {}, os_maps = Map.empty\<rparr>"] sample_hyps(7) sample_read sample_parsed
  obtain s os' where o: "kc_ipa_open (parse_host data) 1 2 True (Some \<lparr>schema_path = Some ''a.ipa''\<rparr>) \<lparr>os_fds = {}, os_maps = Map.empty\<rparr> =
       Inr (KC_IPA_OK, Some s, os')"
    and "\<forall>inp. \<exists>ms. kc_ipa_parse (parse_host data) (Some s) (Some inp) True = Inr (KC_IPA_OK, Some \<lparr>rs_ok = (ms \<noteq> []), rs_matches = ms\<rparr>) \<and>
          islands_of (parse_host data) sample_embedder sample_manifest inp ms" by auto
  then obtain ms where "kc_ipa_parse (parse_host data) (Some s) (Some ''on'') True = Inr (KC_IPA_OK, Some \<lparr>rs_ok = (ms \<noteq> []), rs_matches = ms\<rparr>)"
    "islands_of (parse_host data) sample_embedder sample_manifest ''on'' ms" by blast
  with d(1) o sample_islands show ?thesis by (intro exI conjI)
qed

section \<open>The same with a pool that was opened on a model file\<close>

text \<open>The model that the library asks through an opened pool: the dimension of the handle, and for a text the
  answer of its worker's inference; an inference that does not return has no answer.\<close>

definition pool_embedder :: "fp_env \<Rightarrow> emb_backend \<Rightarrow> kc_emb \<Rightarrow> embedder" where
  "pool_embedder fp bk c =
     \<lparr>em_dim = kc_emb_dim (Some c),
      em_exec = (\<lambda>t. case emb_workers c of [] \<Rightarrow> None | w # _ \<Rightarrow> (case kc_emb_ctx_exec fp bk w t of Inl _ \<Rightarrow> None | Inr r \<Rightarrow> r))\<rparr>"

lemma opened_embedder_ok:
  assumes "free_of p UNIV l" "kc_emb_open env p l = Inr (Some c, l')" shows "embedder_ok (pool_embedder fp bk c)"
proof -
  obtain w where w: "emb_workers c = [w]" "kc_emb_dim (Some c) = ec_n_embd w" "opened w" using pool_worker [OF assms] .
  have d: "0 < ec_n_embd w" "ec_n_embd w < 2 ^ 31" using w(3) by (simp_all add: opened_def dims_ok_def)
  have "int (length v) = ec_n_embd w" if "kc_emb_ctx_exec fp bk w t = Inr (Some v)" for t v using exec_dim [OF that] d(1) by simp
  with w(1,2) d show ?thesis by (auto simp: embedder_ok_def pool_embedder_def split: sum.splits)
qed

text \<open>A backend that serves every graph.\<close>

definition backend_serves :: "emb_backend \<Rightarrow> bool" where
  "backend_serves bk \<longleftrightarrow> backend_ok bk \<and> (\<forall>gf res ts ps ys. bk_alloc bk gf \<and> (0 \<le> ggml_nelements res \<longrightarrow> bk_compute bk gf res ts ps ys \<noteq> None))"

lemma opened_embeds:
  assumes "free_of p UNIV l" "kc_emb_open env p l = Inr (Some c, l')" "model_limits c" "backend_serves bk"
  shows "\<exists>v. em_exec (pool_embedder fp bk c) t = Some v"
proof -
  obtain w where w: "emb_workers c = [w]" "opened w" using pool_worker [OF assms(1,2)] .
  then have s: "shapes_ok w" "ec_n_layer w \<le> 47" "2 \<le> ec_n_ctx w" "vocab_ready w" "tables_cover w"
    using assms(3) by (auto simp: model_limits_def opened_def indexed_def)
  have d: "0 < ec_n_embd w" using w(2) by (simp add: opened_def dims_ok_def)
  have bk: "backend_ok bk" using assms(4) by (simp add: backend_serves_def)
  obtain gf res where "tn_ne res = [ec_n_embd w, 1, 1, 1]"
    "kc_emb_ctx_exec fp bk w t = Inr (if \<not> bk_alloc bk gf then None else
       map_option (normalise fp) (bk_compute bk gf res (text_tokens w t) (map int [0..<length (text_tokens w t)]) (replicate (length (text_tokens w t)) 0)))"
    using exec_returns [OF opened_model_ok [OF w(2) s(1)] s(2,4,3) bk s(5)] .
  then show ?thesis using assms(4) d w(1) by (auto simp: pool_embedder_def backend_serves_def ggml_nelements_def split: option.splits)
qed

text \<open>C3. The program with its own model. Let \<open>kc_emb_open\<close> have opened a pool on a model file within the limits of
  \<open>model_limits\<close> (tensors of the documented shapes, at most 47 layers, a context of at least two tokens, fewer than
  \<open>2\<^sup>3\<^sup>0\<close> vocabulary entries, a row of the embedding tables for every token id and position), and let the backend allocate and compute every graph.
  Then, with memory available, compiling a valid schema text (with an \<open>id\<close> for every node and child, and with conversions to
  \<open>int\<close> that fit) produces the compiled image; and where the image was written (below 4 GiB) and no child has an empty name,
  opening the file and parsing any text succeed on a machine with memory, locks and the same pool, and the matches are the
  islands of the text under the manifest, as in C1. That the model has a dimension and answers every text with a vector of
  that dimension is not assumed but follows from the tokenizer, the inference graph and the normalisation.\<close>

theorem schema_served_by_pool:
  assumes "free_of p UNIV l" "kc_emb_open env p l = Inr (Some c, l')" "model_limits c" "backend_serves bk"
    and "never_fails alloc" "read_schema alloc fin = Inr src" "kc_ipa_parse_manifest alloc fp src 0 = Inr (m, q)"
    and "kc_ipa_validate_manifest m = None" "ids_present m" "children_named m" "int_conversions fp"
  shows "\<exists>data. kc_ipa_build alloc fp (Some (pool_embedder efp bk c)) fin fout = Inr (write_image fout data) \<and>
    (fst (write_image fout data) = KC_IPA_OK \<and> length data < 2 ^ 32 \<longrightarrow>
      (\<forall>ho path os. file_at (ho_sys ho) path data \<and> never_fails (ho_alloc ho) \<and> locks_ok ho \<and> ho_emb ho = Some (pool_embedder efp bk c) \<longrightarrow>
        (\<exists>s os'. kc_ipa_open ho addr1 addr2 True (Some \<lparr>schema_path = Some path\<rparr>) os = Inr (KC_IPA_OK, Some s, os') \<and>
          (\<forall>inp. \<exists>ms. kc_ipa_parse ho (Some s) (Some inp) True = Inr (KC_IPA_OK, Some \<lparr>rs_ok = (ms \<noteq> []), rs_matches = ms\<rparr>) \<and>
             islands_of ho (pool_embedder efp bk c) m inp ms))))"
proof -
  let ?em = "pool_embedder efp bk c"
  have ok: "embedder_ok ?em" by (rule opened_embedder_ok [OF assms(1,2)])
  have "embeds ?em m" using opened_embeds [OF assms(1-4), of efp] by (simp add: embeds_def)
  with build_image_outcome [OF assms(5)] assms(9) obtain data where b: "build_image alloc ?em m = Inr data" by (metis (full_types))
  have k: "kc_ipa_build alloc fp (Some ?em) fin fout = Inr (write_image fout data)"
    using assms(5-8) b ok by (simp add: kc_ipa_build_def embedder_ok_def)
  have "\<exists>s os'. kc_ipa_open ho addr1 addr2 True (Some \<lparr>schema_path = Some path\<rparr>) os = Inr (KC_IPA_OK, Some s, os') \<and>
          (\<forall>inp. \<exists>ms. kc_ipa_parse ho (Some s) (Some inp) True = Inr (KC_IPA_OK, Some \<lparr>rs_ok = (ms \<noteq> []), rs_matches = ms\<rparr>) \<and>
             islands_of ho ?em m inp ms)"
    if w: "fst (write_image fout data) = KC_IPA_OK" "length data < 2 ^ 32"
      and h: "file_at (ho_sys ho) path data" "never_fails (ho_alloc ho)" "locks_ok ho" "ho_emb ho = Some ?em" for ho path os
  proof -
    have "write_image fout data = (KC_IPA_OK, Some data)" using w(1) by (auto simp: write_image_def split: option.splits if_splits)
    with k have "kc_ipa_build alloc fp (Some ?em) fin fout = Inr (KC_IPA_OK, Some data)" by simp
    from compiled_parses [OF this w(2) ok assms(11) h, of addr1 addr2 os] assms(6,7,10) show ?thesis by simp
  qed
  with k show ?thesis by blast
qed

definition pool_host :: "embedder \<Rightarrow> string \<Rightarrow> host" where
  "pool_host em data = (sample_host data)\<lparr>ho_emb := Some em\<rparr>"

lemma schema_served_by_pool_witness:
  "\<exists>c l' data s os' ms. kc_emb_open sample_env 0 {} = Inr (Some c, l') \<and>
     kc_ipa_build granting sample_fp (Some (pool_embedder near_fp sample_backend c)) sample_input (Some (2 ^ 32)) = Inr (KC_IPA_OK, Some data) \<and>
     kc_ipa_open (pool_host (pool_embedder near_fp sample_backend c) data) 1 2 True (Some \<lparr>schema_path = Some ''a.ipa''\<rparr>)
       \<lparr>os_fds = {}, os_maps = Map.empty\<rparr> = Inr (KC_IPA_OK, Some s, os') \<and>
     kc_ipa_parse (pool_host (pool_embedder near_fp sample_backend c) data) (Some s) (Some ''on'') True =
       Inr (KC_IPA_OK, Some \<lparr>rs_ok = (ms \<noteq> []), rs_matches = ms\<rparr>) \<and>
     islands_of (pool_host (pool_embedder near_fp sample_backend c) data) (pool_embedder near_fp sample_backend c) sample_manifest ''on'' ms"
proof -
  obtain c l' where c: "kc_emb_open sample_env 0 {} = Inr (Some c, l')" "model_limits c" "kc_emb_dim (Some c) = 2"
    using sample_pool_opens by blast
  let ?em = "pool_embedder near_fp sample_backend c"
  have f: "free_of 0 UNIV {}" by (simp add: free_of_def)
  have bk: "backend_serves sample_backend" by (auto simp: backend_serves_def backend_ok_def sample_backend_def split: if_splits)
  have i: "ids_present sample_manifest" by (simp add: ids_present_def sample_manifest_def)
  have e: "\<exists>v. em_exec ?em t = Some v \<and> length v \<le> 8" for t
    using opened_embeds [OF f c(1,2) bk, of near_fp t] opened_embedder_ok [OF f c(1), of near_fp sample_backend] c(3)
    by (force simp: embedder_ok_def pool_embedder_def)
  obtain v1 v2 where "em_exec ?em ''turn on'' = Some v1" "length v1 \<le> 8" "em_exec ?em ''light'' = Some v2" "length v2 \<le> 8" using e by meson
  then obtain data where d: "build_image granting ?em sample_manifest = Inr data" "length data < 2 ^ 32" using small_image by blast
  have b: "kc_ipa_build granting sample_fp (Some ?em) sample_input (Some (2 ^ 32)) = Inr (write_image (Some (2 ^ 32)) data)"
    using d sample_parsed sample_read sample_valid c(3) by (simp add: kc_ipa_build_def pool_embedder_def)
  have h: "file_at (ho_sys (pool_host ?em data)) ''a.ipa'' data" "never_fails (ho_alloc (pool_host ?em data))" "locks_ok (pool_host ?em data)"
    "ho_emb (pool_host ?em data) = Some ?em" using sample_hyps(3-5) [of data] by (simp_all add: pool_host_def locks_ok_def)
  have w: "write_image (Some (2 ^ 32)) data = (KC_IPA_OK, Some data)" using d(2) by (simp add: write_image_def)
  have inj: "write_image (Some (2 ^ 32)) data' = (KC_IPA_OK, Some data) \<Longrightarrow> data' = data" for data' by (simp add: write_image_def split: if_splits)
  from schema_served_by_pool [OF f c(1,2) bk _ sample_read sample_parsed sample_valid i sample_hyps(7,2), of near_fp "Some (2 ^ 32)" 1 2]
  obtain data' where "kc_ipa_build granting sample_fp (Some ?em) sample_input (Some (2 ^ 32)) = Inr (write_image (Some (2 ^ 32)) data')"
    and all: "fst (write_image (Some (2 ^ 32)) data') = KC_IPA_OK \<and> length data' < 2 ^ 32 \<longrightarrow>
      (\<forall>ho path os. file_at (ho_sys ho) path data' \<and> never_fails (ho_alloc ho) \<and> locks_ok ho \<and> ho_emb ho = Some ?em \<longrightarrow>
        (\<exists>s os'. kc_ipa_open ho 1 2 True (Some \<lparr>schema_path = Some path\<rparr>) os = Inr (KC_IPA_OK, Some s, os') \<and>
          (\<forall>inp. \<exists>ms. kc_ipa_parse ho (Some s) (Some inp) True = Inr (KC_IPA_OK, Some \<lparr>rs_ok = (ms \<noteq> []), rs_matches = ms\<rparr>) \<and>
             islands_of ho ?em sample_manifest inp ms)))" by auto
  then have "data' = data" using b w inj by simp
  with all w d(2) h have "\<exists>s os'. kc_ipa_open (pool_host ?em data) 1 2 True (Some \<lparr>schema_path = Some ''a.ipa''\<rparr>) \<lparr>os_fds = {}, os_maps = Map.empty\<rparr> = Inr (KC_IPA_OK, Some s, os') \<and>
    (\<forall>inp. \<exists>ms. kc_ipa_parse (pool_host ?em data) (Some s) (Some inp) True = Inr (KC_IPA_OK, Some \<lparr>rs_ok = (ms \<noteq> []), rs_matches = ms\<rparr>) \<and>
       islands_of (pool_host ?em data) ?em sample_manifest inp ms)" by simp
  then obtain s os' ms where "kc_ipa_open (pool_host ?em data) 1 2 True (Some \<lparr>schema_path = Some ''a.ipa''\<rparr>) \<lparr>os_fds = {}, os_maps = Map.empty\<rparr> = Inr (KC_IPA_OK, Some s, os')"
    "kc_ipa_parse (pool_host ?em data) (Some s) (Some ''on'') True = Inr (KC_IPA_OK, Some \<lparr>rs_ok = (ms \<noteq> []), rs_matches = ms\<rparr>)"
    "islands_of (pool_host ?em data) ?em sample_manifest ''on'' ms" by blast
  with c(1) b w show ?thesis by (intro exI conjI) simp_all
qed

section \<open>The same from the command line\<close>

lemma two_args:
  assumes "positional a" "positional b"
  shows "parse_args alloc [a, b] opts None False 0 = Run (opts\<lparr>schema_path := strdup alloc a\<rparr>) (Some b) False"
  using assms unfolding parse_args_spec by (auto simp: build_flag_def positional_def)

lemma build_args:
  assumes "positional a"
  shows "parse_args alloc [a, ''-b''] opts None False 0 = Run (opts\<lparr>schema_path := strdup alloc a\<rparr>) None True"
  using assms unfolding parse_args_spec by (auto simp: build_flag_def positional_def)

lemma main_builds:
  assumes a: "pr_args p = [path, ''-b'']" "positional path" and m: "main p os = Inr oc" "oc_exit oc = 0" "oc_file oc = Some (out, data)"
  shows "out_path (ho_alloc (pr_host p)) path = Some out \<and>
    kc_ipa_build (ho_alloc (pr_host p)) (ho_fp (pr_host p)) (ho_emb (pr_host p)) (pr_fin p path) (pr_fout p out) = Inr (KC_IPA_OK, Some data)"
  using m unfolding main_def Let_def a(1) build_args [OF a(2)]
  by (auto simp: build_run_def strdup_def Let_def split: if_splits option.splits sum.splits)

lemma main_parses:
  assumes a: "pr_args p = [path, t]" "positional path" "positional t" "t \<noteq> []" "never_fails (ho_alloc (pr_host p))"
    and o: "kc_ipa_open (pr_host p) (pr_addr1 p) (pr_addr2 p) True (Some \<lparr>schema_path = Some path\<rparr>) os = Inr (KC_IPA_OK, Some s, os')"
    and k: "kc_ipa_parse (pr_host p) (Some s) (Some t) True = Inr (KC_IPA_OK, Some r)"
  shows "\<exists>oc. main p os = Inr oc \<and> oc_exit oc = 0 \<and> oc_out oc = print_result r"
proof -
  have d: "strdup (ho_alloc (pr_host p)) path = Some path" using a(5) by (simp add: strdup_def)
  have u: "x\<lparr>schema_path := Some path\<rparr> = \<lparr>schema_path = Some path\<rparr>" for x :: kc_ipa_options_t by simp
  show ?thesis
    using a(4) o k unfolding main_def Let_def a(1) two_args [OF a(2,3)] d u by (simp add: input_text_def parse_run_def Let_def split: prod.split)
qed

text \<open>A match whose score and whose children's scores are finite.\<close>

definition finite_scores :: "kc_ipa_match_t \<Rightarrow> bool" where
  "finite_scores x \<longleftrightarrow> (\<forall>y \<in> set (x # ma_children x). \<exists>z. f32_val (ma_score y) = Fin z)"

lemma island_printable:
  assumes n: "island ho em m inp t sw x" and mem: "never_fails (ho_alloc ho)" and fin: "finite_scores x"
  shows "printable_match x"
proof -
  have k: "\<forall>e \<in> set (node_emits m i sp). em_key e \<noteq> None" "\<forall>e \<in> set (child_emits_of m q i sp). em_key e \<noteq> None" for i sp q
    by (auto simp: node_emits_def child_emits_of_def resolved_def)
  have "printable_match c" if c: "c \<in> set (ma_children x)" for c
  proof -
    have "child_of ho em m (snd sw) x c" using n c unfolding island_def refined_def by blast
    then have "ma_children c = []" "ma_emits c = child_emits_of m (ma_id x) (ma_id c) (ma_span c)" using mem unfolding child_of_def by blast+
    moreover have "\<exists>z. f32_val (ma_score c) = Fin z" using fin c by (simp add: finite_scores_def)
    ultimately show ?thesis using k(2) by (cases c) auto
  qed
  moreover have "ma_emits x = node_emits m (ma_id x) (ma_span x)" using n unfolding island_def by blast
  moreover have "\<exists>z. f32_val (ma_score x) = Fin z" using fin by (simp add: finite_scores_def)
  ultimately show ?thesis using k(1) by (cases x) auto
qed

lemma islands_printable:
  assumes "islands_of ho em m inp ms" "never_fails (ho_alloc ho)" "\<forall>x \<in> set ms. finite_scores x"
  shows "\<forall>x \<in> set ms. printable_match x"
proof
  fix x assume x: "x \<in> set ms"
  from assms(1) obtain t ws where "list_all2 (island ho em m inp t) ws ms" unfolding islands_of_def by blast
  with x obtain sw where "island ho em m inp t sw x" by (metis in_set_conv_nth list_all2_nthD2)
  then show "printable_match x" using island_printable assms(2,3) x by blast
qed

text \<open>C2. The tool end to end. Let \<open>ipa path -b\<close> have exited with 0 and written a file of less than 4 GiB, with a model whose vectors have its
  dimension and on a machine whose conversions to \<open>int\<close> fit. Then the file's name is the schema's with
  \<open>.json\<close> replaced by \<open>.ipa\<close>, and the schema text was parsed into a manifest. When no child in it has an empty name, then on a machine that serves that
  file, with the same model, memory and locks, \<open>ipa file text\<close> exits with 0 for every text that is not empty and is not
  an option, and prints the islands of the text under the manifest, as in C1; and when every score in the result is a finite \<open>float\<close>,
  what it prints is one JSON value.\<close>

theorem tool_builds_and_parses:
  assumes "pr_args p1 = [path, ''-b'']" "positional path" "main p1 os1 = Inr oc1" "oc_exit oc1 = 0" "oc_file oc1 = Some (out, data)"
    and "ho_emb (pr_host p1) = Some em" "int_conversions (ho_fp (pr_host p1))" "embedder_ok em" "length data < 2 ^ 32"
    and "pr_args p2 = [out, inp]" "positional out" "positional inp" "inp \<noteq> []" "file_at (ho_sys (pr_host p2)) out data"
    and "never_fails (ho_alloc (pr_host p2))" "locks_ok (pr_host p2)" "ho_emb (pr_host p2) = Some em"
  shows "out = (if 5 < length path \<and> drop (length path - 5) path = ''.json'' then take (length path - 5) path else path) @ ''.ipa'' \<and>
    (\<exists>src m q. read_schema (ho_alloc (pr_host p1)) (pr_fin p1 path) = Inr src \<and>
       kc_ipa_parse_manifest (ho_alloc (pr_host p1)) (ho_fp (pr_host p1)) src 0 = Inr (m, q) \<and>
       (children_named m \<longrightarrow> (\<exists>oc ms. main p2 os2 = Inr oc \<and> oc_exit oc = 0 \<and>
          oc_out oc = print_result \<lparr>rs_ok = (ms \<noteq> []), rs_matches = ms\<rparr> \<and> islands_of (pr_host p2) em m inp ms \<and>
          ((\<forall>x \<in> set ms. finite_scores x) \<longrightarrow>
             kc_ipa_json_skip_value (json_fuel (oc_out oc)) granting fp (oc_out oc) 0 = Inr (length (oc_out oc) - 1)))))"
proof -
  have b: "out_path (ho_alloc (pr_host p1)) path = Some out"
    "kc_ipa_build (ho_alloc (pr_host p1)) (ho_fp (pr_host p1)) (Some em) (pr_fin p1 path) (pr_fout p1 out) = Inr (KC_IPA_OK, Some data)"
    using main_builds [OF assms(1-5)] assms(6) by auto
  from compiled_parses [OF b(2) assms(9,8,7,14-17), of "pr_addr1 p2" "pr_addr2 p2" os2] obtain src m q where
    m: "read_schema (ho_alloc (pr_host p1)) (pr_fin p1 path) = Inr src"
      "kc_ipa_parse_manifest (ho_alloc (pr_host p1)) (ho_fp (pr_host p1)) src 0 = Inr (m, q)" and
    ch: "children_named m \<longrightarrow> (\<exists>s os'.
       kc_ipa_open (pr_host p2) (pr_addr1 p2) (pr_addr2 p2) True (Some \<lparr>schema_path = Some out\<rparr>) os2 = Inr (KC_IPA_OK, Some s, os') \<and>
       (\<forall>inp. \<exists>ms. kc_ipa_parse (pr_host p2) (Some s) (Some inp) True = Inr (KC_IPA_OK, Some \<lparr>rs_ok = (ms \<noteq> []), rs_matches = ms\<rparr>) \<and>
          islands_of (pr_host p2) em m inp ms))" by blast
  have "\<exists>oc ms. main p2 os2 = Inr oc \<and> oc_exit oc = 0 \<and> oc_out oc = print_result \<lparr>rs_ok = (ms \<noteq> []), rs_matches = ms\<rparr> \<and>
      islands_of (pr_host p2) em m inp ms \<and> ((\<forall>x \<in> set ms. finite_scores x) \<longrightarrow>
         kc_ipa_json_skip_value (json_fuel (oc_out oc)) granting fp (oc_out oc) 0 = Inr (length (oc_out oc) - 1))"
    if cn: "children_named m"
  proof -
    from ch cn obtain s os' ms where
      o: "kc_ipa_open (pr_host p2) (pr_addr1 p2) (pr_addr2 p2) True (Some \<lparr>schema_path = Some out\<rparr>) os2 = Inr (KC_IPA_OK, Some s, os')" and
      k: "kc_ipa_parse (pr_host p2) (Some s) (Some inp) True = Inr (KC_IPA_OK, Some \<lparr>rs_ok = (ms \<noteq> []), rs_matches = ms\<rparr>)" and
      f: "islands_of (pr_host p2) em m inp ms" by blast
    obtain oc where oc: "main p2 os2 = Inr oc" "oc_exit oc = 0" "oc_out oc = print_result \<lparr>rs_ok = (ms \<noteq> []), rs_matches = ms\<rparr>"
      using main_parses [OF assms(10-13,15) o k] by blast
    have "kc_ipa_json_skip_value (json_fuel (oc_out oc)) granting fp (oc_out oc) 0 = Inr (length (oc_out oc) - 1)"
      if "\<forall>x \<in> set ms. finite_scores x"
      using result_skipped [of "\<lparr>rs_ok = (ms \<noteq> []), rs_matches = ms\<rparr>" granting fp] islands_printable [OF f assms(15) that] oc(3) by simp
    with oc f show ?thesis by blast
  qed
  with m b(1) show ?thesis by (auto simp: out_path_def Let_def split: if_splits)
qed

lemma tool_builds_and_parses_witness:
  "\<exists>data oc1 oc2 ms. main (sample_process (sample_host []) [''a.json'', ''-b'']) \<lparr>os_fds = {}, os_maps = Map.empty\<rparr> = Inr oc1 \<and>
     oc_file oc1 = Some (''a.ipa'', data) \<and>
     main (sample_process (parse_host data) [''a.ipa'', ''on'']) \<lparr>os_fds = {}, os_maps = Map.empty\<rparr> = Inr oc2 \<and> oc_exit oc2 = 0 \<and>
     oc_out oc2 = print_result \<lparr>rs_ok = (ms \<noteq> []), rs_matches = ms\<rparr> \<and> islands_of (parse_host data) sample_embedder sample_manifest ''on'' ms \<and>
     (\<exists>x \<in> set ms. ma_id x = ''n'' \<and> ma_span x = ''on'' \<and> map ma_id (ma_children x) = [''c''])"
proof -
  let ?os = "\<lparr>os_fds = {}, os_maps = Map.empty\<rparr>" and ?p1 = "sample_process (sample_host []) [''a.json'', ''-b'']"
  obtain data where d: "kc_ipa_build granting sample_fp (Some sample_embedder) sample_input (Some (2 ^ 32)) = Inr (KC_IPA_OK, Some data)"
    "length data < 2 ^ 32" using sample_build by blast
  let ?p2 = "sample_process (parse_host data) [''a.ipa'', ''on'']"
  have h: "ho_alloc (sample_host []) = granting" "ho_fp (sample_host []) = sample_fp" "ho_emb (sample_host []) = Some sample_embedder"
    by (simp_all add: sample_host_def)
  have ps: "positional ''a.json''" "positional ''a.ipa''" "positional ''on''" by (simp_all add: positional_def)
  have "main ?p1 ?os = Inr ((exits 0 [] [] ?os)\<lparr>oc_file := Some (''a.ipa'', data)\<rparr>)"
    unfolding main_def Let_def sample_process_simps build_args [OF ps(1)]
    using d(1) by (simp add: build_run_def strdup_def out_path_def Let_def h)
  then obtain oc1 where oc1: "main ?p1 ?os = Inr oc1" "oc_exit oc1 = 0" "oc_file oc1 = Some (''a.ipa'', data)" by simp
  have f: "file_at (ho_sys (pr_host ?p2)) ''a.ipa'' data" using sample_hyps(3) [of data] by simp
  have a: "pr_args ?p1 = [''a.json'', ''-b'']" "pr_args ?p2 = [''a.ipa'', ''on'']" "(''on'' :: string) \<noteq> []"
    "ho_emb (pr_host ?p1) = Some sample_embedder" "int_conversions (ho_fp (pr_host ?p1))"
    "never_fails (ho_alloc (pr_host ?p2))" "locks_ok (pr_host ?p2)" "ho_emb (pr_host ?p2) = Some sample_embedder"
    using sample_hyps(2) by (simp_all add: h)
  from tool_builds_and_parses [OF a(1) ps(1) oc1 a(4,5) sample_hyps(1) d(2) a(2) ps(2,3) a(3) f a(6-8), of ?os sample_fp]
  obtain src m q where m: "read_schema (ho_alloc (pr_host ?p1)) (pr_fin ?p1 ''a.json'') = Inr src"
      "kc_ipa_parse_manifest (ho_alloc (pr_host ?p1)) (ho_fp (pr_host ?p1)) src 0 = Inr (m, q)" and
    ch: "children_named m \<longrightarrow> (\<exists>oc ms. main ?p2 ?os = Inr oc \<and> oc_exit oc = 0 \<and>
       oc_out oc = print_result \<lparr>rs_ok = (ms \<noteq> []), rs_matches = ms\<rparr> \<and> islands_of (pr_host ?p2) sample_embedder m ''on'' ms)"
    by (elim conjE exE) blast
  have "m = sample_manifest" using m sample_read sample_parsed by (simp add: h)
  with ch sample_hyps(7) obtain oc2 ms where o: "main ?p2 ?os = Inr oc2" "oc_exit oc2 = 0" "oc_out oc2 = print_result \<lparr>rs_ok = (ms \<noteq> []), rs_matches = ms\<rparr>"
    "islands_of (parse_host data) sample_embedder sample_manifest ''on'' ms" unfolding sample_process_simps by blast
  with oc1 sample_islands [OF o(4)] show ?thesis by (intro exI conjI)
qed

end
